(* ===== verification/Prelude.thy ===== *)
theory Prelude
  imports "HOL-Library.AList" "HOL-Library.Word" "HOL-Library.Multiset" "HOL-Library.Char_ord"
    "HOL-Library.List_Lexorder"
begin

text \<open>
  The shared vocabulary of the scopecache development: the fact collections the component
  theories fill, Go's fixed-width integers, Go's maps, the binary search of
  \<^verbatim>\<open>sort.Search\<close>, and the generic lemmas on lists, sums and maps the component proofs use.

  \<^item> A Go \<^verbatim>\<open>int64\<close> is an \<^typ>\<open>int\<close>; \<open>i64\<close> is the reduction to the width, written out wherever the
    code relies on, or guards against, wrap-around.
  \<^item> A Go \<^verbatim>\<open>uint64\<close> counter is a \<^typ>\<open>nat\<close>, incremented by \<open>u64_inc\<close>, which wraps at \<open>2^64\<close>.
  \<^item> A Go map is an association list: \<^const>\<open>map_of\<close> is the lookup, \<^const>\<open>AList.update\<close> the
    assignment, \<^const>\<open>AList.delete\<close> the builtin \<^verbatim>\<open>delete\<close>, \<^const>\<open>length\<close> the builtin \<^verbatim>\<open>len\<close>
    (the keys are distinct, which the component invariants state). A nil map and an empty map
    behave alike for every operation the code performs, and are both \<open>[]\<close>.
\<close>

named_theorems acct_simps \<open>byte and item accounting of single operations\<close>
named_theorems view_simps \<open>what an operation does to the item list of a scope\<close>
named_theorems frame_simps \<open>fields an operation leaves alone\<close>

section \<open>Go integers\<close>

definition MaxInt64 :: int where
  "MaxInt64 = 2 ^ 63 - 1"

definition MinInt64 :: int where
  "MinInt64 = - (2 ^ 63)"

definition i64 :: "int \<Rightarrow> int" where
  "i64 x = (x + 2 ^ 63) mod 2 ^ 64 - 2 ^ 63"

definition u64_inc :: "nat \<Rightarrow> nat" where
  "u64_inc n = (n + 1) mod 2 ^ 64"

text \<open>Go's \<^verbatim>\<open>/\<close> on signed integers truncates towards zero.\<close>

definition go_div :: "int \<Rightarrow> int \<Rightarrow> int" where
  "go_div a b = sgn a * sgn b * (\<bar>a\<bar> div \<bar>b\<bar>)"

lemma i64_id [simp]: "MinInt64 \<le> x \<Longrightarrow> x \<le> MaxInt64 \<Longrightarrow> i64 x = x"
  by (simp add: i64_def MinInt64_def MaxInt64_def)

lemma i64_range: "MinInt64 \<le> i64 x \<and> i64 x \<le> MaxInt64"
  by (simp add: i64_def MinInt64_def MaxInt64_def)

lemma u64_inc_id: "n < 2 ^ 64 - 1 \<Longrightarrow> u64_inc n = Suc n"
  by (simp add: u64_inc_def)

lemma u64_inc_bound: "u64_inc n < 2 ^ 64"
  by (simp add: u64_inc_def)

section \<open>sort.Search\<close>

text \<open>
  The loop of \<^verbatim>\<open>sort.Search(n, f)\<close>: \<^verbatim>\<open>h := int(uint(i+j) >> 1); if !f(h) { i = h + 1 } else { j = h }\<close>
  while \<^verbatim>\<open>i < j\<close>.
\<close>

function search_loop :: "(nat \<Rightarrow> bool) \<Rightarrow> nat \<Rightarrow> nat \<Rightarrow> nat" where
  "search_loop f i j =
     (if i < j then
        (let h = (i + j) div 2
         in if \<not> f h then search_loop f (h + 1) j else search_loop f i h)
      else i)"
  by pat_completeness auto
termination
  by (relation "measure (\<lambda>(f, i, j). j - i)") auto

declare search_loop.simps [simp del]

definition sortSearch :: "nat \<Rightarrow> (nat \<Rightarrow> bool) \<Rightarrow> nat" where
  "sortSearch n f = search_loop f 0 n"

lemma search_loop_split:
  assumes "i \<le> c" and "c \<le> j"
    and "\<And>k. k < j \<Longrightarrow> f k \<longleftrightarrow> c \<le> k"
  shows "search_loop f i j = c"
  using assms
proof (induction f i j rule: search_loop.induct)
  case (1 f i j)
  show ?case
  proof (cases "i < j")
    case True
    let ?h = "(i + j) div 2"
    have h: "i \<le> ?h" "?h < j" using True by auto
    show ?thesis
    proof (cases "f ?h")
      case True
      then have "c \<le> ?h" using "1.prems"(3) h by blast
      then have "search_loop f i ?h = c"
        using "1.IH"(2) [OF \<open>i < j\<close> refl] True "1.prems" h by auto
      then show ?thesis
        using True \<open>i < j\<close> by (simp add: search_loop.simps [of f i j] Let_def)
    next
      case False
      then have "?h < c" using "1.prems"(3) h by auto
      then have "search_loop f (?h + 1) j = c"
        using "1.IH"(1) [OF \<open>i < j\<close> refl False] "1.prems" h by auto
      then show ?thesis
        using False \<open>i < j\<close> by (simp add: search_loop.simps [of f i j] Let_def)
    qed
  next
    case False
    then show ?thesis
      using "1.prems" by (simp add: search_loop.simps [of f i j])
  qed
qed

lemma takeWhile_sorted_iff:
  assumes "sorted_wrt (<) (map g xs)" and "k < length xs" and "\<And>a b. P b \<Longrightarrow> a < b \<Longrightarrow> P (a :: nat)"
  shows "P (g (xs ! k)) \<longleftrightarrow> k < length (takeWhile (\<lambda>x. P (g x)) xs)"
proof
  assume p: "P (g (xs ! k))"
  show "k < length (takeWhile (\<lambda>x. P (g x)) xs)"
  proof (rule ccontr)
    assume "\<not> ?thesis"
    then have le: "length (takeWhile (\<lambda>x. P (g x)) xs) \<le> k" by simp
    let ?m = "length (takeWhile (\<lambda>x. P (g x)) xs)"
    have m: "?m < length xs" using le assms(2) by simp
    then have "\<not> P (g (xs ! ?m))" by (rule nth_length_takeWhile)
    moreover have "P (g (xs ! ?m))"
    proof (cases "?m = k")
      case False
      then have "g (xs ! ?m) < g (xs ! k)"
        using assms(1,2) le by (auto simp: sorted_wrt_iff_nth_less)
      then show ?thesis using assms(3) p by blast
    qed (use p in simp)
    ultimately show False ..
  qed
next
  assume "k < length (takeWhile (\<lambda>x. P (g x)) xs)"
  then show "P (g (xs ! k))"
    by (metis nth_mem set_takeWhileD takeWhile_nth)
qed

lemma sortSearch_takeWhile:
  assumes "sorted_wrt (<) (map g xs)" and "\<And>a b. P b \<Longrightarrow> a < b \<Longrightarrow> P (a :: nat)"
    and "\<And>k. k < length xs \<Longrightarrow> f k \<longleftrightarrow> \<not> P (g (xs ! k))"
  shows "sortSearch (length xs) f = length (takeWhile (\<lambda>x. P (g x)) xs)"
  unfolding sortSearch_def
proof (rule search_loop_split)
  show "0 \<le> length (takeWhile (\<lambda>x. P (g x)) xs)" by simp
  show "length (takeWhile (\<lambda>x. P (g x)) xs) \<le> length xs" by (rule length_takeWhile_le)
  show "f k \<longleftrightarrow> length (takeWhile (\<lambda>x. P (g x)) xs) \<le> k" if k: "k < length xs" for k
  proof -
    have "P (g (xs ! k)) \<longleftrightarrow> k < length (takeWhile (\<lambda>x. P (g x)) xs)"
      by (rule takeWhile_sorted_iff [where P = P, OF assms(1) k]) (rule assms(2))
    then show ?thesis using assms(3) [OF k] by auto
  qed
qed

section \<open>Lists and sums\<close>

definition remove_nth :: "nat \<Rightarrow> 'a list \<Rightarrow> 'a list" where
  "remove_nth i xs = take i xs @ drop (Suc i) xs"

lemma length_remove_nth [simp]: "i < length xs \<Longrightarrow> length (remove_nth i xs) = length xs - 1"
  by (simp add: remove_nth_def)

lemma map_remove_nth [simp]: "map f (remove_nth i xs) = remove_nth i (map f xs)"
  by (simp add: remove_nth_def take_map drop_map)

lemma split_nth: "i < length xs \<Longrightarrow> xs = take i xs @ xs ! i # drop (Suc i) xs"
  by (simp add: id_take_nth_drop)

lemma set_remove_nth_distinct:
  "distinct xs \<Longrightarrow> i < length xs \<Longrightarrow> set (remove_nth i xs) = set xs - {xs ! i}"
proof -
  assume d: "distinct xs" and i: "i < length xs"
  have xs: "xs = take i xs @ xs ! i # drop (Suc i) xs" by (rule split_nth [OF i])
  have "distinct (take i xs @ xs ! i # drop (Suc i) xs)" using d xs by metis
  moreover have "set xs = set (take i xs) \<union> {xs ! i} \<union> set (drop (Suc i) xs)"
    by (subst xs) auto
  ultimately show ?thesis by (auto simp: remove_nth_def)
qed

lemma distinct_remove_nth: "distinct xs \<Longrightarrow> distinct (remove_nth i xs)"
  by (cases "i < length xs")
    (auto simp: remove_nth_def set_take_disj_set_drop_if_distinct)

lemma sorted_wrt_remove_nth:
  assumes "sorted_wrt P xs" shows "sorted_wrt P (remove_nth i xs)"
proof (cases "i < length xs")
  case True
  from assms have "sorted_wrt P (take i xs @ xs ! i # drop (Suc i) xs)"
    by (subst (asm) split_nth [OF True]) simp
  then show ?thesis by (auto simp: remove_nth_def sorted_wrt_append)
next
  case False
  then show ?thesis using assms by (simp add: remove_nth_def)
qed

lemma sum_list_remove_nth:
  "i < length xs \<Longrightarrow> sum_list (remove_nth i xs) = sum_list xs - (xs ! i :: int)"
  by (subst (2) split_nth) (auto simp: remove_nth_def)

lemma sum_list_update_int:
  "i < length xs \<Longrightarrow> sum_list (xs[i := y]) = sum_list xs - xs ! i + (y :: int)"
  by (induction xs arbitrary: i) (auto split: nat.split)

lemma list_update_as_map:
  assumes "i < length xs" and "\<And>x. x \<in> set xs \<Longrightarrow> P x \<longleftrightarrow> f x = f (xs ! i)" and "distinct (map f xs)"
  shows "xs[i := g (xs ! i)] = map (\<lambda>x. if P x then g x else x) xs"
proof (rule nth_equalityI)
  fix j assume j: "j < length (xs[i := g (xs ! i)])"
  then have "P (xs ! j) \<longleftrightarrow> j = i"
    using assms nth_eq_iff_index_eq [of "map f xs" j i] by auto
  then show "xs[i := g (xs ! i)] ! j = map (\<lambda>x. if P x then g x else x) xs ! j"
    using j by (auto simp: nth_list_update)
qed simp

lemma remove_nth_as_filter:
  assumes "i < length xs" and "\<And>x. x \<in> set xs \<Longrightarrow> P x \<longleftrightarrow> f x \<noteq> f (xs ! i)" and "distinct (map f xs)"
  shows "remove_nth i xs = filter P xs"
proof -
  have xs: "xs = take i xs @ xs ! i # drop (Suc i) xs" by (rule split_nth [OF assms(1)])
  have d: "distinct (map f (take i xs @ xs ! i # drop (Suc i) xs))" using assms(3) xs by metis
  have "P x" if "x \<in> set (take i xs) \<union> set (drop (Suc i) xs)" for x
  proof -
    have m: "x \<in> set xs" using that by (auto dest: in_set_takeD in_set_dropD)
    have "f x \<in> f ` set (take i xs) \<union> f ` set (drop (Suc i) xs)" using that by blast
    moreover have "f (xs ! i) \<notin> f ` set (take i xs) \<union> f ` set (drop (Suc i) xs)" using d by simp
    ultimately have "f x \<noteq> f (xs ! i)" by metis
    then show ?thesis using assms(2) m by blast
  qed
  moreover have "\<not> P (xs ! i)" using assms(1,2) by simp
  ultimately have "filter P (take i xs @ xs ! i # drop (Suc i) xs) = remove_nth i xs"
    by (simp add: remove_nth_def filter_id_conv)
  then show ?thesis using xs by metis
qed

lemma sum_list_take_drop: "sum_list (drop n xs) = sum_list xs - sum_list (take n xs :: int list)"
  by (metis add_diff_cancel_left' append_take_drop_id sum_list_append)

lemma sum_list_concat: "sum_list (map f (concat xss)) = sum_list (map (\<lambda>xs. sum_list (map f xs)) xss)"
  by (induction xss) auto

lemma member_le_sum_list_int:
  assumes "\<And>y. y \<in> set xs \<Longrightarrow> 0 \<le> f y" and "x \<in> set xs"
  shows "f x \<le> (\<Sum>y\<leftarrow>xs. f y :: int)"
  using assms
proof (induction xs)
  case (Cons a xs)
  have nn: "0 \<le> (\<Sum>y\<leftarrow>xs. f y)" using Cons.prems(1) by (intro sum_list_nonneg) auto
  show ?case
  proof (cases "x = a")
    case False
    then have "f x \<le> (\<Sum>y\<leftarrow>xs. f y)" using Cons by auto
    then show ?thesis using Cons.prems(1) [of a] by simp
  qed (use nn in simp)
qed simp

section \<open>Association lists\<close>

declare map_of_eq_Some_iff [simp del]

lemma map_of_update_iff [simp]:
  "map_of (AList.update k v al) k' = (if k' = k then Some v else map_of al k')"
  by (simp add: update_conv')

lemma map_of_delete_iff [simp]:
  "map_of (AList.delete k al) k' = (if k' = k then None else map_of al k')"
  by (simp add: delete_conv')

lemma set_AList_delete: "set (AList.delete k al) = {p \<in> set al. fst p \<noteq> k}"
  by (auto simp: AList.delete_eq)

lemma AList_update_fresh: "map_of al k = None \<Longrightarrow> AList.update k v al = al @ [(k, v)]"
  by (induction al) (auto split: if_splits)

text \<open>Dropping a list of keys, one \<^verbatim>\<open>delete(m, k)\<close> at a time.\<close>

definition delete_keys :: "'k list \<Rightarrow> ('k \<times> 'v) list \<Rightarrow> ('k \<times> 'v) list" where
  "delete_keys ks al = fold AList.delete ks al"

lemma map_of_delete_keys:
  "map_of (delete_keys ks al) k = (if k \<in> set ks then None else map_of al k)"
  unfolding delete_keys_def by (induction ks arbitrary: al) auto

lemma distinct_delete_keys:
  "distinct (map fst al) \<Longrightarrow> distinct (map fst (delete_keys ks al))"
  unfolding delete_keys_def by (induction ks arbitrary: al) (auto simp: distinct_delete)

text \<open>Building an index from a list of pairs, one assignment at a time.\<close>

definition index_of :: "('k \<times> 'v) list \<Rightarrow> ('k \<times> 'v) list" where
  "index_of ps = fold (\<lambda>(k, v) al. AList.update k v al) ps []"

lemma map_of_fold_update:
  "map_of (fold (\<lambda>(k, v) al. AList.update k v al) ps al) = map_of al ++ map_of (rev ps)"
  by (induction ps arbitrary: al) (auto simp: fun_eq_iff map_add_def split: option.splits)

lemma distinct_fold_update:
  "distinct (map fst al) \<Longrightarrow>
   distinct (map fst (fold (\<lambda>(k, v) al. AList.update k v al) ps al))"
  by (induction ps arbitrary: al) (auto simp: distinct_update)

lemma index_of_distinct_keys: "distinct (map fst (index_of ps))"
  by (simp add: index_of_def distinct_fold_update)

lemma map_of_rev_distinct: "distinct (map fst ps) \<Longrightarrow> map_of (rev ps) = map_of ps"
proof (rule ext, rule option.expand)
  fix k assume d: "distinct (map fst ps)"
  then have dr: "distinct (map fst (rev ps))" by (simp add: rev_map [symmetric])
  show "(map_of (rev ps) k = None) = (map_of ps k = None)"
    by (simp add: map_of_eq_None_iff)
  assume "map_of (rev ps) k \<noteq> None" and "map_of ps k \<noteq> None"
  then obtain v w where "map_of (rev ps) k = Some v" "map_of ps k = Some w" by auto
  moreover then have "(k, v) \<in> set ps" using dr by (auto dest: map_of_SomeD)
  ultimately show "the (map_of (rev ps) k) = the (map_of ps k)"
    using d by (auto dest: map_of_is_SomeI)
qed

lemma map_of_index_of_distinct:
  "distinct (map fst ps) \<Longrightarrow> map_of (index_of ps) = map_of ps"
  unfolding index_of_def map_of_fold_update
  by (simp add: map_of_rev_distinct)

lemma map_of_index_of_SomeD: "map_of (index_of ps) k = Some v \<Longrightarrow> (k, v) \<in> set ps"
  unfolding index_of_def map_of_fold_update by (auto dest: map_of_SomeD)

section \<open>Lists of maps\<close>

lemma mset_concat_update:
  "i < length xss \<Longrightarrow> mset (concat (xss[i := ys])) + mset (xss ! i) = mset (concat xss) + mset ys"
  by (induction xss arbitrary: i) (auto split: nat.split)

lemma mset_AList_delete:
  assumes "distinct (map fst al)" "map_of al k = Some v"
  shows "mset al = add_mset (k, v) (mset (AList.delete k al))"
  using assms
proof (induction al)
  case (Cons x al)
  show ?case
  proof (cases "fst x = k")
    case True
    then have "k \<notin> fst ` set al" using Cons.prems(1) by auto
    then have "AList.delete k al = al" by (force simp: AList.delete_eq filter_id_conv)
    then show ?thesis using True Cons.prems(2) by (cases x) auto
  next
    case False
    then show ?thesis using Cons by (cases x) auto
  qed
qed simp

lemma sum_list_mset_cong:
  "mset xs = mset ys \<Longrightarrow> sum_list (map f xs) = sum_list (map f ys :: int list)"
  by (metis mset_map sum_mset_sum_list)

lemma sum_list_add_mset:
  assumes "mset xs = add_mset x (mset ys)"
  shows "sum_list (map f xs) = f x + sum_list (map f ys :: int list)"
proof -
  have "mset xs = mset (x # ys)" using assms by simp
  from sum_list_mset_cong [OF this, of f] show ?thesis by simp
qed

lemma sum_list_change:
  assumes "distinct xs" "x \<in> set xs" "\<And>y. y \<in> set xs \<Longrightarrow> y \<noteq> x \<Longrightarrow> g y = f y"
  shows "sum_list (map g xs) = sum_list (map f xs) - f x + (g x :: int)"
  using assms
proof (induction xs)
  case (Cons a xs)
  show ?case
  proof (cases "x = a")
    case True
    then have "map g xs = map f xs" using Cons.prems by (intro map_cong) auto
    then have "sum_list (map g xs) = sum_list (map f xs)" by (rule arg_cong)
    then show ?thesis using True by simp
  next
    case False
    then have "sum_list (map g xs) = sum_list (map f xs) - f x + g x" using Cons by auto
    then show ?thesis using False Cons.prems(3) [of a] by simp
  qed
qed simp

end
