(* ===== verification/GoLib.thy ===== *)
theory GoLib
  imports Prelude
begin

text \<open>
  What the sources use of Go's standard library on strings and byte slices. A Go string and a
  \<^verbatim>\<open>[]byte\<close> are both \<^typ>\<open>string\<close>: a \<^typ>\<open>char\<close> is one byte, so \<^const>\<open>length\<close> is Go's \<^verbatim>\<open>len\<close>.

  \<^item> \<open>utf8_valid\<close>: \<^verbatim>\<open>utf8.Valid\<close> / \<^verbatim>\<open>utf8.ValidString\<close>
  \<^item> \<open>trimSpace\<close>: \<^verbatim>\<open>strings.TrimSpace\<close> / \<^verbatim>\<open>bytes.TrimSpace\<close> (Unicode white space)
  \<^item> \<open>appendUint\<close>, \<open>appendInt\<close>, \<open>parseUint\<close>, \<open>parseInt\<close>: the base-10, 64-bit conversions of
    \<^verbatim>\<open>strconv\<close> (\<^verbatim>\<open>Atoi\<close> is \<open>parseInt\<close>: \<^verbatim>\<open>int\<close> has 64 bits)
  \<^item> \<open>json_valid\<close>: \<^verbatim>\<open>encoding/json.Valid\<close>, the byte-at-a-time scanner with its stack of open
    containers and its nesting limit of 10000
\<close>

abbreviation byte :: "char \<Rightarrow> nat" where
  "byte c \<equiv> of_char c"

section \<open>UTF-8\<close>

definition cont_in :: "nat \<Rightarrow> nat \<Rightarrow> char \<Rightarrow> bool" where
  "cont_in lo hi c \<longleftrightarrow> lo \<le> byte c \<and> byte c \<le> hi"

fun utf8_valid :: "string \<Rightarrow> bool" where
  "utf8_valid [] = True"
| "utf8_valid (c # cs) =
     (let b = byte c in
      if b < 0x80 then utf8_valid cs
      else if 0xC2 \<le> b \<and> b \<le> 0xDF then
        (case cs of c1 # r \<Rightarrow> cont_in 0x80 0xBF c1 \<and> utf8_valid r | _ \<Rightarrow> False)
      else if 0xE0 \<le> b \<and> b \<le> 0xEF then
        (case cs of c1 # c2 # r \<Rightarrow>
           cont_in (if b = 0xE0 then 0xA0 else 0x80) (if b = 0xED then 0x9F else 0xBF) c1
           \<and> cont_in 0x80 0xBF c2 \<and> utf8_valid r
         | _ \<Rightarrow> False)
      else if 0xF0 \<le> b \<and> b \<le> 0xF4 then
        (case cs of c1 # c2 # c3 # r \<Rightarrow>
           cont_in (if b = 0xF0 then 0x90 else 0x80) (if b = 0xF4 then 0x8F else 0xBF) c1
           \<and> cont_in 0x80 0xBF c2 \<and> cont_in 0x80 0xBF c3 \<and> utf8_valid r
         | _ \<Rightarrow> False)
      else False)"

section \<open>White space\<close>

text \<open>The UTF-8 encodings of the runes for which \<^verbatim>\<open>unicode.IsSpace\<close> holds.\<close>

definition space_runes :: "string list" where
  "space_runes =
     map (map char_of)
       ([[0x09], [0x0A], [0x0B], [0x0C], [0x0D], [0x20 :: nat],
         [0xC2, 0x85], [0xC2, 0xA0], [0xE1, 0x9A, 0x80]]
        @ map (\<lambda>b. [0xE2, 0x80, b]) [0x80, 0x81, 0x82, 0x83, 0x84, 0x85, 0x86, 0x87, 0x88, 0x89, 0x8A]
        @ [[0xE2, 0x80, 0xA8], [0xE2, 0x80, 0xA9], [0xE2, 0x80, 0xAF], [0xE2, 0x81, 0x9F],
           [0xE3, 0x80, 0x80]])"

fun is_prefix :: "string \<Rightarrow> string \<Rightarrow> bool" where
  "is_prefix [] s = True"
| "is_prefix (p # ps) [] = False"
| "is_prefix (p # ps) (c # cs) = (p = c \<and> is_prefix ps cs)"

fun strip_with :: "string list \<Rightarrow> nat \<Rightarrow> string \<Rightarrow> string" where
  "strip_with ws 0 s = s"
| "strip_with ws (Suc n) s =
     (case find (\<lambda>w. is_prefix w s) ws of
        None \<Rightarrow> s
      | Some w \<Rightarrow> strip_with ws n (drop (length w) s))"

definition trimSpace :: "string \<Rightarrow> string" where
  "trimSpace s =
     (let l = strip_with space_runes (length s) s
      in rev (strip_with (map rev space_runes) (length l) (rev l)))"

definition json_ws :: "char \<Rightarrow> bool" where
  "json_ws c \<longleftrightarrow> byte c = 0x20 \<or> byte c = 0x09 \<or> byte c = 0x0D \<or> byte c = 0x0A"

section \<open>strconv\<close>

fun appendUint :: "nat \<Rightarrow> string" where
  "appendUint n =
     (if n < 10 then [char_of (48 + n)]
      else appendUint (n div 10) @ [char_of (48 + n mod 10)])"

declare appendUint.simps [simp del]

definition appendInt :: "int \<Rightarrow> string" where
  "appendInt v = (if v < 0 then CHR ''-'' # appendUint (nat (- v)) else appendUint (nat v))"

definition is_digit :: "char \<Rightarrow> bool" where
  "is_digit c \<longleftrightarrow> 48 \<le> byte c \<and> byte c \<le> 57"

fun digits_val :: "nat \<Rightarrow> string \<Rightarrow> nat" where
  "digits_val acc [] = acc"
| "digits_val acc (c # cs) = digits_val (acc * 10 + (byte c - 48)) cs"

text \<open>\<^const>\<open>None\<close> is either of \<^verbatim>\<open>ErrSyntax\<close> and \<^verbatim>\<open>ErrRange\<close>: no caller distinguishes them.\<close>

definition parseUint :: "string \<Rightarrow> nat option" where
  "parseUint s =
     (if s \<noteq> [] \<and> (\<forall>c \<in> set s. is_digit c) \<and> digits_val 0 s < 2 ^ 64
      then Some (digits_val 0 s) else None)"

definition parseInt :: "string \<Rightarrow> int option" where
  "parseInt s =
     (let neg = (case s of c # _ \<Rightarrow> c = CHR ''-'' | [] \<Rightarrow> False);
          body = (case s of c # cs \<Rightarrow> if c = CHR ''-'' \<or> c = CHR ''+'' then cs else s | [] \<Rightarrow> s)
      in case parseUint body of
           None \<Rightarrow> None
         | Some un \<Rightarrow>
             if \<not> neg \<and> un \<ge> 2 ^ 63 then None
             else if neg \<and> un > 2 ^ 63 then None
             else Some (if neg then - int un else int un))"

section \<open>encoding/json.Valid\<close>

datatype jstate =
    BeginValue | BeginValueOrEmpty | BeginStringOrEmpty | BeginString
  | EndValue | EndTop
  | InString | InStringEsc | InStringEscU nat
  | NumNeg | Num1 | Num0 | NumDot | NumDot0 | NumE | NumESign | NumE0
  | Lit string

datatype pstate = ParseObjectKey | ParseObjectValue | ParseArrayValue

definition maxNestingDepth :: nat where
  "maxNestingDepth = 10000"

definition is_hex :: "char \<Rightarrow> bool" where
  "is_hex c \<longleftrightarrow> is_digit c \<or> (97 \<le> byte c \<and> byte c \<le> 102) \<or> (65 \<le> byte c \<and> byte c \<le> 70)"

definition push_state :: "jstate \<Rightarrow> pstate \<Rightarrow> pstate list \<Rightarrow> (jstate \<times> pstate list) option" where
  "push_state st p ps = (if length (p # ps) \<le> maxNestingDepth then Some (st, p # ps) else None)"

definition pop_state :: "pstate list \<Rightarrow> jstate \<times> pstate list" where
  "pop_state ps = (if tl ps = [] then (EndTop, []) else (EndValue, tl ps))"

definition step_EndValue :: "pstate list \<Rightarrow> char \<Rightarrow> (jstate \<times> pstate list) option" where
  "step_EndValue ps c =
     (case ps of
        [] \<Rightarrow> if json_ws c then Some (EndTop, []) else None
      | p # rest \<Rightarrow>
          if json_ws c then Some (EndValue, ps)
          else (case p of
             ParseObjectKey \<Rightarrow> if c = CHR '':'' then Some (BeginValue, ParseObjectValue # rest) else None
           | ParseObjectValue \<Rightarrow>
               if c = CHR '','' then Some (BeginString, ParseObjectKey # rest)
               else if c = CHR ''}'' then Some (pop_state ps) else None
           | ParseArrayValue \<Rightarrow>
               if c = CHR '','' then Some (BeginValue, ps)
               else if c = CHR '']'' then Some (pop_state ps) else None))"

definition step_BeginString :: "pstate list \<Rightarrow> char \<Rightarrow> (jstate \<times> pstate list) option" where
  "step_BeginString ps c =
     (if json_ws c then Some (BeginString, ps)
      else if c = CHR 0x22 then Some (InString, ps) else None)"

definition step_BeginValue :: "pstate list \<Rightarrow> char \<Rightarrow> (jstate \<times> pstate list) option" where
  "step_BeginValue ps c =
     (if json_ws c then Some (BeginValue, ps)
      else if c = CHR ''{'' then push_state BeginStringOrEmpty ParseObjectKey ps
      else if c = CHR ''['' then push_state BeginValueOrEmpty ParseArrayValue ps
      else if c = CHR 0x22 then Some (InString, ps)
      else if c = CHR ''-'' then Some (NumNeg, ps)
      else if c = CHR ''0'' then Some (Num0, ps)
      else if c = CHR ''t'' then Some (Lit ''rue'', ps)
      else if c = CHR ''f'' then Some (Lit ''alse'', ps)
      else if c = CHR ''n'' then Some (Lit ''ull'', ps)
      else if is_digit c then Some (Num1, ps)
      else None)"

definition step_Num0 :: "pstate list \<Rightarrow> char \<Rightarrow> (jstate \<times> pstate list) option" where
  "step_Num0 ps c =
     (if c = CHR ''.'' then Some (NumDot, ps)
      else if c = CHR ''e'' \<or> c = CHR ''E'' then Some (NumE, ps)
      else step_EndValue ps c)"

definition step_ESign :: "pstate list \<Rightarrow> char \<Rightarrow> (jstate \<times> pstate list) option" where
  "step_ESign ps c = (if is_digit c then Some (NumE0, ps) else None)"

fun scan_step :: "jstate \<Rightarrow> pstate list \<Rightarrow> char \<Rightarrow> (jstate \<times> pstate list) option" where
  "scan_step BeginValue ps c = step_BeginValue ps c"
| "scan_step BeginValueOrEmpty ps c =
     (if json_ws c then Some (BeginValueOrEmpty, ps)
      else if c = CHR '']'' then step_EndValue ps c
      else step_BeginValue ps c)"
| "scan_step BeginStringOrEmpty ps c =
     (if json_ws c then Some (BeginStringOrEmpty, ps)
      else if c = CHR ''}'' then step_EndValue (ParseObjectValue # tl ps) c
      else step_BeginString ps c)"
| "scan_step BeginString ps c = step_BeginString ps c"
| "scan_step EndValue ps c = step_EndValue ps c"
| "scan_step EndTop ps c = (if json_ws c then Some (EndTop, ps) else None)"
| "scan_step InString ps c =
     (if c = CHR 0x22 then Some (EndValue, ps)
      else if c = CHR 0x5C then Some (InStringEsc, ps)
      else if byte c < 0x20 then None
      else Some (InString, ps))"
| "scan_step InStringEsc ps c =
     (if c \<in> set ''bfnrt/'' \<or> c = CHR 0x5C \<or> c = CHR 0x22 then Some (InString, ps)
      else if c = CHR ''u'' then Some (InStringEscU 3, ps)
      else None)"
| "scan_step (InStringEscU k) ps c =
     (if is_hex c then Some (if k = 0 then InString else InStringEscU (k - 1), ps) else None)"
| "scan_step NumNeg ps c =
     (if c = CHR ''0'' then Some (Num0, ps) else if is_digit c then Some (Num1, ps) else None)"
| "scan_step Num1 ps c = (if is_digit c then Some (Num1, ps) else step_Num0 ps c)"
| "scan_step Num0 ps c = step_Num0 ps c"
| "scan_step NumDot ps c = (if is_digit c then Some (NumDot0, ps) else None)"
| "scan_step NumDot0 ps c =
     (if is_digit c then Some (NumDot0, ps)
      else if c = CHR ''e'' \<or> c = CHR ''E'' then Some (NumE, ps)
      else step_EndValue ps c)"
| "scan_step NumE ps c =
     (if c = CHR ''+'' \<or> c = CHR ''-'' then Some (NumESign, ps) else step_ESign ps c)"
| "scan_step NumESign ps c = step_ESign ps c"
| "scan_step NumE0 ps c = (if is_digit c then Some (NumE0, ps) else step_EndValue ps c)"
| "scan_step (Lit r) ps c =
     (case r of
        [] \<Rightarrow> None
      | x # xs \<Rightarrow> if c = x then Some (if xs = [] then EndValue else Lit xs, ps) else None)"

fun scan_all :: "jstate \<Rightarrow> pstate list \<Rightarrow> string \<Rightarrow> (jstate \<times> pstate list) option" where
  "scan_all st ps [] = Some (st, ps)"
| "scan_all st ps (c # cs) =
     (case scan_step st ps c of None \<Rightarrow> None | Some (st', ps') \<Rightarrow> scan_all st' ps' cs)"

text \<open>End of input: the scanner feeds itself one blank and must then be at the top level.\<close>

definition json_valid :: "string \<Rightarrow> bool" where
  "json_valid s =
     (case scan_all BeginValue [] s of
        None \<Rightarrow> False
      | Some (st, ps) \<Rightarrow>
          st = EndTop \<or> (case scan_step st ps (CHR '' '') of Some (EndTop, _) \<Rightarrow> True | _ \<Rightarrow> False))"

section \<open>Facts about the conversions\<close>

lemma byte_char_of [simp]: "n < 256 \<Longrightarrow> byte (char_of n) = n"
  by simp

lemma digits_val_append: "digits_val a (xs @ ys) = digits_val (digits_val a xs) ys"
  by (induction xs arbitrary: a) auto

lemma appendUint_nonempty [simp]: "appendUint n \<noteq> []"
  by (subst appendUint.simps) simp

lemma appendUint_digits: "c \<in> set (appendUint n) \<Longrightarrow> is_digit c"
proof (induction n rule: appendUint.induct)
  case (1 n)
  show ?case
  proof (cases "n < 10")
    case True
    then show ?thesis using "1.prems" by (subst (asm) appendUint.simps) (auto simp: is_digit_def)
  next
    case False
    have "n mod 10 < 10" by simp
    then have "is_digit (char_of (48 + n mod 10))" by (auto simp: is_digit_def)
    then show ?thesis
      using "1.IH" [OF False] "1.prems" False by (subst (asm) appendUint.simps) auto
  qed
qed

lemma digits_val_appendUint: "digits_val 0 (appendUint n) = n"
proof (induction n rule: appendUint.induct)
  case (1 n)
  have m: "n mod 10 < 10" by simp
  show ?case
    by (subst appendUint.simps) (use "1.IH" m in \<open>auto simp: digits_val_append\<close>)
qed

lemma parseUint_appendUint: "n < 2 ^ 64 \<Longrightarrow> parseUint (appendUint n) = Some n"
  by (auto simp: parseUint_def digits_val_appendUint dest: appendUint_digits)

lemma appendUint_head_digit: "appendUint n = c # cs \<Longrightarrow> is_digit c"
  by (rule appendUint_digits [of c n]) simp

lemma parseInt_appendInt:
  assumes "MinInt64 \<le> v" and "v \<le> MaxInt64"
  shows "parseInt (appendInt v) = Some v"
proof (cases "v < 0")
  case True
  then have "nat (- v) < 2 ^ 64" "nat (- v) \<le> 2 ^ 63"
    using assms by (auto simp: MinInt64_def)
  then show ?thesis
    using True by (simp add: parseInt_def appendInt_def parseUint_appendUint)
next
  case False
  obtain c cs where s: "appendUint (nat v) = c # cs" by (cases "appendUint (nat v)") auto
  then have "is_digit c" by (rule appendUint_head_digit)
  then have c: "c \<noteq> CHR ''-''" "c \<noteq> CHR ''+''" by (auto simp: is_digit_def)
  have b: "nat v < 2 ^ 63" using assms by (auto simp: MaxInt64_def)
  then have "parseUint (c # cs) = Some (nat v)"
    using parseUint_appendUint [of "nat v"] s by simp
  then show ?thesis
    using False b c s by (simp add: parseInt_def appendInt_def)
qed

lemma appendUint_length: "n < 10 ^ Suc k \<Longrightarrow> length (appendUint n) \<le> Suc k"
proof (induction k arbitrary: n)
  case 0
  then show ?case by (subst appendUint.simps) simp
next
  case (Suc k)
  show ?case
  proof (cases "n < 10")
    case True
    then show ?thesis by (subst appendUint.simps) simp
  next
    case False
    have "n div 10 < 10 ^ Suc k" using Suc.prems by (simp add: less_mult_imp_div_less)
    then have "length (appendUint (n div 10)) \<le> Suc k" by (rule Suc.IH)
    then show ?thesis using False by (subst appendUint.simps) simp
  qed
qed

lemma utf8_valid_ascii: "(\<And>c. c \<in> set s \<Longrightarrow> byte c < 0x80) \<Longrightarrow> utf8_valid s"
  by (induction s) (auto simp: Let_def)

section \<open>Numbers are valid JSON\<close>

lemma json_ws_not_digit [simp]: "is_digit c \<Longrightarrow> \<not> json_ws c"
  by (auto simp: is_digit_def json_ws_def)

lemma scan_all_append:
  "scan_all st ps (xs @ ys) =
     (case scan_all st ps xs of None \<Rightarrow> None | Some (st', ps') \<Rightarrow> scan_all st' ps' ys)"
  by (induction xs arbitrary: st ps) (auto split: option.splits)

lemma scan_all_Num1: "(\<And>c. c \<in> set s \<Longrightarrow> is_digit c) \<Longrightarrow> scan_all Num1 [] s = Some (Num1, [])"
  by (induction s) auto

end
