(* ===== verification/Uuid.thy ===== *)
theory Uuid
  imports GoLib
begin

unbundle bit_operations_syntax

text \<open>
  The UUIDv7 identity of an item (\<^verbatim>\<open>uuid.go\<close>): minting, the canonical 36-character form, and the
  strict parser. A \<^verbatim>\<open>UUID\<close> is the list of its 16 bytes. \<open>newUUIDv7\<close> takes the clock reading and
  the two random draws as arguments, so that a mint is a pure function of them.
\<close>

type_synonym UUID = "8 word list"

definition zeroUUID :: UUID where
  "zeroUUID = replicate 16 0"

definition uuidStringLen :: nat where
  "uuidStringLen = 36"

definition newUUIDv7 :: "64 word \<Rightarrow> 64 word \<Rightarrow> 64 word \<Rightarrow> UUID" where
  "newUUIDv7 ms randA randB =
     [ucast (drop_bit 40 ms), ucast (drop_bit 32 ms), ucast (drop_bit 24 ms),
      ucast (drop_bit 16 ms), ucast (drop_bit 8 ms), ucast ms,
      0x70 OR ucast (drop_bit 8 randA AND 0x0F), ucast randA,
      0x80 OR ucast (drop_bit 56 randB AND 0x3F), ucast (drop_bit 48 randB),
      ucast (drop_bit 40 randB), ucast (drop_bit 32 randB), ucast (drop_bit 24 randB),
      ucast (drop_bit 16 randB), ucast (drop_bit 8 randB), ucast randB]"

definition IsZero :: "UUID \<Rightarrow> bool" where
  "IsZero u \<longleftrightarrow> u = zeroUUID"

definition isValidV7 :: "UUID \<Rightarrow> bool" where
  "isValidV7 u \<longleftrightarrow> drop_bit 4 (u ! 6) = 0x7 \<and> drop_bit 6 (u ! 8) = 0b10"

definition hexDigits :: string where
  "hexDigits = ''0123456789abcdef''"

definition hexPair :: "8 word \<Rightarrow> string" where
  "hexPair b = [hexDigits ! unat (drop_bit 4 b), hexDigits ! unat (b AND 0x0F)]"

fun hex_loop :: "nat \<Rightarrow> UUID \<Rightarrow> string" where
  "hex_loop i [] = []"
| "hex_loop i (b # bs) =
     (if i = 4 \<or> i = 6 \<or> i = 8 \<or> i = 10 then [CHR ''-''] else []) @ hexPair b @ hex_loop (Suc i) bs"

definition appendUUIDHex :: "string \<Rightarrow> UUID \<Rightarrow> string" where
  "appendUUIDHex dst u = dst @ hex_loop 0 u"

definition formatUUID :: "UUID \<Rightarrow> string" where
  "formatUUID u = appendUUIDHex [] u"

definition appendUUIDJSON :: "string \<Rightarrow> UUID \<Rightarrow> string" where
  "appendUUIDJSON dst u =
     (if IsZero u then dst @ [CHR 0x22, CHR 0x22]
      else appendUUIDHex (dst @ [CHR 0x22]) u @ [CHR 0x22])"

definition wireUUID :: "UUID \<Rightarrow> string" where
  "wireUUID u = (if IsZero u then [] else formatUUID u)"

definition hexVal :: "char \<Rightarrow> 8 word option" where
  "hexVal c =
     (if 0x30 \<le> byte c \<and> byte c \<le> 0x39 then Some (of_nat (byte c) - 0x30)
      else if 0x61 \<le> byte c \<and> byte c \<le> 0x66 then Some (of_nat (byte c) - 0x61 + 10)
      else None)"

text \<open>The loop of \<^verbatim>\<open>parseUUIDv7\<close>: \<open>k\<close> bytes still to read, the cursor \<^verbatim>\<open>src\<close> at \<open>src\<close>.\<close>

fun parse_loop :: "string \<Rightarrow> nat \<Rightarrow> nat \<Rightarrow> UUID option" where
  "parse_loop s 0 src = Some []"
| "parse_loop s (Suc k) src =
     (let src = (if src = 8 \<or> src = 13 \<or> src = 18 \<or> src = 23 then src + 1 else src)
      in case (hexVal (s ! src), hexVal (s ! (src + 1))) of
           (Some hi, Some lo) \<Rightarrow> map_option ((#) (push_bit 4 hi OR lo)) (parse_loop s k (src + 2))
         | _ \<Rightarrow> None)"

definition parseUUIDv7 :: "string \<Rightarrow> UUID option" where
  "parseUUIDv7 s =
     (if length s \<noteq> 36 then None
      else if s ! 8 \<noteq> CHR ''-'' \<or> s ! 13 \<noteq> CHR ''-'' \<or> s ! 18 \<noteq> CHR ''-'' \<or> s ! 23 \<noteq> CHR ''-'' then None
      else case parse_loop s 16 0 of
             None \<Rightarrow> None
           | Some b \<Rightarrow>
               if drop_bit 4 (b ! 6) \<noteq> 0x7 then None
               else if drop_bit 6 (b ! 8) \<noteq> 0b10 then None
               else Some b)"

definition isValidUUIDv7 :: "string \<Rightarrow> bool" where
  "isValidUUIDv7 s \<longleftrightarrow> parseUUIDv7 s \<noteq> None"

text \<open>\<^verbatim>\<open>UUID.UnmarshalJSON\<close>: the raw token in, \<^const>\<open>None\<close> for \<^verbatim>\<open>errInvalidUUIDv7\<close>.\<close>

definition UUID_UnmarshalJSON :: "UUID \<Rightarrow> string \<Rightarrow> UUID option" where
  "UUID_UnmarshalJSON u data =
     (if data = ''null'' then Some u
      else if length data < 2 \<or> data ! 0 \<noteq> CHR 0x22 \<or> last data \<noteq> CHR 0x22 then None
      else let s = butlast (tl data)
           in if s = [] then Some u else parseUUIDv7 s)"

section \<open>Hexadecimal digits\<close>

lemma nibble_cases:
  fixes P :: "nat \<Rightarrow> bool"
  assumes "n < 16" and "P 0" "P 1" "P 2" "P 3" "P 4" "P 5" "P 6" "P 7" "P 8" "P 9" "P 10" "P 11"
    "P 12" "P 13" "P 14" "P 15"
  shows "P n"
proof -
  from assms(1) have "n \<in> set [0 ..< 16]" by simp
  also have "[0 ..< 16] = [0, 1, 2, 3, 4, 5, 6, 7, 8, 9, 10, 11, 12, 13, 14, 15 :: nat]"
    by (simp add: upt_rec)
  finally show ?thesis using assms(2-) by auto
qed

lemma hexVal_hexDigits: "n < 16 \<Longrightarrow> hexVal (hexDigits ! n) = Some (of_nat n)"
  by (erule nibble_cases) (simp_all add: hexVal_def hexDigits_def)

lemma high_nibble_less: "unat (drop_bit 4 (b :: 8 word)) < 16"
proof -
  have "unat b < 2 ^ LENGTH(8)" by (rule unsigned_less)
  then have "unat b < 256" by simp
  moreover have "unat (drop_bit 4 b) = unat b div 16"
    by (simp only: unat_drop_bit_eq) (simp add: drop_bit_eq_div)
  ultimately show ?thesis by simp
qed

lemma low_nibble_less: "unat (b AND 0x0F :: 8 word) < 16"
proof -
  have "b AND 0x0F \<le> (0x0F :: 8 word)" by (rule word_and_le1)
  then show ?thesis by (simp add: word_le_nat_alt)
qed

lemma byte_of_nibbles: "push_bit 4 (drop_bit 4 b) OR (b AND 0x0F) = (b :: 8 word)"
proof -
  have "push_bit 4 (drop_bit 4 b) OR (b AND mask 4) = b"
    by (intro bit_word_eqI) (auto simp: bit_simps)
  then show ?thesis by (simp add: mask_eq_exp_minus_1)
qed

lemma hexVal_hexPair [simp]:
  "hexVal (hexDigits ! unat (drop_bit 4 b)) = Some (drop_bit 4 (b :: 8 word))"
  "hexVal (hexDigits ! unat (b AND 0x0F)) = Some (b AND 0x0F)"
  by (simp_all add: hexVal_hexDigits high_nibble_less low_nibble_less)

lemma length16: "length u = 16 \<longleftrightarrow>
  (\<exists>a b c d e f g h i j k l m n p q. u = [a, b, c, d, e, f, g, h, i, j, k, l, m, n, p, q])"
  by (auto simp: numeral_eq_Suc length_Suc_conv)

lemma length_formatUUID: "length u = 16 \<Longrightarrow> length (formatUUID u) = 36"
  by (auto simp: length16 formatUUID_def appendUUIDHex_def hexPair_def)

lemma parse_loop_numeral:
  "parse_loop s (numeral k) src =
     (let src = (if src = 8 \<or> src = 13 \<or> src = 18 \<or> src = 23 then src + 1 else src)
      in case (hexVal (s ! src), hexVal (s ! (src + 1))) of
           (Some hi, Some lo) \<Rightarrow>
             map_option ((#) (push_bit 4 hi OR lo)) (parse_loop s (pred_numeral k) (src + 2))
         | _ \<Rightarrow> None)"
  by (simp only: numeral_eq_Suc parse_loop.simps)

lemma parse_loop_format:
  assumes "length u = 16" shows "parse_loop (formatUUID u) 16 0 = Some u"
proof -
  obtain a b c d e f g h i j k l m n p q
    where u: "u = [a, b, c, d, e, f, g, h, i, j, k, l, m, n, p, q]"
    using assms by (auto simp: length16)
  show ?thesis
    by (simp add: u formatUUID_def appendUUIDHex_def hexPair_def parse_loop_numeral byte_of_nibbles)
qed

lemma formatUUID_hyphens:
  assumes "length u = 16"
  shows "formatUUID u ! 8 = CHR ''-'' \<and> formatUUID u ! 13 = CHR ''-'' \<and>
    formatUUID u ! 18 = CHR ''-'' \<and> formatUUID u ! 23 = CHR ''-''"
proof -
  obtain a b c d e f g h i j k l m n p q
    where u: "u = [a, b, c, d, e, f, g, h, i, j, k, l, m, n, p, q]"
    using assms by (auto simp: length16)
  show ?thesis by (simp add: u formatUUID_def appendUUIDHex_def hexPair_def)
qed

lemma parse_format: "length u = 16 \<Longrightarrow> isValidV7 u \<Longrightarrow> parseUUIDv7 (formatUUID u) = Some u"
  by (simp add: parseUUIDv7_def length_formatUUID formatUUID_hyphens parse_loop_format isValidV7_def)

lemma hexDigits_char:
  "n < 16 \<Longrightarrow> hexDigits ! n = char_of (if n < 10 then 48 + n else 87 + n)"
  by (erule nibble_cases) (simp_all add: hexDigits_def char_of_def bit_0)

lemma unat_of_nat_byte: "n < 256 \<Longrightarrow> unat (of_nat n :: 8 word) = n"
  by (simp add: unat_of_nat)

lemma hexVal_SomeD:
  assumes "hexVal c = Some v" shows "unat v < 16 \<and> hexDigits ! unat v = c"
proof (cases "0x30 \<le> byte c \<and> byte c \<le> 0x39")
  case True
  then have v: "v = of_nat (byte c - 48)"
    using assms by (simp add: hexVal_def of_nat_diff)
  have "unat v = byte c - 48" unfolding v by (rule unat_of_nat_byte) (use True in linarith)
  moreover have "byte c - 48 < 10" "48 + (byte c - 48) = byte c" using True by linarith+
  ultimately show ?thesis using hexDigits_char [of "byte c - 48"] by simp
next
  case False
  then have r: "0x61 \<le> byte c \<and> byte c \<le> 0x66" and v: "v = of_nat (byte c) - 0x61 + 10"
    using assms by (auto simp: hexVal_def split: if_splits)
  have v': "v = of_nat (byte c - 87)" using r v by (simp add: of_nat_diff)
  have "unat v = byte c - 87" unfolding v' by (rule unat_of_nat_byte) (use r in linarith)
  moreover have "byte c - 87 < 16" "\<not> byte c - 87 < 10" "87 + (byte c - 87) = byte c"
    using r by linarith+
  ultimately show ?thesis using hexDigits_char [of "byte c - 87"] by simp
qed

lemma nibbles_of_byte:
  assumes "unat hi < 16" and "unat lo < 16"
  shows "drop_bit 4 (push_bit 4 hi OR lo) = (hi :: 8 word)" and "(push_bit 4 hi OR lo) AND 0x0F = lo"
proof -
  have hb: "n < 4" if "bit hi n" for n
    using that assms(1) bit_take_bit_iff [of 4 "unat hi" n]
    by (simp add: take_bit_nat_eq_self bit_unsigned_iff)
  have lb: "n < 4" if "bit lo n" for n
    using that assms(2) bit_take_bit_iff [of 4 "unat lo" n]
    by (simp add: take_bit_nat_eq_self bit_unsigned_iff)
  show "drop_bit 4 (push_bit 4 hi OR lo) = hi"
    by (intro bit_word_eqI) (auto simp: bit_simps dest: hb lb)
  have "(push_bit 4 hi OR lo) AND mask 4 = lo"
    by (intro bit_word_eqI) (auto simp: bit_simps dest: hb lb)
  then show "(push_bit 4 hi OR lo) AND 0x0F = lo" by (simp add: mask_eq_exp_minus_1)
qed

lemma hexPair_parsed:
  "hexVal c = Some hi \<Longrightarrow> hexVal d = Some lo \<Longrightarrow> hexPair (push_bit 4 hi OR lo) = [c, d]"
  unfolding hexPair_def by (drule hexVal_SomeD)+ (simp only: nibbles_of_byte)

lemma parse_loop_length: "parse_loop s k src = Some u \<Longrightarrow> length u = k"
  by (induction s k src arbitrary: u rule: parse_loop.induct)
    (auto simp: Let_def split: option.splits if_splits)

text \<open>Where the loop's cursor stands before byte \<open>i\<close>: two characters per byte and the hyphens passed.\<close>

definition hex_src :: "nat \<Rightarrow> nat" where
  "hex_src i = 2 * i + (if i \<le> 4 then 0 else if i \<le> 6 then 1 else if i \<le> 8 then 2 else if i \<le> 10 then 3 else 4)"

lemma parse_loop_inverse:
  assumes "length s = 36"
    and "s ! 8 = CHR ''-''" "s ! 13 = CHR ''-''" "s ! 18 = CHR ''-''" "s ! 23 = CHR ''-''"
    and "parse_loop s k (hex_src i) = Some u" and "i + k = 16"
  shows "hex_loop i u = drop (hex_src i) s"
  using assms(6,7)
proof (induction k arbitrary: i u)
  case 0
  then show ?case using assms(1) by (simp add: hex_src_def)
next
  case (Suc k)
  let ?skip = "i = 4 \<or> i = 6 \<or> i = 8 \<or> i = 10"
  let ?p = "hex_src i + (if ?skip then 1 else 0)"
  have i: "i < 16" using Suc.prems(2) by simp
  have skip: "(hex_src i = 8 \<or> hex_src i = 13 \<or> hex_src i = 18 \<or> hex_src i = 23) \<longleftrightarrow> ?skip"
    by (auto simp: hex_src_def)
  have nxt: "?p + 2 = hex_src (Suc i)" using i by (auto simp: hex_src_def)
  have len: "?p + 1 < length s" using i assms(1) by (auto simp: hex_src_def)
  obtain hi lo u' where h: "hexVal (s ! ?p) = Some hi" "hexVal (s ! (?p + 1)) = Some lo"
    and u': "parse_loop s k (hex_src (Suc i)) = Some u'" and u: "u = (push_bit 4 hi OR lo) # u'"
    using Suc.prems(1) nxt by (auto simp: Let_def skip split: option.splits if_splits)
  have IH: "hex_loop (Suc i) u' = drop (?p + 2) s"
    unfolding nxt by (rule Suc.IH [OF u']) (use Suc.prems(2) in simp)
  have "drop ?p s = s ! ?p # s ! (?p + 1) # drop (?p + 2) s"
    using len by (simp add: Cons_nth_drop_Suc [symmetric])
  then have rest: "hexPair (push_bit 4 hi OR lo) @ hex_loop (Suc i) u' = drop ?p s"
    using IH hexPair_parsed [OF h] by simp
  show ?case
  proof (cases ?skip)
    case True
    have "s ! hex_src i = CHR ''-''" using True assms(2-5) by (auto simp: hex_src_def)
    then have "drop (hex_src i) s = CHR ''-'' # drop (Suc (hex_src i)) s"
      using len Cons_nth_drop_Suc [of "hex_src i" s] by simp
    then show ?thesis using True rest by (simp add: u)
  next
    case False
    then show ?thesis using rest by (simp add: u)
  qed
qed

lemma format_parse:
  assumes "parseUUIDv7 s = Some u"
  shows "length u = 16 \<and> isValidV7 u \<and> formatUUID u = s"
proof -
  have s: "length s = 36" "s ! 8 = CHR ''-''" "s ! 13 = CHR ''-''" "s ! 18 = CHR ''-''" "s ! 23 = CHR ''-''"
    and p: "parse_loop s 16 0 = Some u" and v: "isValidV7 u"
    using assms by (auto simp: parseUUIDv7_def isValidV7_def split: if_splits option.splits)
  have "hex_loop 0 u = drop (hex_src 0) s"
    by (rule parse_loop_inverse [OF s, of 16 0]) (use p in \<open>simp_all add: hex_src_def\<close>)
  then show ?thesis
    using parse_loop_length [OF p] v by (simp add: formatUUID_def appendUUIDHex_def hex_src_def)
qed

section \<open>Minting\<close>

lemma newUUIDv7_length [simp]: "length (newUUIDv7 ms ra rb) = 16"
  by (simp add: newUUIDv7_def)

lemma newUUIDv7_valid: "isValidV7 (newUUIDv7 ms ra rb)"
proof -
  have v: "drop_bit 4 (push_bit 4 (mask 3) OR ucast (drop_bit 8 ra AND mask 4)) = (mask 3 :: 8 word)"
    by (intro bit_word_eqI) (auto simp: bit_simps)
  have w: "drop_bit 6 (push_bit 7 1 OR ucast (drop_bit 56 rb AND mask 6)) = (push_bit 1 1 :: 8 word)"
    by (intro bit_word_eqI) (auto simp: bit_simps)
  have eqs: "push_bit 4 (mask 3) = (0x70 :: 8 word)" "(mask 3 :: 8 word) = 7" "(mask 4 :: 64 word) = 0x0F"
    "push_bit 7 1 = (0x80 :: 8 word)" "(mask 6 :: 64 word) = 0x3F" "(push_bit 1 1 :: 8 word) = 0b10"
    by (simp_all add: mask_eq_exp_minus_1)
  show ?thesis
    using v w unfolding eqs by (simp add: isValidV7_def newUUIDv7_def)
qed

lemma isValidV7_nonzero: "isValidV7 u \<Longrightarrow> \<not> IsZero u"
  by (auto simp: isValidV7_def IsZero_def zeroUUID_def)

text \<open>The low 48 bits of the clock are readable from a minted uuid.\<close>

lemma byte_bits_eq:
  assumes "(ucast (drop_bit k x) :: 8 word) = ucast (drop_bit k y)" and "k \<le> n" and "n < k + 8" and "n < 64"
  shows "bit (x :: 64 word) n = bit y n"
proof -
  have "bit (ucast (drop_bit k x) :: 8 word) (n - k) = bit (ucast (drop_bit k y) :: 8 word) (n - k)"
    using assms(1) by simp
  moreover have "n - k < 8" using assms(2,3) by linarith
  ultimately show ?thesis using assms(2-) by (simp add: bit_simps)
qed

lemma newUUIDv7_timestamp:
  assumes "newUUIDv7 ms ra rb = newUUIDv7 ms' ra' rb'"
  shows "take_bit 48 ms = take_bit 48 ms'"
proof (rule bit_word_eqI)
  fix n :: nat assume n: "n < LENGTH(64)"
  have b: "(ucast (drop_bit 40 ms) :: 8 word) = ucast (drop_bit 40 ms')"
    "(ucast (drop_bit 32 ms) :: 8 word) = ucast (drop_bit 32 ms')"
    "(ucast (drop_bit 24 ms) :: 8 word) = ucast (drop_bit 24 ms')"
    "(ucast (drop_bit 16 ms) :: 8 word) = ucast (drop_bit 16 ms')"
    "(ucast (drop_bit 8 ms) :: 8 word) = ucast (drop_bit 8 ms')"
    "(ucast (drop_bit 0 ms) :: 8 word) = ucast (drop_bit 0 ms')"
    using assms by (simp_all only: newUUIDv7_def list.inject drop_bit_0 id_apply)
  have "bit ms n = bit ms' n" if "n < 48"
  proof -
    consider "n < 8" | "8 \<le> n" "n < 16" | "16 \<le> n" "n < 24" | "24 \<le> n" "n < 32" | "32 \<le> n" "n < 40"
      | "40 \<le> n" using that by linarith
    then show ?thesis
      by cases (rule byte_bits_eq [OF b(6)] byte_bits_eq [OF b(5)] byte_bits_eq [OF b(4)]
        byte_bits_eq [OF b(3)] byte_bits_eq [OF b(2)] byte_bits_eq [OF b(1)]; use that in linarith)+
  qed
  then show "bit (take_bit 48 ms) n = bit (take_bit 48 ms') n"
    by (auto simp: bit_take_bit_iff)
qed

end
