(* ===== verification/Types.thy ===== *)
theory Types
  imports Uuid
begin

text \<open>
  The cross-cutting data of \<^verbatim>\<open>types.go\<close>: capacity constants, configuration, items, events, the
  errors every other part returns, and the byte-cost function admission control charges.

  An error message is a constructor, not its text: \<open>reason\<close> has one constructor per message the
  validators build, \<open>goError\<close> one per error type the callers distinguish
  (\<open>InvalidInput\<close> is an error wrapped with \<^verbatim>\<open>ErrInvalidInput\<close>).

  The JSON library (\<^verbatim>\<open>goccy/go-json\<close>, reached through \<^verbatim>\<open>json.go\<close>) is not part of the repository.
  It is the argument \<open>J :: jsonLib\<close> of the definitions that call it: one field per way it is called.
\<close>

section \<open>Constants\<close>

definition DefaultLimit :: int where "DefaultLimit = 1000"
definition MaxLimit :: int where "MaxLimit = 10000"
definition ScopeMaxItems :: int where "ScopeMaxItems = 100000"
definition MaxStoreMiB :: int where "MaxStoreMiB = 100"
definition MaxItemBytes :: int where "MaxItemBytes = 2 ^ 20"
definition MaxScopeBytes :: nat where "MaxScopeBytes = 256"
definition MaxIDBytes :: nat where "MaxIDBytes = 256"
definition InboxMaxItemBytes :: int where "InboxMaxItemBytes = 64 * 2 ^ 10"
definition eventsItemEnvelopeOverhead :: int where "eventsItemEnvelopeOverhead = 1024"
definition EventsScopeName :: string where "EventsScopeName = ''_events''"
definition InboxScopeName :: string where "InboxScopeName = ''_inbox''"
definition singleRequestBytesOverhead :: int where "singleRequestBytesOverhead = 4096"
definition bulkRequestBytesOverhead :: int where "bulkRequestBytesOverhead = 16 * 2 ^ 20"
definition MaxCounterValue :: int where "MaxCounterValue = 2 ^ 53 - 1"
definition counterCellOverhead :: int where "counterCellOverhead = 24 + 32"
definition scopeBufferOverhead :: int where "scopeBufferOverhead = 1024"
definition unboundedScopeMaxItems :: int where "unboundedScopeMaxItems = 0"

definition reservedScopeNames :: "string list" where
  "reservedScopeNames = [EventsScopeName, InboxScopeName]"

definition reservedScopesOverhead :: int where
  "reservedScopesOverhead = int (length reservedScopeNames) * scopeBufferOverhead"

definition isReservedScope :: "string \<Rightarrow> bool" where
  "isReservedScope scope = list_ex (\<lambda>name. scope = name) reservedScopeNames"

lemmas const_defs = DefaultLimit_def MaxLimit_def ScopeMaxItems_def MaxStoreMiB_def MaxItemBytes_def
  MaxScopeBytes_def MaxIDBytes_def InboxMaxItemBytes_def eventsItemEnvelopeOverhead_def
  singleRequestBytesOverhead_def bulkRequestBytesOverhead_def MaxCounterValue_def
  counterCellOverhead_def scopeBufferOverhead_def unboundedScopeMaxItems_def

section \<open>Configuration\<close>

type_synonym EventsMode = int

definition EventsModeOff :: EventsMode where "EventsModeOff = 0"
definition EventsModeNotify :: EventsMode where "EventsModeNotify = 1"
definition EventsModeFull :: EventsMode where "EventsModeFull = 2"

definition EventsMode_String :: "EventsMode \<Rightarrow> string" where
  "EventsMode_String m =
     (if m = EventsModeOff then ''off''
      else if m = EventsModeNotify then ''notify''
      else if m = EventsModeFull then ''full''
      else ''unknown'')"

text \<open>The mode and whether the error is non-nil.\<close>

definition ParseEventsMode :: "string \<Rightarrow> EventsMode \<times> bool" where
  "ParseEventsMode s =
     (if s = [] \<or> s = ''off'' then (EventsModeOff, False)
      else if s = ''notify'' then (EventsModeNotify, False)
      else if s = ''full'' then (EventsModeFull, False)
      else (EventsModeOff, True))"

record Config =
  cfgScopeMaxItems :: int
  cfgMaxStoreBytes :: int
  cfgMaxItemBytes :: int
  cfgEventsMode :: EventsMode
  cfgInboxMaxItems :: int
  cfgInboxMaxItemBytes :: int

definition WithDefaults :: "Config \<Rightarrow> Config" where
  "WithDefaults c0 =
     (let c1 = (if cfgScopeMaxItems c0 \<le> 0 then c0\<lparr>cfgScopeMaxItems := ScopeMaxItems\<rparr> else c0);
          c2 = (if cfgMaxStoreBytes c1 \<le> 0 then c1\<lparr>cfgMaxStoreBytes := MaxStoreMiB * 2 ^ 20\<rparr> else c1);
          c3 = (if cfgMaxStoreBytes c2 < reservedScopesOverhead
                then c2\<lparr>cfgMaxStoreBytes := reservedScopesOverhead\<rparr> else c2);
          c4 = (if cfgMaxItemBytes c3 \<le> 0 then c3\<lparr>cfgMaxItemBytes := MaxItemBytes\<rparr> else c3);
          c5 = (if cfgInboxMaxItems c4 \<le> 0 then c4\<lparr>cfgInboxMaxItems := cfgScopeMaxItems c4\<rparr> else c4);
          c6 = (if cfgInboxMaxItemBytes c5 \<le> 0
                then c5\<lparr>cfgInboxMaxItemBytes := InboxMaxItemBytes\<rparr> else c5)
      in if cfgEventsMode c6 = EventsModeOff \<or> cfgEventsMode c6 = EventsModeNotify
            \<or> cfgEventsMode c6 = EventsModeFull
         then c6 else c6\<lparr>cfgEventsMode := EventsModeOff\<rparr>)"

section \<open>Items\<close>

record counterCell =
  cellValue :: int
  cellTs :: int

text \<open>
  \<open>renderBytes\<close> distinguishes a nil slice (\<^const>\<open>None\<close>) from an empty one, as the code does;
  a nil \<open>Payload\<close> is \<open>[]\<close> (the code only asks for its length). \<open>counter\<close> is the cell the pointer
  refers to: a cell is owned by exactly one stored item.
\<close>

record item =
  Scope :: string
  ID :: string
  Seq :: nat
  Ts :: int
  UUID :: UUID
  Payload :: string
  renderBytes :: "string option"
  counter :: "counterCell option"

definition zeroItem :: item where
  "zeroItem = \<lparr>Scope = [], ID = [], Seq = 0, Ts = 0, UUID = zeroUUID, Payload = [],
     renderBytes = None, counter = None\<rparr>"

definition renderLen :: "item \<Rightarrow> int" where
  "renderLen it = (case renderBytes it of None \<Rightarrow> 0 | Some r \<Rightarrow> int (length r))"

definition approxItemSize :: "item \<Rightarrow> int" where
  "approxItemSize it =
     (let n = 32 + int (length (Scope it)) + int (length (ID it))
              + (if \<not> IsZero (UUID it) then int uuidStringLen else 0) + 8 + 8
      in if counter it \<noteq> None then n + counterCellOverhead
         else n + int (length (Payload it)) + renderLen it)"

definition multiItemEnvelopeMinBytes :: int where "multiItemEnvelopeMinBytes = 80"
definition multiItemPerItemMinBytes :: int where "multiItemPerItemMinBytes = 25"

definition estimateMultiItemResponseBytes :: "item list \<Rightarrow> int" where
  "estimateMultiItemResponseBytes its =
     fold (\<lambda>it n. n + int (length (Scope it)) + int (length (ID it)) + int (length (Payload it))) its
       (multiItemEnvelopeMinBytes + int (length its) * multiItemPerItemMinBytes)"

section \<open>Events\<close>

record writeEvent =
  evOp :: string
  evScope :: string
  evID :: string
  evSeq :: nat
  evTs :: int
  evUUID :: string
  evPayload :: string
  evBy :: "int option"
  evMaxSeq :: nat

definition zeroEvent :: writeEvent where
  "zeroEvent = \<lparr>evOp = [], evScope = [], evID = [], evSeq = 0, evTs = 0, evUUID = [], evPayload = [],
     evBy = None, evMaxSeq = 0\<rparr>"

section \<open>Errors\<close>

datatype reason =
    KeyTooLong string nat | KeyWhitespace string | KeyControl string | KeyNotUtf8 string
  | ScopeRequired string | IdRequired string
  | ExactlyOneAddress string | UuidNotV7 string | ExactlyOneBoundary
  | PayloadRequired | PayloadNotJson | PayloadNotUtf8
  | ItemTooLarge int int | CounterTooLarge int int
  | SeqManaged string | TsManaged string | UuidManaged string
  | EventsAppendReserved string | ScopeReserved string string
  | ByRequired | ByZero | ByRange
  | LimitInvalid | OffsetInvalid | HoursInvalid | HoursTooLarge
  | ScopeMismatch string nat string
  | DuplicateId string | DuplicateUuid UUID
  | AtItem string nat reason | InScope string reason

datatype counterReason = NotANumber | NotAnInteger | OutOfRange

datatype goError =
    InvalidInput reason
  | ScopeFullError int int
  | ScopeCapacityError "(string \<times> int \<times> int) list"
  | StoreFullError int int int
  | CounterPayloadError counterReason
  | CounterOverflowError int int
  | ScopeDetachedError
  | IdExistsError
  | ItemCapError int int string
  | NoScopeError
  | ErrInvalidSubscribeScope
  | ErrAlreadySubscribed

section \<open>The JSON library\<close>

record jsonLib =
  unmarshalString :: "string \<Rightarrow> string option"
  unmarshalNumber :: "string \<Rightarrow> string option"
  marshalEvent :: "writeEvent \<Rightarrow> string option"
  marshalString :: "string \<Rightarrow> string"

text \<open>\<^verbatim>\<open>precomputeRenderBytes\<close> of \<^verbatim>\<open>buffer_locked.go\<close>.\<close>

definition precomputeRenderBytes :: "jsonLib \<Rightarrow> string \<Rightarrow> string option" where
  "precomputeRenderBytes J payload =
     (case dropWhile json_ws payload of
        [] \<Rightarrow> None
      | c # _ \<Rightarrow> if c \<noteq> CHR 0x22 then None else unmarshalString J payload)"

section \<open>Derived caps\<close>

definition addClampedInt64 :: "int \<Rightarrow> int \<Rightarrow> int" where
  "addClampedInt64 a b =
     (if b > 0 \<and> a > i64 (MaxInt64 - b) then MaxInt64
      else if b < 0 \<and> a < i64 (MinInt64 - b) then MinInt64
      else i64 (a + b))"

definition bulkRequestBytesFor :: "int \<Rightarrow> int" where
  "bulkRequestBytesFor maxStoreBytes =
     addClampedInt64 (addClampedInt64 maxStoreBytes (go_div maxStoreBytes 10)) bulkRequestBytesOverhead"

definition singleRequestBytesFor :: "int \<Rightarrow> int" where
  "singleRequestBytesFor maxItemBytes = addClampedInt64 maxItemBytes singleRequestBytesOverhead"

section \<open>Facts\<close>

lemma reserved_names [simp]:
  "isReservedScope EventsScopeName" "isReservedScope InboxScopeName"
  "EventsScopeName \<noteq> []" "InboxScopeName \<noteq> []" "EventsScopeName \<noteq> InboxScopeName"
  "InboxScopeName \<noteq> EventsScopeName"
  by (auto simp: isReservedScope_def reservedScopeNames_def EventsScopeName_def InboxScopeName_def)

lemma isReservedScope_iff: "isReservedScope n \<longleftrightarrow> n = EventsScopeName \<or> n = InboxScopeName"
  by (auto simp: isReservedScope_def reservedScopeNames_def)

lemma renderLen_nonneg [simp]: "0 \<le> renderLen it"
  by (simp add: renderLen_def split: option.splits)

lemma approxItemSize_pos: "48 \<le> approxItemSize it"
  by (simp add: approxItemSize_def Let_def counterCellOverhead_def)

lemma approxItemSize_nonneg [simp]: "0 \<le> approxItemSize it"
  using approxItemSize_pos [of it] by simp

lemma addClampedInt64_saturates:
  assumes "MinInt64 \<le> a" "a \<le> MaxInt64" "MinInt64 \<le> b" "b \<le> MaxInt64"
  shows "addClampedInt64 a b = max MinInt64 (min MaxInt64 (a + b))"
  using assms by (auto simp: addClampedInt64_def MinInt64_def MaxInt64_def)

lemma WithDefaults_bounds:
  "0 < cfgScopeMaxItems (WithDefaults c)" "reservedScopesOverhead \<le> cfgMaxStoreBytes (WithDefaults c)"
  "0 < cfgMaxItemBytes (WithDefaults c)" "0 < cfgInboxMaxItems (WithDefaults c)"
  "0 < cfgInboxMaxItemBytes (WithDefaults c)"
  by (simp_all add: WithDefaults_def Let_def const_defs reservedScopesOverhead_def)

lemma WithDefaults_le:
  assumes "cfgMaxStoreBytes c \<le> MaxInt64" shows "cfgMaxStoreBytes (WithDefaults c) \<le> MaxInt64"
  using assms by (simp add: WithDefaults_def Let_def const_defs reservedScopesOverhead_def
      reservedScopeNames_def MaxInt64_def)

lemma WithDefaults_keep:
  assumes "0 < cfgScopeMaxItems c" "0 < cfgMaxItemBytes c" "0 < cfgInboxMaxItems c" "0 < cfgInboxMaxItemBytes c"
    "reservedScopesOverhead \<le> cfgMaxStoreBytes c" "cfgEventsMode c \<in> {EventsModeOff, EventsModeNotify, EventsModeFull}"
  shows "WithDefaults c = c"
proof -
  have "0 < cfgMaxStoreBytes c"
    using assms(5) by (simp add: reservedScopesOverhead_def reservedScopeNames_def scopeBufferOverhead_def)
  then show ?thesis using assms by (simp add: WithDefaults_def)
qed

lemma WithDefaults_mode: "cfgEventsMode (WithDefaults c) \<in> {EventsModeOff, EventsModeNotify, EventsModeFull}"
  by (simp add: WithDefaults_def Let_def)

lemma WithDefaults_idem [simp]: "WithDefaults (WithDefaults c) = WithDefaults c"
  using WithDefaults_bounds [of c] WithDefaults_mode [of c] by (intro WithDefaults_keep)

end
