(* ===== verification/Buffer.thy ===== *)
theory Buffer
  imports Types
begin

text \<open>
  The per-scope buffer (\<^verbatim>\<open>buffer.go\<close>, \<^verbatim>\<open>buffer_locked.go\<close>, \<^verbatim>\<open>buffer_heat.go\<close>): its state, the
  helpers every mutation path shares, and the invariant.

  The code stores one heap \<^verbatim>\<open>*Item\<close> per entry and lets the slice and the three indexes alias it.
  The model keeps the pointers: \<open>heap\<close> holds the objects, a pointer is a position in it, \<open>items\<close> is
  the slice of pointers, \<open>byID\<close>, \<open>bySeq\<close>, \<open>byUUID\<close> map keys to pointers. A field write through a
  pointer is an update of \<open>heap\<close>, so it is visible through every index, as in the code.

  \<^verbatim>\<open>b.store\<close> is nil or the store: \<open>attached\<close> says which. A buffer method touches nothing of the
  store but its atomic counters and its immutable caps; these are the record \<open>storeAcct\<close>, which
  every mutating method takes and returns. A method under \<^verbatim>\<open>b.mu\<close> is one atomic step.

  The store-wide counters are reduced to the \<^verbatim>\<open>int64\<close> width at every update. The buffer's own
  \<open>bytes\<close> needs no reduction: it is part of the store's total, which never exceeds a cap that fits
  \<^verbatim>\<open>int64\<close> (\<open>acct_ok\<close>, \<open>fits\<close>; the accounting theorems show both are kept).

  The clock readings and freshly minted uuids of a method are its arguments.
\<close>

section \<open>State\<close>

record storeAcct =
  maxStoreBytes :: int
  maxItemBytes :: int
  eventsMaxItemBytes :: int
  inboxMaxItemBytes :: int
  totalBytes :: int
  totalItems :: int
  lastWriteTS :: int

record scopeBuffer =
  attached :: bool
  detached :: bool
  heap :: "item list"
  items :: "nat list"
  byID :: "(string \<times> nat) list"
  bySeq :: "(nat \<times> nat) list"
  byUUID :: "(UUID \<times> nat) list"
  lastSeq :: nat
  firstUUID :: UUID
  lastUUID :: UUID
  maxItems :: int
  bufMaxItemBytes :: int
  bytes :: int
  idKeyBytes :: int
  createdTS :: int
  bufLastWriteTS :: int
  lastAccessTS :: int
  readCountTotal :: nat

definition newscopeBuffer :: "int \<Rightarrow> int \<Rightarrow> scopeBuffer" where
  "newscopeBuffer maxIt now =
     \<lparr>attached = False, detached = False, heap = [], items = [], byID = [], bySeq = [], byUUID = [],
      lastSeq = 0, firstUUID = zeroUUID, lastUUID = zeroUUID, maxItems = maxIt, bufMaxItemBytes = 0,
      bytes = 0, idKeyBytes = 0, createdTS = now, bufLastWriteTS = now, lastAccessTS = 0,
      readCountTotal = 0\<rparr>"

definition recordRead :: "int \<Rightarrow> scopeBuffer \<Rightarrow> scopeBuffer" where
  "recordRead now b = b\<lparr>readCountTotal := u64_inc (readCountTotal b), lastAccessTS := now\<rparr>"

definition deref :: "scopeBuffer \<Rightarrow> nat \<Rightarrow> item" where
  "deref b a = heap b ! a"

definition bufItems :: "scopeBuffer \<Rightarrow> item list" where
  "bufItems b = map (deref b) (items b)"

section \<open>The store's counters\<close>

definition bumpLastWriteTS :: "int \<Rightarrow> storeAcct \<Rightarrow> storeAcct" where
  "bumpLastWriteTS nowUs a = (if nowUs \<le> lastWriteTS a then a else a\<lparr>lastWriteTS := nowUs\<rparr>)"

definition reserveBytes :: "int \<Rightarrow> storeAcct \<Rightarrow> bool \<times> int \<times> int \<times> storeAcct" where
  "reserveBytes delta a =
     (if delta \<le> 0 then
        (let n = i64 (totalBytes a + delta) in (True, n, maxStoreBytes a, a\<lparr>totalBytes := n\<rparr>))
      else
        (let current = totalBytes a in
         if delta > i64 (maxStoreBytes a - current) then (False, current, maxStoreBytes a, a)
         else let nxt = i64 (current + delta) in (True, nxt, maxStoreBytes a, a\<lparr>totalBytes := nxt\<rparr>)))"

definition addTotals :: "int \<Rightarrow> int \<Rightarrow> storeAcct \<Rightarrow> storeAcct" where
  "addTotals db di a = a\<lparr>totalBytes := i64 (totalBytes a + db), totalItems := i64 (totalItems a + di)\<rparr>"

definition maxItemBytesFor :: "storeAcct \<Rightarrow> string \<Rightarrow> int" where
  "maxItemBytesFor a scope =
     (if scope = EventsScopeName then eventsMaxItemBytes a
      else if scope = InboxScopeName then inboxMaxItemBytes a
      else maxItemBytes a)"

definition maxItemBytesAnyScope :: "storeAcct \<Rightarrow> int" where
  "maxItemBytesAnyScope a =
     (let b1 = maxItemBytes a;
          b2 = (if eventsMaxItemBytes a > b1 then eventsMaxItemBytes a else b1)
      in if inboxMaxItemBytes a > b2 then inboxMaxItemBytes a else b2)"

section \<open>Helpers of the mutation paths\<close>

definition itemCapExceeded :: "scopeBuffer \<Rightarrow> int \<Rightarrow> bool" where
  "itemCapExceeded b proposed \<longleftrightarrow> maxItems b > 0 \<and> proposed > maxItems b"

definition payloadAndRenderBytes :: "item \<Rightarrow> int" where
  "payloadAndRenderBytes it =
     (if counter it \<noteq> None then counterCellOverhead
      else int (length (Payload it)) + renderLen it)"

definition reservePayloadDeltaLocked ::
    "int \<Rightarrow> int \<Rightarrow> storeAcct \<Rightarrow> scopeBuffer \<Rightarrow> (goError + int) \<times> storeAcct" where
  "reservePayloadDeltaLocked oldSize newSize a b =
     (let delta = newSize - oldSize
      in if attached b \<and> delta \<noteq> 0 then
           (case reserveBytes delta a of (ok, current, mx, a') \<Rightarrow>
              if \<not> ok then (Inl (StoreFullError current delta mx), a') else (Inr delta, a'))
         else (Inr delta, a))"

definition bumpIf :: "bool \<Rightarrow> int \<Rightarrow> storeAcct \<Rightarrow> storeAcct" where
  "bumpIf c now a = (if c then bumpLastWriteTS now a else a)"

definition replaceItemAtIndexLocked ::
    "nat \<Rightarrow> string \<Rightarrow> int \<Rightarrow> string option \<Rightarrow> int \<Rightarrow> storeAcct \<Rightarrow> scopeBuffer \<Rightarrow> storeAcct \<times> scopeBuffer" where
  "replaceItemAtIndexLocked i payload ts rb delta a b =
     (let p = items b ! i;
          it = (deref b p)\<lparr>Payload := payload, Ts := ts, renderBytes := rb, counter := None\<rparr>
      in (bumpIf (attached b) ts a,
          b\<lparr>heap := (heap b)[p := it], bytes := bytes b + delta, bufLastWriteTS := ts\<rparr>))"

definition indexBySeqLocked :: "scopeBuffer \<Rightarrow> nat \<Rightarrow> nat option" where
  "indexBySeqLocked b seq =
     (let i = sortSearch (length (items b)) (\<lambda>i. Seq (deref b (items b ! i)) \<ge> seq)
      in if i = length (items b) \<or> Seq (deref b (items b ! i)) \<noteq> seq then None else Some i)"

text \<open>
  The tail shared by the two insert paths (\<^verbatim>\<open>insertNewItemLocked\<close> and the create branch of
  \<^verbatim>\<open>counterAddSlow\<close>): assign the sequence number, allocate the item, enter it into the slice and
  the indexes, extend the uuid span, add the size. \<open>keyed\<close> says whether the item enters \<open>byID\<close>: the
  former path asks \<^verbatim>\<open>item.ID != ""\<close>, the latter enters it always.
\<close>

definition installItemLocked :: "bool \<Rightarrow> item \<Rightarrow> int \<Rightarrow> scopeBuffer \<Rightarrow> item \<times> scopeBuffer" where
  "installItemLocked keyed it0 sz b =
     (let seq = u64_inc (lastSeq b);
          it = it0\<lparr>Seq := seq\<rparr>;
          p = length (heap b);
          hasU = (\<not> IsZero (UUID it))
      in (it,
          b\<lparr>lastSeq := seq,
            heap := heap b @ [it],
            items := items b @ [p],
            bySeq := AList.update seq p (bySeq b),
            byID := (if keyed then AList.update (ID it) p (byID b) else byID b),
            idKeyBytes := (if keyed then idKeyBytes b + int (length (ID it)) else idKeyBytes b),
            byUUID := (if hasU then AList.update (UUID it) p (byUUID b) else byUUID b),
            firstUUID := (if hasU \<and> IsZero (firstUUID b) then UUID it else firstUUID b),
            lastUUID := (if hasU then UUID it else lastUUID b),
            bytes := bytes b + sz\<rparr>))"

section \<open>The invariant\<close>

definition sizeSum :: "item list \<Rightarrow> int" where
  "sizeSum its = (\<Sum>it\<leftarrow>its. approxItemSize it)"

definition idLenSum :: "item list \<Rightarrow> int" where
  "idLenSum its = (\<Sum>it\<leftarrow>its. int (length (ID it)))"

text \<open>Pointers are live and unaliased within the slice, the slice ascends in \<open>Seq\<close>.\<close>

definition slice_ok :: "scopeBuffer \<Rightarrow> bool" where
  "slice_ok b \<longleftrightarrow>
     distinct (items b) \<and> (\<forall>p \<in> set (items b). p < length (heap b)) \<and>
     sorted_wrt (<) (map Seq (bufItems b)) \<and>
     (\<forall>p \<in> set (items b). 0 < Seq (deref b p) \<and> Seq (deref b p) \<le> lastSeq b) \<and>
     lastSeq b < 2 ^ 64"

text \<open>\<open>byID\<close> and \<open>bySeq\<close> hold exactly the entries of the slice.\<close>

definition byID_ok :: "scopeBuffer \<Rightarrow> bool" where
  "byID_ok b \<longleftrightarrow> distinct (map fst (byID b)) \<and>
     (\<forall>k p. map_of (byID b) k = Some p \<longleftrightarrow> k \<noteq> [] \<and> p \<in> set (items b) \<and> ID (deref b p) = k)"

definition bySeq_ok :: "scopeBuffer \<Rightarrow> bool" where
  "bySeq_ok b \<longleftrightarrow> distinct (map fst (bySeq b)) \<and>
     (\<forall>k p. map_of (bySeq b) k = Some p \<longleftrightarrow> p \<in> set (items b) \<and> Seq (deref b p) = k)"

text \<open>
  \<open>byUUID\<close> never points anywhere but at a slice entry with that uuid. That every entry with a uuid
  is in it (\<open>byUUID_full\<close>) additionally needs minted uuids to be unique, which is probabilistic in
  the code, so it is a separate predicate.
\<close>

definition byUUID_ok :: "scopeBuffer \<Rightarrow> bool" where
  "byUUID_ok b \<longleftrightarrow> distinct (map fst (byUUID b)) \<and>
     (\<forall>k p. map_of (byUUID b) k = Some p \<longrightarrow> \<not> IsZero k \<and> p \<in> set (items b) \<and> UUID (deref b p) = k)"

definition byUUID_full :: "scopeBuffer \<Rightarrow> bool" where
  "byUUID_full b \<longleftrightarrow>
     (\<forall>p \<in> set (items b). \<not> IsZero (UUID (deref b p)) \<longrightarrow> map_of (byUUID b) (UUID (deref b p)) = Some p)"

definition idx_ok :: "scopeBuffer \<Rightarrow> bool" where
  "idx_ok b \<longleftrightarrow> slice_ok b \<and> byID_ok b \<and> bySeq_ok b \<and> byUUID_ok b"

definition cell_ok :: "item \<Rightarrow> bool" where
  "cell_ok it \<longleftrightarrow> (case counter it of None \<Rightarrow> True | Some c \<Rightarrow> \<bar>cellValue c\<bar> \<le> MaxCounterValue)"

definition buf_ok :: "scopeBuffer \<Rightarrow> bool" where
  "buf_ok b \<longleftrightarrow> idx_ok b \<and> bytes b = sizeSum (bufItems b) \<and> (\<forall>it \<in> set (bufItems b). cell_ok it) \<and>
     (maxItems b > 0 \<longrightarrow> int (length (items b)) \<le> maxItems b)"

definition idkey_ok :: "scopeBuffer \<Rightarrow> bool" where
  "idkey_ok b \<longleftrightarrow> idKeyBytes b = idLenSum (bufItems b)"

text \<open>
  The store's byte counter is within the cap, and the cap within \<^verbatim>\<open>int64\<close>. \<open>fits a b\<close>: the buffer's
  own bytes and items are part of the store's totals.
\<close>

definition acct_ok :: "storeAcct \<Rightarrow> bool" where
  "acct_ok a \<longleftrightarrow> 0 \<le> totalBytes a \<and> totalBytes a \<le> maxStoreBytes a \<and> maxStoreBytes a \<le> MaxInt64 \<and>
     0 \<le> totalItems a \<and> 48 * totalItems a \<le> totalBytes a"

definition fits :: "storeAcct \<Rightarrow> scopeBuffer \<Rightarrow> bool" where
  "fits a b \<longleftrightarrow>
     (attached b \<longrightarrow> bytes b \<le> totalBytes a \<and> int (length (items b)) \<le> totalItems a \<and>
        48 * (totalItems a - int (length (items b))) \<le> totalBytes a - bytes b)"

section \<open>Reserving and releasing bytes\<close>

lemma reserveBytes_True:
  assumes "acct_ok a" and "reserveBytes d a = (True, n, m, a')" and "- d \<le> totalBytes a"
  shows "a' = a\<lparr>totalBytes := totalBytes a + d\<rparr>" and "totalBytes a + d \<le> maxStoreBytes a"
    and "n = totalBytes a + d"
proof -
  have r: "0 \<le> totalBytes a" "totalBytes a \<le> maxStoreBytes a" "maxStoreBytes a \<le> MaxInt64"
    using assms(1) by (auto simp: acct_ok_def)
  have c: "i64 (maxStoreBytes a - totalBytes a) = maxStoreBytes a - totalBytes a"
    using r by (intro i64_id) (auto simp: MinInt64_def MaxInt64_def)
  have le: "totalBytes a + d \<le> maxStoreBytes a"
    using assms(2) c r by (auto simp: reserveBytes_def Let_def split: if_splits)
  moreover have "i64 (totalBytes a + d) = totalBytes a + d"
    using r le assms(3) by (intro i64_id) (auto simp: MinInt64_def)
  ultimately show "a' = a\<lparr>totalBytes := totalBytes a + d\<rparr>" "totalBytes a + d \<le> maxStoreBytes a"
    "n = totalBytes a + d"
    using assms(2) by (auto simp: reserveBytes_def Let_def split: if_splits)
qed

lemma reserveBytes_False:
  assumes "reserveBytes d a = (False, n, m, a')"
  shows "a' = a" and "n = totalBytes a" and "m = maxStoreBytes a" and "0 < d"
  using assms by (auto simp: reserveBytes_def Let_def split: if_splits)

lemma reserveBytes_refuses:
  assumes "acct_ok a" and "reserveBytes d a = (False, n, m, a')"
  shows "maxStoreBytes a < totalBytes a + d"
proof -
  have "i64 (maxStoreBytes a - totalBytes a) = maxStoreBytes a - totalBytes a"
    using assms(1) by (intro i64_id) (auto simp: acct_ok_def MinInt64_def MaxInt64_def)
  then show ?thesis using assms(2) by (auto simp: reserveBytes_def Let_def split: if_splits)
qed

lemma reserveBytes_positive:
  assumes "acct_ok a" "0 < d"
  shows "reserveBytes d a = (if totalBytes a + d \<le> maxStoreBytes a
     then (True, totalBytes a + d, maxStoreBytes a, a\<lparr>totalBytes := totalBytes a + d\<rparr>)
     else (False, totalBytes a, maxStoreBytes a, a))"
proof -
  have c: "i64 (maxStoreBytes a - totalBytes a) = maxStoreBytes a - totalBytes a"
    using assms(1) by (intro i64_id) (auto simp: acct_ok_def MinInt64_def MaxInt64_def)
  have "totalBytes a + d \<le> maxStoreBytes a \<Longrightarrow> i64 (totalBytes a + d) = totalBytes a + d"
    using assms by (intro i64_id) (auto simp: acct_ok_def MinInt64_def)
  then show ?thesis using assms(2) c by (simp add: reserveBytes_def Let_def)
qed

lemma reserveBytes_cases:
  obtains (granted) n m a' where "reserveBytes d a = (True, n, m, a')"
  | (refused) n m where "reserveBytes d a = (False, n, m, a)"
proof -
  obtain ok n m a' where r: "reserveBytes d a = (ok, n, m, a')" by (cases "reserveBytes d a") auto
  show thesis
  proof (cases ok)
    case True
    then show ?thesis using r granted by simp
  next
    case False
    then show ?thesis using r refused reserveBytes_False(1) [of d a n m a'] by simp
  qed
qed

lemma bump_simps [simp]:
  "maxStoreBytes (bumpLastWriteTS t a) = maxStoreBytes a"
  "maxItemBytes (bumpLastWriteTS t a) = maxItemBytes a"
  "eventsMaxItemBytes (bumpLastWriteTS t a) = eventsMaxItemBytes a"
  "inboxMaxItemBytes (bumpLastWriteTS t a) = inboxMaxItemBytes a"
  "totalBytes (bumpLastWriteTS t a) = totalBytes a"
  "totalItems (bumpLastWriteTS t a) = totalItems a"
  "lastWriteTS (bumpLastWriteTS t a) = max (lastWriteTS a) t"
  by (auto simp: bumpLastWriteTS_def)

lemma bumpIf_simps [simp]:
  "maxStoreBytes (bumpIf c t a) = maxStoreBytes a"
  "maxItemBytes (bumpIf c t a) = maxItemBytes a"
  "eventsMaxItemBytes (bumpIf c t a) = eventsMaxItemBytes a"
  "inboxMaxItemBytes (bumpIf c t a) = inboxMaxItemBytes a"
  "totalBytes (bumpIf c t a) = totalBytes a"
  "totalItems (bumpIf c t a) = totalItems a"
  by (auto simp: bumpIf_def)

section \<open>Views\<close>

lemma length_bufItems [simp]: "length (bufItems b) = length (items b)"
  by (simp add: bufItems_def)

lemma bufItems_nth [simp]: "i < length (items b) \<Longrightarrow> bufItems b ! i = deref b (items b ! i)"
  by (simp add: bufItems_def)

lemma bufItems_memD: "it \<in> set (bufItems b) \<Longrightarrow> \<exists>p \<in> set (items b). it = deref b p"
  by (auto simp: bufItems_def)

lemma deref_in_bufItems [intro]: "p \<in> set (items b) \<Longrightarrow> deref b p \<in> set (bufItems b)"
  by (auto simp: bufItems_def)

lemma sizeSum_append [simp]: "sizeSum (xs @ ys) = sizeSum xs + sizeSum ys"
  and sizeSum_Cons [simp]: "sizeSum (x # xs) = approxItemSize x + sizeSum xs"
  and sizeSum_Nil [simp]: "sizeSum [] = 0"
  by (simp_all add: sizeSum_def)

lemma sizeSum_lower: "48 * int (length xs) \<le> sizeSum xs"
proof (induction xs)
  case (Cons x xs)
  then show ?case using approxItemSize_pos [of x] by simp
qed simp

lemma sizeSum_nonneg [simp]: "0 \<le> sizeSum xs"
  using sizeSum_lower [of xs] by linarith

lemma sizeSum_update:
  "i < length xs \<Longrightarrow> sizeSum (xs[i := x]) = sizeSum xs - approxItemSize (xs ! i) + approxItemSize x"
  by (simp add: sizeSum_def map_update sum_list_update_int)

lemma sizeSum_remove_nth:
  "i < length xs \<Longrightarrow> sizeSum (remove_nth i xs) = sizeSum xs - approxItemSize (xs ! i)"
  by (simp add: sizeSum_def sum_list_remove_nth)

lemma idLenSum_simps [simp]: "idLenSum (xs @ ys) = idLenSum xs + idLenSum ys"
  "idLenSum (x # xs) = int (length (ID x)) + idLenSum xs" "idLenSum [] = 0"
  by (simp_all add: idLenSum_def)

lemma idLenSum_update:
  "i < length xs \<Longrightarrow> idLenSum (xs[i := x]) = idLenSum xs - int (length (ID (xs ! i))) + int (length (ID x))"
  by (simp add: idLenSum_def map_update sum_list_update_int)

lemma idLenSum_remove_nth:
  "i < length xs \<Longrightarrow> idLenSum (remove_nth i xs) = idLenSum xs - int (length (ID (xs ! i)))"
  by (simp add: idLenSum_def sum_list_remove_nth)

lemma approxItemSize_split:
  "approxItemSize it = 48 + int (length (Scope it)) + int (length (ID it))
     + (if IsZero (UUID it) then 0 else int uuidStringLen) + payloadAndRenderBytes it"
  by (simp add: approxItemSize_def payloadAndRenderBytes_def Let_def)

lemma payloadAndRenderBytes_nonneg [simp]: "0 \<le> payloadAndRenderBytes it"
  by (simp add: payloadAndRenderBytes_def counterCellOverhead_def)

lemma buf_bytes_nonneg: "buf_ok b \<Longrightarrow> 0 \<le> bytes b \<and> 48 * int (length (items b)) \<le> bytes b"
  using sizeSum_lower [of "bufItems b"] by (simp add: buf_ok_def)

section \<open>Looking entries up\<close>

lemma slice_seq_inj:
  assumes "slice_ok b" "p \<in> set (items b)" "q \<in> set (items b)" "Seq (deref b p) = Seq (deref b q)"
  shows "p = q"
proof -
  obtain i j where ij: "i < length (items b)" "p = items b ! i" "j < length (items b)" "q = items b ! j"
    using assms(2,3) by (auto simp: in_set_conv_nth)
  have s: "sorted_wrt (<) (map Seq (bufItems b))" using assms(1) by (simp add: slice_ok_def)
  have "\<not> i < j" "\<not> j < i"
    using s ij assms(4) by (fastforce simp: sorted_wrt_iff_nth_less)+
  then show ?thesis using ij by simp
qed

lemma indexBySeq_hit:
  assumes "slice_ok b" and "p \<in> set (items b)"
  shows "\<exists>i. indexBySeqLocked b (Seq (deref b p)) = Some i \<and> i < length (items b) \<and> items b ! i = p"
proof -
  obtain i where i: "i < length (items b)" "p = items b ! i"
    using assms(2) by (auto simp: in_set_conv_nth)
  have s: "sorted_wrt (<) (map Seq (bufItems b))" using assms(1) by (simp add: slice_ok_def)
  let ?k = "Seq (deref b p)"
  let ?f = "\<lambda>j. Seq (deref b (items b ! j)) \<ge> ?k"
  have "sortSearch (length (items b)) ?f = i"
    unfolding sortSearch_def
  proof (rule search_loop_split)
    fix j assume j: "j < length (items b)"
    have "Seq (bufItems b ! j) < Seq (bufItems b ! i) \<longleftrightarrow> j < i"
      using s i j by (auto simp: sorted_wrt_iff_nth_less)
        (metis bufItems_nth length_bufItems less_asym linorder_neqE_nat nth_map)
    then show "?f j \<longleftrightarrow> i \<le> j" using i j by (auto simp: not_less [symmetric])
  qed (use i in simp_all)
  then have "indexBySeqLocked b ?k = Some i"
    using i by (simp add: indexBySeqLocked_def Let_def)
  then show ?thesis using i by blast
qed

lemma indexBySeq_SomeD:
  "indexBySeqLocked b k = Some i \<Longrightarrow>
     i \<noteq> length (items b) \<and> Seq (deref b (items b ! i)) = k"
  by (auto simp: indexBySeqLocked_def Let_def split: if_splits)

lemma byID_SomeD:
  "idx_ok b \<Longrightarrow> map_of (byID b) k = Some p \<Longrightarrow> k \<noteq> [] \<and> p \<in> set (items b) \<and> ID (deref b p) = k"
  by (auto simp: idx_ok_def byID_ok_def)

lemma bySeq_SomeD:
  "idx_ok b \<Longrightarrow> map_of (bySeq b) k = Some p \<Longrightarrow> p \<in> set (items b) \<and> Seq (deref b p) = k"
  by (auto simp: idx_ok_def bySeq_ok_def)

lemma byUUID_SomeD:
  "idx_ok b \<Longrightarrow> map_of (byUUID b) k = Some p \<Longrightarrow>
     \<not> IsZero k \<and> p \<in> set (items b) \<and> UUID (deref b p) = k"
  by (auto simp: idx_ok_def byUUID_ok_def)

end
