(* ===== verification/BufferLaws.thy ===== *)
theory BufferLaws
  imports Buffer
begin

text \<open>
  The contract between a buffer mutation and the store that owns the buffer, and the structural
  lemmas the mutation paths share.

  The locale \<open>buffer_op\<close> states what every mutating method of \<^verbatim>\<open>*scopeBuffer\<close> promises: it keeps
  the buffer's invariant, moves the store's counters in lockstep with the buffer, never passes the
  byte cap, keeps the scope name of the items, advances \<open>lastSeq\<close> by at most one, keeps the
  \<open>idKeyBytes\<close> total exact, keeps every uuid findable as long as the uuids it may adopt
  (\<open>minted\<close>) are new to the buffer, and does nothing at all to a detached buffer. It is interpreted for each method in the theory that defines it; the
  store lifts it to whole-store invariants.
\<close>

definition caps_same :: "storeAcct \<Rightarrow> storeAcct \<Rightarrow> bool" where
  "caps_same a a' \<longleftrightarrow> maxStoreBytes a' = maxStoreBytes a \<and> maxItemBytes a' = maxItemBytes a \<and>
     eventsMaxItemBytes a' = eventsMaxItemBytes a \<and> inboxMaxItemBytes a' = inboxMaxItemBytes a"

definition buf_frame :: "scopeBuffer \<Rightarrow> scopeBuffer \<Rightarrow> bool" where
  "buf_frame b b' \<longleftrightarrow> attached b' = attached b \<and> detached b' = detached b \<and> maxItems b' = maxItems b \<and>
     bufMaxItemBytes b' = bufMaxItemBytes b \<and> createdTS b' = createdTS b"

definition lockstep :: "storeAcct \<Rightarrow> scopeBuffer \<Rightarrow> storeAcct \<Rightarrow> scopeBuffer \<Rightarrow> bool" where
  "lockstep a b a' b' \<longleftrightarrow>
     totalBytes a' = totalBytes a + (if attached b then bytes b' - bytes b else 0) \<and>
     totalItems a' = totalItems a
       + (if attached b then int (length (items b')) - int (length (items b)) else 0)"

definition scope_items :: "string \<Rightarrow> scopeBuffer \<Rightarrow> bool" where
  "scope_items n b \<longleftrightarrow> (\<forall>it \<in> set (bufItems b). Scope it = n)"

definition op_post :: "storeAcct \<Rightarrow> scopeBuffer \<Rightarrow> storeAcct \<Rightarrow> scopeBuffer \<Rightarrow> bool" where
  "op_post a b a' b' \<longleftrightarrow> buf_ok b' \<and> lockstep a b a' b' \<and> caps_same a a' \<and> buf_frame b b' \<and>
     totalBytes a' \<le> maxStoreBytes a \<and> lastSeq b \<le> lastSeq b' \<and> lastSeq b' \<le> Suc (lastSeq b) \<and>
     lastWriteTS a \<le> lastWriteTS a'"

definition uuids_new :: "UUID set \<Rightarrow> scopeBuffer \<Rightarrow> bool" where
  "uuids_new us b \<longleftrightarrow> (\<forall>x \<in> set (bufItems b). \<not> IsZero (UUID x) \<longrightarrow> UUID x \<notin> us)"

locale buffer_op =
  fixes op :: "storeAcct \<Rightarrow> scopeBuffer \<Rightarrow> 'r \<times> storeAcct \<times> scopeBuffer"
    and scope :: string
    and minted :: "UUID set"
  assumes op_post: "acct_ok a \<Longrightarrow> fits a b \<Longrightarrow> buf_ok b \<Longrightarrow> lastSeq b < 2 ^ 64 - 1 \<Longrightarrow>
      op a b = (r, a', b') \<Longrightarrow> op_post a b a' b'"
    and op_scope: "buf_ok b \<Longrightarrow> lastSeq b < 2 ^ 64 - 1 \<Longrightarrow> scope_items scope b \<Longrightarrow> op a b = (r, a', b') \<Longrightarrow> scope_items scope b'"
    and op_idkey: "buf_ok b \<Longrightarrow> lastSeq b < 2 ^ 64 - 1 \<Longrightarrow> idkey_ok b \<Longrightarrow> op a b = (r, a', b') \<Longrightarrow> idkey_ok b'"
    and op_full: "buf_ok b \<Longrightarrow> lastSeq b < 2 ^ 64 - 1 \<Longrightarrow> byUUID_full b \<Longrightarrow> uuids_new minted b \<Longrightarrow> op a b = (r, a', b') \<Longrightarrow>
      byUUID_full b'"
    and op_detached: "detached b \<Longrightarrow> op a b = (r, a', b') \<Longrightarrow> a' = a \<and> b' = b"
begin

lemma acct_kept:
  assumes "acct_ok a" "fits a b" "buf_ok b" "lastSeq b < 2 ^ 64 - 1" "op a b = (r, a', b')"
  shows "acct_ok a'" and "fits a' b'"
proof -
  have p: "op_post a b a' b'" by (rule op_post [OF assms])
  have n: "0 \<le> bytes b" "48 * int (length (items b)) \<le> bytes b"
    "0 \<le> bytes b'" "48 * int (length (items b')) \<le> bytes b'"
    using buf_bytes_nonneg assms(3) p by (auto simp: op_post_def)
  show "acct_ok a'"
    using p assms(1,2) n
    by (auto simp: acct_ok_def fits_def op_post_def lockstep_def caps_same_def)
  show "fits a' b'"
    using p assms(1,2) n by (auto simp: fits_def op_post_def lockstep_def buf_frame_def)
qed

lemma rest_of_store_unchanged:
  assumes "acct_ok a" "fits a b" "buf_ok b" "lastSeq b < 2 ^ 64 - 1" "op a b = (r, a', b')" "attached b"
  shows "totalBytes a' - bytes b' = totalBytes a - bytes b"
    and "totalItems a' - int (length (items b')) = totalItems a - int (length (items b))"
  using op_post [OF assms(1-5)] assms(6) by (auto simp: op_post_def lockstep_def)

end

section \<open>Fields the invariant does not read\<close>

lemma ts_only [simp]:
  "deref (b\<lparr>bufLastWriteTS := t\<rparr>) = deref b" "bufItems (b\<lparr>bufLastWriteTS := t\<rparr>) = bufItems b"
  "idkey_ok (b\<lparr>bufLastWriteTS := t\<rparr>) = idkey_ok b" "byUUID_full (b\<lparr>bufLastWriteTS := t\<rparr>) = byUUID_full b"
  "scope_items n (b\<lparr>bufLastWriteTS := t\<rparr>) = scope_items n b"
proof -
  show d: "deref (b\<lparr>bufLastWriteTS := t\<rparr>) = deref b" by (simp add: deref_def [abs_def])
  show v: "bufItems (b\<lparr>bufLastWriteTS := t\<rparr>) = bufItems b" by (simp add: bufItems_def d)
  show "idkey_ok (b\<lparr>bufLastWriteTS := t\<rparr>) = idkey_ok b" "byUUID_full (b\<lparr>bufLastWriteTS := t\<rparr>) = byUUID_full b"
    "scope_items n (b\<lparr>bufLastWriteTS := t\<rparr>) = scope_items n b"
    by (simp_all add: idkey_ok_def byUUID_full_def scope_items_def d v)
qed

lemma ts_only_ok [simp]: "buf_ok (b\<lparr>bufLastWriteTS := t\<rparr>) = buf_ok b"
  by (simp add: buf_ok_def idx_ok_def slice_ok_def byID_ok_def bySeq_ok_def byUUID_ok_def)

lemma recordRead_view [simp]:
  "deref (recordRead t b) = deref b" "bufItems (recordRead t b) = bufItems b"
  "idkey_ok (recordRead t b) = idkey_ok b" "byUUID_full (recordRead t b) = byUUID_full b"
  "scope_items n (recordRead t b) = scope_items n b" "buf_frame b (recordRead t b)"
  "items (recordRead t b) = items b" "bytes (recordRead t b) = bytes b" "lastSeq (recordRead t b) = lastSeq b"
proof -
  show d: "deref (recordRead t b) = deref b" by (simp add: deref_def [abs_def] recordRead_def)
  show v: "bufItems (recordRead t b) = bufItems b" by (simp add: bufItems_def d) (simp add: recordRead_def)
  show "idkey_ok (recordRead t b) = idkey_ok b" "byUUID_full (recordRead t b) = byUUID_full b"
    "scope_items n (recordRead t b) = scope_items n b" "buf_frame b (recordRead t b)"
    by (simp_all add: idkey_ok_def byUUID_full_def scope_items_def d v)
      (simp_all add: recordRead_def buf_frame_def)
qed (simp_all add: recordRead_def)

lemma recordRead_ok [simp]: "buf_ok (recordRead t b) = buf_ok b"
  by (simp add: buf_ok_def idx_ok_def slice_ok_def byID_ok_def bySeq_ok_def byUUID_ok_def)
    (simp add: recordRead_def)

section \<open>Overwriting an entry in place\<close>

lemma heap_update_deref:
  "heap b' = (heap b)[p := it] \<Longrightarrow> p < length (heap b) \<Longrightarrow>
     deref b' q = (if q = p then it else deref b q)"
  by (simp add: deref_def nth_list_update)

lemma idx_ok_set:
  assumes ok: "idx_ok b" and p: "p \<in> set (items b)"
    and it: "Seq it = Seq (deref b p)" "ID it = ID (deref b p)" "UUID it = UUID (deref b p)"
    and b': "heap b' = (heap b)[p := it]" "items b' = items b" "byID b' = byID b"
      "bySeq b' = bySeq b" "byUUID b' = byUUID b" "lastSeq b' = lastSeq b"
  shows "idx_ok b'"
proof -
  have "p < length (heap b)" using ok p by (auto simp: idx_ok_def slice_ok_def)
  then have d: "deref b' q = (if q = p then it else deref b q)" for q
    by (rule heap_update_deref [OF b'(1)])
  have s: "map Seq (bufItems b') = map Seq (bufItems b)"
    using it by (simp add: bufItems_def b' d)
  show ?thesis
    using ok s it b' d
    by (auto simp: idx_ok_def slice_ok_def byID_ok_def bySeq_ok_def byUUID_ok_def)
qed

lemma bufItems_set:
  assumes "idx_ok b" "i < length (items b)" "items b ! i = p"
    and b': "heap b' = (heap b)[p := it]" "items b' = items b"
  shows "bufItems b' = (bufItems b)[i := it]"
proof (rule nth_equalityI)
  have d: "distinct (items b)" and h: "p < length (heap b)"
    using assms(1-3) by (auto simp: idx_ok_def slice_ok_def)
  show "length (bufItems b') = length ((bufItems b)[i := it])" using b' by simp
  fix j assume "j < length (bufItems b')"
  then have j: "j < length (items b)" using b' by simp
  have "items b ! j = p \<longleftrightarrow> j = i" using d j assms(2,3) nth_eq_iff_index_eq by auto
  then show "bufItems b' ! j = (bufItems b)[i := it] ! j"
    using j b' heap_update_deref [OF b'(1) h] by (auto simp: nth_list_update)
qed

lemma buf_ok_set:
  assumes ok: "buf_ok b" and i: "i < length (items b)" "items b ! i = p"
    and it: "Seq it = Seq (deref b p)" "ID it = ID (deref b p)" "UUID it = UUID (deref b p)" "cell_ok it"
    and b': "heap b' = (heap b)[p := it]" "items b' = items b" "byID b' = byID b"
      "bySeq b' = bySeq b" "byUUID b' = byUUID b" "lastSeq b' = lastSeq b" "maxItems b' = maxItems b"
      "bytes b' = bytes b + (approxItemSize it - approxItemSize (deref b p))"
  shows "buf_ok b'" and "bufItems b' = (bufItems b)[i := it]"
proof -
  have idx: "idx_ok b" using ok by (simp add: buf_ok_def)
  have p: "p \<in> set (items b)" using i by auto
  show v: "bufItems b' = (bufItems b)[i := it]"
    by (rule bufItems_set [OF idx i b'(1,2)])
  have "idx_ok b'" by (rule idx_ok_set [OF idx p it(1-3) b'(1-6)])
  moreover have "bytes b' = sizeSum (bufItems b')"
    using ok i b' by (simp add: v sizeSum_update buf_ok_def)
  moreover have "\<forall>x \<in> set (bufItems b'). cell_ok x"
    using ok it(4) set_update_subset_insert [of "bufItems b" i it] by (auto simp: v buf_ok_def)
  ultimately show "buf_ok b'" using ok b' by (simp add: buf_ok_def)
qed

lemma set_keeps:
  assumes ok: "buf_ok b" and i: "i < length (items b)" "items b ! i = p"
    and it: "ID it = ID (deref b p)" "UUID it = UUID (deref b p)"
    and b': "heap b' = (heap b)[p := it]" "items b' = items b" "byUUID b' = byUUID b"
      "idKeyBytes b' = idKeyBytes b"
  shows "idkey_ok b \<Longrightarrow> idkey_ok b'" and "byUUID_full b \<Longrightarrow> byUUID_full b'"
    and "Scope it = Scope (deref b p) \<Longrightarrow> scope_items n b \<Longrightarrow> scope_items n b'"
proof -
  have idx: "idx_ok b" using ok by (simp add: buf_ok_def)
  have v: "bufItems b' = (bufItems b)[i := it]" by (rule bufItems_set [OF idx i b'(1,2)])
  show "idkey_ok b \<Longrightarrow> idkey_ok b'"
    using i it b' by (simp add: idkey_ok_def v idLenSum_update)
  have "p < length (heap b)" using idx i by (auto simp: idx_ok_def slice_ok_def)
  then have d: "deref b' q = (if q = p then it else deref b q)" for q
    by (rule heap_update_deref [OF b'(1)])
  show "byUUID_full b \<Longrightarrow> byUUID_full b'" using b' it d by (auto simp: byUUID_full_def)
  show "Scope it = Scope (deref b p) \<Longrightarrow> scope_items n b \<Longrightarrow> scope_items n b'"
  proof -
    assume "Scope it = Scope (deref b p)" and n: "scope_items n b"
    moreover have "deref b p \<in> set (bufItems b)" using i by auto
    ultimately have "Scope it = n" by (simp add: scope_items_def)
    then show "scope_items n b'"
      using n set_update_subset_insert [of "bufItems b" i it] by (auto simp: scope_items_def v)
  qed
qed

section \<open>Reserving the change of a payload\<close>

lemma op_post_refl: "acct_ok a \<Longrightarrow> buf_ok b \<Longrightarrow> op_post a b a b"
  by (simp add: op_post_def lockstep_def caps_same_def buf_frame_def acct_ok_def)

lemma reserveDelta_Inl: "reservePayloadDeltaLocked old new a b = (Inl e, a') \<Longrightarrow> a' = a"
  by (auto simp: reservePayloadDeltaLocked_def Let_def split: if_splits prod.splits
      dest: reserveBytes_False(1))

lemma reserveDelta_Inr:
  assumes r: "reservePayloadDeltaLocked old new a b = (Inr d, a')"
    and acct: "acct_ok a" and le: "attached b \<Longrightarrow> old - new \<le> totalBytes a"
  shows "d = new - old" and "totalBytes a' = totalBytes a + (if attached b then new - old else 0)"
    and "totalItems a' = totalItems a" "lastWriteTS a' = lastWriteTS a" "caps_same a a'"
    and "totalBytes a' \<le> maxStoreBytes a"
proof -
  show "d = new - old"
    using r by (auto simp: reservePayloadDeltaLocked_def Let_def split: if_splits prod.splits)
  have "a' = a\<lparr>totalBytes := totalBytes a + (if attached b then new - old else 0)\<rparr> \<and>
    totalBytes a + (if attached b then new - old else 0) \<le> maxStoreBytes a"
  proof (cases "attached b \<and> new - old \<noteq> 0")
    case True
    then obtain n m where "reserveBytes (new - old) a = (True, n, m, a')"
      using r by (auto simp: reservePayloadDeltaLocked_def Let_def split: if_splits prod.splits)
    from reserveBytes_True [OF acct this] le True show ?thesis by simp
  next
    case False
    then show ?thesis using r acct
      by (auto simp: reservePayloadDeltaLocked_def Let_def acct_ok_def split: if_splits)
  qed
  then show "totalBytes a' = totalBytes a + (if attached b then new - old else 0)"
    "totalItems a' = totalItems a" "lastWriteTS a' = lastWriteTS a" "caps_same a a'"
    "totalBytes a' \<le> maxStoreBytes a"
    by (simp_all add: caps_same_def)
qed

lemma entry_size_le:
  assumes "buf_ok b" "fits a b" "attached b" "i < length (items b)" "items b ! i = p"
  shows "approxItemSize (deref b p) \<le> totalBytes a"
proof -
  have "deref b p \<in> set (bufItems b)" using assms by (auto simp: bufItems_def)
  then have "approxItemSize (deref b p) \<le> sizeSum (bufItems b)"
    unfolding sizeSum_def by (intro member_le_sum_list_int) auto
  then show ?thesis using assms by (simp add: buf_ok_def fits_def)
qed

text \<open>An entry is overwritten after its change in size has been reserved.\<close>

lemma op_post_set:
  assumes acct: "acct_ok a" and fits: "fits a b" and ok: "buf_ok b"
    and i: "i < length (items b)" "items b ! i = p"
    and it: "Seq it = Seq (deref b p)" "ID it = ID (deref b p)" "UUID it = UUID (deref b p)" "cell_ok it"
    and r: "reservePayloadDeltaLocked old new a b = (Inr d, a')"
    and sz: "new - old = approxItemSize it - approxItemSize (deref b p)"
    and b': "b' = b\<lparr>heap := (heap b)[p := it], bytes := bytes b + d, bufLastWriteTS := t\<rparr>"
  shows "op_post a b (bumpIf c ts a') b'"
proof -
  have "old - new \<le> totalBytes a" if "attached b"
    using entry_size_le [OF ok fits that i] sz approxItemSize_nonneg [of it] by linarith
  note d = reserveDelta_Inr [OF r acct this]
  have "buf_ok b'"
    by (rule buf_ok_set [OF ok i it]) (use b' d(1) sz in simp_all)
  then show ?thesis
    using d sz b' by (auto simp: op_post_def lockstep_def caps_same_def buf_frame_def bumpIf_def
        split: if_splits)
qed

section \<open>Entering a new entry\<close>

lemma install_shape:
  assumes "installItemLocked (ID it \<noteq> []) it sz b = (it', b')" "lastSeq b < 2 ^ 64 - 1" "slice_ok b"
  shows "it' = it\<lparr>Seq := Suc (lastSeq b)\<rparr>" and "lastSeq b' = Suc (lastSeq b)"
    and "bufItems b' = bufItems b @ [it']" and "buf_frame b b'" and "bytes b' = bytes b + sz"
    and "items b' = items b @ [length (heap b)]"
    and "bufLastWriteTS b' = bufLastWriteTS b"
proof -
  have u: "u64_inc (lastSeq b) = Suc (lastSeq b)" using assms(2) by (rule u64_inc_id)
  show "it' = it\<lparr>Seq := Suc (lastSeq b)\<rparr>" "lastSeq b' = Suc (lastSeq b)" "buf_frame b b'"
    "bytes b' = bytes b + sz" "items b' = items b @ [length (heap b)]"
    "bufLastWriteTS b' = bufLastWriteTS b"
    using assms(1) by (auto simp: installItemLocked_def Let_def u buf_frame_def)
  show "bufItems b' = bufItems b @ [it']"
    using assms(1,3)
    by (auto simp: installItemLocked_def Let_def bufItems_def deref_def nth_append slice_ok_def)
qed

lemma idx_ok_install:
  assumes ok: "idx_ok b" and seq: "lastSeq b < 2 ^ 64 - 1"
    and fresh: "ID it \<noteq> [] \<longrightarrow> map_of (byID b) (ID it) = None"
    and r: "installItemLocked (ID it \<noteq> []) it sz b = (it', b')"
  shows "idx_ok b'"
proof -
  have sl: "slice_ok b" using ok by (simp add: idx_ok_def)
  note sh = install_shape [OF r seq sl]
  let ?p = "length (heap b)"
  have u: "u64_inc (lastSeq b) = Suc (lastSeq b)" using seq by (rule u64_inc_id)
  have heap': "heap b' = heap b @ [it']"
    using r by (auto simp: installItemLocked_def Let_def)
  have d: "deref b' q = (if q = ?p then it' else deref b q)" if "q < ?p \<or> q = ?p" for q
    using that by (auto simp: deref_def heap' nth_append)
  have lt: "q < ?p" if "q \<in> set (items b)" for q
    using sl that by (auto simp: slice_ok_def)
  have maxs: "Seq (deref b q) \<le> lastSeq b" if "q \<in> set (items b)" for q
    using sl that by (auto simp: slice_ok_def)
  have "slice_ok b'"
    using sl seq lt maxs d sh
    by (auto simp: slice_ok_def heap' sorted_wrt_append less_Suc_eq_le
        intro: less_imp_le le_SucI dest!: bufItems_memD)
  moreover have old: "q \<noteq> ?p \<and> deref b' q = deref b q" if "q \<in> set (items b)" for q
    using lt [OF that] d [of q] by auto
  have new: "deref b' ?p = it'" "?p \<notin> set (items b)" using d [of ?p] lt by auto
  have "byID_ok b'"
  proof -
    have m: "byID b' = (if ID it \<noteq> [] then AList.update (ID it) ?p (byID b) else byID b)"
      using r by (auto simp: installItemLocked_def Let_def)
    have i': "ID it' = ID it" using sh(1) by simp
    have oldk: "map_of (byID b) k = Some q \<longleftrightarrow> k \<noteq> [] \<and> q \<in> set (items b) \<and> ID (deref b q) = k" for k q
      using ok by (auto simp: idx_ok_def byID_ok_def)
    have ks: "distinct (map fst (byID b))" using ok by (auto simp: idx_ok_def byID_ok_def)
    have "map_of (byID b') k = Some q \<longleftrightarrow> k \<noteq> [] \<and> q \<in> set (items b') \<and> ID (deref b' q) = k" for k q
      using fresh old new i' oldk [of k q] oldk [of "ID it" q] by (auto simp: m sh(6))
    then show ?thesis using ks by (simp add: byID_ok_def m distinct_update)
  qed
  moreover have "bySeq_ok b'"
  proof -
    have m: "bySeq b' = AList.update (Suc (lastSeq b)) ?p (bySeq b)"
      using r u by (auto simp: installItemLocked_def Let_def)
    have i': "Seq it' = Suc (lastSeq b)" using sh(1) by simp
    have oldk: "map_of (bySeq b) k = Some q \<longleftrightarrow> q \<in> set (items b) \<and> Seq (deref b q) = k" for k q
      using ok by (auto simp: idx_ok_def bySeq_ok_def)
    have ks: "distinct (map fst (bySeq b))" using ok by (auto simp: idx_ok_def bySeq_ok_def)
    have "map_of (bySeq b') k = Some q \<longleftrightarrow> q \<in> set (items b') \<and> Seq (deref b' q) = k" for k q
      using old new i' oldk [of k q] maxs [of q] by (auto simp: m sh(6))
    then show ?thesis using ks by (simp add: bySeq_ok_def m distinct_update)
  qed
  moreover have "byUUID_ok b'"
  proof -
    have m: "byUUID b' = (if \<not> IsZero (UUID it) then AList.update (UUID it) ?p (byUUID b) else byUUID b)"
      using r by (auto simp: installItemLocked_def Let_def)
    have i': "UUID it' = UUID it" using sh(1) by simp
    have ks: "distinct (map fst (byUUID b))" using ok by (auto simp: idx_ok_def byUUID_ok_def)
    have "\<not> IsZero k \<and> q \<in> set (items b') \<and> UUID (deref b' q) = k"
      if h: "map_of (byUUID b') k = Some q" for k q
    proof (cases "\<not> IsZero (UUID it) \<and> k = UUID it")
      case True
      then show ?thesis using h new i' by (simp add: m sh(6))
    next
      case False
      then have "map_of (byUUID b) k = Some q" using h by (auto simp: m split: if_splits)
      then show ?thesis using byUUID_SomeD [OF ok] old by (simp add: sh(6))
    qed
    moreover have "distinct (map fst (byUUID b'))" using ks by (simp add: m distinct_update)
    ultimately show ?thesis unfolding byUUID_ok_def by blast
  qed
  ultimately show ?thesis by (simp add: idx_ok_def)
qed

lemma buf_ok_install:
  assumes ok: "buf_ok b" and seq: "lastSeq b < 2 ^ 64 - 1"
    and fresh: "ID it \<noteq> [] \<longrightarrow> map_of (byID b) (ID it) = None"
    and sz: "sz = approxItemSize it" and cell: "cell_ok it"
    and cap: "\<not> itemCapExceeded b (int (length (items b)) + 1)"
    and r: "installItemLocked (ID it \<noteq> []) it sz b = (it', b')"
  shows "buf_ok b'"
proof -
  have idx: "idx_ok b" using ok by (simp add: buf_ok_def)
  then have sl: "slice_ok b" by (simp add: idx_ok_def)
  note sh = install_shape [OF r seq sl]
  have e: "approxItemSize it' = approxItemSize it" "cell_ok it' = cell_ok it"
    using sh(1) by (simp_all add: approxItemSize_def Let_def renderLen_def cell_ok_def)
  have "idx_ok b'" by (rule idx_ok_install [OF idx seq fresh r])
  then show ?thesis
    using ok sz cell cap sh e by (auto simp: buf_ok_def itemCapExceeded_def buf_frame_def)
qed

lemma op_post_install:
  assumes acct: "acct_ok a" and ok: "buf_ok b" and seq: "lastSeq b < 2 ^ 64 - 1"
    and fresh: "ID it \<noteq> [] \<longrightarrow> map_of (byID b) (ID it) = None" and cell: "cell_ok it"
    and cap: "\<not> itemCapExceeded b (int (length (items b)) + 1)"
    and i: "installItemLocked (ID it \<noteq> []) it (approxItemSize it) b = (st, b1)"
    and a': "attached b \<Longrightarrow> \<exists>n m a1. reserveBytes (approxItemSize it) a = (True, n, m, a1) \<and>
        a' = bumpIf c t (a1\<lparr>totalItems := i64 (totalItems a1 + 1)\<rparr>)" "\<not> attached b \<Longrightarrow> a' = a"
  shows "op_post a b a' (b1\<lparr>bufLastWriteTS := t'\<rparr>)"
proof -
  have sl: "slice_ok b" using ok by (simp add: buf_ok_def idx_ok_def)
  note sh = install_shape [OF i seq sl]
  have ok1: "buf_ok b1" by (rule buf_ok_install [OF ok seq fresh refl cell cap i])
  have "totalBytes a' = totalBytes a + (if attached b then approxItemSize it else 0) \<and>
    totalItems a' = totalItems a + (if attached b then 1 else 0) \<and> caps_same a a' \<and>
    totalBytes a' \<le> maxStoreBytes a \<and> lastWriteTS a \<le> lastWriteTS a'"
  proof (cases "attached b")
    case True
    then obtain n m a1 where rb: "reserveBytes (approxItemSize it) a = (True, n, m, a1)"
      and e: "a' = bumpIf c t (a1\<lparr>totalItems := i64 (totalItems a1 + 1)\<rparr>)"
      using a' by blast
    have "- approxItemSize it \<le> totalBytes a"
      using acct approxItemSize_nonneg [of it] unfolding acct_ok_def by linarith
    note t = reserveBytes_True [OF acct rb this]
    have "totalItems a + 1 \<le> MaxInt64" "MinInt64 \<le> totalItems a + 1"
      using acct by (auto simp: acct_ok_def MaxInt64_def MinInt64_def)
    then show ?thesis using t e True by (simp add: caps_same_def bumpIf_def)
  next
    case False
    then show ?thesis using a' acct by (simp add: caps_same_def acct_ok_def)
  qed
  then show ?thesis
    using ok1 sh by (auto simp: op_post_def lockstep_def buf_frame_def)
qed

lemma install_keeps:
  assumes ok: "idx_ok b" and seq: "lastSeq b < 2 ^ 64 - 1" and r: "installItemLocked (ID it \<noteq> []) it sz b = (it', b')"
  shows "idkey_ok b \<Longrightarrow> idkey_ok b'"
    and "byUUID_full b \<Longrightarrow> uuids_new {UUID it} b \<Longrightarrow> byUUID_full b'"
    and "Scope it = n \<Longrightarrow> scope_items n b \<Longrightarrow> scope_items n b'"
proof -
  have sl: "slice_ok b" using ok by (simp add: idx_ok_def)
  note sh = install_shape [OF r seq sl]
  show "idkey_ok b \<Longrightarrow> idkey_ok b'"
    using r sh(1,3) by (auto simp: idkey_ok_def installItemLocked_def Let_def)
  show "Scope it = n \<Longrightarrow> scope_items n b \<Longrightarrow> scope_items n b'"
    using sh(1,3) by (auto simp: scope_items_def)
  let ?p = "length (heap b)"
  have m: "byUUID b' = (if \<not> IsZero (UUID it) then AList.update (UUID it) ?p (byUUID b) else byUUID b)"
    and h: "heap b' = heap b @ [it']"
    using r by (auto simp: installItemLocked_def Let_def)
  have old: "deref b' q = deref b q" if "q \<in> set (items b)" for q
    using sl that by (auto simp: slice_ok_def deref_def h nth_append)
  assume full: "byUUID_full b" and new: "uuids_new {UUID it} b"
  show "byUUID_full b'"
    unfolding byUUID_full_def
  proof (intro ballI impI)
    fix q assume q: "q \<in> set (items b')" and z: "\<not> IsZero (UUID (deref b' q))"
    show "map_of (byUUID b') (UUID (deref b' q)) = Some q"
    proof (cases "q = ?p")
      case True
      then show ?thesis using z sh(1) by (simp add: deref_def h m)
    next
      case False
      then have q': "q \<in> set (items b)" using q sh(6) by simp
      then have "UUID (deref b q) \<noteq> UUID it"
        using new z old [OF q'] by (auto simp: uuids_new_def)
      then show ?thesis using full q' z old [OF q'] by (auto simp: byUUID_full_def m)
    qed
  qed
qed

section \<open>Dropping entries\<close>

lemma idx_ok_restrict:
  assumes ok: "idx_ok b"
    and sub: "set (items b') \<subseteq> set (items b)" and d: "distinct (items b')"
    and srt: "sorted_wrt (<) (map Seq (bufItems b'))"
    and b': "heap b' = heap b" "lastSeq b' = lastSeq b"
    and keys: "distinct (map fst (byID b'))" "distinct (map fst (bySeq b'))" "distinct (map fst (byUUID b'))"
    and id: "\<And>k p. map_of (byID b') k = Some p \<longleftrightarrow> map_of (byID b) k = Some p \<and> p \<in> set (items b')"
    and seq: "\<And>k p. map_of (bySeq b') k = Some p \<longleftrightarrow> map_of (bySeq b) k = Some p \<and> p \<in> set (items b')"
    and uuid: "\<And>k p. map_of (byUUID b') k = Some p \<Longrightarrow> map_of (byUUID b) k = Some p \<and> p \<in> set (items b')"
  shows "idx_ok b'"
proof -
  have de: "deref b' q = deref b q" for q by (simp add: deref_def b')
  have "slice_ok b'"
    using ok sub d srt b' by (auto simp: idx_ok_def slice_ok_def de)
  moreover have "byID_ok b'"
    using ok keys id sub by (auto simp: byID_ok_def idx_ok_def de)
  moreover have "bySeq_ok b'"
    using ok keys seq sub by (auto simp: bySeq_ok_def idx_ok_def de)
  moreover have "byUUID_ok b'"
    using keys(3) byUUID_SomeD [OF ok]
    by (auto simp: byUUID_ok_def de dest!: uuid)
  ultimately show ?thesis by (simp add: idx_ok_def)
qed

text \<open>A set of entries is dropped from all three indexes by deleting the keys the entries carry.\<close>

lemma delete_keys_byID:
  assumes "idx_ok b" and "set rs \<subseteq> set (items b)"
  shows "map_of (delete_keys (filter (\<lambda>k. k \<noteq> []) (map (\<lambda>p. ID (deref b p)) rs)) (byID b)) k = Some p \<longleftrightarrow>
     map_of (byID b) k = Some p \<and> p \<notin> set rs"
proof -
  have "k \<in> (\<lambda>p. ID (deref b p)) ` set rs \<and> k \<noteq> [] \<longleftrightarrow> p \<in> set rs"
    if m: "map_of (byID b) k = Some p"
  proof
    assume "p \<in> set rs"
    then show "k \<in> (\<lambda>p. ID (deref b p)) ` set rs \<and> k \<noteq> []" using byID_SomeD [OF assms(1) m] by auto
  next
    assume "k \<in> (\<lambda>p. ID (deref b p)) ` set rs \<and> k \<noteq> []"
    then obtain q where q: "q \<in> set rs" "ID (deref b q) = k" "k \<noteq> []" by auto
    then have "map_of (byID b) k = Some q" using assms by (auto simp: idx_ok_def byID_ok_def)
    then show "p \<in> set rs" using m q by simp
  qed
  then show ?thesis by (auto simp: map_of_delete_keys)
qed

lemma delete_keys_bySeq:
  assumes "idx_ok b" and "set rs \<subseteq> set (items b)"
  shows "map_of (delete_keys (map (\<lambda>p. Seq (deref b p)) rs) (bySeq b)) k = Some p \<longleftrightarrow>
     map_of (bySeq b) k = Some p \<and> p \<notin> set rs"
proof -
  have "k \<in> (\<lambda>p. Seq (deref b p)) ` set rs \<longleftrightarrow> p \<in> set rs" if m: "map_of (bySeq b) k = Some p"
  proof
    assume "p \<in> set rs"
    then show "k \<in> (\<lambda>p. Seq (deref b p)) ` set rs" using bySeq_SomeD [OF assms(1) m] by auto
  next
    assume "k \<in> (\<lambda>p. Seq (deref b p)) ` set rs"
    then obtain q where q: "q \<in> set rs" "Seq (deref b q) = k" by auto
    then have "map_of (bySeq b) k = Some q" using assms by (auto simp: idx_ok_def bySeq_ok_def)
    then show "p \<in> set rs" using m q by simp
  qed
  then show ?thesis by (auto simp: map_of_delete_keys)
qed

lemma delete_keys_byUUID:
  assumes "idx_ok b" and "map_of (delete_keys (filter (\<lambda>u. \<not> IsZero u) (map (\<lambda>p. UUID (deref b p)) rs))
      (byUUID b)) k = Some p"
  shows "map_of (byUUID b) k = Some p \<and> p \<notin> set rs"
proof -
  have m: "map_of (byUUID b) k = Some p"
    and k: "\<not> (k \<in> (\<lambda>p. UUID (deref b p)) ` set rs \<and> \<not> IsZero k)"
    using assms(2) by (auto simp: map_of_delete_keys split: if_splits)
  show ?thesis using m k byUUID_SomeD [OF assms(1) m] by auto
qed

text \<open>
  The pointers of \<open>rs\<close> leave the slice and the indexes: the shape shared by a single delete and a
  prefix drain.
\<close>

definition dropped :: "nat list \<Rightarrow> nat list \<Rightarrow> scopeBuffer \<Rightarrow> scopeBuffer \<Rightarrow> bool" where
  "dropped rs keep b b' \<longleftrightarrow>
     items b' = keep \<and> heap b' = heap b \<and> lastSeq b' = lastSeq b \<and>
     bySeq b' = delete_keys (map (\<lambda>p. Seq (deref b p)) rs) (bySeq b) \<and>
     byID b' = delete_keys (filter (\<lambda>k. k \<noteq> []) (map (\<lambda>p. ID (deref b p)) rs)) (byID b) \<and>
     byUUID b' = delete_keys (filter (\<lambda>u. \<not> IsZero u) (map (\<lambda>p. UUID (deref b p)) rs)) (byUUID b)"

lemma idx_ok_dropped:
  assumes ok: "idx_ok b" and dr: "dropped rs keep b b'"
    and sets: "set rs \<subseteq> set (items b)" "set keep = set (items b) - set rs"
    and d: "distinct keep" and srt: "sorted_wrt (<) (map (\<lambda>p. Seq (deref b p)) keep)"
  shows "idx_ok b'"
proof -
  note b' = dr [unfolded dropped_def]
  have ks: "distinct (map fst (byID b))" "distinct (map fst (bySeq b))" "distinct (map fst (byUUID b))"
    using ok by (auto simp: idx_ok_def byID_ok_def bySeq_ok_def byUUID_ok_def)
  show ?thesis
  proof (rule idx_ok_restrict [OF ok])
    show "set (items b') \<subseteq> set (items b)" "distinct (items b')" using b' sets d by auto
    have "deref b' = deref b" using b' by (auto simp: deref_def fun_eq_iff)
    then show "sorted_wrt (<) (map Seq (bufItems b'))"
      using srt b' by (simp add: bufItems_def comp_def)
    show "heap b' = heap b" "lastSeq b' = lastSeq b" using b' by auto
    show "distinct (map fst (byID b'))" "distinct (map fst (bySeq b'))" "distinct (map fst (byUUID b'))"
      using b' ks by (simp_all add: distinct_delete_keys)
    fix k p
    show "map_of (byID b') k = Some p \<longleftrightarrow> map_of (byID b) k = Some p \<and> p \<in> set (items b')"
      using b' delete_keys_byID [OF ok sets(1), of k p] sets(2) byID_SomeD [OF ok, of k p]
      by auto
  next
    fix k p
    show "map_of (bySeq b') k = Some p \<longleftrightarrow> map_of (bySeq b) k = Some p \<and> p \<in> set (items b')"
      using b' delete_keys_bySeq [OF ok sets(1), of k p] sets(2) bySeq_SomeD [OF ok, of k p]
      by auto
  next
    fix k p assume "map_of (byUUID b') k = Some p"
    then show "map_of (byUUID b) k = Some p \<and> p \<in> set (items b')"
      using b' delete_keys_byUUID [OF ok, of rs k p] sets(2) byUUID_SomeD [OF ok, of k p] by auto
  qed
qed

end
