(* ===== verification/Buffer_Write.thy ===== *)
theory Buffer_Write
  imports BufferLaws
begin

text \<open>
  The single-item write paths of a scope buffer (\<^verbatim>\<open>buffer_write.go\<close>): append, upsert, and the three
  updates, each shown to satisfy the contract \<open>buffer_op\<close> and to do to the item list exactly what
  its abstract counterpart does (\<open>snoc\<close>, a map over the addressed entry).
\<close>

section \<open>Operations\<close>

definition renderOr :: "jsonLib \<Rightarrow> string option \<Rightarrow> string \<Rightarrow> string option" where
  "renderOr J rb payload = (case rb of None \<Rightarrow> precomputeRenderBytes J payload | Some r \<Rightarrow> Some r)"

definition sliceLen :: "string option \<Rightarrow> int" where
  "sliceLen rb = (case rb of None \<Rightarrow> 0 | Some r \<Rightarrow> int (length r))"

text \<open>
  The first half of \<^verbatim>\<open>insertNewItemLocked\<close>: clear the counter, stamp the time, precompute the
  rendered bytes, adopt the minted uuid.
\<close>

definition preparedItem :: "jsonLib \<Rightarrow> item \<Rightarrow> int \<Rightarrow> UUID \<Rightarrow> bool \<Rightarrow> item" where
  "preparedItem J item nowUs mintedUUID hasStore =
     (let it1 = item\<lparr>counter := None, Ts := nowUs\<rparr>;
          it2 = it1\<lparr>renderBytes := renderOr J (renderBytes it1) (Payload it1)\<rparr>
      in if hasStore \<and> IsZero (UUID it2) then it2\<lparr>UUID := mintedUUID\<rparr> else it2)"

definition insertNewItemLocked ::
    "jsonLib \<Rightarrow> item \<Rightarrow> int \<Rightarrow> UUID \<Rightarrow> storeAcct \<Rightarrow> scopeBuffer \<Rightarrow>
     (goError + item) \<times> storeAcct \<times> scopeBuffer" where
  "insertNewItemLocked J item nowUs mintedUUID a b =
     (let it = preparedItem J item nowUs mintedUUID (attached b);
          size = approxItemSize it
      in if attached b then
           (if size > bufMaxItemBytes b then (Inl (ItemCapError size (bufMaxItemBytes b) (Scope it)), a, b)
            else case reserveBytes size a of (ok, current, mx, a1) \<Rightarrow>
              if \<not> ok then (Inl (StoreFullError current size mx), a1, b)
              else case installItemLocked (ID it \<noteq> []) it size b of (stored, b1) \<Rightarrow>
                (Inr stored, bumpLastWriteTS nowUs (a1\<lparr>totalItems := i64 (totalItems a1 + 1)\<rparr>),
                 b1\<lparr>bufLastWriteTS := nowUs\<rparr>))
         else case installItemLocked (ID it \<noteq> []) it size b of (stored, b1) \<Rightarrow>
                (Inr stored, a, b1\<lparr>bufLastWriteTS := nowUs\<rparr>))"

definition appendItem ::
    "jsonLib \<Rightarrow> int \<Rightarrow> UUID \<Rightarrow> item \<Rightarrow> storeAcct \<Rightarrow> scopeBuffer \<Rightarrow>
     (goError + item) \<times> storeAcct \<times> scopeBuffer" where
  "appendItem J now mintedUUID item a b =
     (if detached b then (Inl ScopeDetachedError, a, b)
      else if itemCapExceeded b (int (length (items b)) + 1)
      then (Inl (ScopeFullError (int (length (items b))) (maxItems b)), a, b)
      else if ID item \<noteq> [] \<and> map_of (byID b) (ID item) \<noteq> None then (Inl IdExistsError, a, b)
      else insertNewItemLocked J item now mintedUUID a b)"

text \<open>
  The replace branch of \<^verbatim>\<open>upsertByID\<close> writes out the reservation of
  \<^verbatim>\<open>reservePayloadDeltaLocked\<close> and the field writes of \<^verbatim>\<open>replaceItemAtIndexLocked\<close>; the model
  calls the two. A \<^verbatim>\<open>(Item, bool, error)\<close> result is an error or the pair.
\<close>

definition upsertByID ::
    "jsonLib \<Rightarrow> int \<Rightarrow> UUID \<Rightarrow> item \<Rightarrow> storeAcct \<Rightarrow> scopeBuffer \<Rightarrow>
     (goError + item \<times> bool) \<times> storeAcct \<times> scopeBuffer" where
  "upsertByID J nowUs mintedUUID item a b =
     (if detached b then (Inl ScopeDetachedError, a, b)
      else case map_of (byID b) (ID item) of
        Some p \<Rightarrow>
          (let existing = deref b p;
               newRender = renderOr J (renderBytes item) (Payload item)
           in case reservePayloadDeltaLocked (payloadAndRenderBytes existing)
                     (int (length (Payload item)) + sliceLen newRender) a b of
                (Inl e, a1) \<Rightarrow> (Inl e, a1, b)
              | (Inr delta, a1) \<Rightarrow>
                  (case indexBySeqLocked b (Seq existing) of
                     None \<Rightarrow> (Inr (zeroItem, False), a1, b)
                   | Some i \<Rightarrow>
                       (case replaceItemAtIndexLocked i (Payload item) nowUs newRender delta a1 b of
                          (a2, b2) \<Rightarrow> (Inr (deref b2 (items b2 ! i), False), a2, b2))))
      | None \<Rightarrow>
          if itemCapExceeded b (int (length (items b)) + 1)
          then (Inl (ScopeFullError (int (length (items b))) (maxItems b)), a, b)
          else (case insertNewItemLocked J item nowUs mintedUUID a b of
                  (Inl e, a1, b1) \<Rightarrow> (Inl e, a1, b1)
                | (Inr inserted, a1, b1) \<Rightarrow> (Inr (inserted, True), a1, b1)))"

text \<open>The part the three updates share: reserve, find the position, write.\<close>

definition overwritePayloadLocked ::
    "nat \<Rightarrow> string \<Rightarrow> string option \<Rightarrow> int \<Rightarrow> storeAcct \<Rightarrow> scopeBuffer \<Rightarrow>
     (goError + nat) \<times> storeAcct \<times> scopeBuffer" where
  "overwritePayloadLocked p payload newRender now a b =
     (let existing = deref b p
      in case reservePayloadDeltaLocked (payloadAndRenderBytes existing)
                (int (length payload) + sliceLen newRender) a b of
           (Inl e, a1) \<Rightarrow> (Inl e, a1, b)
         | (Inr delta, a1) \<Rightarrow>
             (case indexBySeqLocked b (Seq existing) of
                None \<Rightarrow> (Inr 0, a1, b)
              | Some i \<Rightarrow> (case replaceItemAtIndexLocked i payload now newRender delta a1 b of
                            (a2, b2) \<Rightarrow> (Inr 1, a2, b2))))"

text \<open>The re-check of the per-item cap on the item as it will be stored.\<close>

definition updateCandidate :: "item \<Rightarrow> string \<Rightarrow> string option \<Rightarrow> item" where
  "updateCandidate existing payload newRender =
     zeroItem\<lparr>Scope := Scope existing, ID := ID existing, UUID := UUID existing, Payload := payload,
       renderBytes := newRender\<rparr>"

definition updateByID ::
    "jsonLib \<Rightarrow> int \<Rightarrow> string \<Rightarrow> string \<Rightarrow> string option \<Rightarrow> storeAcct \<Rightarrow> scopeBuffer \<Rightarrow>
     (goError + nat) \<times> storeAcct \<times> scopeBuffer" where
  "updateByID J now idv payload preRender a b =
     (if detached b then (Inl ScopeDetachedError, a, b)
      else case map_of (byID b) idv of
        None \<Rightarrow> (Inr 0, a, b)
      | Some p \<Rightarrow> overwritePayloadLocked p payload (renderOr J preRender payload) now a b)"

definition updateBySeq ::
    "jsonLib \<Rightarrow> int \<Rightarrow> nat \<Rightarrow> string \<Rightarrow> string option \<Rightarrow> storeAcct \<Rightarrow> scopeBuffer \<Rightarrow>
     (goError + nat) \<times> storeAcct \<times> scopeBuffer" where
  "updateBySeq J now seq payload preRender a b =
     (if detached b then (Inl ScopeDetachedError, a, b)
      else case map_of (bySeq b) seq of
        None \<Rightarrow> (Inr 0, a, b)
      | Some p \<Rightarrow>
          (let newRender = renderOr J preRender payload;
               size = approxItemSize (updateCandidate (deref b p) payload newRender);
               cap = maxItemBytesFor a (Scope (deref b p))
           in if attached b \<and> size > cap then (Inl (InvalidInput (ItemTooLarge size cap)), a, b)
              else overwritePayloadLocked p payload newRender now a b))"

definition updateByUUID ::
    "jsonLib \<Rightarrow> int \<Rightarrow> UUID \<Rightarrow> string \<Rightarrow> string option \<Rightarrow> storeAcct \<Rightarrow> scopeBuffer \<Rightarrow>
     (goError + nat) \<times> storeAcct \<times> scopeBuffer" where
  "updateByUUID J now u payload preRender a b =
     (if detached b then (Inl ScopeDetachedError, a, b)
      else case map_of (byUUID b) u of
        None \<Rightarrow> (Inr 0, a, b)
      | Some p \<Rightarrow>
          (let newRender = renderOr J preRender payload;
               size = approxItemSize (updateCandidate (deref b p) payload newRender);
               cap = maxItemBytesFor a (Scope (deref b p))
           in if attached b \<and> size > cap then (Inl (InvalidInput (ItemTooLarge size cap)), a, b)
              else overwritePayloadLocked p payload newRender now a b))"

section \<open>Inserting\<close>

lemma preparedItem_simps [simp]:
  "ID (preparedItem J it now u att) = ID it" "Scope (preparedItem J it now u att) = Scope it"
  "counter (preparedItem J it now u att) = None" "cell_ok (preparedItem J it now u att)"
  "UUID (preparedItem J it now u att) = (if att \<and> IsZero (UUID it) then u else UUID it)"
  "Payload (preparedItem J it now u att) = Payload it" "Ts (preparedItem J it now u att) = now"
  by (simp_all add: preparedItem_def cell_ok_def Let_def)

lemma insertNew_Inl: "insertNewItemLocked J item nowUs u a b = (Inl e, a', b') \<Longrightarrow> a' = a \<and> b' = b"
  by (auto simp: insertNewItemLocked_def Let_def split: if_splits prod.splits dest: reserveBytes_False(1))

lemma insertNew_Inr:
  assumes "insertNewItemLocked J item nowUs u a b = (Inr st, a', b')"
  obtains b1 where "installItemLocked (ID (preparedItem J item nowUs u (attached b)) \<noteq> [])
      (preparedItem J item nowUs u (attached b))
      (approxItemSize (preparedItem J item nowUs u (attached b))) b = (st, b1)"
    and "b' = b1\<lparr>bufLastWriteTS := nowUs\<rparr>"
    and "attached b \<Longrightarrow> approxItemSize (preparedItem J item nowUs u (attached b)) \<le> bufMaxItemBytes b"
    and "attached b \<Longrightarrow> \<exists>n m a1. reserveBytes (approxItemSize (preparedItem J item nowUs u (attached b))) a
           = (True, n, m, a1) \<and> a' = bumpLastWriteTS nowUs (a1\<lparr>totalItems := i64 (totalItems a1 + 1)\<rparr>)"
    and "\<not> attached b \<Longrightarrow> a' = a"
  using assms by (auto simp: insertNewItemLocked_def Let_def split: if_splits prod.splits)

lemma insertNew_post:
  assumes acct: "acct_ok a" and fits: "fits a b" and ok: "buf_ok b" and seq: "lastSeq b < 2 ^ 64 - 1"
    and cap: "\<not> itemCapExceeded b (int (length (items b)) + 1)"
    and fresh: "ID item \<noteq> [] \<longrightarrow> map_of (byID b) (ID item) = None"
    and r: "insertNewItemLocked J item nowUs u a b = (Inr st, a', b')"
  shows "op_post a b a' b'"
proof -
  let ?it = "preparedItem J item nowUs u (attached b)"
  obtain b1 where i: "installItemLocked (ID ?it \<noteq> []) ?it (approxItemSize ?it) b = (st, b1)"
    and b': "b' = b1\<lparr>bufLastWriteTS := nowUs\<rparr>"
    and a': "attached b \<Longrightarrow> \<exists>n m a1. reserveBytes (approxItemSize ?it) a = (True, n, m, a1) \<and>
        a' = bumpIf True nowUs (a1\<lparr>totalItems := i64 (totalItems a1 + 1)\<rparr>)" "\<not> attached b \<Longrightarrow> a' = a"
    by (rule insertNew_Inr [OF r]) (auto simp: bumpIf_def)
  show ?thesis unfolding b'
    by (rule op_post_install [OF acct ok seq _ _ cap i a']) (use fresh in simp_all)
qed

lemma insertNew_keeps:
  assumes ok: "buf_ok b" and seq: "lastSeq b < 2 ^ 64 - 1"
    and r: "insertNewItemLocked J item nowUs u a b = (Inr st, a', b')"
  shows "idkey_ok b \<Longrightarrow> idkey_ok b'"
    and "byUUID_full b \<Longrightarrow> uuids_new {u, UUID item} b \<Longrightarrow> byUUID_full b'"
    and "scope_items (Scope item) b \<Longrightarrow> scope_items (Scope item) b'"
    and "st = (preparedItem J item nowUs u (attached b))\<lparr>Seq := Suc (lastSeq b)\<rparr>"
    and "bufItems b' = bufItems b @ [st]" and "lastSeq b' = Suc (lastSeq b)"
proof -
  let ?it = "preparedItem J item nowUs u (attached b)"
  obtain b1 where i: "installItemLocked (ID ?it \<noteq> []) ?it (approxItemSize ?it) b = (st, b1)"
    and b': "b' = b1\<lparr>bufLastWriteTS := nowUs\<rparr>"
    by (rule insertNew_Inr [OF r]) blast
  have idx: "idx_ok b" using ok by (simp add: buf_ok_def)
  then have sl: "slice_ok b" by (simp add: idx_ok_def)
  note k = install_keeps [OF idx seq i] and sh = install_shape [OF i seq sl]
  show "idkey_ok b \<Longrightarrow> idkey_ok b'" using k(1) by (simp add: b')
  show "byUUID_full b \<Longrightarrow> uuids_new {u, UUID item} b \<Longrightarrow> byUUID_full b'"
    using k(2) by (auto simp: b' uuids_new_def split: if_splits)
  show "scope_items (Scope item) b \<Longrightarrow> scope_items (Scope item) b'"
    using k(3) [of "Scope item"] by (simp add: b')
  show "st = ?it\<lparr>Seq := Suc (lastSeq b)\<rparr>" "bufItems b' = bufItems b @ [st]" "lastSeq b' = Suc (lastSeq b)"
    using sh by (simp_all add: b')
qed

section \<open>Append\<close>

lemma append_cases:
  assumes "appendItem J now u item a b = (r, a', b')"
  obtains (err) e where "r = Inl e" "a' = a" "b' = b"
  | (ok) st where "r = Inr st" "\<not> detached b" "\<not> itemCapExceeded b (int (length (items b)) + 1)"
      "ID item \<noteq> [] \<longrightarrow> map_of (byID b) (ID item) = None"
      "insertNewItemLocked J item now u a b = (Inr st, a', b')"
proof (cases r)
  case (Inl e)
  then show ?thesis using assms err by (auto simp: appendItem_def split: if_splits dest: insertNew_Inl)
next
  case (Inr st)
  then show ?thesis using assms ok [of st] by (auto simp: appendItem_def split: if_splits)
qed

interpretation append: buffer_op "appendItem J now u it" "Scope it" "{u, UUID it}" for J now u it
proof
  fix a b r a' b'
  assume h: "acct_ok a" "fits a b" "buf_ok b" "lastSeq b < 2 ^ 64 - 1" and e: "appendItem J now u it a b = (r, a', b')"
  from e show "op_post a b a' b'"
    by (cases rule: append_cases) (use h in \<open>auto intro: op_post_refl insertNew_post\<close>)
next
  fix a b r a' b'
  assume h: "buf_ok b" "lastSeq b < 2 ^ 64 - 1" and e: "appendItem J now u it a b = (r, a', b')"
  from e show "scope_items (Scope it) b \<Longrightarrow> scope_items (Scope it) b'"
    by (cases rule: append_cases) (use h in \<open>auto dest: insertNew_keeps(3)\<close>)
  from e show "idkey_ok b \<Longrightarrow> idkey_ok b'"
    by (cases rule: append_cases) (use h in \<open>auto dest: insertNew_keeps(1)\<close>)
  from e show "byUUID_full b \<Longrightarrow> uuids_new {u, UUID it} b \<Longrightarrow> byUUID_full b'"
    by (cases rule: append_cases) (use h in \<open>auto dest: insertNew_keeps(2)\<close>)
qed (auto simp: appendItem_def)

text \<open>An accepted append is a snoc: the stored item, with the next sequence number, at the end.\<close>

lemma append_view:
  assumes "buf_ok b" "lastSeq b < 2 ^ 64 - 1" "appendItem J now u it a b = (Inr st, a', b')"
  shows "bufItems b' = bufItems b @ [st]"
    and "st = (preparedItem J it now u (attached b))\<lparr>Seq := Suc (lastSeq b)\<rparr>"
    and "lastSeq b' = Suc (lastSeq b)"
  using assms(3) by (cases rule: append_cases; use assms(1,2) in \<open>auto dest: insertNew_keeps(4-6)\<close>)+

section \<open>Overwriting a payload\<close>

definition overwritten :: "string \<Rightarrow> int \<Rightarrow> string option \<Rightarrow> item \<Rightarrow> item" where
  "overwritten payload ts rb it = it\<lparr>Payload := payload, Ts := ts, renderBytes := rb, counter := None\<rparr>"

lemma overwritten_simps [simp]:
  "Scope (overwritten p t r it) = Scope it" "ID (overwritten p t r it) = ID it"
  "Seq (overwritten p t r it) = Seq it" "UUID (overwritten p t r it) = UUID it"
  "cell_ok (overwritten p t r it)" "Payload (overwritten p t r it) = p"
  by (simp_all add: overwritten_def cell_ok_def)

lemma overwritten_size:
  "approxItemSize (overwritten payload t rb it) - approxItemSize it =
     int (length payload) + sliceLen rb - payloadAndRenderBytes it"
proof -
  have "payloadAndRenderBytes (overwritten payload t rb it) = int (length payload) + sliceLen rb"
    by (simp add: payloadAndRenderBytes_def overwritten_def renderLen_def sliceLen_def)
  then show ?thesis by (simp add: approxItemSize_split)
qed

lemma overwrite_cases:
  assumes ok: "buf_ok b" and p: "p \<in> set (items b)"
    and r: "overwritePayloadLocked p payload rb now a b = (r, a', b')"
  obtains (err) e where "r = Inl e" "a' = a" "b' = b"
  | (hit) i d a1 where "r = Inr 1" "i < length (items b)" "items b ! i = p"
      "reservePayloadDeltaLocked (payloadAndRenderBytes (deref b p)) (int (length payload) + sliceLen rb) a b
         = (Inr d, a1)"
      "a' = bumpIf (attached b) now a1"
      "b' = b\<lparr>heap := (heap b)[p := overwritten payload now rb (deref b p)], bytes := bytes b + d,
         bufLastWriteTS := now\<rparr>"
proof -
  have "slice_ok b" using ok by (simp add: buf_ok_def idx_ok_def)
  from indexBySeq_hit [OF this p] obtain i
    where i: "indexBySeqLocked b (Seq (deref b p)) = Some i" "i < length (items b)" "items b ! i = p"
    by blast
  show thesis
    using r i err hit
    by (auto simp: overwritePayloadLocked_def replaceItemAtIndexLocked_def overwritten_def Let_def
        split: prod.splits sum.splits dest: reserveDelta_Inl)
qed

lemma overwrite_post:
  assumes "acct_ok a" "fits a b" "buf_ok b" "p \<in> set (items b)"
    and r: "overwritePayloadLocked p payload rb now a b = (r, a', b')"
  shows "op_post a b a' b'"
  using assms(3,4) r
proof (cases rule: overwrite_cases)
  case err
  then show ?thesis using assms by (simp add: op_post_refl)
next
  case (hit i d a1)
  show ?thesis unfolding hit(5)
    by (rule op_post_set [OF assms(1-3) hit(2,3) _ _ _ _ hit(4) _ hit(6)])
      (simp_all add: overwritten_size)
qed

lemma overwrite_keeps:
  assumes "buf_ok b" "p \<in> set (items b)" and r: "overwritePayloadLocked p payload rb now a b = (r, a', b')"
  shows "idkey_ok b \<Longrightarrow> idkey_ok b'" and "byUUID_full b \<Longrightarrow> byUUID_full b'"
    and "scope_items n b \<Longrightarrow> scope_items n b'"
proof -
  from assms have "(idkey_ok b \<longrightarrow> idkey_ok b') \<and> (byUUID_full b \<longrightarrow> byUUID_full b') \<and>
    (scope_items n b \<longrightarrow> scope_items n b')"
  proof (cases rule: overwrite_cases)
    case (hit i d a1)
    note k = set_keeps [OF assms(1) hit(2,3), of "overwritten payload now rb (deref b p)" b']
    show ?thesis using k by (simp add: hit(6))
  qed simp
  then show "idkey_ok b \<Longrightarrow> idkey_ok b'" "byUUID_full b \<Longrightarrow> byUUID_full b'"
    "scope_items n b \<Longrightarrow> scope_items n b'"
    by simp_all
qed

lemma overwrite_view:
  assumes ok: "buf_ok b" and p: "p \<in> set (items b)"
    and P: "\<And>x. x \<in> set (bufItems b) \<Longrightarrow> P x \<longleftrightarrow> Seq x = Seq (deref b p)"
    and r: "overwritePayloadLocked p payload rb now a b = (Inr n, a', b')"
  shows "n = 1" and "bufItems b' = map (\<lambda>x. if P x then overwritten payload now rb x else x) (bufItems b)"
proof -
  from ok p r have "n = 1 \<and> bufItems b' = map (\<lambda>x. if P x then overwritten payload now rb x else x) (bufItems b)"
  proof (cases rule: overwrite_cases)
    case (hit i d a1)
    have sl: "idx_ok b" "sorted_wrt (<) (map Seq (bufItems b))"
      using assms(1) by (simp_all add: buf_ok_def idx_ok_def slice_ok_def)
    have "bufItems b' = (bufItems b)[i := overwritten payload now rb (bufItems b ! i)]"
      using bufItems_set [OF sl(1) hit(2,3), of b'] hit(2,3,6) by simp
    also have "\<dots> = map (\<lambda>x. if P x then overwritten payload now rb x else x) (bufItems b)"
      by (rule list_update_as_map [where f = Seq])
        (use hit P sl strict_sorted_iff in auto)
    finally show ?thesis using hit(1) by simp
  qed simp
  then show "n = 1" "bufItems b' = map (\<lambda>x. if P x then overwritten payload now rb x else x) (bufItems b)"
    by simp_all
qed

section \<open>The three updates\<close>

lemmas buf_ok_idx = buf_ok_def [THEN iffD1, THEN conjunct1]

lemma byID_live: "buf_ok b \<Longrightarrow> map_of (byID b) k = Some p \<Longrightarrow> p \<in> set (items b)"
  and bySeq_live: "buf_ok b \<Longrightarrow> map_of (bySeq b) q = Some p \<Longrightarrow> p \<in> set (items b)"
  and byUUID_live: "buf_ok b \<Longrightarrow> map_of (byUUID b) u = Some p \<Longrightarrow> p \<in> set (items b)"
  using byID_SomeD bySeq_SomeD byUUID_SomeD buf_ok_idx by blast+

text \<open>An operation that overwrites one live entry or does nothing satisfies the contract.\<close>

lemma buffer_op_overwrite:
  assumes "\<And>a b r a' b'. op a b = (r, a', b') \<Longrightarrow> a' = a \<and> b' = b \<or>
      \<not> detached b \<and> (\<exists>p payload rb now. (buf_ok b \<longrightarrow> p \<in> set (items b)) \<and>
         overwritePayloadLocked p payload rb now a b = (r, a', b'))"
  shows "buffer_op op n {}"
proof
  fix a b r a' b'
  assume h: "acct_ok a" "fits a b" "buf_ok b" and e: "op a b = (r, a', b')"
  show "op_post a b a' b'" using assms [OF e] h by (auto intro: op_post_refl overwrite_post)
next
  fix a b r a' b'
  assume h: "buf_ok b" and e: "op a b = (r, a', b')"
  show "scope_items n b \<Longrightarrow> scope_items n b'" using assms [OF e] h by (auto dest: overwrite_keeps(3))
  show "idkey_ok b \<Longrightarrow> idkey_ok b'" using assms [OF e] h by (auto dest: overwrite_keeps(1))
  show "byUUID_full b \<Longrightarrow> uuids_new {} b \<Longrightarrow> byUUID_full b'"
    using assms [OF e] h by (auto dest: overwrite_keeps(2))
next
  fix a b r a' b'
  assume "detached b" and e: "op a b = (r, a', b')"
  then show "a' = a \<and> b' = b" using assms [OF e] by auto
qed

interpretation updID: buffer_op "updateByID J now idv payload pre" n "{}" for J now idv payload pre n
  by (rule buffer_op_overwrite)
    (auto simp: updateByID_def split: if_splits option.splits intro: byID_live)

interpretation updSeq: buffer_op "updateBySeq J now seq payload pre" n "{}" for J now seq payload pre n
  by (rule buffer_op_overwrite)
    (auto simp: updateBySeq_def Let_def split: if_splits option.splits intro: bySeq_live)

interpretation updUUID: buffer_op "updateByUUID J now u payload pre" n "{}" for J now u payload pre n
  by (rule buffer_op_overwrite)
    (auto simp: updateByUUID_def Let_def split: if_splits option.splits intro: byUUID_live)

text \<open>
  An address (an id, a sequence number, a uuid) names the entry its index points at and no other.
\<close>

lemma seq_eq_iff:
  assumes "buf_ok b" "p \<in> set (items b)" "q \<in> set (items b)"
  shows "Seq (deref b q) = Seq (deref b p) \<longleftrightarrow> q = p"
  using assms slice_seq_inj [of b q p] by (auto simp: buf_ok_def idx_ok_def)

lemma id_addresses:
  assumes ok: "buf_ok b" and k: "k \<noteq> []" and x: "x \<in> set (bufItems b)"
  shows "ID x = k \<longleftrightarrow> (\<exists>p. map_of (byID b) k = Some p \<and> Seq x = Seq (deref b p))"
proof -
  obtain q where q: "q \<in> set (items b)" "x = deref b q" using x by (auto dest: bufItems_memD)
  have "ID (deref b q) = k \<longleftrightarrow> map_of (byID b) k = Some q"
    using ok k q(1) by (auto simp: buf_ok_def idx_ok_def byID_ok_def)
  then show ?thesis using q seq_eq_iff [OF ok _ q(1)] byID_live [OF ok] by auto
qed

lemma byID_None_iff: "buf_ok b \<Longrightarrow> k \<noteq> [] \<Longrightarrow> map_of (byID b) k = None \<longleftrightarrow> (\<forall>x \<in> set (bufItems b). ID x \<noteq> k)"
  using byID_live [of b k] id_addresses [of b k] by (cases "map_of (byID b) k") (auto 0 3 dest!: bufItems_memD)

lemma seq_addresses:
  assumes ok: "buf_ok b" and x: "x \<in> set (bufItems b)"
  shows "Seq x = k \<longleftrightarrow> (\<exists>p. map_of (bySeq b) k = Some p \<and> Seq x = Seq (deref b p))"
proof -
  obtain q where q: "q \<in> set (items b)" "x = deref b q" using x by (auto dest: bufItems_memD)
  have "Seq (deref b q) = k \<longleftrightarrow> map_of (bySeq b) k = Some q"
    using ok q(1) by (auto simp: buf_ok_def idx_ok_def bySeq_ok_def)
  then show ?thesis using q seq_eq_iff [OF ok _ q(1)] bySeq_live [OF ok] by auto
qed

lemma uuid_addresses:
  assumes ok: "buf_ok b" and full: "byUUID_full b" and k: "\<not> IsZero k" and x: "x \<in> set (bufItems b)"
  shows "UUID x = k \<longleftrightarrow> (\<exists>p. map_of (byUUID b) k = Some p \<and> Seq x = Seq (deref b p))"
proof -
  obtain q where q: "q \<in> set (items b)" "x = deref b q" using x by (auto dest: bufItems_memD)
  have "UUID (deref b q) = k \<longleftrightarrow> map_of (byUUID b) k = Some q"
    using full k q(1) byUUID_SomeD [OF buf_ok_idx [OF ok], of k q] by (auto simp: byUUID_full_def)
  then show ?thesis using q seq_eq_iff [OF ok _ q(1)] byUUID_live [OF ok] by auto
qed

text \<open>What the updates do to the item list: the addressed entry is rewritten in place.\<close>

lemma found_view:
  assumes ok: "buf_ok b"
    and P: "\<And>x. x \<in> set (bufItems b) \<Longrightarrow> P x \<longleftrightarrow> (\<exists>p. m = Some p \<and> Seq x = Seq (deref b p))"
    and live: "\<And>p. m = Some p \<Longrightarrow> p \<in> set (items b)"
    and r: "case m of None \<Rightarrow> n = 0 \<and> b' = b
       | Some p \<Rightarrow> overwritePayloadLocked p payload rb now a b = (Inr n, a', b')"
  shows "bufItems b' = map (\<lambda>x. if P x then overwritten payload now rb x else x) (bufItems b)"
    and "n = (if \<exists>x \<in> set (bufItems b). P x then 1 else 0)"
proof -
  have "bufItems b' = map (\<lambda>x. if P x then overwritten payload now rb x else x) (bufItems b) \<and>
    n = (if \<exists>x \<in> set (bufItems b). P x then 1 else 0)"
  proof (cases m)
    case None
    then show ?thesis using P r by (auto simp: map_idI)
  next
    case (Some p)
    then have p: "p \<in> set (items b)" and ov: "overwritePayloadLocked p payload rb now a b = (Inr n, a', b')"
      using live r by auto
    note v = overwrite_view [where P = P, OF ok p _ ov]
    have "\<exists>x \<in> set (bufItems b). P x" using P Some p by blast
    then show ?thesis using v P Some by simp
  qed
  then show "bufItems b' = map (\<lambda>x. if P x then overwritten payload now rb x else x) (bufItems b)"
    and "n = (if \<exists>x \<in> set (bufItems b). P x then 1 else 0)"
    by blast+
qed

lemma updateByID_view:
  assumes ok: "buf_ok b" and r: "updateByID J now k payload pre a b = (Inr n, a', b')" and k: "k \<noteq> []"
  shows "bufItems b' =
      map (\<lambda>x. if ID x = k then overwritten payload now (renderOr J pre payload) x else x) (bufItems b)"
    and "n = (if \<exists>x \<in> set (bufItems b). ID x = k then 1 else 0)"
proof -
  have "case map_of (byID b) k of None \<Rightarrow> n = 0 \<and> b' = b
    | Some p \<Rightarrow> overwritePayloadLocked p payload (renderOr J pre payload) now a b = (Inr n, a', b')"
    using r by (auto simp: updateByID_def split: if_splits option.splits)
  from found_view [OF ok id_addresses [OF ok k] byID_live [OF ok] this]
  show "bufItems b' =
      map (\<lambda>x. if ID x = k then overwritten payload now (renderOr J pre payload) x else x) (bufItems b)"
    "n = (if \<exists>x \<in> set (bufItems b). ID x = k then 1 else 0)" by simp_all
qed

lemma updateBySeq_view:
  assumes ok: "buf_ok b" and r: "updateBySeq J now k payload pre a b = (Inr n, a', b')"
  shows "bufItems b' =
      map (\<lambda>x. if Seq x = k then overwritten payload now (renderOr J pre payload) x else x) (bufItems b)"
    and "n = (if \<exists>x \<in> set (bufItems b). Seq x = k then 1 else 0)"
proof -
  have "case map_of (bySeq b) k of None \<Rightarrow> n = 0 \<and> b' = b
    | Some p \<Rightarrow> overwritePayloadLocked p payload (renderOr J pre payload) now a b = (Inr n, a', b')"
    using r by (auto simp: updateBySeq_def Let_def split: if_splits option.splits)
  from found_view [OF ok seq_addresses [OF ok] bySeq_live [OF ok] this]
  show "bufItems b' =
      map (\<lambda>x. if Seq x = k then overwritten payload now (renderOr J pre payload) x else x) (bufItems b)"
    "n = (if \<exists>x \<in> set (bufItems b). Seq x = k then 1 else 0)" by simp_all
qed

lemma updateByUUID_view:
  assumes ok: "buf_ok b" "byUUID_full b" and r: "updateByUUID J now k payload pre a b = (Inr n, a', b')"
    and k: "\<not> IsZero k"
  shows "bufItems b' =
      map (\<lambda>x. if UUID x = k then overwritten payload now (renderOr J pre payload) x else x) (bufItems b)"
    and "n = (if \<exists>x \<in> set (bufItems b). UUID x = k then 1 else 0)"
proof -
  have "case map_of (byUUID b) k of None \<Rightarrow> n = 0 \<and> b' = b
    | Some p \<Rightarrow> overwritePayloadLocked p payload (renderOr J pre payload) now a b = (Inr n, a', b')"
    using r by (auto simp: updateByUUID_def Let_def split: if_splits option.splits)
  from found_view [OF ok(1) uuid_addresses [OF ok k] byUUID_live [OF ok(1)] this]
  show "bufItems b' =
      map (\<lambda>x. if UUID x = k then overwritten payload now (renderOr J pre payload) x else x) (bufItems b)"
    "n = (if \<exists>x \<in> set (bufItems b). UUID x = k then 1 else 0)" by simp_all
qed

section \<open>Upsert\<close>

lemma upsert_cases:
  assumes ok: "buf_ok b" and r: "upsertByID J now u item a b = (r, a', b')"
  obtains (err) e where "r = Inl e" "a' = a" "b' = b"
  | (create) st where "r = Inr (st, True)" "\<not> detached b" "\<not> itemCapExceeded b (int (length (items b)) + 1)"
      "map_of (byID b) (ID item) = None" "insertNewItemLocked J item now u a b = (Inr st, a', b')"
  | (replace) p where "r = Inr (overwritten (Payload item) now (renderOr J (renderBytes item) (Payload item)) (deref b p), False)"
      "\<not> detached b" "map_of (byID b) (ID item) = Some p"
      "overwritePayloadLocked p (Payload item) (renderOr J (renderBytes item) (Payload item)) now a b
        = (Inr 1, a', b')"
proof (cases "map_of (byID b) (ID item)")
  case None
  then show ?thesis using r err create
    by (auto simp: upsertByID_def split: if_splits prod.splits sum.splits dest: insertNew_Inl)
next
  case (Some p)
  have sl: "slice_ok b" using ok by (simp add: buf_ok_def idx_ok_def)
  from indexBySeq_hit [OF sl byID_live [OF ok Some]] obtain i
    where i: "indexBySeqLocked b (Seq (deref b p)) = Some i" "i < length (items b)" "items b ! i = p"
    by blast
  have h: "p < length (heap b)" using sl i by (auto simp: slice_ok_def)
  show ?thesis using r i Some err replace h
    by (auto simp: upsertByID_def overwritePayloadLocked_def replaceItemAtIndexLocked_def Let_def
        overwritten_def deref_def split: if_splits prod.splits sum.splits dest: reserveDelta_Inl)
qed

interpretation upsert: buffer_op "upsertByID J now u it" "Scope it" "{u, UUID it}" for J now u it
proof
  fix a b r a' b'
  assume h: "acct_ok a" "fits a b" "buf_ok b" "lastSeq b < 2 ^ 64 - 1" and e: "upsertByID J now u it a b = (r, a', b')"
  from h(3) e show "op_post a b a' b'"
    by (cases rule: upsert_cases)
      (use h in \<open>auto intro: op_post_refl insertNew_post overwrite_post byID_live\<close>)
next
  fix a b r a' b'
  assume h: "buf_ok b" "lastSeq b < 2 ^ 64 - 1" and e: "upsertByID J now u it a b = (r, a', b')"
  from h(1) e show "scope_items (Scope it) b \<Longrightarrow> scope_items (Scope it) b'"
    by (cases rule: upsert_cases) (use h in \<open>auto dest: insertNew_keeps(3) overwrite_keeps(3) byID_live\<close>)
  from h(1) e show "idkey_ok b \<Longrightarrow> idkey_ok b'"
    by (cases rule: upsert_cases) (use h in \<open>auto dest: insertNew_keeps(1) overwrite_keeps(1) byID_live\<close>)
  from h(1) e show "byUUID_full b \<Longrightarrow> uuids_new {u, UUID it} b \<Longrightarrow> byUUID_full b'"
    by (cases rule: upsert_cases) (use h in \<open>auto dest: insertNew_keeps(2) overwrite_keeps(2) byID_live\<close>)
qed (auto simp: upsertByID_def)

text \<open>
  An upsert either replaces the content of the entry with that id in place, keeping its sequence
  number and uuid, or, if there is none, appends.
\<close>

lemma upsert_view:
  assumes ok: "buf_ok b" "lastSeq b < 2 ^ 64 - 1" and k: "ID it \<noteq> []"
    and r: "upsertByID J now u it a b = (Inr (st, created), a', b')"
  shows "created \<longleftrightarrow> (\<forall>x \<in> set (bufItems b). ID x \<noteq> ID it)"
    and "created \<Longrightarrow> bufItems b' = bufItems b @ [st]"
    and "\<not> created \<Longrightarrow> bufItems b' = map (\<lambda>x. if ID x = ID it
           then overwritten (Payload it) now (renderOr J (renderBytes it) (Payload it)) x else x) (bufItems b)"
    and "st \<in> set (bufItems b') \<and> ID st = ID it \<and> Payload st = Payload it \<and> Ts st = now"
proof -
  note addr = id_addresses [OF ok(1) k]
  have "(created \<longleftrightarrow> (\<forall>x \<in> set (bufItems b). ID x \<noteq> ID it)) \<and> (created \<longrightarrow> bufItems b' = bufItems b @ [st]) \<and>
    (\<not> created \<longrightarrow> bufItems b' = map (\<lambda>x. if ID x = ID it
           then overwritten (Payload it) now (renderOr J (renderBytes it) (Payload it)) x else x) (bufItems b)) \<and>
    (st \<in> set (bufItems b') \<and> ID st = ID it \<and> Payload st = Payload it \<and> Ts st = now)"
    using ok(1) r
  proof (cases rule: upsert_cases)
    case (create st')
    from insertNew_keeps [OF ok create(5)] create addr show ?thesis by auto
  next
    case (replace p)
    have p: "p \<in> set (items b)" using byID_live [OF ok(1) replace(3)] .
    have P: "\<And>x. x \<in> set (bufItems b) \<Longrightarrow> (ID x = ID it) = (Seq x = Seq (deref b p))"
      using addr replace(3) by simp
    note v = overwrite_view(2) [where P = "\<lambda>x. ID x = ID it", OF ok(1) p P replace(4)]
    have "deref b p \<in> set (bufItems b)" "ID (deref b p) = ID it"
      using p byID_SomeD [OF buf_ok_idx [OF ok(1)] replace(3)] by auto
    then show ?thesis using replace(1) v by (auto simp: overwritten_def)
  qed simp
  then show "created \<longleftrightarrow> (\<forall>x \<in> set (bufItems b). ID x \<noteq> ID it)"
    "created \<Longrightarrow> bufItems b' = bufItems b @ [st]"
    "\<not> created \<Longrightarrow> bufItems b' = map (\<lambda>x. if ID x = ID it
           then overwritten (Payload it) now (renderOr J (renderBytes it) (Payload it)) x else x) (bufItems b)"
    "st \<in> set (bufItems b') \<and> ID st = ID it \<and> Payload st = Payload it \<and> Ts st = now"
    by blast+
qed

end
