(* ===== verification/Buffer_Counter.thy ===== *)
theory Buffer_Counter
  imports Buffer_Write
begin

text \<open>
  Counters (\<^verbatim>\<open>buffer_counter.go\<close>): the atomic add on a counter cell, its fast path, and the slow path
  that promotes an integer payload to a cell or creates the counter.

  A method call is one atomic step here, so the compare-and-swap of \<^verbatim>\<open>atomicCounterAdd\<close> succeeds at
  its first attempt; the retry loop under interference is the theory \<open>Cas\<close>'s subject.
\<close>

section \<open>Operations\<close>

definition atomicCounterAdd :: "int \<Rightarrow> int \<Rightarrow> counterCell \<Rightarrow> (goError + int) \<times> counterCell" where
  "atomicCounterAdd now inc cell =
     (let cur = cellValue cell; nxt = i64 (cur + inc)
      in if nxt > MaxCounterValue \<or> nxt < - MaxCounterValue then (Inl (CounterOverflowError cur inc), cell)
         else (Inr nxt, \<lparr>cellValue = nxt, cellTs = (if now \<le> cellTs cell then cellTs cell else now)\<rparr>))"

definition parseCounterValue :: "jsonLib \<Rightarrow> string \<Rightarrow> goError + int" where
  "parseCounterValue J payload =
     (case unmarshalNumber J payload of
        None \<Rightarrow> Inl (CounterPayloadError NotANumber)
      | Some num \<Rightarrow>
          (case parseInt num of
             None \<Rightarrow> Inl (CounterPayloadError NotAnInteger)
           | Some v \<Rightarrow> if v > MaxCounterValue \<or> v < - MaxCounterValue
                       then Inl (CounterPayloadError OutOfRange) else Inr v))"

definition renderCounterPayload :: "counterCell \<Rightarrow> string" where
  "renderCounterPayload cell = appendInt (cellValue cell)"

text \<open>The add on the cell of the item at \<open>p\<close>, seen through the heap.\<close>

definition addToCell :: "int \<Rightarrow> int \<Rightarrow> nat \<Rightarrow> counterCell \<Rightarrow> scopeBuffer \<Rightarrow> (goError + int \<times> bool) \<times> scopeBuffer" where
  "addToCell now inc p cell b =
     (case atomicCounterAdd now inc cell of
        (Inl e, _) \<Rightarrow> (Inl e, b)
      | (Inr v, cell') \<Rightarrow> (Inr (v, False), b\<lparr>heap := (heap b)[p := (deref b p)\<lparr>counter := Some cell'\<rparr>]\<rparr>))"

definition promotedItem :: "int \<Rightarrow> int \<Rightarrow> item \<Rightarrow> item" where
  "promotedItem nowUs newValue existing =
     existing\<lparr>counter := Some \<lparr>cellValue = newValue, cellTs = nowUs\<rparr>, Payload := [], renderBytes := None\<rparr>"

definition promoteLocked ::
    "jsonLib \<Rightarrow> int \<Rightarrow> int \<Rightarrow> nat \<Rightarrow> storeAcct \<Rightarrow> scopeBuffer \<Rightarrow> (goError + int \<times> bool) \<times> storeAcct \<times> scopeBuffer" where
  "promoteLocked J nowUs inc p a b =
     (let existing = deref b p
      in case parseCounterValue J (Payload existing) of
           Inl e \<Rightarrow> (Inl e, a, b)
         | Inr current \<Rightarrow>
             (let newValue = i64 (current + inc)
              in if newValue > MaxCounterValue \<or> newValue < - MaxCounterValue
                 then (Inl (CounterOverflowError current inc), a, b)
                 else case indexBySeqLocked b (Seq existing) of
                        None \<Rightarrow> (Inr (0, False), a, b)
                      | Some i \<Rightarrow>
                          (let promoted = promotedItem nowUs newValue existing
                           in case reservePayloadDeltaLocked (approxItemSize existing) (approxItemSize promoted) a b of
                                (Inl e, a1) \<Rightarrow> (Inl e, a1, b)
                              | (Inr delta, a1) \<Rightarrow>
                                  (Inr (newValue, False), a1,
                                   b\<lparr>heap := (heap b)[items b ! i := promoted], bytes := bytes b + delta\<rparr>))))"

text \<open>The item a counter starts as; only a buffer with a store adopts the minted uuid.\<close>

definition newCounterItem :: "int \<Rightarrow> UUID \<Rightarrow> bool \<Rightarrow> string \<Rightarrow> string \<Rightarrow> int \<Rightarrow> item" where
  "newCounterItem nowUs mintedUUID hasStore scope k inc =
     (let item = zeroItem\<lparr>Scope := scope, ID := k, Ts := nowUs,
            counter := Some \<lparr>cellValue = inc, cellTs = nowUs\<rparr>\<rparr>
      in if hasStore then item\<lparr>UUID := mintedUUID\<rparr> else item)"

definition createCounterLocked ::
    "int \<Rightarrow> UUID \<Rightarrow> string \<Rightarrow> string \<Rightarrow> int \<Rightarrow> storeAcct \<Rightarrow> scopeBuffer \<Rightarrow>
     (goError + int \<times> bool) \<times> storeAcct \<times> scopeBuffer" where
  "createCounterLocked nowUs mintedUUID scope k inc a b =
     (if itemCapExceeded b (int (length (items b)) + 1)
      then (Inl (ScopeFullError (int (length (items b))) (maxItems b)), a, b)
      else
        (let item = newCounterItem nowUs mintedUUID (attached b) scope k inc;
             size = approxItemSize item
         in if attached b then
              (case reserveBytes size a of (ok, current, mx, a1) \<Rightarrow>
                 if \<not> ok then (Inl (StoreFullError current size mx), a1, b)
                 else case installItemLocked True item size b of (_, b1) \<Rightarrow>
                        (Inr (inc, True), a1\<lparr>totalItems := i64 (totalItems a1 + 1)\<rparr>, b1))
            else (case installItemLocked True item size b of (_, b1) \<Rightarrow> (Inr (inc, True), a, b1))))"

definition counterAddSlow ::
    "jsonLib \<Rightarrow> int \<Rightarrow> UUID \<Rightarrow> string \<Rightarrow> string \<Rightarrow> int \<Rightarrow> storeAcct \<Rightarrow> scopeBuffer \<Rightarrow>
     (goError + int \<times> bool) \<times> storeAcct \<times> scopeBuffer" where
  "counterAddSlow J now mintedUUID scope k inc a b =
     (if detached b then (Inl ScopeDetachedError, a, b)
      else case map_of (byID b) k of
        Some p \<Rightarrow>
          (case counter (deref b p) of
             Some cell \<Rightarrow> (case addToCell now inc p cell b of (r, b') \<Rightarrow> (r, a, b'))
           | None \<Rightarrow> promoteLocked J now inc p a b)
      | None \<Rightarrow> createCounterLocked now mintedUUID scope k inc a b)"

definition counterAdd ::
    "jsonLib \<Rightarrow> int \<Rightarrow> UUID \<Rightarrow> string \<Rightarrow> string \<Rightarrow> int \<Rightarrow> storeAcct \<Rightarrow> scopeBuffer \<Rightarrow>
     (goError + int \<times> bool) \<times> storeAcct \<times> scopeBuffer" where
  "counterAdd J now mintedUUID scope k inc a b =
     (if \<not> detached b then
        (case map_of (byID b) k of
           Some p \<Rightarrow>
             (case counter (deref b p) of
                Some cell \<Rightarrow> (case addToCell now inc p cell b of (r, b') \<Rightarrow> (r, a, b'))
              | None \<Rightarrow> counterAddSlow J now mintedUUID scope k inc a b)
         | None \<Rightarrow> counterAddSlow J now mintedUUID scope k inc a b)
      else counterAddSlow J now mintedUUID scope k inc a b)"

section \<open>The add\<close>

lemma atomicCounterAdd_Inr:
  assumes "atomicCounterAdd now d c = (Inr v, c')"
  shows "cellValue c' = v" "\<bar>v\<bar> \<le> MaxCounterValue" "cellTs c' = max (cellTs c) now"
    "\<bar>cellValue c\<bar> \<le> MaxCounterValue \<Longrightarrow> \<bar>d\<bar> \<le> MaxCounterValue \<Longrightarrow> v = cellValue c + d"
  using assms by (auto simp: atomicCounterAdd_def Let_def MaxCounterValue_def MaxInt64_def MinInt64_def
      split: if_splits)

lemma fast_path_is_slow_path: "counterAdd J now u scope k d a b = counterAddSlow J now u scope k d a b"
  by (auto simp: counterAdd_def counterAddSlow_def split: option.splits)

lemma parseCounterValue_render:
  assumes "\<bar>cellValue c\<bar> \<le> MaxCounterValue" and "unmarshalNumber J (renderCounterPayload c) = Some (renderCounterPayload c)"
  shows "parseCounterValue J (renderCounterPayload c) = Inr (cellValue c)"
proof -
  have "parseInt (appendInt (cellValue c)) = Some (cellValue c)"
    using assms(1) by (intro parseInt_appendInt) (auto simp: MaxCounterValue_def MaxInt64_def MinInt64_def)
  then show ?thesis using assms by (auto simp: parseCounterValue_def renderCounterPayload_def)
qed

lemma parseCounterValue_range: "parseCounterValue J p = Inr v \<Longrightarrow> \<bar>v\<bar> \<le> MaxCounterValue"
  by (auto simp: parseCounterValue_def split: option.splits if_splits)

section \<open>The contract\<close>

lemma addToCell_post:
  assumes h: "acct_ok a" "buf_ok b" and p: "p \<in> set (items b)" and c: "counter (deref b p) = Some cell"
    and r: "addToCell now d p cell b = (r, b')"
  shows "op_post a b a b'" and "idkey_ok b \<Longrightarrow> idkey_ok b'" and "byUUID_full b \<Longrightarrow> byUUID_full b'"
    and "scope_items n b \<Longrightarrow> scope_items n b'"
proof -
  obtain i where i: "i < length (items b)" "items b ! i = p" using p by (auto simp: in_set_conv_nth)
  have "op_post a b a b' \<and> (idkey_ok b \<longrightarrow> idkey_ok b') \<and> (byUUID_full b \<longrightarrow> byUUID_full b') \<and>
    (scope_items n b \<longrightarrow> scope_items n b')"
  proof (cases r)
    case (Inl e)
    then have "b' = b" using r by (auto simp: addToCell_def split: prod.splits sum.splits)
    then show ?thesis using h by (simp add: op_post_refl)
  next
    case (Inr x)
    then obtain v c' where at: "atomicCounterAdd now d cell = (Inr v, c')"
      and b': "b' = b\<lparr>heap := (heap b)[p := (deref b p)\<lparr>counter := Some c'\<rparr>]\<rparr>"
      using r by (auto simp: addToCell_def split: prod.splits sum.splits)
    let ?it = "(deref b p)\<lparr>counter := Some c'\<rparr>"
    have it: "cell_ok ?it" "approxItemSize ?it = approxItemSize (deref b p)"
      using atomicCounterAdd_Inr [OF at] c by (simp_all add: cell_ok_def approxItemSize_def Let_def)
    have "buf_ok b'"
      by (rule buf_ok_set(1) [OF h(2) i, of ?it]) (simp_all add: it b')
    then have "op_post a b a b'"
      using h(1) by (simp add: op_post_def lockstep_def caps_same_def buf_frame_def acct_ok_def b')
    then show ?thesis using set_keeps [OF h(2) i, of ?it b'] by (simp add: b')
  qed
  then show "op_post a b a b'" "idkey_ok b \<Longrightarrow> idkey_ok b'" "byUUID_full b \<Longrightarrow> byUUID_full b'"
    "scope_items n b \<Longrightarrow> scope_items n b'"
    by blast+
qed

lemma promote_cases:
  assumes ok: "buf_ok b" and p: "p \<in> set (items b)" and r: "promoteLocked J now d p a b = (r, a', b')"
  obtains (err) e where "r = Inl e" "a' = a" "b' = b"
  | (hit) i dl v w where "r = Inr (v, False)" "i < length (items b)" "items b ! i = p"
      "parseCounterValue J (Payload (deref b p)) = Inr w" "v = i64 (w + d)" "\<bar>v\<bar> \<le> MaxCounterValue"
      "reservePayloadDeltaLocked (approxItemSize (deref b p))
         (approxItemSize (promotedItem now v (deref b p))) a b = (Inr dl, a')"
      "b' = b\<lparr>heap := (heap b)[p := promotedItem now v (deref b p)], bytes := bytes b + dl\<rparr>"
proof (cases "parseCounterValue J (Payload (deref b p))")
  case (Inl e)
  then show ?thesis using r err by (auto simp: promoteLocked_def)
next
  case (Inr w)
  let ?v = "i64 (w + d)"
  have "slice_ok b" using ok by (simp add: buf_ok_def idx_ok_def)
  from indexBySeq_hit [OF this p] obtain i
    where i: "indexBySeqLocked b (Seq (deref b p)) = Some i" "i < length (items b)" "items b ! i = p"
    by blast
  show ?thesis
  proof (cases "\<bar>?v\<bar> \<le> MaxCounterValue")
    case False
    then have "?v > MaxCounterValue \<or> ?v < - MaxCounterValue" by linarith
    then show ?thesis using r Inr err by (auto simp: promoteLocked_def Let_def)
  next
    case True
    then have v: "\<not> (?v > MaxCounterValue \<or> ?v < - MaxCounterValue)" by linarith
    obtain x a1 where x: "reservePayloadDeltaLocked (approxItemSize (deref b p))
         (approxItemSize (promotedItem now ?v (deref b p))) a b = (x, a1)" by fastforce
    show ?thesis
    proof (cases x)
      case Inl': (Inl e)
      then show ?thesis using r Inr v i x err reserveDelta_Inl [of _ _ a b e a1]
        by (auto simp: promoteLocked_def Let_def)
    next
      case Inr': (Inr dl)
      then show ?thesis using r Inr v i x hit [OF _ i(2,3) Inr refl True]
        by (simp add: promoteLocked_def Let_def)
    qed
  qed
qed

lemma promotedItem_simps [simp]:
  "Scope (promotedItem now v it) = Scope it" "ID (promotedItem now v it) = ID it"
  "Seq (promotedItem now v it) = Seq it" "UUID (promotedItem now v it) = UUID it"
  "cell_ok (promotedItem now v it) \<longleftrightarrow> \<bar>v\<bar> \<le> MaxCounterValue"
  by (simp_all add: promotedItem_def cell_ok_def)

lemma promote_post:
  assumes h: "acct_ok a" "fits a b" "buf_ok b" and p: "p \<in> set (items b)"
    and r: "promoteLocked J now d p a b = (r, a', b')"
  shows "op_post a b a' b'"
  using h(3) p r
proof (cases rule: promote_cases)
  case err
  then show ?thesis using h by (simp add: op_post_refl)
next
  case (hit i dl v w)
  have "op_post a b (bumpIf False now a') b'"
    by (rule op_post_set [OF h hit(2,3) _ _ _ _ hit(7), where it = "promotedItem now v (deref b p)" and t = "bufLastWriteTS b"])
      (use hit(6) in \<open>simp_all add: hit(8)\<close>)
  then show ?thesis by (simp add: bumpIf_def)
qed

lemma promote_keeps:
  assumes h: "buf_ok b" and p: "p \<in> set (items b)" and r: "promoteLocked J now d p a b = (r, a', b')"
  shows "idkey_ok b \<Longrightarrow> idkey_ok b'" and "byUUID_full b \<Longrightarrow> byUUID_full b'"
    and "scope_items n b \<Longrightarrow> scope_items n b'"
proof -
  from h p r have "(idkey_ok b \<longrightarrow> idkey_ok b') \<and> (byUUID_full b \<longrightarrow> byUUID_full b') \<and>
    (scope_items n b \<longrightarrow> scope_items n b')"
  proof (cases rule: promote_cases)
    case (hit i dl v w)
    show ?thesis using set_keeps [OF h hit(2,3), of "promotedItem now v (deref b p)" b'] by (simp add: hit(8))
  qed simp
  then show "idkey_ok b \<Longrightarrow> idkey_ok b'" "byUUID_full b \<Longrightarrow> byUUID_full b'"
    "scope_items n b \<Longrightarrow> scope_items n b'"
    by blast+
qed

lemma newCounterItem_simps [simp]:
  "Scope (newCounterItem now u att n k d) = n" "ID (newCounterItem now u att n k d) = k"
  "UUID (newCounterItem now u att n k d) = (if att then u else zeroUUID)"
  "counter (newCounterItem now u att n k d) = Some \<lparr>cellValue = d, cellTs = now\<rparr>"
  "cell_ok (newCounterItem now u att n k d) \<longleftrightarrow> \<bar>d\<bar> \<le> MaxCounterValue"
  by (simp_all add: newCounterItem_def Let_def zeroItem_def cell_ok_def)

lemma create_cases:
  assumes r: "createCounterLocked now u scope k d a b = (r, a', b')" and k: "k \<noteq> []"
  obtains (err) e where "r = Inl e" "a' = a" "b' = b"
  | (ok) st where "r = Inr (d, True)" "\<not> itemCapExceeded b (int (length (items b)) + 1)"
      "installItemLocked (ID (newCounterItem now u (attached b) scope k d) \<noteq> [])
        (newCounterItem now u (attached b) scope k d)
        (approxItemSize (newCounterItem now u (attached b) scope k d)) b = (st, b')"
      "attached b \<Longrightarrow> \<exists>n m a1. reserveBytes (approxItemSize (newCounterItem now u (attached b) scope k d)) a
         = (True, n, m, a1) \<and> a' = bumpIf False 0 (a1\<lparr>totalItems := i64 (totalItems a1 + 1)\<rparr>)"
      "\<not> attached b \<Longrightarrow> a' = a"
proof -
  let ?it = "newCounterItem now u (attached b) scope k d"
  obtain st b1 where st: "installItemLocked True ?it (approxItemSize ?it) b = (st, b1)" by fastforce
  obtain gr n m a1 where rb: "reserveBytes (approxItemSize ?it) a = (gr, n, m, a1)"
    by (cases "reserveBytes (approxItemSize ?it) a") auto
  have gr: "\<not> gr \<Longrightarrow> a1 = a" using rb reserveBytes_False(1) by auto
  show thesis
  proof (cases "itemCapExceeded b (int (length (items b)) + 1) \<or> attached b \<and> \<not> gr")
    case True
    then show ?thesis using r rb err gr
      by (auto simp: createCounterLocked_def Let_def split: if_splits)
  next
    case False
    then show ?thesis using r rb st k ok [of st]
      by (auto simp: createCounterLocked_def Let_def bumpIf_def split: if_splits)
  qed
qed

lemma create_post:
  assumes h: "acct_ok a" "buf_ok b" "lastSeq b < 2 ^ 64 - 1" and k: "k \<noteq> []" and d: "\<bar>d\<bar> \<le> MaxCounterValue"
    and fresh: "map_of (byID b) k = None" and r: "createCounterLocked now u n k d a b = (r, a', b')"
  shows "op_post a b a' b'"
  using r k
proof (cases rule: create_cases)
  case err
  then show ?thesis using h by (simp add: op_post_refl)
next
  case (ok st)
  have "op_post a b a' (b'\<lparr>bufLastWriteTS := bufLastWriteTS b'\<rparr>)"
    by (rule op_post_install [OF h _ _ ok(2,3,4,5)]) (use fresh d in simp_all)
  then show ?thesis by simp
qed

lemma create_keeps:
  assumes h: "buf_ok b" "lastSeq b < 2 ^ 64 - 1" and k: "k \<noteq> []"
    and r: "createCounterLocked now u n k d a b = (r, a', b')"
  shows "idkey_ok b \<Longrightarrow> idkey_ok b'" and "byUUID_full b \<Longrightarrow> uuids_new {u} b \<Longrightarrow> byUUID_full b'"
    and "scope_items n b \<Longrightarrow> scope_items n b'"
proof -
  from r k have "(idkey_ok b \<longrightarrow> idkey_ok b') \<and> (byUUID_full b \<and> uuids_new {u} b \<longrightarrow> byUUID_full b') \<and>
    (scope_items n b \<longrightarrow> scope_items n b')"
  proof (cases rule: create_cases)
    case (ok st)
    have z: "uuids_new {u} b \<Longrightarrow> uuids_new {if attached b then u else zeroUUID} b"
      by (auto simp: uuids_new_def IsZero_def)
    have idx: "idx_ok b" using h by (simp add: buf_ok_def)
    show ?thesis using install_keeps [OF idx h(2) ok(3)] z by auto
  qed simp
  then show "idkey_ok b \<Longrightarrow> idkey_ok b'" "byUUID_full b \<Longrightarrow> uuids_new {u} b \<Longrightarrow> byUUID_full b'"
    "scope_items n b \<Longrightarrow> scope_items n b'"
    by blast+
qed

text \<open>
  \<^verbatim>\<open>counterAdd\<close> satisfies the contract for the arguments its callers let through: a non-empty id and
  an increment within \<open>\<plusminus>MaxCounterValue\<close> (\<^verbatim>\<open>validateCounterAddRequest\<close>).
\<close>

lemma counterAdd_cases:
  assumes "counterAdd J now u n k d a b = (r, a', b')"
  obtains (detached) "detached b" "a' = a" "b' = b" "r = Inl ScopeDetachedError"
  | (cell) p cell where "\<not> detached b" "map_of (byID b) k = Some p" "counter (deref b p) = Some cell"
      "a' = a" "addToCell now d p cell b = (r, b')"
  | (promote) p where "\<not> detached b" "map_of (byID b) k = Some p" "counter (deref b p) = None"
      "promoteLocked J now d p a b = (r, a', b')"
  | (create) "\<not> detached b" "map_of (byID b) k = None" "createCounterLocked now u n k d a b = (r, a', b')"
  using assms unfolding fast_path_is_slow_path
  by (auto simp: counterAddSlow_def split: if_splits option.splits prod.splits)

lemma counterAdd_op:
  assumes k: "k \<noteq> []" and d: "\<bar>d\<bar> \<le> MaxCounterValue"
  shows "buffer_op (counterAdd J now u n k d) n {u}"
proof
  fix a b r a' b'
  assume h: "acct_ok a" "fits a b" "buf_ok b" "lastSeq b < 2 ^ 64 - 1" and e: "counterAdd J now u n k d a b = (r, a', b')"
  from e show "op_post a b a' b'"
    by (cases rule: counterAdd_cases)
      (use h k d in \<open>auto intro: op_post_refl addToCell_post(1) promote_post create_post byID_live\<close>)
next
  fix a b r a' b'
  assume h: "buf_ok b" "lastSeq b < 2 ^ 64 - 1" and e: "counterAdd J now u n k d a b = (r, a', b')"
  have acct: "acct_ok \<lparr>maxStoreBytes = 0, maxItemBytes = 0, eventsMaxItemBytes = 0, inboxMaxItemBytes = 0,
      totalBytes = 0, totalItems = 0, lastWriteTS = 0\<rparr>" (is "acct_ok ?z")
    by (simp add: acct_ok_def MaxInt64_def)
  from e show "scope_items n b \<Longrightarrow> scope_items n b'"
    by (cases rule: counterAdd_cases)
      (use h k in \<open>auto dest: addToCell_post(4) [OF acct] promote_keeps(3) create_keeps(3) byID_live\<close>)
  from e show "idkey_ok b \<Longrightarrow> idkey_ok b'"
    by (cases rule: counterAdd_cases)
      (use h k in \<open>auto dest: addToCell_post(2) [OF acct] promote_keeps(1) create_keeps(1) byID_live\<close>)
  from e show "byUUID_full b \<Longrightarrow> uuids_new {u} b \<Longrightarrow> byUUID_full b'"
    by (cases rule: counterAdd_cases)
      (use h k in \<open>auto dest: addToCell_post(3) [OF acct] promote_keeps(2) create_keeps(2) byID_live\<close>)
qed (auto simp: counterAdd_def counterAddSlow_def split: if_splits)

section \<open>What a counter add does\<close>

text \<open>The value an entry counts as: its cell, or its payload read as an integer.\<close>

definition counterValue :: "jsonLib \<Rightarrow> item \<Rightarrow> goError + int" where
  "counterValue J it = (case counter it of Some c \<Rightarrow> Inr (cellValue c) | None \<Rightarrow> parseCounterValue J (Payload it))"

lemma counterValue_range: "cell_ok it \<Longrightarrow> counterValue J it = Inr v \<Longrightarrow> \<bar>v\<bar> \<le> MaxCounterValue"
  by (auto simp: counterValue_def cell_ok_def split: option.splits dest: parseCounterValue_range)

lemma sum_in_i64: "\<bar>v\<bar> \<le> MaxCounterValue \<Longrightarrow> \<bar>d\<bar> \<le> MaxCounterValue \<Longrightarrow> i64 (v + d) = v + d"
  by (rule i64_id) (auto simp: MaxCounterValue_def MaxInt64_def MinInt64_def)

lemma counterAdd_existing:
  assumes ok: "buf_ok b" and k: "map_of (byID b) k = Some p" and d: "\<bar>d\<bar> \<le> MaxCounterValue"
    and r: "counterAdd J now u n k d a b = (Inr (v, created), a', b')"
  shows "\<not> created" and "\<exists>w. counterValue J (deref b p) = Inr w \<and> v = w + d"
    and "\<bar>v\<bar> \<le> MaxCounterValue" and "counterValue J (deref b' p) = Inr v"
    and "items b' = items b" and "ID (deref b' p) = ID (deref b p)"
    and "\<forall>q. q \<noteq> p \<longrightarrow> deref b' q = deref b q"
proof -
  have p: "p \<in> set (items b)" by (rule byID_live [OF ok k])
  have h: "p < length (heap b)" and c: "cell_ok (deref b p)"
    using ok p by (auto simp: buf_ok_def idx_ok_def slice_ok_def)
  from r have "\<not> created \<and> (\<exists>w. counterValue J (deref b p) = Inr w \<and> v = w + d) \<and>
      \<bar>v\<bar> \<le> MaxCounterValue \<and> counterValue J (deref b' p) = Inr v \<and> items b' = items b \<and>
      ID (deref b' p) = ID (deref b p) \<and> (\<forall>q. q \<noteq> p \<longrightarrow> deref b' q = deref b q)"
  proof (cases rule: counterAdd_cases)
    case (cell q cl)
    then obtain c' where at: "atomicCounterAdd now d cl = (Inr v, c')" and f: "\<not> created"
      and b': "b' = b\<lparr>heap := (heap b)[p := (deref b p)\<lparr>counter := Some c'\<rparr>]\<rparr>"
      using k by (auto simp: addToCell_def split: prod.splits sum.splits)
    have e: "counterValue J (deref b p) = Inr (cellValue cl)" "\<bar>cellValue cl\<bar> \<le> MaxCounterValue"
      using cell k c by (auto simp: counterValue_def cell_ok_def)
    note at' = atomicCounterAdd_Inr [OF at]
    then show ?thesis using e d f h by (simp add: b' deref_def counterValue_def)
  next
    case (promote q)
    then have q: "q = p" using k by simp
    from ok p promote(4) [unfolded q] show ?thesis
    proof (cases rule: promote_cases)
      case (hit i dl v' w)
      have "v = w + d"
        using hit sum_in_i64 [OF parseCounterValue_range [OF hit(4)] d] by simp
      then show ?thesis using hit promote(3) q h
        by (auto simp: counterValue_def deref_def promotedItem_def)
    qed simp
  qed (use k in auto)
  then show "\<not> created" "\<exists>w. counterValue J (deref b p) = Inr w \<and> v = w + d"
    "\<bar>v\<bar> \<le> MaxCounterValue" "counterValue J (deref b' p) = Inr v" "items b' = items b"
    "ID (deref b' p) = ID (deref b p)" "\<forall>q. q \<noteq> p \<longrightarrow> deref b' q = deref b q" by blast+
qed

lemma counterAdd_new:
  assumes ok: "buf_ok b" "lastSeq b < 2 ^ 64 - 1" and k: "map_of (byID b) k = None" "k \<noteq> []"
    and r: "counterAdd J now u n k d a b = (Inr (v, created), a', b')"
  shows "created" and "v = d" and "\<exists>it. bufItems b' = bufItems b @ [it] \<and> ID it = k \<and> counterValue J it = Inr d"
proof -
  have sl: "slice_ok b" using ok by (simp add: buf_ok_def idx_ok_def)
  from r have "created \<and> v = d \<and> (\<exists>it. bufItems b' = bufItems b @ [it] \<and> ID it = k \<and> counterValue J it = Inr d)"
  proof (cases rule: counterAdd_cases)
    case create
    from create(3) k(2) show ?thesis
    proof (cases rule: create_cases)
      case (ok st)
      from install_shape [OF ok(3) assms(2) sl] ok(1) show ?thesis by (auto simp: counterValue_def)
    qed simp
  qed (use k in auto)
  then show "created" "v = d" "\<exists>it. bufItems b' = bufItems b @ [it] \<and> ID it = k \<and> counterValue J it = Inr d"
    by blast+
qed

text \<open>No counter operation moves the freshness signals.\<close>

lemma counterAdd_silent:
  assumes r: "counterAdd J now u n k d a b = (r, a', b')" and k: "k \<noteq> []" and ok: "buf_ok b" "lastSeq b < 2 ^ 64 - 1"
  shows "bufLastWriteTS b' = bufLastWriteTS b" and "lastWriteTS a' = lastWriteTS a"
proof -
  have sl: "slice_ok b" using ok by (simp add: buf_ok_def idx_ok_def)
  from r have "bufLastWriteTS b' = bufLastWriteTS b \<and> lastWriteTS a' = lastWriteTS a"
  proof (cases rule: counterAdd_cases)
    case (cell q cl)
    then show ?thesis by (auto simp: addToCell_def split: prod.splits sum.splits)
  next
    case (promote q)
    from ok(1) byID_live [OF ok(1) promote(2)] promote(4) show ?thesis
    proof (cases rule: promote_cases)
      case (hit i dl v w)
      then show ?thesis
        by (auto simp: reservePayloadDeltaLocked_def reserveBytes_def Let_def split: if_splits)
    qed simp
  next
    case create
    from create(3) k show ?thesis
    proof (cases rule: create_cases)
      case (ok st)
      have "lastWriteTS a' = lastWriteTS a"
        using ok(4,5) by (cases "attached b") (auto simp: bumpIf_def reserveBytes_def Let_def split: if_splits)
      then show ?thesis using install_shape(7) [OF ok(3) assms(4) sl] by simp
    qed simp
  qed simp
  then show "bufLastWriteTS b' = bufLastWriteTS b" "lastWriteTS a' = lastWriteTS a" by blast+
qed

end
