(* ===== verification/Buffer_Delete.thy ===== *)
theory Buffer_Delete
  imports Buffer_Write
begin

text \<open>
  The delete paths of a scope buffer (\<^verbatim>\<open>buffer_delete.go\<close>): removing one entry by id, sequence number
  or uuid, draining a prefix, and the two memory-reclaiming helpers, which are shown to be invisible.

  The capacity of the slice's backing array, \<^verbatim>\<open>cap(b.items)\<close>, is chosen by the Go runtime; it is the
  argument \<open>capq\<close> (the capacity the slice has when the delete begins).
\<close>

section \<open>Operations\<close>

definition shrinkMinCap :: nat where "shrinkMinCap = 1024"
definition shrinkSparseRatio :: nat where "shrinkSparseRatio = 4"

definition resetIfEmptyLocked :: "scopeBuffer \<Rightarrow> scopeBuffer" where
  "resetIfEmptyLocked b =
     (if length (items b) \<noteq> 0 then b
      else b\<lparr>items := [], bySeq := [], byID := [], byUUID := [], idKeyBytes := 0\<rparr>)"

definition shrinkIfSparseLocked :: "nat \<Rightarrow> scopeBuffer \<Rightarrow> scopeBuffer" where
  "shrinkIfSparseLocked capq b =
     (if capq \<le> shrinkMinCap then b
      else if length (items b) * shrinkSparseRatio \<ge> capq then b
      else
        (let newItems = items b
         in b\<lparr>items := newItems,
              bySeq := index_of (map (\<lambda>p. (Seq (deref b p), p)) newItems),
              byID := index_of (map (\<lambda>p. (ID (deref b p), p)) (filter (\<lambda>p. ID (deref b p) \<noteq> []) newItems)),
              byUUID := index_of (map (\<lambda>p. (UUID (deref b p), p))
                (filter (\<lambda>p. \<not> IsZero (UUID (deref b p))) newItems))\<rparr>))"

definition releaseLocked :: "int \<Rightarrow> nat \<Rightarrow> int \<Rightarrow> storeAcct \<Rightarrow> scopeBuffer \<Rightarrow> storeAcct" where
  "releaseLocked freed cnt now a b =
     (if attached b then bumpLastWriteTS now (addTotals (- freed) (- int cnt) a) else a)"

definition deleteIndexLocked :: "nat \<Rightarrow> nat \<Rightarrow> int \<Rightarrow> storeAcct \<Rightarrow> scopeBuffer \<Rightarrow> storeAcct \<times> scopeBuffer" where
  "deleteIndexLocked capq i now a b =
     (let removed = deref b (items b ! i);
          removedSize = approxItemSize removed;
          b1 = b\<lparr>items := take i (items b) @ drop (i + 1) (items b),
                 bySeq := AList.delete (Seq removed) (bySeq b),
                 byID := (if ID removed \<noteq> [] then AList.delete (ID removed) (byID b) else byID b),
                 idKeyBytes := (if ID removed \<noteq> [] then idKeyBytes b - int (length (ID removed)) else idKeyBytes b),
                 byUUID := (if \<not> IsZero (UUID removed) then AList.delete (UUID removed) (byUUID b) else byUUID b),
                 bytes := bytes b - removedSize,
                 bufLastWriteTS := now\<rparr>;
          b2 = resetIfEmptyLocked b1
      in (releaseLocked removedSize 1 now a b,
          shrinkIfSparseLocked (if items b2 = [] then 0 else capq) b2))"

definition deleteFound ::
    "nat \<Rightarrow> int \<Rightarrow> nat \<Rightarrow> storeAcct \<Rightarrow> scopeBuffer \<Rightarrow> (goError + nat) \<times> storeAcct \<times> scopeBuffer" where
  "deleteFound capq now seq a b =
     (case indexBySeqLocked b seq of
        None \<Rightarrow> (Inr 0, a, b)
      | Some i \<Rightarrow> (case deleteIndexLocked capq i now a b of (a', b') \<Rightarrow> (Inr 1, a', b')))"

definition deleteByID ::
    "nat \<Rightarrow> int \<Rightarrow> string \<Rightarrow> storeAcct \<Rightarrow> scopeBuffer \<Rightarrow> (goError + nat) \<times> storeAcct \<times> scopeBuffer" where
  "deleteByID capq now k a b =
     (if detached b then (Inl ScopeDetachedError, a, b)
      else case map_of (byID b) k of
        None \<Rightarrow> (Inr 0, a, b)
      | Some p \<Rightarrow> deleteFound capq now (Seq (deref b p)) a b)"

definition deleteBySeq ::
    "nat \<Rightarrow> int \<Rightarrow> nat \<Rightarrow> storeAcct \<Rightarrow> scopeBuffer \<Rightarrow> (goError + nat) \<times> storeAcct \<times> scopeBuffer" where
  "deleteBySeq capq now seq a b =
     (if detached b then (Inl ScopeDetachedError, a, b)
      else case map_of (bySeq b) seq of
        None \<Rightarrow> (Inr 0, a, b)
      | Some _ \<Rightarrow> deleteFound capq now seq a b)"

definition deleteByUUID ::
    "nat \<Rightarrow> int \<Rightarrow> UUID \<Rightarrow> storeAcct \<Rightarrow> scopeBuffer \<Rightarrow> (goError + nat) \<times> storeAcct \<times> scopeBuffer" where
  "deleteByUUID capq now u a b =
     (if detached b then (Inl ScopeDetachedError, a, b)
      else case map_of (byUUID b) u of
        None \<Rightarrow> (Inr 0, a, b)
      | Some p \<Rightarrow> deleteFound capq now (Seq (deref b p)) a b)"

definition deleteUpToSeqLocked :: "int \<Rightarrow> nat \<Rightarrow> storeAcct \<Rightarrow> scopeBuffer \<Rightarrow> nat \<times> storeAcct \<times> scopeBuffer" where
  "deleteUpToSeqLocked now maxSeq a b =
     (let idx = sortSearch (length (items b)) (\<lambda>i. Seq (deref b (items b ! i)) > maxSeq)
      in if idx = 0 then (0, a, b)
         else
           (let removed = take idx (items b);
                freedBytes = (\<Sum>p\<leftarrow>removed. approxItemSize (deref b p));
                freedIDKeyBytes = (\<Sum>p\<leftarrow>removed. int (length (ID (deref b p))));
                b1 = b\<lparr>items := drop idx (items b),
                       bySeq := delete_keys (map (\<lambda>p. Seq (deref b p)) removed) (bySeq b),
                       byID := delete_keys (filter (\<lambda>k. k \<noteq> []) (map (\<lambda>p. ID (deref b p)) removed)) (byID b),
                       byUUID := delete_keys (filter (\<lambda>u. \<not> IsZero u) (map (\<lambda>p. UUID (deref b p)) removed)) (byUUID b),
                       bytes := bytes b - freedBytes,
                       idKeyBytes := idKeyBytes b - freedIDKeyBytes,
                       bufLastWriteTS := now\<rparr>
            in (idx, releaseLocked freedBytes idx now a b, resetIfEmptyLocked b1)))"

definition deleteUpToSeq ::
    "int \<Rightarrow> nat \<Rightarrow> storeAcct \<Rightarrow> scopeBuffer \<Rightarrow> (goError + nat) \<times> storeAcct \<times> scopeBuffer" where
  "deleteUpToSeq now maxSeq a b =
     (if detached b then (Inl ScopeDetachedError, a, b)
      else case deleteUpToSeqLocked now maxSeq a b of (n, a', b') \<Rightarrow> (Inr n, a', b'))"

definition deleteUpToUUID ::
    "int \<Rightarrow> UUID \<Rightarrow> storeAcct \<Rightarrow> scopeBuffer \<Rightarrow> (goError + nat) \<times> storeAcct \<times> scopeBuffer" where
  "deleteUpToUUID now u a b =
     (if detached b then (Inl ScopeDetachedError, a, b)
      else case map_of (byUUID b) u of
        None \<Rightarrow> (Inr 0, a, b)
      | Some p \<Rightarrow> (case deleteUpToSeqLocked now (Seq (deref b p)) a b of (n, a', b') \<Rightarrow> (Inr n, a', b')))"

section \<open>Dropping entries, and what it keeps\<close>

text \<open>
  \<open>removal rs b b1\<close>: \<open>b1\<close> is \<open>b\<close> without the entries \<open>rs\<close>, in order, with the totals reduced by
  theirs.
\<close>

definition removal :: "nat list \<Rightarrow> scopeBuffer \<Rightarrow> scopeBuffer \<Rightarrow> bool" where
  "removal rs b b1 \<longleftrightarrow>
     set rs \<subseteq> set (items b) \<and> distinct rs \<and>
     dropped rs (filter (\<lambda>p. p \<notin> set rs) (items b)) b b1 \<and> buf_frame b b1 \<and>
     bytes b1 = bytes b - sizeSum (map (deref b) rs) \<and>
     idKeyBytes b1 = idKeyBytes b - idLenSum (map (deref b) rs)"

lemma sum_list_partition:
  assumes "distinct xs" "distinct rs" "set rs \<subseteq> set xs"
  shows "(\<Sum>x\<leftarrow>filter (\<lambda>x. x \<notin> set rs) xs. f x) = (\<Sum>x\<leftarrow>xs. f x) - (\<Sum>x\<leftarrow>rs. f x :: int)"
    and "length (filter (\<lambda>x. x \<notin> set rs) xs) = length xs - length rs" and "length rs \<le> length xs"
proof -
  have s: "set (filter (\<lambda>x. x \<notin> set rs) xs) = set xs - set rs" by auto
  have d: "distinct (filter (\<lambda>x. x \<notin> set rs) xs)" using assms(1) by simp
  show "(\<Sum>x\<leftarrow>filter (\<lambda>x. x \<notin> set rs) xs. f x) = (\<Sum>x\<leftarrow>xs. f x) - (\<Sum>x\<leftarrow>rs. f x)"
    using assms d s by (simp add: sum_list_distinct_conv_sum_set sum_diff)
  show "length (filter (\<lambda>x. x \<notin> set rs) xs) = length xs - length rs"
    using assms d s by (metis card_Diff_subset distinct_card finite_set)
  show "length rs \<le> length xs" using assms by (metis card_mono distinct_card finite_set)
qed

lemma byUUID_fullD:
  "byUUID_full b \<Longrightarrow> p \<in> set (items b) \<Longrightarrow> \<not> IsZero u \<Longrightarrow> UUID (deref b p) = u \<Longrightarrow> map_of (byUUID b) u = Some p"
  by (auto simp: byUUID_full_def)

lemma removal_facts:
  assumes ok: "buf_ok b" and rm: "removal rs b b1"
  shows "buf_ok b1" and "bufItems b1 = map (deref b) (filter (\<lambda>p. p \<notin> set rs) (items b))"
    and "length (items b1) = length (items b) - length rs" and "length rs \<le> length (items b)"
    and "idkey_ok b \<Longrightarrow> idkey_ok b1" and "byUUID_full b \<Longrightarrow> byUUID_full b1"
    and "scope_items n b \<Longrightarrow> scope_items n b1"
proof -
  let ?keep = "filter (\<lambda>p. p \<notin> set rs) (items b)"
  have idx: "idx_ok b" and sl: "slice_ok b" using ok by (simp_all add: buf_ok_def idx_ok_def)
  have dr: "dropped rs ?keep b b1" and sub: "set rs \<subseteq> set (items b)" and drs: "distinct rs"
    using rm by (simp_all add: removal_def)
  have di: "distinct (items b)" using sl by (simp add: slice_ok_def)
  note b1 = dr [unfolded dropped_def]
  have de: "deref b1 = deref b" using b1 by (auto simp: deref_def fun_eq_iff)
  show v: "bufItems b1 = map (deref b) ?keep" using b1 by (simp add: bufItems_def de)
  note part = sum_list_partition [OF di drs sub]
  show len: "length (items b1) = length (items b) - length rs" and le: "length rs \<le> length (items b)"
    using b1 part by simp_all
  have "sorted_wrt (<) (map (\<lambda>p. Seq (deref b p)) (items b))"
    using sl by (simp add: slice_ok_def bufItems_def comp_def)
  then have srt: "sorted_wrt (<) (map (\<lambda>p. Seq (deref b p)) ?keep)"
    by (simp add: sorted_wrt_map sorted_wrt_filter)
  have idx1: "idx_ok b1" by (rule idx_ok_dropped [OF idx dr sub _ _ srt]) (use di in auto)
  have "bytes b1 = sizeSum (bufItems b1)"
    using ok rm part(1) [of "\<lambda>p. approxItemSize (deref b p)"]
    by (simp add: v removal_def buf_ok_def sizeSum_def bufItems_def [of b] comp_def)
  moreover have "\<forall>x \<in> set (bufItems b1). cell_ok x" using ok by (auto simp: v buf_ok_def)
  ultimately show "buf_ok b1" using ok rm idx1 len by (auto simp: buf_ok_def removal_def buf_frame_def)
  show "idkey_ok b \<Longrightarrow> idkey_ok b1"
    using rm part(1) [of "\<lambda>p. int (length (ID (deref b p)))"]
    by (simp add: idkey_ok_def v removal_def idLenSum_def bufItems_def [of b] comp_def)
  show "scope_items n b \<Longrightarrow> scope_items n b1" by (auto simp: scope_items_def v)
  assume full: "byUUID_full b"
  show "byUUID_full b1"
    unfolding byUUID_full_def de
  proof (intro ballI impI)
    fix p assume "p \<in> set (items b1)" and z: "\<not> IsZero (UUID (deref b p))"
    then have p: "p \<in> set (items b)" "p \<notin> set rs" using b1 by auto
    have m: "map_of (byUUID b) (UUID (deref b p)) = Some p" using full p z by (auto simp: byUUID_full_def)
    have "UUID (deref b p) \<notin> (\<lambda>p. UUID (deref b p)) ` set rs"
    proof
      assume "UUID (deref b p) \<in> (\<lambda>p. UUID (deref b p)) ` set rs"
      then obtain q where q: "q \<in> set rs" "UUID (deref b q) = UUID (deref b p)" by auto
      then have "map_of (byUUID b) (UUID (deref b p)) = Some q"
        using byUUID_fullD [OF full _ z, of q] sub by blast
      then have "q = p" using m by simp
      then show False using p(2) q(1) by blast
    qed
    then show "map_of (byUUID b1) (UUID (deref b p)) = Some p"
      using b1 m by (auto simp: map_of_delete_keys)
  qed
qed

section \<open>The two reclaiming helpers are invisible\<close>

text \<open>Same entries, same cursor and totals; only the index maps may have been rebuilt.\<close>

definition reindexed :: "scopeBuffer \<Rightarrow> scopeBuffer \<Rightarrow> bool" where
  "reindexed b b' \<longleftrightarrow> items b' = items b \<and> heap b' = heap b \<and> lastSeq b' = lastSeq b \<and> bytes b' = bytes b \<and>
     buf_frame b b' \<and> bufLastWriteTS b' = bufLastWriteTS b \<and> firstUUID b' = firstUUID b \<and>
     lastUUID b' = lastUUID b \<and> buf_ok b' \<and> (idkey_ok b \<longrightarrow> idkey_ok b') \<and> (byUUID_full b \<longrightarrow> byUUID_full b')"

lemma reindexed_refl: "buf_ok b \<Longrightarrow> reindexed b b"
  by (simp add: reindexed_def buf_frame_def)

lemma reindexed_trans: "reindexed a b \<Longrightarrow> reindexed b c \<Longrightarrow> reindexed a c"
  by (simp add: reindexed_def buf_frame_def)

lemma reindexed_view: "reindexed b b' \<Longrightarrow> bufItems b' = bufItems b"
proof -
  assume r: "reindexed b b'"
  then have "deref b' = deref b" by (auto simp: reindexed_def deref_def fun_eq_iff)
  then show ?thesis using r by (simp add: reindexed_def bufItems_def)
qed

lemma resetIfEmpty_reindexed:
  assumes ok: "buf_ok b" shows "reindexed b (resetIfEmptyLocked b)"
proof (cases "items b = []")
  case False
  then show ?thesis using ok by (simp add: resetIfEmptyLocked_def reindexed_refl)
next
  case True
  then show ?thesis using ok
    by (simp add: resetIfEmptyLocked_def reindexed_def buf_frame_def buf_ok_def idx_ok_def slice_ok_def
        byID_ok_def bySeq_ok_def byUUID_ok_def bufItems_def idkey_ok_def byUUID_full_def)
qed

lemma index_of_items:
  assumes "distinct xs" and "inj_on key (set xs)"
  shows "map_of (index_of (map (\<lambda>p. (key p, p)) xs)) k = Some p \<longleftrightarrow> p \<in> set xs \<and> key p = k"
proof -
  have d: "distinct (map fst (map (\<lambda>p. (key p, p)) xs))" using assms by (simp add: distinct_map comp_def)
  show ?thesis
    unfolding map_of_index_of_distinct [OF d] map_of_eq_Some_iff [OF d] by auto
qed

lemma shrinkIfSparse_reindexed:
  assumes ok: "buf_ok b" shows "reindexed b (shrinkIfSparseLocked capq b)"
proof (cases "capq \<le> shrinkMinCap \<or> length (items b) * shrinkSparseRatio \<ge> capq")
  case True
  then show ?thesis using ok by (auto simp: shrinkIfSparseLocked_def reindexed_refl)
next
  case False
  let ?b = "shrinkIfSparseLocked capq b"
  have b': "?b = b\<lparr>bySeq := index_of (map (\<lambda>p. (Seq (deref b p), p)) (items b)),
     byID := index_of (map (\<lambda>p. (ID (deref b p), p)) (filter (\<lambda>p. ID (deref b p) \<noteq> []) (items b))),
     byUUID := index_of (map (\<lambda>p. (UUID (deref b p), p)) (filter (\<lambda>p. \<not> IsZero (UUID (deref b p))) (items b)))\<rparr>"
    using False by (simp add: shrinkIfSparseLocked_def Let_def)
  have sl: "slice_ok b" and di: "distinct (items b)" and idx: "idx_ok b"
    using ok by (simp_all add: buf_ok_def idx_ok_def slice_ok_def)
  have de: "deref ?b = deref b" by (auto simp: b' deref_def fun_eq_iff)
  have v: "bufItems ?b = bufItems b" unfolding bufItems_def de by (simp add: b')
  have "inj_on (\<lambda>p. Seq (deref b p)) (set (items b))"
    using slice_seq_inj [OF sl] by (auto intro: inj_onI)
  from index_of_items [OF di this] have seq: "bySeq_ok ?b"
    unfolding bySeq_ok_def de by (simp add: b' index_of_distinct_keys)
  have "inj_on (\<lambda>p. ID (deref b p)) (set (filter (\<lambda>p. ID (deref b p) \<noteq> []) (items b)))"
  proof (rule inj_onI)
    fix p q assume pq: "p \<in> set (filter (\<lambda>p. ID (deref b p) \<noteq> []) (items b))"
      "q \<in> set (filter (\<lambda>p. ID (deref b p) \<noteq> []) (items b))" "ID (deref b p) = ID (deref b q)"
    then have "map_of (byID b) (ID (deref b p)) = Some p" "map_of (byID b) (ID (deref b p)) = Some q"
      using idx by (auto simp: idx_ok_def byID_ok_def)
    then show "p = q" by simp
  qed
  from index_of_items [OF distinct_filter [OF di] this] have id: "byID_ok ?b"
    unfolding byID_ok_def de by (auto simp: b' index_of_distinct_keys)
  have uu: "byUUID_ok ?b"
    unfolding byUUID_ok_def de by (auto simp: b' index_of_distinct_keys dest!: map_of_index_of_SomeD)
  have "slice_ok ?b" using sl by (simp add: slice_ok_def v de) (simp add: b')
  then have idx': "idx_ok ?b" using id seq uu by (simp add: idx_ok_def)
  have full: "byUUID_full ?b" if f: "byUUID_full b"
  proof -
    have "inj_on (\<lambda>p. UUID (deref b p)) (set (filter (\<lambda>p. \<not> IsZero (UUID (deref b p))) (items b)))"
    proof (rule inj_onI)
      fix p q assume pq: "p \<in> set (filter (\<lambda>p. \<not> IsZero (UUID (deref b p))) (items b))"
        "q \<in> set (filter (\<lambda>p. \<not> IsZero (UUID (deref b p))) (items b))" "UUID (deref b p) = UUID (deref b q)"
      then have m: "p \<in> set (items b)" "q \<in> set (items b)" "\<not> IsZero (UUID (deref b q))" by simp_all
      from byUUID_fullD [OF f m(1,3) pq(3)] byUUID_fullD [OF f m(2,3) refl] show "p = q" by simp
    qed
    from index_of_items [OF distinct_filter [OF di] this] show ?thesis
      unfolding byUUID_full_def de by (auto simp: b')
  qed
  have "buf_ok ?b" using ok idx' by (simp add: buf_ok_def v) (simp add: b')
  then show ?thesis using full by (simp add: reindexed_def idkey_ok_def v) (simp add: b' buf_frame_def)
qed

section \<open>The contract\<close>

lemma removal_post:
  assumes acct: "acct_ok a" and fits: "fits a b" and ok: "buf_ok b" and rm: "removal rs b b1"
    and re: "reindexed b1 b'" and freed: "freed = sizeSum (map (deref b) rs)"
  shows "op_post a b (releaseLocked freed (length rs) now a b) b'"
proof -
  note f = removal_facts [OF ok rm]
  have b': "buf_ok b'" "bytes b' = bytes b - freed" "int (length (items b')) = int (length (items b)) - int (length rs)"
    "buf_frame b b'" "lastSeq b' = lastSeq b"
    using re rm f(3,4) freed by (auto simp: reindexed_def removal_def dropped_def buf_frame_def of_nat_diff)
  have n: "0 \<le> freed" "0 \<le> bytes b'" using freed buf_bytes_nonneg [OF b'(1)] by simp_all
  show ?thesis
  proof (cases "attached b")
    case True
    have "bytes b \<le> totalBytes a" "int (length (items b)) \<le> totalItems a" "0 \<le> totalBytes a"
      "totalBytes a \<le> MaxInt64" "totalItems a \<le> MaxInt64"
      using fits acct True by (auto simp: fits_def acct_ok_def MaxInt64_def)
    then have "i64 (totalBytes a - freed) = totalBytes a - freed"
      "i64 (totalItems a - int (length rs)) = totalItems a - int (length rs)"
      using n b' f(4) by (auto intro!: i64_id simp: MinInt64_def)
    then show ?thesis using True b' n acct
      by (auto simp: op_post_def lockstep_def caps_same_def releaseLocked_def addTotals_def acct_ok_def)
  next
    case False
    then show ?thesis using b' acct
      by (simp add: op_post_def lockstep_def caps_same_def releaseLocked_def acct_ok_def)
  qed
qed

lemma removal_keeps:
  assumes ok: "buf_ok b" and rm: "removal rs b b1" and re: "reindexed b1 b'"
  shows "idkey_ok b \<Longrightarrow> idkey_ok b'" and "byUUID_full b \<Longrightarrow> byUUID_full b'"
    and "scope_items n b \<Longrightarrow> scope_items n b'"
  using removal_facts [OF ok rm] re reindexed_view [OF re]
  by (auto simp: reindexed_def scope_items_def)

text \<open>An operation that removes some live entries or does nothing satisfies the contract.\<close>

lemma buffer_op_removal:
  assumes "\<And>a b r a' b'. op a b = (r, a', b') \<Longrightarrow> a' = a \<and> b' = b \<or>
      \<not> detached b \<and> (buf_ok b \<longrightarrow> (\<exists>rs b1 now. removal rs b b1 \<and> reindexed b1 b' \<and>
         a' = releaseLocked (sizeSum (map (deref b) rs)) (length rs) now a b))"
  shows "buffer_op op n {}"
proof
  fix a b r a' b'
  assume h: "acct_ok a" "fits a b" "buf_ok b" and e: "op a b = (r, a', b')"
  show "op_post a b a' b'" using assms [OF e] h by (auto intro: op_post_refl removal_post)
next
  fix a b r a' b'
  assume h: "buf_ok b" and e: "op a b = (r, a', b')"
  show "scope_items n b \<Longrightarrow> scope_items n b'" using assms [OF e] h by (auto dest: removal_keeps(3))
  show "idkey_ok b \<Longrightarrow> idkey_ok b'" using assms [OF e] h by (auto dest: removal_keeps(1))
  show "byUUID_full b \<Longrightarrow> uuids_new {} b \<Longrightarrow> byUUID_full b'"
    using assms [OF e] h by (auto dest: removal_keeps(2))
next
  fix a b r a' b'
  assume "detached b" and e: "op a b = (r, a', b')"
  then show "a' = a \<and> b' = b" using assms [OF e] by auto
qed

section \<open>Single deletes\<close>

lemma remove_nth_items:
  assumes "slice_ok b" "i < length (items b)"
  shows "take i (items b) @ drop (i + 1) (items b) = filter (\<lambda>p. p \<notin> set [items b ! i]) (items b)"
proof -
  have "remove_nth i (items b) = filter (\<lambda>p. p \<notin> set [items b ! i]) (items b)"
    by (rule remove_nth_as_filter [where f = "\<lambda>p. p"]) (use assms in \<open>auto simp: slice_ok_def\<close>)
  then show ?thesis by (simp add: remove_nth_def)
qed

lemma deleteIndex_removal:
  assumes ok: "buf_ok b" and i: "i < length (items b)"
    and r: "deleteIndexLocked capq i now a b = (a', b')"
  shows "\<exists>b1. removal [items b ! i] b b1 \<and> reindexed b1 b'"
    and "a' = releaseLocked (sizeSum (map (deref b) [items b ! i])) (length [items b ! i]) now a b"
proof -
  let ?p = "items b ! i"
  have sl: "slice_ok b" using ok by (simp add: buf_ok_def idx_ok_def)
  let ?x = "deref b ?p"
  define b1 where "b1 = b\<lparr>items := take i (items b) @ drop (i + 1) (items b),
     bySeq := AList.delete (Seq ?x) (bySeq b),
     byID := (if ID ?x \<noteq> [] then AList.delete (ID ?x) (byID b) else byID b),
     idKeyBytes := (if ID ?x \<noteq> [] then idKeyBytes b - int (length (ID ?x)) else idKeyBytes b),
     byUUID := (if \<not> IsZero (UUID ?x) then AList.delete (UUID ?x) (byUUID b) else byUUID b),
     bytes := bytes b - approxItemSize ?x, bufLastWriteTS := now\<rparr>"
  have rm: "removal [?p] b b1"
    using i remove_nth_items [OF sl i]
    by (simp add: removal_def dropped_def buf_frame_def b1_def delete_keys_def)
  have ok1: "buf_ok b1" by (rule removal_facts(1) [OF ok rm])
  let ?b2 = "resetIfEmptyLocked b1"
  have "reindexed b1 ?b2" by (rule resetIfEmpty_reindexed [OF ok1])
  moreover from this have "buf_ok ?b2" by (simp add: reindexed_def)
  then have "reindexed ?b2 (shrinkIfSparseLocked (if items ?b2 = [] then 0 else capq) ?b2)"
    by (rule shrinkIfSparse_reindexed)
  moreover have "deleteIndexLocked capq i now a b = (releaseLocked (approxItemSize ?x) 1 now a b,
      shrinkIfSparseLocked (if items ?b2 = [] then 0 else capq) ?b2)"
    by (simp only: deleteIndexLocked_def Let_def b1_def)
  then have "b' = shrinkIfSparseLocked (if items ?b2 = [] then 0 else capq) ?b2"
    using r by (simp only: prod.inject)
  ultimately have "reindexed b1 b'" using reindexed_trans by blast
  then show "\<exists>b1. removal [items b ! i] b b1 \<and> reindexed b1 b'" using rm by blast
  show "a' = releaseLocked (sizeSum (map (deref b) [items b ! i])) (length [items b ! i]) now a b"
    using r by (simp add: deleteIndexLocked_def Let_def)
qed

lemma deleteFound_removal:
  assumes ok: "buf_ok b" and p: "p \<in> set (items b)" and r: "deleteFound capq now (Seq (deref b p)) a b = (r, a', b')"
  shows "r = Inr 1" and "\<exists>b1. removal [p] b b1 \<and> reindexed b1 b'"
    and "a' = releaseLocked (sizeSum (map (deref b) [p])) (length [p]) now a b"
proof -
  have "slice_ok b" using ok by (simp add: buf_ok_def idx_ok_def)
  from indexBySeq_hit [OF this p] obtain i
    where i: "indexBySeqLocked b (Seq (deref b p)) = Some i" "i < length (items b)" "items b ! i = p"
    by blast
  obtain a1 b1 where d: "deleteIndexLocked capq i now a b = (a1, b1)" by fastforce
  then have e: "r = Inr 1" "a' = a1" "b' = b1" using r i by (simp_all add: deleteFound_def)
  from deleteIndex_removal [OF ok i(2) d] i(3) e
  show "r = Inr 1" "\<exists>b1. removal [p] b b1 \<and> reindexed b1 b'"
    "a' = releaseLocked (sizeSum (map (deref b) [p])) (length [p]) now a b" by simp_all
qed

lemma deleteFound_op:
  assumes "\<And>a b r a' b'. op a b = (r, a', b') \<Longrightarrow> a' = a \<and> b' = b \<or>
      \<not> detached b \<and> (buf_ok b \<longrightarrow> (\<exists>p capq now. p \<in> set (items b) \<and>
         deleteFound capq now (Seq (deref b p)) a b = (r, a', b')))"
  shows "buffer_op op n {}"
proof (rule buffer_op_removal)
  fix a b r a' b' assume e: "op a b = (r, a', b')"
  show "a' = a \<and> b' = b \<or> \<not> detached b \<and> (buf_ok b \<longrightarrow> (\<exists>rs b1 now. removal rs b b1 \<and> reindexed b1 b' \<and>
         a' = releaseLocked (sizeSum (map (deref b) rs)) (length rs) now a b))"
    using assms [OF e] deleteFound_removal(2,3) [of b _ _ _ a r a' b'] by blast
qed

interpretation delID: buffer_op "deleteByID capq now k" n "{}" for capq now k n
  by (rule deleteFound_op)
    (auto simp: deleteByID_def split: if_splits option.splits dest: byID_live)

interpretation delSeq: buffer_op "deleteBySeq capq now k" n "{}" for capq now k n
proof (rule deleteFound_op)
  fix a b r a' b' assume e: "deleteBySeq capq now k a b = (r, a', b')"
  show "a' = a \<and> b' = b \<or> \<not> detached b \<and> (buf_ok b \<longrightarrow> (\<exists>p capq now. p \<in> set (items b) \<and>
         deleteFound capq now (Seq (deref b p)) a b = (r, a', b')))"
    using e bySeq_SomeD [OF buf_ok_idx] by (fastforce simp: deleteBySeq_def split: if_splits option.splits)
qed

interpretation delUUID: buffer_op "deleteByUUID capq now k" n "{}" for capq now k n
  by (rule deleteFound_op)
    (auto simp: deleteByUUID_def split: if_splits option.splits dest: byUUID_live)

section \<open>Prefix drains\<close>

lemma drain_idx:
  assumes "slice_ok b"
  shows "sortSearch (length (items b)) (\<lambda>i. Seq (deref b (items b ! i)) > m)
    = length (takeWhile (\<lambda>p. Seq (deref b p) \<le> m) (items b))"
proof (rule sortSearch_takeWhile)
  show "sorted_wrt (<) (map (\<lambda>p. Seq (deref b p)) (items b))"
    using assms by (simp add: slice_ok_def bufItems_def comp_def)
qed auto

lemma sorted_prefix:
  assumes "sorted_wrt (<) (map g xs)" and "p = length (takeWhile (\<lambda>x. g x \<le> (m :: nat)) xs)"
  shows "take p xs = filter (\<lambda>x. g x \<le> m) xs" and "drop p xs = filter (\<lambda>x. \<not> g x \<le> m) xs"
proof -
  have "take (length (takeWhile (\<lambda>x. g x \<le> m) xs)) xs = filter (\<lambda>x. g x \<le> m) xs \<and>
    drop (length (takeWhile (\<lambda>x. g x \<le> m) xs)) xs = filter (\<lambda>x. \<not> g x \<le> m) xs"
    using assms(1)
  proof (induction xs)
    case (Cons x xs)
    show ?case
    proof (cases "g x \<le> m")
      case False
      then have "\<not> g y \<le> m" if "y \<in> set xs" for y using Cons.prems that by fastforce
      then have "filter (\<lambda>x. g x \<le> m) xs = []" "filter (\<lambda>x. \<not> g x \<le> m) xs = xs"
        by (simp_all add: filter_empty_conv)
      then show ?thesis using False by simp
    qed (use Cons in simp)
  qed simp
  then show "take p xs = filter (\<lambda>x. g x \<le> m) xs" "drop p xs = filter (\<lambda>x. \<not> g x \<le> m) xs"
    using assms(2) by simp_all
qed

lemma deleteUpTo_removal:
  assumes ok: "buf_ok b" and r: "deleteUpToSeqLocked now m a b = (n, a', b')"
    and rs: "rs = filter (\<lambda>p. Seq (deref b p) \<le> m) (items b)"
  shows "n = length rs"
    and "a' = a \<and> b' = b \<and> rs = [] \<or> (\<exists>b1. removal rs b b1 \<and> reindexed b1 b' \<and>
       a' = releaseLocked (sizeSum (map (deref b) rs)) (length rs) now a b)"
proof -
  have sl: "slice_ok b" using ok by (simp add: buf_ok_def idx_ok_def)
  have srt: "sorted_wrt (<) (map (\<lambda>p. Seq (deref b p)) (items b))" and di: "distinct (items b)"
    using sl by (simp_all add: slice_ok_def bufItems_def comp_def)
  let ?i = "sortSearch (length (items b)) (\<lambda>i. Seq (deref b (items b ! i)) > m)"
  note pre = sorted_prefix [OF srt drain_idx [OF sl]]
  have li: "?i = length rs"
    using pre(1) rs drain_idx [OF sl] by (metis length_takeWhile_le length_take min.absorb2)
  show "n = length rs" using r li by (auto simp: deleteUpToSeqLocked_def Let_def split: if_splits)
  have keep: "drop ?i (items b) = filter (\<lambda>p. p \<notin> set rs) (items b)"
    unfolding pre(2) rs by (rule filter_cong) auto
  have take: "take ?i (items b) = rs" using pre(1) rs by simp
  show "a' = a \<and> b' = b \<and> rs = [] \<or> (\<exists>b1. removal rs b b1 \<and> reindexed b1 b' \<and>
       a' = releaseLocked (sizeSum (map (deref b) rs)) (length rs) now a b)"
  proof (cases "?i = 0")
    case True
    then show ?thesis using r li by (simp add: deleteUpToSeqLocked_def Let_def)
  next
    case False
    define b1 where "b1 = b\<lparr>items := drop ?i (items b),
       bySeq := delete_keys (map (\<lambda>p. Seq (deref b p)) rs) (bySeq b),
       byID := delete_keys (filter (\<lambda>k. k \<noteq> []) (map (\<lambda>p. ID (deref b p)) rs)) (byID b),
       byUUID := delete_keys (filter (\<lambda>u. \<not> IsZero u) (map (\<lambda>p. UUID (deref b p)) rs)) (byUUID b),
       bytes := bytes b - (\<Sum>p\<leftarrow>rs. approxItemSize (deref b p)),
       idKeyBytes := idKeyBytes b - (\<Sum>p\<leftarrow>rs. int (length (ID (deref b p)))), bufLastWriteTS := now\<rparr>"
    have rm: "removal rs b b1"
      using di rs keep by (auto simp: removal_def dropped_def buf_frame_def b1_def sizeSum_def idLenSum_def comp_def)
    have "deleteUpToSeqLocked now m a b = (?i, releaseLocked (\<Sum>p\<leftarrow>rs. approxItemSize (deref b p)) ?i now a b,
        resetIfEmptyLocked b1)"
      by (simp only: deleteUpToSeqLocked_def Let_def take b1_def False if_False)
    then have e: "b' = resetIfEmptyLocked b1"
      "a' = releaseLocked (\<Sum>p\<leftarrow>rs. approxItemSize (deref b p)) ?i now a b" using r by (simp_all only: prod.inject)
    from e(1) have "reindexed b1 b'" using resetIfEmpty_reindexed removal_facts(1) [OF ok rm] by blast
    moreover have "a' = releaseLocked (sizeSum (map (deref b) rs)) (length rs) now a b"
      using e(2) li by (simp add: sizeSum_def comp_def)
    ultimately show ?thesis using rm by blast
  qed
qed

interpretation drainSeq: buffer_op "deleteUpToSeq now m" n "{}" for now m n
proof (rule buffer_op_removal)
  fix a b r a' b' assume e: "deleteUpToSeq now m a b = (r, a', b')"
  show "a' = a \<and> b' = b \<or> \<not> detached b \<and> (buf_ok b \<longrightarrow> (\<exists>rs b1 now. removal rs b b1 \<and> reindexed b1 b' \<and>
         a' = releaseLocked (sizeSum (map (deref b) rs)) (length rs) now a b))"
  proof (cases "detached b")
    case False
    obtain n1 a1 b1 where d: "deleteUpToSeqLocked now m a b = (n1, a1, b1)"
      by (cases "deleteUpToSeqLocked now m a b") auto
    then have "a' = a1" "b' = b1" using e False by (simp_all add: deleteUpToSeq_def)
    then show ?thesis using deleteUpTo_removal(2) [OF _ d refl] False by blast
  qed (use e in \<open>simp add: deleteUpToSeq_def\<close>)
qed

interpretation drainUUID: buffer_op "deleteUpToUUID now u" n "{}" for now u n
proof (rule buffer_op_removal)
  fix a b r a' b' assume e: "deleteUpToUUID now u a b = (r, a', b')"
  show "a' = a \<and> b' = b \<or> \<not> detached b \<and> (buf_ok b \<longrightarrow> (\<exists>rs b1 now. removal rs b b1 \<and> reindexed b1 b' \<and>
         a' = releaseLocked (sizeSum (map (deref b) rs)) (length rs) now a b))"
  proof (cases "detached b \<or> map_of (byUUID b) u = None")
    case False
    then obtain p where p: "map_of (byUUID b) u = Some p" "\<not> detached b" by auto
    obtain n1 a1 b1 where d: "deleteUpToSeqLocked now (Seq (deref b p)) a b = (n1, a1, b1)"
      by (cases "deleteUpToSeqLocked now (Seq (deref b p)) a b") auto
    then have "a' = a1" "b' = b1" using e p by (simp_all add: deleteUpToUUID_def)
    then show ?thesis using deleteUpTo_removal(2) [OF _ d refl] p by blast
  qed (use e in \<open>auto simp: deleteUpToUUID_def split: if_splits\<close>)
qed

section \<open>What the deletes do to the item list\<close>

lemma removal_view:
  assumes ok: "buf_ok b" and rm: "removal rs b b1" and re: "reindexed b1 b'"
    and P: "\<And>p. p \<in> set (items b) \<Longrightarrow> P (deref b p) \<longleftrightarrow> p \<notin> set rs"
  shows "bufItems b' = filter P (bufItems b)"
proof -
  have "bufItems b' = map (deref b) (filter (\<lambda>p. p \<notin> set rs) (items b))"
    using removal_facts(2) [OF ok rm] reindexed_view [OF re] by simp
  also have "filter (\<lambda>p. p \<notin> set rs) (items b) = filter (P \<circ> deref b) (items b)"
    by (rule filter_cong) (use P in auto)
  finally show ?thesis by (simp add: bufItems_def filter_map)
qed

lemma deleted_view:
  assumes ok: "buf_ok b"
    and P: "\<And>x. x \<in> set (bufItems b) \<Longrightarrow> P x \<longleftrightarrow> (\<exists>p. m = Some p \<and> Seq x = Seq (deref b p))"
    and live: "\<And>p. m = Some p \<Longrightarrow> p \<in> set (items b)"
    and r: "case m of None \<Rightarrow> r = Inr 0 \<and> b' = b
       | Some p \<Rightarrow> deleteFound capq now (Seq (deref b p)) a b = (r, a', b')"
  shows "bufItems b' = filter (\<lambda>x. \<not> P x) (bufItems b)"
    and "r = Inr (if \<exists>x \<in> set (bufItems b). P x then 1 else 0)"
proof -
  have "bufItems b' = filter (\<lambda>x. \<not> P x) (bufItems b) \<and> r = Inr (if \<exists>x \<in> set (bufItems b). P x then 1 else 0)"
  proof (cases m)
    case None
    then show ?thesis using P r by simp
  next
    case (Some p)
    then have p: "p \<in> set (items b)" and d: "deleteFound capq now (Seq (deref b p)) a b = (r, a', b')"
      using live r by auto
    note f = deleteFound_removal [OF ok p d]
    obtain b1 where b1: "removal [p] b b1" "reindexed b1 b'" using f(2) by blast
    have "bufItems b' = filter (\<lambda>x. \<not> P x) (bufItems b)"
      by (rule removal_view [OF ok b1]) (use P Some p seq_eq_iff [OF ok p] in auto)
    moreover have "\<exists>x \<in> set (bufItems b). P x" using P Some p by blast
    ultimately show ?thesis using f(1) by simp
  qed
  then show "bufItems b' = filter (\<lambda>x. \<not> P x) (bufItems b)"
    "r = Inr (if \<exists>x \<in> set (bufItems b). P x then 1 else 0)" by blast+
qed

lemma deleteByID_view:
  assumes ok: "buf_ok b" and r: "deleteByID capq now k a b = (r, a', b')" and k: "k \<noteq> []" and "\<not> detached b"
  shows "bufItems b' = filter (\<lambda>x. ID x \<noteq> k) (bufItems b)"
    and "r = Inr (if \<exists>x \<in> set (bufItems b). ID x = k then 1 else 0)"
proof -
  have "case map_of (byID b) k of None \<Rightarrow> r = Inr 0 \<and> b' = b
    | Some p \<Rightarrow> deleteFound capq now (Seq (deref b p)) a b = (r, a', b')"
    using r assms(4) by (auto simp: deleteByID_def split: option.splits)
  from deleted_view [OF ok id_addresses [OF ok k] byID_live [OF ok] this]
  show "bufItems b' = filter (\<lambda>x. ID x \<noteq> k) (bufItems b)"
    "r = Inr (if \<exists>x \<in> set (bufItems b). ID x = k then 1 else 0)" by simp_all
qed

lemma deleteBySeq_view:
  assumes ok: "buf_ok b" and r: "deleteBySeq capq now k a b = (r, a', b')" and "\<not> detached b"
  shows "bufItems b' = filter (\<lambda>x. Seq x \<noteq> k) (bufItems b)"
    and "r = Inr (if \<exists>x \<in> set (bufItems b). Seq x = k then 1 else 0)"
proof -
  have "case map_of (bySeq b) k of None \<Rightarrow> r = Inr 0 \<and> b' = b
    | Some p \<Rightarrow> deleteFound capq now (Seq (deref b p)) a b = (r, a', b')"
    using r assms(3) bySeq_SomeD [OF buf_ok_idx [OF ok], of k]
    by (auto simp: deleteBySeq_def split: option.splits)
  from deleted_view [OF ok seq_addresses [OF ok] bySeq_live [OF ok] this]
  show "bufItems b' = filter (\<lambda>x. Seq x \<noteq> k) (bufItems b)"
    "r = Inr (if \<exists>x \<in> set (bufItems b). Seq x = k then 1 else 0)" by simp_all
qed

lemma deleteByUUID_view:
  assumes ok: "buf_ok b" "byUUID_full b" and r: "deleteByUUID capq now k a b = (r, a', b')"
    and k: "\<not> IsZero k" and "\<not> detached b"
  shows "bufItems b' = filter (\<lambda>x. UUID x \<noteq> k) (bufItems b)"
    and "r = Inr (if \<exists>x \<in> set (bufItems b). UUID x = k then 1 else 0)"
proof -
  have "case map_of (byUUID b) k of None \<Rightarrow> r = Inr 0 \<and> b' = b
    | Some p \<Rightarrow> deleteFound capq now (Seq (deref b p)) a b = (r, a', b')"
    using r assms(5) by (auto simp: deleteByUUID_def split: option.splits)
  from deleted_view [OF ok(1) uuid_addresses [OF ok k] byUUID_live [OF ok(1)] this]
  show "bufItems b' = filter (\<lambda>x. UUID x \<noteq> k) (bufItems b)"
    "r = Inr (if \<exists>x \<in> set (bufItems b). UUID x = k then 1 else 0)" by simp_all
qed

lemma deleteUpToSeqLocked_view:
  assumes ok: "buf_ok b" and r: "deleteUpToSeqLocked now m a b = (n, a', b')"
  shows "bufItems b' = filter (\<lambda>x. Seq x > m) (bufItems b)"
    and "n = length (filter (\<lambda>x. Seq x \<le> m) (bufItems b))"
proof -
  let ?rs = "filter (\<lambda>p. Seq (deref b p) \<le> m) (items b)"
  note f = deleteUpTo_removal [OF ok r refl]
  show "n = length (filter (\<lambda>x. Seq x \<le> m) (bufItems b))"
    using f(1) by (simp add: bufItems_def filter_map comp_def)
  from f(2) show "bufItems b' = filter (\<lambda>x. Seq x > m) (bufItems b)"
  proof
    assume "a' = a \<and> b' = b \<and> ?rs = []"
    then show ?thesis by (auto simp: bufItems_def filter_empty_conv not_le filter_id_conv)
  next
    assume "\<exists>b1. removal ?rs b b1 \<and> reindexed b1 b' \<and>
       a' = releaseLocked (sizeSum (map (deref b) ?rs)) (length ?rs) now a b"
    then obtain b1 where b1: "removal ?rs b b1" "reindexed b1 b'" by blast
    show ?thesis by (rule removal_view [OF ok b1]) auto
  qed
qed

text \<open>Draining up to the position of a uuid: the entry and everything before it, or nothing.\<close>

lemma deleteUpToUUID_view:
  assumes ok: "buf_ok b" "byUUID_full b" and r: "deleteUpToUUID now u a b = (Inr n, a', b')" and u: "\<not> IsZero u"
  shows "bufItems b' = (case find (\<lambda>x. UUID x = u) (bufItems b) of
     None \<Rightarrow> bufItems b | Some y \<Rightarrow> filter (\<lambda>x. Seq x > Seq y) (bufItems b))"
proof (cases "map_of (byUUID b) u")
  case None
  then have "find (\<lambda>x. UUID x = u) (bufItems b) = None"
    using uuid_addresses [OF ok u] by (auto simp: find_None_iff)
  then show ?thesis using r None by (auto simp: deleteUpToUUID_def split: if_splits)
next
  case (Some p)
  obtain y where y: "find (\<lambda>x. UUID x = u) (bufItems b) = Some y"
    using uuid_addresses [OF ok u] Some byUUID_live [OF ok(1) Some]
    by (cases "find (\<lambda>x. UUID x = u) (bufItems b)") (auto simp: find_None_iff)
  then have "y \<in> set (bufItems b)" "UUID y = u" by (auto simp: find_Some_iff simp del: bufItems_nth)
  then have "Seq y = Seq (deref b p)" using uuid_addresses [OF ok u] Some by auto
  moreover obtain a1 b1 n1 where d: "deleteUpToSeqLocked now (Seq (deref b p)) a b = (n1, a1, b1)"
    by (cases "deleteUpToSeqLocked now (Seq (deref b p)) a b") auto
  moreover have "b' = b1" using r d Some by (auto simp: deleteUpToUUID_def split: if_splits)
  ultimately show ?thesis using deleteUpToSeqLocked_view(1) [OF ok(1) d] y by simp
qed

end
