(* ===== verification/Buffer_Read.thy ===== *)
theory Buffer_Read
  imports Buffer_Counter Buffer_Delete
begin

text \<open>
  The read paths (\<^verbatim>\<open>buffer_read.go\<close>) and the per-scope statistics (\<^verbatim>\<open>buffer_stats.go\<close>). The locale
  \<open>keyed_scope\<close> states what a lookup promises a client of a buffer: a key finds exactly the entry that
  carries it. The three lookups interpret it, on the buffers that satisfy the invariant.
\<close>

section \<open>Operations\<close>

definition materialiseCounter :: "item \<Rightarrow> item" where
  "materialiseCounter it =
     (case counter it of
        None \<Rightarrow> it
      | Some c \<Rightarrow> it\<lparr>Payload := renderCounterPayload c, Ts := cellTs c\<rparr>)"

definition materialiseCountersInPlace :: "item list \<Rightarrow> item list" where
  "materialiseCountersInPlace its = map (\<lambda>it. if counter it \<noteq> None then materialiseCounter it else it) its"

definition tailOffset :: "int \<Rightarrow> int \<Rightarrow> scopeBuffer \<Rightarrow> item list \<times> bool" where
  "tailOffset limit offset b =
     (if limit \<le> 0 \<or> offset < 0 then ([], False)
      else if offset \<ge> int (length (items b)) then ([], False)
      else
        (let e = int (length (items b)) - offset;
             start0 = e - limit;
             hasMore = start0 > 0;
             start = (if start0 < 0 then 0 else start0)
         in if start \<ge> e then ([], False)
            else (let window = take (nat (e - start)) (drop (nat start) (items b))
                  in (materialiseCountersInPlace (map (deref b) window), hasMore))))"

definition sinceSeq :: "nat \<Rightarrow> int \<Rightarrow> scopeBuffer \<Rightarrow> item list \<times> bool" where
  "sinceSeq afterSeq limit b =
     (if limit \<le> 0 then ([], False)
      else if length (items b) = 0 then ([], False)
      else
        (let idx = sortSearch (length (items b)) (\<lambda>i. Seq (deref b (items b ! i)) > afterSeq)
         in if idx \<ge> length (items b) then ([], False)
            else
              (let available = length (items b) - idx;
                   hasMore = int available > limit;
                   tk = (if hasMore then nat limit else available);
                   out = map (\<lambda>j. deref b (items b ! (idx + j))) [0..<tk]
               in (materialiseCountersInPlace out, hasMore))))"

definition getByID :: "string \<Rightarrow> scopeBuffer \<Rightarrow> item option" where
  "getByID k b = map_option (\<lambda>p. materialiseCounter (deref b p)) (map_of (byID b) k)"

definition getBySeq :: "nat \<Rightarrow> scopeBuffer \<Rightarrow> item option" where
  "getBySeq seq b = map_option (\<lambda>p. materialiseCounter (deref b p)) (map_of (bySeq b) seq)"

definition getByUUID :: "UUID \<Rightarrow> scopeBuffer \<Rightarrow> item option" where
  "getByUUID u b = map_option (\<lambda>p. materialiseCounter (deref b p)) (map_of (byUUID b) u)"

definition approxSizeBytesLocked :: "scopeBuffer \<Rightarrow> int" where
  "approxSizeBytesLocked b =
     64 + int (length (items b)) * 32 + bytes b + int (length (byID b)) * 32 + idKeyBytes b
       + int (length (bySeq b)) * 16"

record scopeStats =
  ssItemCount :: nat
  ssLastSeq :: nat
  ssFirstUUID :: UUID
  ssLastUUID :: UUID
  ssApproxScopeMB :: int
  ssCreatedTS :: int
  ssLastWriteTS :: int
  ssLastAccessTS :: int
  ssReadCountTotal :: nat

definition stats :: "scopeBuffer \<Rightarrow> scopeStats" where
  "stats b = \<lparr>ssItemCount = length (items b), ssLastSeq = lastSeq b, ssFirstUUID = firstUUID b,
     ssLastUUID = lastUUID b, ssApproxScopeMB = approxSizeBytesLocked b, ssCreatedTS = createdTS b,
     ssLastWriteTS = bufLastWriteTS b, ssLastAccessTS = lastAccessTS b, ssReadCountTotal = readCountTotal b\<rparr>"

section \<open>Windows\<close>

text \<open>What a reader is shown: the item list with its counters materialised.\<close>

definition shown :: "scopeBuffer \<Rightarrow> item list" where
  "shown b = map materialiseCounter (bufItems b)"

lemma length_shown [simp]: "length (shown b) = length (items b)"
  by (simp add: shown_def)

lemma materialiseCounter_keys [simp]:
  "ID (materialiseCounter it) = ID it" "Seq (materialiseCounter it) = Seq it"
  "UUID (materialiseCounter it) = UUID it" "Scope (materialiseCounter it) = Scope it"
  by (simp_all add: materialiseCounter_def split: option.splits)

lemma materialise_in_place: "materialiseCountersInPlace its = map materialiseCounter its"
  by (auto simp: materialiseCountersInPlace_def materialiseCounter_def split: option.splits)

lemma tailOffset_window:
  assumes "limit > 0" "offset \<ge> 0"
  shows "fst (tailOffset limit offset b) =
      (let kept = take (length (shown b) - nat offset) (shown b) in drop (length kept - nat limit) kept)"
    and "snd (tailOffset limit offset b) \<longleftrightarrow> int (length (shown b)) > offset + limit"
proof -
  let ?n = "length (items b)"
  show "snd (tailOffset limit offset b) \<longleftrightarrow> int (length (shown b)) > offset + limit"
    using assms by (auto simp: tailOffset_def Let_def)
  show "fst (tailOffset limit offset b) =
      (let kept = take (length (shown b) - nat offset) (shown b) in drop (length kept - nat limit) kept)"
  proof (cases "offset \<ge> int ?n")
    case True
    then have "?n - nat offset = 0" by simp
    then show ?thesis using assms True by (simp add: tailOffset_def)
  next
    case False
    define s where "s = (if int ?n - offset - limit < 0 then 0 else int ?n - offset - limit)"
    have s: "s < int ?n - offset" "0 \<le> s" using False assms by (auto simp: s_def)
    have e: "nat (int ?n - offset) = ?n - nat offset" using assms by simp
    have d: "(?n - nat offset) - nat limit = nat s" using assms by (auto simp: s_def)
    have "fst (tailOffset limit offset b) =
        materialiseCountersInPlace (map (deref b) (take (nat (int ?n - offset - s)) (drop (nat s) (items b))))"
      using False assms s by (simp add: tailOffset_def Let_def s_def)
    also have "\<dots> = take (nat (int ?n - offset - s)) (drop (nat s) (shown b))"
      by (simp add: materialise_in_place shown_def bufItems_def take_map drop_map)
    also have "nat (int ?n - offset - s) = (?n - nat offset) - nat s" using s assms by linarith
    also have "take ((?n - nat offset) - nat s) (drop (nat s) (shown b)) = drop (nat s) (take (?n - nat offset) (shown b))"
      by (simp add: drop_take)
    finally show ?thesis using d by (simp add: Let_def)
  qed
qed

lemma sinceSeq_window:
  assumes ok: "buf_ok b" and limit: "limit > 0"
  shows "fst (sinceSeq m limit b) = take (nat limit) (filter (\<lambda>x. Seq x > m) (shown b))"
    and "snd (sinceSeq m limit b) \<longleftrightarrow> int (length (filter (\<lambda>x. Seq x > m) (shown b))) > limit"
proof -
  have sl: "slice_ok b" using ok by (simp add: buf_ok_def idx_ok_def)
  have srt: "sorted_wrt (<) (map (\<lambda>p. Seq (deref b p)) (items b))"
    using sl by (simp add: slice_ok_def bufItems_def comp_def)
  define idx where "idx = sortSearch (length (items b)) (\<lambda>i. Seq (deref b (items b ! i)) > m)"
  have i: "idx = length (takeWhile (\<lambda>p. Seq (deref b p) \<le> m) (items b))"
    unfolding idx_def by (rule drain_idx [OF sl])
  have rest: "drop idx (items b) = filter (\<lambda>p. \<not> Seq (deref b p) \<le> m) (items b)"
    by (rule sorted_prefix(2) [OF srt i])
  have f: "filter (\<lambda>x. Seq x > m) (shown b) = map (\<lambda>p. materialiseCounter (deref b p)) (drop idx (items b))"
    unfolding rest by (simp add: shown_def bufItems_def filter_map comp_def not_le)
  have tk: "map (\<lambda>j. deref b (items b ! (idx + j))) [0..<t] = map (deref b) (take t (drop idx (items b)))"
    if "t \<le> length (items b) - idx" for t
    using that by (intro nth_equalityI) auto
  show "snd (sinceSeq m limit b) \<longleftrightarrow> int (length (filter (\<lambda>x. Seq x > m) (shown b))) > limit"
    unfolding f using limit by (auto simp: sinceSeq_def Let_def idx_def [symmetric])
  show "fst (sinceSeq m limit b) = take (nat limit) (filter (\<lambda>x. Seq x > m) (shown b))"
  proof (cases "idx \<ge> length (items b)")
    case True
    then show ?thesis unfolding f using limit by (simp add: sinceSeq_def Let_def idx_def [symmetric])
  next
    case False
    let ?t = "if int (length (items b) - idx) > limit then nat limit else length (items b) - idx"
    have t: "?t \<le> length (items b) - idx" by auto
    have "fst (sinceSeq m limit b) = materialiseCountersInPlace (map (\<lambda>j. deref b (items b ! (idx + j))) [0..<?t])"
      using False limit by (auto simp: sinceSeq_def Let_def idx_def [symmetric])
    also have "\<dots> = take ?t (filter (\<lambda>x. Seq x > m) (shown b))"
      unfolding tk [OF t] f by (simp add: materialise_in_place take_map)
    also have "\<dots> = take (nat limit) (filter (\<lambda>x. Seq x > m) (shown b))"
      unfolding f using limit by (auto simp: take_map)
    finally show ?thesis .
  qed
qed

section \<open>Lookups\<close>

locale keyed_scope =
  fixes key :: "item \<Rightarrow> 'k"
    and lookup :: "'k \<Rightarrow> scopeBuffer \<Rightarrow> item option"
    and good :: "scopeBuffer \<Rightarrow> bool"
    and proper :: "'k \<Rightarrow> bool"
  assumes good_ok: "good b \<Longrightarrow> buf_ok b"
    and lookup_iff: "good b \<Longrightarrow> proper k \<Longrightarrow> lookup k b = Some x \<longleftrightarrow> x \<in> set (shown b) \<and> key x = k"
    and key_shown: "key (materialiseCounter it) = key it"
begin

lemma lookup_None: "good b \<Longrightarrow> proper k \<Longrightarrow> lookup k b = None \<longleftrightarrow> (\<forall>x \<in> set (bufItems b). key x \<noteq> k)"
proof -
  assume g: "good b" and p: "proper k"
  show ?thesis
  proof (cases "lookup k b")
    case None
    have "key x \<noteq> k" if "x \<in> set (bufItems b)" for x
      using lookup_iff [OF g p, of "materialiseCounter x"] None that key_shown by (auto simp: shown_def)
    then show ?thesis using None by auto
  next
    case (Some a)
    then have "a \<in> set (shown b)" "key a = k" using lookup_iff [OF g p] by blast+
    then obtain x where "x \<in> set (bufItems b)" "key x = k" using key_shown by (auto simp: shown_def)
    then show ?thesis using Some by auto
  qed
qed

lemma key_unique:
  assumes "good b" "proper (key x)" "x \<in> set (shown b)" "y \<in> set (shown b)" "key x = key y"
  shows "x = y"
proof -
  have "lookup (key x) b = Some x" "lookup (key x) b = Some y"
    using lookup_iff [OF assms(1,2)] assms(3-5) by auto
  then show ?thesis by simp
qed

lemma lookup_after_snoc:
  assumes "good b" "good b'" "proper k" "bufItems b' = bufItems b @ [st]"
  shows "lookup k b' = (if key st = k then Some (materialiseCounter st) else lookup k b)"
proof (rule option.expand)
  show "(lookup k b' = None) = ((if key st = k then Some (materialiseCounter st) else lookup k b) = None)"
    using assms by (auto simp: lookup_None)
  assume "lookup k b' \<noteq> None" and n: "(if key st = k then Some (materialiseCounter st) else lookup k b) \<noteq> None"
  then obtain x where x: "lookup k b' = Some x" by auto
  obtain y where y: "(if key st = k then Some (materialiseCounter st) else lookup k b) = Some y" using n by auto
  have "y \<in> set (shown b')" "key y = k"
    using y assms(4) lookup_iff [OF assms(1,3), of y] key_shown by (auto simp: shown_def split: if_splits)
  then have "lookup k b' = Some y" using lookup_iff [OF assms(2,3)] by blast
  then show "the (lookup k b') = the (if key st = k then Some (materialiseCounter st) else lookup k b)"
    using y by simp
qed

lemma lookup_after_filter:
  assumes "good b" "good b'" "proper k" "bufItems b' = filter P (bufItems b)"
  shows "lookup k b' = (if \<exists>x \<in> set (bufItems b). key x = k \<and> P x then lookup k b else None)"
proof (cases "\<exists>x \<in> set (bufItems b). key x = k \<and> P x")
  case True
  then obtain x where x: "x \<in> set (bufItems b)" "key x = k" "P x" by blast
  then have "lookup k b' = Some (materialiseCounter x)" "lookup k b = Some (materialiseCounter x)"
    using assms lookup_iff [OF assms(2,3)] lookup_iff [OF assms(1,3)] key_shown by (auto simp: shown_def)
  then show ?thesis using True by auto
next
  case False
  then have "lookup k b' = None" using assms by (auto simp: lookup_None)
  then show ?thesis using False by auto
qed

end

lemma shown_iff: "x \<in> set (shown b) \<longleftrightarrow> (\<exists>p \<in> set (items b). x = materialiseCounter (deref b p))"
  by (auto simp: shown_def bufItems_def)

interpretation byId: keyed_scope ID getByID buf_ok "\<lambda>k. k \<noteq> []"
proof
  fix b x and k :: string assume ok: "buf_ok b" and k: "k \<noteq> []"
  have "getByID k b = Some x \<longleftrightarrow> (\<exists>p. map_of (byID b) k = Some p \<and> x = materialiseCounter (deref b p))"
    by (auto simp: getByID_def)
  also have "\<dots> \<longleftrightarrow> (\<exists>p. p \<in> set (items b) \<and> ID (deref b p) = k \<and> x = materialiseCounter (deref b p))"
    using ok k by (auto simp: buf_ok_def idx_ok_def byID_ok_def)
  finally show "getByID k b = Some x \<longleftrightarrow> x \<in> set (shown b) \<and> ID x = k" by (auto simp: shown_iff)
qed simp_all

interpretation bySq: keyed_scope Seq getBySeq buf_ok "\<lambda>k. True"
proof
  fix b k x assume ok: "buf_ok b"
  have "getBySeq k b = Some x \<longleftrightarrow> (\<exists>p. map_of (bySeq b) k = Some p \<and> x = materialiseCounter (deref b p))"
    by (auto simp: getBySeq_def)
  also have "\<dots> \<longleftrightarrow> (\<exists>p. p \<in> set (items b) \<and> Seq (deref b p) = k \<and> x = materialiseCounter (deref b p))"
    using ok by (auto simp: buf_ok_def idx_ok_def bySeq_ok_def)
  finally show "getBySeq k b = Some x \<longleftrightarrow> x \<in> set (shown b) \<and> Seq x = k" by (auto simp: shown_iff)
qed simp_all

interpretation byUu: keyed_scope UUID getByUUID "\<lambda>b. buf_ok b \<and> byUUID_full b" "\<lambda>u. \<not> IsZero u"
proof
  fix b k x assume ok: "buf_ok b \<and> byUUID_full b" and k: "\<not> IsZero k"
  have "map_of (byUUID b) k = Some p \<longleftrightarrow> p \<in> set (items b) \<and> UUID (deref b p) = k" for p
    using ok k byUUID_fullD [of b p k] byUUID_SomeD [OF buf_ok_idx, of b k p] by blast
  then have "getByUUID k b = Some x \<longleftrightarrow>
      (\<exists>p. p \<in> set (items b) \<and> UUID (deref b p) = k \<and> x = materialiseCounter (deref b p))"
    by (auto simp: getByUUID_def)
  then show "getByUUID k b = Some x \<longleftrightarrow> x \<in> set (shown b) \<and> UUID x = k" by (auto simp: shown_iff)
qed simp_all

end
