(* ===== verification/Buffer_Replace.thy ===== *)
theory Buffer_Replace
  imports Buffer_Read
begin

text \<open>
  The prepare-then-commit pipeline behind \<^verbatim>\<open>/warm\<close> and \<^verbatim>\<open>/rebuild\<close> (\<^verbatim>\<open>buffer_replace.go\<close>): a
  complete replacement state is built off the buffer, with its own heap, and swapped in at once.

  \<open>mints s\<close> is the uuid minted for the item that receives sequence number \<open>s\<close>, if one is minted.
\<close>

section \<open>Operations\<close>

record scopeReplacement =
  rHeap :: "item list"
  rItems :: "nat list"
  rByID :: "(string \<times> nat) list"
  rBySeq :: "(nat \<times> nat) list"
  rByUUID :: "(UUID \<times> nat) list"
  rLastSeq :: nat
  rFirstUUID :: UUID
  rLastUUID :: UUID
  rIdKeyBytes :: int

text \<open>The first loop: reject a repeated id, number and stamp the item.\<close>

definition builtItem :: "jsonLib \<Rightarrow> int \<Rightarrow> bool \<Rightarrow> (nat \<Rightarrow> UUID) \<Rightarrow> nat \<Rightarrow> item \<Rightarrow> item" where
  "builtItem J nowUs mintUUID mints seq src =
     (let it1 = src\<lparr>counter := None, Seq := seq, Ts := nowUs\<rparr>;
          it2 = (if IsZero (UUID it1) \<and> mintUUID then it1\<lparr>UUID := mints seq\<rparr> else it1)
      in it2\<lparr>renderBytes := renderOr J (renderBytes it2) (Payload it2)\<rparr>)"

fun build_loop ::
    "jsonLib \<Rightarrow> int \<Rightarrow> bool \<Rightarrow> (nat \<Rightarrow> UUID) \<Rightarrow> string list \<Rightarrow> nat \<Rightarrow> item list \<Rightarrow> reason + item list" where
  "build_loop J nowUs mintUUID mints seen lastSq [] = Inr []"
| "build_loop J nowUs mintUUID mints seen lastSq (src # rest) =
     (if ID src \<noteq> [] \<and> ID src \<in> set seen then Inl (DuplicateId (ID src))
      else
        (let seen' = (if ID src \<noteq> [] then ID src # seen else seen);
             seq = u64_inc lastSq
         in case build_loop J nowUs mintUUID mints seen' seq rest of
              Inl e \<Rightarrow> Inl e
            | Inr built \<Rightarrow> Inr (builtItem J nowUs mintUUID mints seq src # built)))"

text \<open>The loop that fills \<^verbatim>\<open>byUUID\<close> and rejects a repeated uuid; \<open>p\<close> is the pointer of the next item.\<close>

fun uuid_loop :: "(UUID \<times> nat) list \<Rightarrow> nat \<Rightarrow> item list \<Rightarrow> reason + (UUID \<times> nat) list" where
  "uuid_loop m p [] = Inr m"
| "uuid_loop m p (it # rest) =
     (if IsZero (UUID it) then uuid_loop m (Suc p) rest
      else if map_of m (UUID it) \<noteq> None then Inl (DuplicateUuid (UUID it))
      else uuid_loop (AList.update (UUID it) p m) (Suc p) rest)"

definition buildReplacementState ::
    "jsonLib \<Rightarrow> int \<Rightarrow> (nat \<Rightarrow> UUID) \<Rightarrow> item list \<Rightarrow> bool \<Rightarrow> reason + scopeReplacement" where
  "buildReplacementState J nowUs mints its mintUUID =
     (if length its = 0 then
        Inr \<lparr>rHeap = [], rItems = [], rByID = [], rBySeq = [], rByUUID = [], rLastSeq = 0,
             rFirstUUID = zeroUUID, rLastUUID = zeroUUID, rIdKeyBytes = 0\<rparr>
      else case build_loop J nowUs mintUUID mints [] 0 its of
        Inl e \<Rightarrow> Inl e
      | Inr built \<Rightarrow>
          (let ptrs = [0..<length built]
           in case uuid_loop [] 0 built of
                Inl e \<Rightarrow> Inl e
              | Inr byU \<Rightarrow>
                  Inr \<lparr>rHeap = built, rItems = ptrs,
                       rByID = index_of (map (\<lambda>p. (ID (built ! p), p)) (filter (\<lambda>p. ID (built ! p) \<noteq> []) ptrs)),
                       rBySeq = index_of (map (\<lambda>p. (Seq (built ! p), p)) ptrs),
                       rByUUID = byU,
                       rLastSeq = Seq (last built),
                       rFirstUUID = UUID (built ! 0),
                       rLastUUID = UUID (built ! (length built - 1)),
                       rIdKeyBytes = (\<Sum>p\<leftarrow>filter (\<lambda>p. ID (built ! p) \<noteq> []) ptrs. int (length (ID (built ! p))))\<rparr>))"

definition sumItemBytes :: "scopeReplacement \<Rightarrow> int" where
  "sumItemBytes r = (\<Sum>p\<leftarrow>rItems r. approxItemSize (rHeap r ! p))"

text \<open>The field assignments the two commit variants share.\<close>

definition swapIn :: "scopeReplacement \<Rightarrow> int \<Rightarrow> int \<Rightarrow> scopeBuffer \<Rightarrow> scopeBuffer" where
  "swapIn r newBytes now b =
     b\<lparr>heap := rHeap r, bytes := newBytes, idKeyBytes := rIdKeyBytes r, items := rItems r, byID := rByID r,
       bySeq := rBySeq r, byUUID := rByUUID r, lastSeq := rLastSeq r, firstUUID := rFirstUUID r,
       lastUUID := rLastUUID r, bufLastWriteTS := now\<rparr>"

definition commitReplacement ::
    "int \<Rightarrow> scopeReplacement \<Rightarrow> int \<Rightarrow> storeAcct \<Rightarrow> scopeBuffer \<Rightarrow> storeAcct \<times> scopeBuffer" where
  "commitReplacement now r newBytes a b =
     ((if attached b
       then bumpLastWriteTS now (addTotals (newBytes - bytes b)
              (int (length (rItems r)) - int (length (items b))) a)
       else a),
      swapIn r newBytes now b)"

definition commitReplacementPreReserved ::
    "int \<Rightarrow> scopeReplacement \<Rightarrow> int \<Rightarrow> int \<Rightarrow> storeAcct \<Rightarrow> scopeBuffer \<Rightarrow> storeAcct \<times> scopeBuffer" where
  "commitReplacementPreReserved now r newBytes oldSnapshot a b =
     ((if attached b
       then (let drift = bytes b - oldSnapshot;
                 a1 = (if drift \<noteq> 0 then a\<lparr>totalBytes := i64 (totalBytes a - drift)\<rparr> else a)
             in bumpLastWriteTS now
                  (a1\<lparr>totalItems := i64 (totalItems a1 + (int (length (rItems r)) - int (length (items b))))\<rparr>))
       else a),
      swapIn r newBytes now b)"

text \<open>\<open>now\<close> is read when the state is built, \<open>now'\<close> when it is committed. An error is a full scope, or the plain text
  of the builder, which carries no \<^verbatim>\<open>ErrInvalidInput\<close>.\<close>

definition replaceAll ::
    "jsonLib \<Rightarrow> int \<Rightarrow> int \<Rightarrow> (nat \<Rightarrow> UUID) \<Rightarrow> item list \<Rightarrow> storeAcct \<Rightarrow> scopeBuffer \<Rightarrow>
     ((goError + reason) + item list) \<times> storeAcct \<times> scopeBuffer" where
  "replaceAll J now now' mints its a b =
     (if itemCapExceeded b (int (length its)) then (Inl (Inl (ScopeFullError (int (length its)) (maxItems b))), a, b)
      else case buildReplacementState J now mints its (attached b) of
        Inl e \<Rightarrow> (Inl (Inr e), a, b)
      | Inr r \<Rightarrow>
          (case commitReplacement now' r (sumItemBytes r) a b of
             (a', b') \<Rightarrow> (Inr (map (deref b') (items b')), a', b')))"

section \<open>The built state is well formed\<close>

lemma builtItem_simps [simp]:
  "Seq (builtItem J now mu mints s src) = s" "ID (builtItem J now mu mints s src) = ID src"
  "Scope (builtItem J now mu mints s src) = Scope src" "cell_ok (builtItem J now mu mints s src)"
  "counter (builtItem J now mu mints s src) = None"
  "UUID (builtItem J now mu mints s src) = (if IsZero (UUID src) \<and> mu then mints s else UUID src)"
  "Payload (builtItem J now mu mints s src) = Payload src" "Ts (builtItem J now mu mints s src) = now"
  by (simp_all add: builtItem_def Let_def cell_ok_def)

lemma build_loop_built:
  assumes "build_loop J now mu mints seen s its = Inr built" "s + length its < 2 ^ 64"
  shows "built = map (\<lambda>(i, src). builtItem J now mu mints (s + Suc i) src) (enumerate 0 its)"
  using assms
proof (induction its arbitrary: seen s built)
  case (Cons src rest)
  have u: "u64_inc s = Suc s" using Cons.prems(2) by (intro u64_inc_id) simp
  obtain built' where b: "build_loop J now mu mints (if ID src \<noteq> [] then ID src # seen else seen) (Suc s) rest = Inr built'"
    "built = builtItem J now mu mints (Suc s) src # built'"
    using Cons.prems(1) by (auto simp: u Let_def split: if_splits sum.splits)
  have "built' = map (\<lambda>(i, src). builtItem J now mu mints (Suc s + Suc i) src) (enumerate 0 rest)"
    by (rule Cons.IH [OF b(1)]) (use Cons.prems(2) in simp)
  then show ?case using b(2) by (simp add: enumerate_Suc_eq comp_def case_prod_unfold)
qed simp

lemma build_loop_ids:
  assumes "build_loop J now mu mints seen s its = Inr built"
  shows "distinct (filter (\<lambda>k. k \<noteq> []) (map ID its)) \<and> set (filter (\<lambda>k. k \<noteq> []) (map ID its)) \<inter> set seen = {}"
  using assms
proof (induction its arbitrary: seen s built)
  case (Cons src rest)
  obtain built' where b: "build_loop J now mu mints (if ID src \<noteq> [] then ID src # seen else seen) (u64_inc s) rest = Inr built'"
    and n: "\<not> (ID src \<noteq> [] \<and> ID src \<in> set seen)"
    using Cons.prems(1) by (auto simp: Let_def split: if_splits sum.splits)
  from Cons.IH [OF b] n show ?case by (auto split: if_splits)
qed simp

lemma build_loop_fails:
  assumes "\<not> distinct (filter (\<lambda>k. k \<noteq> []) (map ID its)) \<or> set (filter (\<lambda>k. k \<noteq> []) (map ID its)) \<inter> set seen \<noteq> {}"
  shows "\<exists>e. build_loop J now mu mints seen s its = Inl e"
  using build_loop_ids [of J now mu mints seen s its] assms
  by (cases "build_loop J now mu mints seen s its") auto

lemma uuid_loop_Inr:
  assumes "uuid_loop m p its = Inr m'" "distinct (map fst m)"
  shows "distinct (map fst m')"
    and "map_of m' u = Some q \<longleftrightarrow> map_of m u = Some q \<or>
      (\<exists>i < length its. q = p + i \<and> UUID (its ! i) = u \<and> \<not> IsZero u)"
proof -
  have "distinct (map fst m') \<and> (map_of m' u = Some q \<longleftrightarrow> map_of m u = Some q \<or>
      (\<exists>i < length its. q = p + i \<and> UUID (its ! i) = u \<and> \<not> IsZero u))"
    using assms
  proof (induction its arbitrary: m p)
    case (Cons it rest)
    show ?case
    proof (cases "IsZero (UUID it)")
      case True
      then show ?thesis using Cons.IH [of m "Suc p"] Cons.prems by (auto simp: Ex_less_Suc2)
    next
      case False
      then have n: "map_of m (UUID it) = None" and r: "uuid_loop (AList.update (UUID it) p m) (Suc p) rest = Inr m'"
        using Cons.prems(1) by (auto split: if_splits)
      show ?thesis using Cons.IH [OF r] Cons.prems(2) n False by (auto simp: Ex_less_Suc2 distinct_update)
    qed
  qed simp
  then show "distinct (map fst m')" "map_of m' u = Some q \<longleftrightarrow> map_of m u = Some q \<or>
      (\<exists>i < length its. q = p + i \<and> UUID (its ! i) = u \<and> \<not> IsZero u)" by blast+
qed

lemma idLenSum_filter:
  "(\<Sum>p\<leftarrow>filter (\<lambda>p. ID (f p) \<noteq> []) ps. int (length (ID (f p)))) = (\<Sum>p\<leftarrow>ps. int (length (ID (f p))))"
  by (induction ps) auto

text \<open>The items of a replacement: the input, numbered from 1, stamped, uuids adopted or minted.\<close>

definition replacementItems :: "jsonLib \<Rightarrow> int \<Rightarrow> (nat \<Rightarrow> UUID) \<Rightarrow> item list \<Rightarrow> bool \<Rightarrow> item list" where
  "replacementItems J now mints its mu = map (\<lambda>(i, src). builtItem J now mu mints (Suc i) src) (enumerate 0 its)"

lemma length_replacementItems [simp]: "length (replacementItems J now mints its mu) = length its"
  by (simp add: replacementItems_def)

lemma replacementItems_nth [simp]:
  "i < length its \<Longrightarrow> replacementItems J now mints its mu ! i = builtItem J now mu mints (Suc i) (its ! i)"
  by (simp add: replacementItems_def nth_enumerate_eq)

lemma replacementItems_mem:
  "x \<in> set (replacementItems J now mints its mu) \<Longrightarrow> \<exists>i < length its. x = builtItem J now mu mints (Suc i) (its ! i)"
  by (auto simp: in_set_conv_nth)

lemma buildReplacement_Inr:
  assumes r: "buildReplacementState J now mints its mu = Inr r" and len: "length its < 2 ^ 64"
  shows "rHeap r = replacementItems J now mints its mu" and "rItems r = [0..<length its]"
    and "rLastSeq r = length its"
    and "distinct (filter (\<lambda>k. k \<noteq> []) (map ID its))"
    and "its \<noteq> [] \<Longrightarrow> uuid_loop [] 0 (rHeap r) = Inr (rByUUID r)"
    and "rByID r = index_of (map (\<lambda>p. (ID (rHeap r ! p), p)) (filter (\<lambda>p. ID (rHeap r ! p) \<noteq> []) (rItems r)))"
    and "rBySeq r = index_of (map (\<lambda>p. (Seq (rHeap r ! p), p)) (rItems r))"
    and "its = [] \<Longrightarrow> rByUUID r = []"
    and "rIdKeyBytes r = (\<Sum>p\<leftarrow>rItems r. int (length (ID (rHeap r ! p))))"
proof -
  have "rHeap r = replacementItems J now mints its mu \<and> rItems r = [0..<length its] \<and> rLastSeq r = length its \<and>
    distinct (filter (\<lambda>k. k \<noteq> []) (map ID its)) \<and> (its \<noteq> [] \<longrightarrow> uuid_loop [] 0 (rHeap r) = Inr (rByUUID r)) \<and>
    rByID r = index_of (map (\<lambda>p. (ID (rHeap r ! p), p)) (filter (\<lambda>p. ID (rHeap r ! p) \<noteq> []) (rItems r))) \<and>
    rBySeq r = index_of (map (\<lambda>p. (Seq (rHeap r ! p), p)) (rItems r)) \<and> (its = [] \<longrightarrow> rByUUID r = []) \<and>
    rIdKeyBytes r = (\<Sum>p\<leftarrow>rItems r. int (length (ID (rHeap r ! p))))"
  proof (cases "its = []")
    case True
    then show ?thesis using r by (auto simp: buildReplacementState_def replacementItems_def index_of_def)
  next
    case False
    then obtain built where b: "build_loop J now mu mints [] 0 its = Inr built"
      using r by (auto simp: buildReplacementState_def split: sum.splits)
    have bu: "built = replacementItems J now mints its mu"
      using build_loop_built [OF b] len by (simp add: replacementItems_def)
    have l: "length built = length its" "Seq (last built) = length its"
      using False by (simp_all add: bu last_conv_nth length_greater_0_conv [symmetric] del: length_greater_0_conv)
    show ?thesis
      using r b False l build_loop_ids [OF b] idLenSum_filter [of "\<lambda>p. built ! p"] bu
      by (auto simp: buildReplacementState_def Let_def split: sum.splits)
  qed
  then show "rHeap r = replacementItems J now mints its mu" "rItems r = [0..<length its]"
    "rLastSeq r = length its" "distinct (filter (\<lambda>k. k \<noteq> []) (map ID its))"
    "its \<noteq> [] \<Longrightarrow> uuid_loop [] 0 (rHeap r) = Inr (rByUUID r)"
    "rByID r = index_of (map (\<lambda>p. (ID (rHeap r ! p), p)) (filter (\<lambda>p. ID (rHeap r ! p) \<noteq> []) (rItems r)))"
    "rBySeq r = index_of (map (\<lambda>p. (Seq (rHeap r ! p), p)) (rItems r))" "its = [] \<Longrightarrow> rByUUID r = []"
    "rIdKeyBytes r = (\<Sum>p\<leftarrow>rItems r. int (length (ID (rHeap r ! p))))"
    by blast+
qed

text \<open>A buffer whose fields hold a built replacement.\<close>

definition holds :: "scopeReplacement \<Rightarrow> scopeBuffer \<Rightarrow> bool" where
  "holds r b \<longleftrightarrow> heap b = rHeap r \<and> items b = rItems r \<and> byID b = rByID r \<and> bySeq b = rBySeq r \<and>
     byUUID b = rByUUID r \<and> lastSeq b = rLastSeq r \<and> bytes b = sumItemBytes r"

lemma distinct_id_inj:
  assumes "distinct (filter (\<lambda>k. k \<noteq> []) (map ID its))" "p < length its" "q < length its"
    "ID (its ! p) = ID (its ! q)" "ID (its ! q) \<noteq> []"
  shows "p = q"
  using assms
proof (induction its arbitrary: p q)
  case (Cons x xs)
  have d: "distinct (filter (\<lambda>k. k \<noteq> []) (map ID xs))" using Cons.prems(1) by (auto split: if_splits)
  have z: "False" if "ID x = ID (xs ! j)" "j < length xs" "ID (xs ! j) \<noteq> []" for j
    using that Cons.prems(1) by (auto simp: image_iff split: if_splits)
  show ?case
  proof (cases p; cases q)
    fix i j assume pq: "p = Suc i" "q = Suc j"
    then show ?thesis using Cons.IH [OF d, of i j] Cons.prems by simp
  next
    fix j assume "p = 0" "q = Suc j"
    then show ?thesis using z [of j] Cons.prems by simp
  next
    fix j assume "p = Suc j" "q = 0"
    then show ?thesis using z [of j] Cons.prems by auto
  qed simp
qed simp

lemma holds_ok:
  assumes r: "buildReplacementState J now mints its mu = Inr r" and len: "length its < 2 ^ 64"
    and h: "holds r b" and cap: "maxItems b > 0 \<longrightarrow> int (length its) \<le> maxItems b"
  shows "buf_ok b" and "byUUID_full b" and "bufItems b = replacementItems J now mints its mu"
    and "idKeyBytes b = rIdKeyBytes r \<Longrightarrow> idkey_ok b" and "lastSeq b = length its"
proof -
  note f = buildReplacement_Inr [OF r len] and b = h [unfolded holds_def]
  let ?R = "replacementItems J now mints its mu"
  have de: "deref b p = ?R ! p" for p using b f(1) by (simp add: deref_def)
  have it: "items b = [0..<length its]" and hp: "heap b = ?R" using b f by simp_all
  show v: "bufItems b = ?R" by (rule nth_equalityI) (simp_all add: it de)
  show ls: "lastSeq b = length its" using b f(3) by simp
  have sl: "slice_ok b"
    using len by (auto simp: slice_ok_def it hp de ls v sorted_wrt_iff_nth_less)
  have ii: "inj_on (\<lambda>p. ID (?R ! p)) (set (filter (\<lambda>p. ID (?R ! p) \<noteq> []) [0..<length its]))"
    by (rule inj_onI) (use distinct_id_inj [OF f(4)] in auto)
  have "byID b = index_of (map (\<lambda>p. (ID (?R ! p), p)) (filter (\<lambda>p. ID (?R ! p) \<noteq> []) [0..<length its]))"
    using b f(1,2,6) by simp
  from this index_of_items [OF distinct_filter [OF distinct_upt] ii]
  have id: "byID_ok b" unfolding byID_ok_def by (auto simp: it de index_of_distinct_keys)
  have si: "inj_on (\<lambda>p. Seq (?R ! p)) (set [0..<length its])" by (rule inj_onI) auto
  have "bySeq b = index_of (map (\<lambda>p. (Seq (?R ! p), p)) [0..<length its])" using b f(1,2,7) by simp
  from this index_of_items [OF distinct_upt si]
  have sq: "bySeq_ok b" unfolding bySeq_ok_def by (auto simp: it de index_of_distinct_keys)
  have uu: "distinct (map fst (byUUID b)) \<and>
      (map_of (byUUID b) u = Some q \<longleftrightarrow> q < length its \<and> UUID (?R ! q) = u \<and> \<not> IsZero u)" for u q
  proof (cases "its = []")
    case True
    then show ?thesis using f(8) b by simp
  next
    case False
    have "uuid_loop [] 0 ?R = Inr (byUUID b)" using f(1) f(5) [OF False] b by simp
    from uuid_loop_Inr(1) [OF this] uuid_loop_Inr(2) [OF this, of u q] show ?thesis by auto
  qed
  have "byUUID_ok b" using uu unfolding byUUID_ok_def by (auto simp: it de)
  then have idx: "idx_ok b" using sl id sq by (simp add: idx_ok_def)
  show "byUUID_full b" using uu by (auto simp: byUUID_full_def it de)
  have "bytes b = sizeSum (bufItems b)"
    using b f(1,2) by (simp add: sumItemBytes_def sizeSum_def bufItems_def it de comp_def)
  then show "buf_ok b"
    using idx cap by (auto simp: buf_ok_def v it dest!: replacementItems_mem)
  show "idKeyBytes b = rIdKeyBytes r \<Longrightarrow> idkey_ok b"
    using f(1,2,9) by (simp add: idkey_ok_def idLenSum_def bufItems_def it de comp_def)
qed

section \<open>Committing\<close>

lemma swapIn_holds: "holds r (swapIn r (sumItemBytes r) now b)"
  by (simp add: holds_def swapIn_def)

lemma sumItemBytes_nonneg: "0 \<le> sumItemBytes r" "48 * int (length (rItems r)) \<le> sumItemBytes r"
proof -
  have "sumItemBytes r = sizeSum (map (\<lambda>p. rHeap r ! p) (rItems r))"
    by (simp add: sumItemBytes_def sizeSum_def comp_def)
  then show "0 \<le> sumItemBytes r" "48 * int (length (rItems r)) \<le> sumItemBytes r"
    using sizeSum_lower [of "map (\<lambda>p. rHeap r ! p) (rItems r)"] by simp_all
qed

text \<open>
  The commit of a pre-reserved batch: if the reservation for this scope was made against the
  snapshot \<open>old\<close>, and the totals have since moved in lockstep with the buffer, then after the commit
  the store's totals are exactly the others' plus this buffer's new content.
\<close>

lemma commitPreReserved_exact:
  assumes att: "attached b" and old: "others + (newBytes - old) + bytes b = totalBytes a"
    and rng: "0 \<le> others + newBytes" "others + newBytes \<le> MaxInt64"
    and tot: "MinInt64 \<le> totalBytes a" "totalBytes a \<le> MaxInt64"
    and it: "0 \<le> totalItems a - int (length (items b))" "totalItems a + int (length (rItems r)) \<le> MaxInt64"
    and c: "commitReplacementPreReserved now r newBytes old a b = (a', b')"
  shows "totalBytes a' = others + newBytes"
    and "totalItems a' = totalItems a - int (length (items b)) + int (length (rItems r))"
    and "bytes b' = newBytes" and "items b' = rItems r"
proof -
  have "totalBytes a - (bytes b - old) = others + newBytes" using old by simp
  then show "totalBytes a' = others + newBytes"
    using c att rng tot by (auto simp: commitReplacementPreReserved_def Let_def MinInt64_def)
  have "i64 (totalItems a + (int (length (rItems r)) - int (length (items b)))) =
      totalItems a + (int (length (rItems r)) - int (length (items b)))"
    using it by (intro i64_id) (auto simp: MinInt64_def)
  then show "totalItems a' = totalItems a - int (length (items b)) + int (length (rItems r))"
    using c att by (auto simp: commitReplacementPreReserved_def Let_def)
  show "bytes b' = newBytes" "items b' = rItems r"
    using c by (auto simp: commitReplacementPreReserved_def swapIn_def)
qed

end
