(* ===== verification/Validation.thy ===== *)
theory Validation
  imports Types
begin

text \<open>
  The shape rules every write passes before it reaches the store (\<^verbatim>\<open>validation.go\<close>).

  A validator that only accepts or rejects returns the reason it rejects with, if any; one that
  also fills in \<^verbatim>\<open>item.renderBytes\<close> returns the item. \<open>firstErr\<close> is the chain of
  \<^verbatim>\<open>if err := ...; err != nil { return err }\<close>.
\<close>

section \<open>Validators\<close>

fun firstErr :: "reason option list \<Rightarrow> reason option" where
  "firstErr [] = None"
| "firstErr (None # es) = firstErr es"
| "firstErr (Some e # es) = Some e"

definition reject :: "bool \<Rightarrow> reason \<Rightarrow> reason option" where
  "reject c e = (if c then Some e else None)"

definition wrapValidation :: "reason option \<Rightarrow> goError option" where
  "wrapValidation r = map_option InvalidInput r"

definition checkKeyField :: "string \<Rightarrow> string \<Rightarrow> nat \<Rightarrow> reason option" where
  "checkKeyField fieldName v maxLen =
     (if length v > maxLen then Some (KeyTooLong fieldName maxLen)
      else if v \<noteq> trimSpace v then Some (KeyWhitespace fieldName)
      else if list_ex (\<lambda>c. byte c < 0x20 \<or> byte c = 0x7f) v then Some (KeyControl fieldName)
      else if \<not> utf8_valid v then Some (KeyNotUtf8 fieldName)
      else None)"

definition validateScope :: "string \<Rightarrow> string \<Rightarrow> reason option" where
  "validateScope scope endpoint =
     (if scope = [] then Some (ScopeRequired endpoint) else checkKeyField ''scope'' scope MaxScopeBytes)"

definition validateID :: "string \<Rightarrow> reason option" where
  "validateID k = (if k = [] then None else checkKeyField ''id'' k MaxIDBytes)"

definition requireID :: "string \<Rightarrow> string \<Rightarrow> reason option" where
  "requireID k endpoint = (if k = [] then Some (IdRequired endpoint) else checkKeyField ''id'' k MaxIDBytes)"

definition validateIDSeqUUID :: "string \<Rightarrow> string \<Rightarrow> nat \<Rightarrow> bool \<Rightarrow> bool \<Rightarrow> reason option" where
  "validateIDSeqUUID endpoint k seq hasUUID uuidValid =
     (let hasID = (k \<noteq> []); hasSeq = (seq \<noteq> 0);
          n = length (filter (\<lambda>h. h) [hasID, hasSeq, hasUUID])
      in if n \<noteq> 1 then Some (ExactlyOneAddress endpoint)
         else if hasID then checkKeyField ''id'' k MaxIDBytes
         else if hasUUID \<and> \<not> uuidValid then Some (UuidNotV7 endpoint)
         else None)"

definition validatePayload :: "string \<Rightarrow> reason option" where
  "validatePayload p =
     (if length p = 0 \<or> trimSpace p = ''null'' then Some PayloadRequired
      else if \<not> json_valid p then Some PayloadNotJson
      else if \<not> utf8_valid p then Some PayloadNotUtf8
      else None)"

definition checkItemSize :: "jsonLib \<Rightarrow> item \<Rightarrow> int \<Rightarrow> reason + item" where
  "checkItemSize J item0 maxBytes =
     (let item = (if renderBytes item0 = None
                  then item0\<lparr>renderBytes := precomputeRenderBytes J (Payload item0)\<rparr> else item0);
          size = approxItemSize item + (if IsZero (UUID item) then int uuidStringLen else 0)
      in if size > maxBytes then Inl (ItemTooLarge size maxBytes) else Inr item)"

definition normalizeLimit :: "string \<Rightarrow> reason + int" where
  "normalizeLimit raw =
     (if raw = [] then Inr DefaultLimit
      else case parseInt raw of
        None \<Rightarrow> Inl LimitInvalid
      | Some n \<Rightarrow> if n \<le> 0 then Inl LimitInvalid else if n > MaxLimit then Inr MaxLimit else Inr n)"

definition normalizeOffset :: "string \<Rightarrow> reason + int" where
  "normalizeOffset raw =
     (if raw = [] then Inr 0
      else case parseInt raw of
        None \<Rightarrow> Inl OffsetInvalid
      | Some n \<Rightarrow> if n < 0 then Inl OffsetInvalid else Inr n)"

definition usPerHour :: int where "usPerHour = 3600000000"

definition normalizeHours :: "string \<Rightarrow> reason + int" where
  "normalizeHours raw =
     (if raw = [] then Inr 0
      else case parseInt raw of
        None \<Rightarrow> Inl HoursInvalid
      | Some n \<Rightarrow> if n < 0 then Inl HoursInvalid
                  else if n > go_div MaxInt64 usPerHour then Inl HoursTooLarge else Inr n)"

definition rejectClientTs :: "item \<Rightarrow> string \<Rightarrow> reason option" where
  "rejectClientTs it endpoint = reject (Ts it \<noteq> 0) (TsManaged endpoint)"

definition rejectClientUUID :: "item \<Rightarrow> string \<Rightarrow> reason option" where
  "rejectClientUUID it endpoint = reject (\<not> IsZero (UUID it)) (UuidManaged endpoint)"

definition checkWriteUUID :: "item \<Rightarrow> string \<Rightarrow> reason option" where
  "checkWriteUUID it endpoint =
     (if endpoint = ''/append'' then rejectClientUUID it endpoint
      else reject (\<not> IsZero (UUID it) \<and> \<not> isValidV7 (UUID it)) (UuidNotV7 []))"

definition sized :: "reason option \<Rightarrow> reason + item \<Rightarrow> goError + item" where
  "sized r res = (case r of Some e \<Rightarrow> Inl (InvalidInput e)
     | None \<Rightarrow> (case res of Inl e \<Rightarrow> Inl (InvalidInput e) | Inr it \<Rightarrow> Inr it))"

definition validateWriteItem :: "jsonLib \<Rightarrow> item \<Rightarrow> string \<Rightarrow> int \<Rightarrow> goError + item" where
  "validateWriteItem J it endpoint maxBytes =
     sized (firstErr
       [validateScope (Scope it) endpoint,
        reject (endpoint = ''/append'' \<and> Scope it = EventsScopeName) (EventsAppendReserved (Scope it)),
        validateID (ID it),
        validatePayload (Payload it),
        reject (Seq it \<noteq> 0) (SeqManaged endpoint),
        rejectClientTs it endpoint,
        checkWriteUUID it endpoint]) (checkItemSize J it maxBytes)"

definition validateUpsertItem :: "jsonLib \<Rightarrow> item \<Rightarrow> int \<Rightarrow> goError + item" where
  "validateUpsertItem J it maxBytes =
     sized (firstErr
       [validateScope (Scope it) ''/upsert'',
        reject (isReservedScope (Scope it)) (ScopeReserved (Scope it) ''/upsert''),
        requireID (ID it) ''/upsert'',
        validatePayload (Payload it),
        reject (Seq it \<noteq> 0) (SeqManaged ''/upsert''),
        rejectClientTs it ''/upsert'',
        rejectClientUUID it ''/upsert'']) (checkItemSize J it maxBytes)"

definition validateUpdateItem :: "jsonLib \<Rightarrow> item \<Rightarrow> int \<Rightarrow> goError + item" where
  "validateUpdateItem J it maxBytes =
     sized (firstErr
       [validateScope (Scope it) ''/update'',
        reject (isReservedScope (Scope it)) (ScopeReserved (Scope it) ''/update''),
        validateIDSeqUUID ''/update'' (ID it) (Seq it) (\<not> IsZero (UUID it)) (isValidV7 (UUID it)),
        validatePayload (Payload it),
        rejectClientTs it ''/update'']) (checkItemSize J it maxBytes)"

definition counterCandidate :: "string \<Rightarrow> string \<Rightarrow> item" where
  "counterCandidate scope k = zeroItem\<lparr>Scope := scope, ID := k, counter := Some \<lparr>cellValue = 0, cellTs = 0\<rparr>\<rparr>"

definition validateCounterAddRequest :: "string \<Rightarrow> string \<Rightarrow> int option \<Rightarrow> int \<Rightarrow> goError + int" where
  "validateCounterAddRequest scope k inc maxBytes =
     (case firstErr
        [validateScope scope ''/counter_add'',
         reject (isReservedScope scope) (ScopeReserved scope ''/counter_add''),
         requireID k ''/counter_add'',
         reject (inc = None) ByRequired] of
        Some e \<Rightarrow> Inl (InvalidInput e)
      | None \<Rightarrow>
          (let v = the inc; size = approxItemSize (counterCandidate scope k) + int uuidStringLen
           in if v = 0 then Inl (InvalidInput ByZero)
              else if v > MaxCounterValue \<or> v < - MaxCounterValue then Inl (InvalidInput ByRange)
              else if maxBytes > 0 \<and> size > maxBytes then Inl (InvalidInput (CounterTooLarge size maxBytes))
              else Inr v))"

definition validateDeleteRequest :: "string \<Rightarrow> string \<Rightarrow> nat \<Rightarrow> string \<Rightarrow> goError option" where
  "validateDeleteRequest scope k seq uuid =
     wrapValidation (firstErr
       [validateScope scope ''/delete'',
        validateIDSeqUUID ''/delete'' k seq (uuid \<noteq> []) (isValidUUIDv7 uuid)])"

definition validateDeleteScopeRequest :: "string \<Rightarrow> goError option" where
  "validateDeleteScopeRequest scope =
     wrapValidation (firstErr
       [validateScope scope ''/delete_scope'',
        reject (isReservedScope scope) (ScopeReserved scope ''/delete_scope'')])"

definition validateDeleteUpToRequest :: "string \<Rightarrow> nat \<Rightarrow> string \<Rightarrow> goError option" where
  "validateDeleteUpToRequest scope maxSeq uuid =
     (let hasSeq = (maxSeq \<noteq> 0); hasUUID = (uuid \<noteq> [])
      in wrapValidation (firstErr
           [validateScope scope ''/delete_up_to'',
            reject (hasSeq = hasUUID) ExactlyOneBoundary,
            reject (hasUUID \<and> \<not> isValidUUIDv7 uuid) (UuidNotV7 ''/delete_up_to'')]))"

definition groupItemsByScope :: "item list \<Rightarrow> (string \<times> item list) list" where
  "groupItemsByScope its =
     fold (\<lambda>it grouped. AList.update (Scope it)
        ((case map_of grouped (Scope it) of None \<Rightarrow> [] | Some xs \<Rightarrow> xs) @ [it]) grouped) its []"

section \<open>What an accepted request looks like\<close>

lemma firstErr_None: "firstErr es = None \<longleftrightarrow> (\<forall>e \<in> set es. e = None)"
  by (induction es rule: firstErr.induct) auto

lemma reject_None [simp]: "reject c e = None \<longleftrightarrow> \<not> c"
  by (simp add: reject_def)

lemma sized_Inr: "sized r res = Inr it \<longleftrightarrow> r = None \<and> res = Inr it"
  by (auto simp: sized_def split: option.splits sum.splits)

lemma checkItemSize_Inr:
  assumes "checkItemSize J it m = Inr it'"
  shows "it' = it\<lparr>renderBytes := renderBytes it'\<rparr>"
    and "approxItemSize it' + (if IsZero (UUID it') then int uuidStringLen else 0) \<le> m"
    and "renderBytes it' = (case renderBytes it of None \<Rightarrow> precomputeRenderBytes J (Payload it) | Some r \<Rightarrow> Some r)"
  using assms by (auto simp: checkItemSize_def Let_def split: if_splits option.splits)

lemma validateWriteItem_Inr:
  assumes "validateWriteItem J it ep m = Inr it'"
  shows "Scope it \<noteq> []" "length (Scope it) \<le> MaxScopeBytes" "length (ID it) \<le> MaxIDBytes"
    "Scope it' = Scope it" "ID it' = ID it" "Payload it' = Payload it" "json_valid (Payload it)"
    "utf8_valid (Payload it)" "utf8_valid (Scope it)" "UUID it' = UUID it"
    "ep = ''/append'' \<Longrightarrow> Scope it \<noteq> EventsScopeName \<and> IsZero (UUID it')"
    "\<not> IsZero (UUID it') \<Longrightarrow> isValidV7 (UUID it')"
    "approxItemSize it' + (if IsZero (UUID it') then int uuidStringLen else 0) \<le> m"
proof -
  have c: "checkItemSize J it m = Inr it'"
    and n: "validateScope (Scope it) ep = None" "validateID (ID it) = None" "validatePayload (Payload it) = None"
      "checkWriteUUID it ep = None" "\<not> (ep = ''/append'' \<and> Scope it = EventsScopeName)"
    using assms by (simp_all add: validateWriteItem_def sized_Inr firstErr_None)
  note s = checkItemSize_Inr [OF c]
  show e: "Scope it' = Scope it" "ID it' = ID it" "Payload it' = Payload it" "UUID it' = UUID it"
    by (subst s(1), simp)+
  show "Scope it \<noteq> []" "length (Scope it) \<le> MaxScopeBytes" "utf8_valid (Scope it)" "length (ID it) \<le> MaxIDBytes"
    "json_valid (Payload it)" "utf8_valid (Payload it)"
    using n by (auto simp: validateScope_def validateID_def checkKeyField_def validatePayload_def split: if_splits)
  show "ep = ''/append'' \<Longrightarrow> Scope it \<noteq> EventsScopeName \<and> IsZero (UUID it')"
    using n e by (auto simp: checkWriteUUID_def rejectClientUUID_def)
  show "\<not> IsZero (UUID it') \<Longrightarrow> isValidV7 (UUID it')"
    using n e by (auto simp: checkWriteUUID_def rejectClientUUID_def split: if_splits)
  show "approxItemSize it' + (if IsZero (UUID it') then int uuidStringLen else 0) \<le> m" by (rule s(2))
qed

lemma validateUpsertItem_Inr:
  assumes "validateUpsertItem J it m = Inr it'"
  shows "Scope it' = Scope it" "ID it' = ID it" "ID it \<noteq> []" "\<not> isReservedScope (Scope it)" "Scope it \<noteq> []"
    "IsZero (UUID it')" "Payload it' = Payload it" "json_valid (Payload it)"
    "approxItemSize it' + int uuidStringLen \<le> m"
proof -
  have c: "checkItemSize J it m = Inr it'"
    and n: "validateScope (Scope it) ''/upsert'' = None" "requireID (ID it) ''/upsert'' = None"
      "validatePayload (Payload it) = None" "rejectClientUUID it ''/upsert'' = None" "\<not> isReservedScope (Scope it)"
    using assms by (simp_all add: validateUpsertItem_def sized_Inr firstErr_None)
  note s = checkItemSize_Inr [OF c]
  show e: "Scope it' = Scope it" "ID it' = ID it" "Payload it' = Payload it" by (subst s(1), simp)+
  have "UUID it' = UUID it" by (subst s(1), simp)
  then show z: "IsZero (UUID it')" using n by (simp add: rejectClientUUID_def)
  show "ID it \<noteq> []" "\<not> isReservedScope (Scope it)" "Scope it \<noteq> []" "json_valid (Payload it)"
    using n by (auto simp: requireID_def validateScope_def validatePayload_def split: if_splits)
  show "approxItemSize it' + int uuidStringLen \<le> m" using s(2) z by simp
qed

lemma validateUpdateItem_Inr:
  assumes "validateUpdateItem J it m = Inr it'"
  shows "Scope it' = Scope it" "ID it' = ID it" "Seq it' = Seq it" "UUID it' = UUID it" "Payload it' = Payload it"
    "\<not> isReservedScope (Scope it)" "Scope it \<noteq> []"
    "length (filter (\<lambda>h. h) [ID it \<noteq> [], Seq it \<noteq> 0, \<not> IsZero (UUID it)]) = 1"
    "renderBytes it' = (case renderBytes it of None \<Rightarrow> precomputeRenderBytes J (Payload it) | Some r \<Rightarrow> Some r)"
proof -
  have c: "checkItemSize J it m = Inr it'"
    and n: "validateScope (Scope it) ''/update'' = None"
      "validateIDSeqUUID ''/update'' (ID it) (Seq it) (\<not> IsZero (UUID it)) (isValidV7 (UUID it)) = None"
      "\<not> isReservedScope (Scope it)"
    using assms by (simp_all add: validateUpdateItem_def sized_Inr firstErr_None)
  note s = checkItemSize_Inr [OF c]
  show "Scope it' = Scope it" "ID it' = ID it" "Seq it' = Seq it" "UUID it' = UUID it" "Payload it' = Payload it"
    by (subst s(1), simp)+
  show "\<not> isReservedScope (Scope it)" "Scope it \<noteq> []" using n by (auto simp: validateScope_def split: if_splits)
  show "length (filter (\<lambda>h. h) [ID it \<noteq> [], Seq it \<noteq> 0, \<not> IsZero (UUID it)]) = 1"
    using n(2) by (simp add: validateIDSeqUUID_def Let_def split: if_splits)
  show "renderBytes it' = (case renderBytes it of None \<Rightarrow> precomputeRenderBytes J (Payload it) | Some r \<Rightarrow> Some r)"
    by (rule s(3))
qed

lemma validateCounterAdd_Inr:
  assumes "validateCounterAddRequest scope k inc m = Inr v"
  shows "inc = Some v" "v \<noteq> 0" "\<bar>v\<bar> \<le> MaxCounterValue" "k \<noteq> []" "scope \<noteq> []" "\<not> isReservedScope scope"
    "0 < m \<Longrightarrow> approxItemSize (counterCandidate scope k) + int uuidStringLen \<le> m"
  using assms
  by (auto simp: validateCounterAddRequest_def Let_def firstErr_None requireID_def validateScope_def
      split: option.splits if_splits)

lemma validateDeleteScope_None:
  "validateDeleteScopeRequest scope = None \<Longrightarrow> scope \<noteq> [] \<and> \<not> isReservedScope scope"
  by (auto simp: validateDeleteScopeRequest_def wrapValidation_def firstErr_None validateScope_def split: if_splits)

lemma normalizeLimit_range: "normalizeLimit raw = Inr n \<Longrightarrow> 1 \<le> n \<and> n \<le> MaxLimit"
  by (auto simp: normalizeLimit_def const_defs split: if_splits option.splits)

lemma normalizeHours_fits: "normalizeHours raw = Inr n \<Longrightarrow> 0 \<le> n \<and> n * usPerHour \<le> MaxInt64"
  by (auto simp: normalizeHours_def usPerHour_def MaxInt64_def go_div_def split: if_splits option.splits)

section \<open>Grouping\<close>

lemma groupItemsByScope_invariant:
  fixes its g
  assumes "distinct (map fst g)"
  defines "f \<equiv> \<lambda>it grouped. AList.update (Scope it)
      ((case map_of grouped (Scope it) of None \<Rightarrow> [] | Some xs \<Rightarrow> xs) @ [it]) grouped"
  shows "distinct (map fst (fold f its g))"
    and "map_of (fold f its g) n =
      (let new = filter (\<lambda>it. Scope it = n) its in
       case map_of g n of None \<Rightarrow> if new = [] then None else Some new | Some xs \<Rightarrow> Some (xs @ new))"
proof -
  have "distinct (map fst (fold f its g)) \<and> map_of (fold f its g) n =
      (let new = filter (\<lambda>it. Scope it = n) its in
       case map_of g n of None \<Rightarrow> if new = [] then None else Some new | Some xs \<Rightarrow> Some (xs @ new))"
    using assms(1)
  proof (induction its arbitrary: g)
    case Nil
    then show ?case by (auto split: option.splits)
  next
    case (Cons it its)
    have d: "distinct (map fst (f it g))" using Cons.prems by (simp add: f_def distinct_update)
    show ?case using Cons.IH [OF d] by (auto simp: f_def Let_def split: option.splits)
  qed
  then show "distinct (map fst (fold f its g))" "map_of (fold f its g) n =
      (let new = filter (\<lambda>it. Scope it = n) its in
       case map_of g n of None \<Rightarrow> if new = [] then None else Some new | Some xs \<Rightarrow> Some (xs @ new))"
    by blast+
qed

lemma groupItemsByScope_spec:
  "distinct (map fst (groupItemsByScope its))"
  "map_of (groupItemsByScope its) n =
     (let xs = filter (\<lambda>it. Scope it = n) its in if xs = [] then None else Some xs)"
  using groupItemsByScope_invariant [of "[]" its] by (simp_all add: groupItemsByScope_def)

end
