(* ===== verification/Store.thy ===== *)
theory Store
  imports Buffer_Replace Validation
begin

unbundle bit_operations_syntax

text \<open>
  The store (\<^verbatim>\<open>store.go\<close>): the sharded scope map, admission control, scope creation and roll-back,
  reserved scopes, and the wake-up channels of \<^verbatim>\<open>subscribe.go\<close>.

  A \<^verbatim>\<open>*scopeBuffer\<close> is a position in \<open>bufs\<close>, the heap of every buffer ever created by the store; the
  shard maps hold pointers. A buffer that was unlinked stays in the heap, detached, because an
  operation in flight may still hold its pointer. The hash \<^verbatim>\<open>maphash.String(seed, \<cdot>)\<close> is the field
  \<open>hashSeed\<close>, an arbitrary function. The shard locks and the buffer locks make every operation here
  one atomic step.
\<close>

section \<open>State\<close>

definition numShards :: nat where "numShards = 32"
definition shardMask :: nat where "shardMask = numShards - 1"

text \<open>A wake-up channel of capacity one: whether its slot is full, whether it is closed.\<close>

record subscriber =
  slotFull :: bool
  chClosed :: bool

record store =
  shards :: "(string \<times> nat) list list"
  bufs :: "scopeBuffer list"
  hashSeed :: "string \<Rightarrow> nat"
  defaultMaxItems :: int
  inboxMaxItems :: int
  eventsMode :: EventsMode
  eventsDropsTotal :: int
  acct :: storeAcct
  scopeCount :: int
  subscribers :: "(string \<times> nat) list"
  subs :: "subscriber list"

definition maxItemsFor :: "store \<Rightarrow> string \<Rightarrow> int" where
  "maxItemsFor s scope =
     (if scope = EventsScopeName then unboundedScopeMaxItems
      else if scope = InboxScopeName then inboxMaxItems s
      else defaultMaxItems s)"

definition shardIdxFor :: "store \<Rightarrow> string \<Rightarrow> nat" where
  "shardIdxFor s scope = hashSeed s scope AND shardMask"

definition shardFor :: "store \<Rightarrow> string \<Rightarrow> (string \<times> nat) list" where
  "shardFor s scope = shards s ! shardIdxFor s scope"

text \<open>The shards a batch touches, in ascending order: the order the locks are taken in.\<close>

definition shardsForScopes :: "store \<Rightarrow> string list \<Rightarrow> nat list" where
  "shardsForScopes s scopes =
     (let seen = fold (\<lambda>scope sn. sn[shardIdxFor s scope := True]) scopes (replicate numShards False)
      in filter (\<lambda>i. seen ! i) [0..<numShards])"

text \<open>The method \<^verbatim>\<open>(s *store) newscopeBuffer()\<close>.\<close>

definition store_newscopeBuffer :: "int \<Rightarrow> store \<Rightarrow> scopeBuffer" where
  "store_newscopeBuffer now s =
     (newscopeBuffer (defaultMaxItems s) now)\<lparr>attached := True, bufMaxItemBytes := maxItemBytes (acct s)\<rparr>"

definition getScope :: "store \<Rightarrow> string \<Rightarrow> nat option" where
  "getScope s scope = map_of (shardFor s scope) scope"

text \<open>The assignment \<^verbatim>\<open>sh.scopes[scope] = buf\<close> of a fresh buffer, and the builtin \<^verbatim>\<open>delete\<close>.\<close>

definition linkScope :: "string \<Rightarrow> scopeBuffer \<Rightarrow> store \<Rightarrow> store" where
  "linkScope scope b s =
     s\<lparr>shards := (shards s)[shardIdxFor s scope := AList.update scope (length (bufs s)) (shardFor s scope)],
       bufs := bufs s @ [b]\<rparr>"

definition unlinkScope :: "string \<Rightarrow> store \<Rightarrow> store" where
  "unlinkScope scope s =
     s\<lparr>shards := (shards s)[shardIdxFor s scope := AList.delete scope (shardFor s scope)]\<rparr>"

definition addScopeCount :: "int \<Rightarrow> store \<Rightarrow> store" where
  "addScopeCount d s = s\<lparr>scopeCount := i64 (scopeCount s + d)\<rparr>"

definition detachBuf :: "nat \<Rightarrow> store \<Rightarrow> store" where
  "detachBuf p s = s\<lparr>bufs := (bufs s)[p := (bufs s ! p)\<lparr>detached := True, attached := False\<rparr>]\<rparr>"

text \<open>A method call on the buffer at \<open>p\<close>.\<close>

definition onBuf :: "nat \<Rightarrow> (storeAcct \<Rightarrow> scopeBuffer \<Rightarrow> 'r \<times> storeAcct \<times> scopeBuffer) \<Rightarrow> store \<Rightarrow> 'r \<times> store" where
  "onBuf p m s = (case m (acct s) (bufs s ! p) of (r, a', b') \<Rightarrow> (r, s\<lparr>acct := a', bufs := (bufs s)[p := b']\<rparr>))"

section \<open>Reserved scopes and construction\<close>

definition reservedBuffer :: "int \<Rightarrow> int \<Rightarrow> string \<Rightarrow> store \<Rightarrow> scopeBuffer" where
  "reservedBuffer now lw name s =
     (store_newscopeBuffer now s)\<lparr>maxItems := maxItemsFor s name,
        bufMaxItemBytes := maxItemBytesFor (acct s) name, bufLastWriteTS := lw\<rparr>"

definition initOne :: "int \<Rightarrow> int \<Rightarrow> string \<Rightarrow> store \<Rightarrow> store" where
  "initOne now lw name s =
     (case getScope s name of
        Some _ \<Rightarrow> s
      | None \<Rightarrow>
          (let s1 = linkScope name (reservedBuffer now lw name s) s
           in addScopeCount 1 (s1\<lparr>acct := addTotals scopeBufferOverhead 0 (acct s1)\<rparr>)))"

definition initReservedScopes :: "int \<Rightarrow> store \<Rightarrow> store" where
  "initReservedScopes now s = fold (\<lambda>name st. initOne now 0 name st) reservedScopeNames s"

definition initReservedScopesLocked :: "int \<Rightarrow> store \<Rightarrow> store" where
  "initReservedScopesLocked now s =
     fold (\<lambda>name st. initOne now (lastWriteTS (acct st)) name st) reservedScopeNames s"

definition newStore :: "(string \<Rightarrow> nat) \<Rightarrow> int \<Rightarrow> Config \<Rightarrow> store" where
  "newStore seed now c0 =
     (let c = WithDefaults c0;
          biggestUserCap = (if cfgInboxMaxItemBytes c > cfgMaxItemBytes c then cfgInboxMaxItemBytes c
                            else cfgMaxItemBytes c);
          s = \<lparr>shards = replicate numShards [], bufs = [], hashSeed = seed,
               defaultMaxItems = cfgScopeMaxItems c, inboxMaxItems = cfgInboxMaxItems c,
               eventsMode = cfgEventsMode c, eventsDropsTotal = 0,
               acct = \<lparr>maxStoreBytes = cfgMaxStoreBytes c, maxItemBytes = cfgMaxItemBytes c,
                       eventsMaxItemBytes = addClampedInt64 biggestUserCap eventsItemEnvelopeOverhead,
                       inboxMaxItemBytes = cfgInboxMaxItemBytes c,
                       totalBytes = 0, totalItems = 0, lastWriteTS = 0\<rparr>,
               scopeCount = 0, subscribers = [], subs = []\<rparr>
      in initReservedScopes now s)"

section \<open>Creating, rolling back and ensuring a scope\<close>

definition getOrCreateScopeTrackingCreated :: "int \<Rightarrow> string \<Rightarrow> store \<Rightarrow> (goError + nat \<times> bool) \<times> store" where
  "getOrCreateScopeTrackingCreated now scope s =
     (if scope = [] then (Inl NoScopeError, s)
      else case getScope s scope of
        Some p \<Rightarrow> (Inr (p, False), s)
      | None \<Rightarrow>
          (let preBuf = store_newscopeBuffer now s
           in case reserveBytes scopeBufferOverhead (acct s) of (ok, current, mx, a1) \<Rightarrow>
                if \<not> ok then (Inl (StoreFullError current scopeBufferOverhead mx), s\<lparr>acct := a1\<rparr>)
                else (Inr (length (bufs s), True),
                      addScopeCount 1 (linkScope scope preBuf (s\<lparr>acct := a1\<rparr>)))))"

definition cleanupIfEmptyAndUnused :: "string \<Rightarrow> nat \<Rightarrow> store \<Rightarrow> store" where
  "cleanupIfEmptyAndUnused scope p s =
     (if getScope s scope \<noteq> Some p then s
      else if length (items (bufs s ! p)) \<noteq> 0 then s
      else
        (let s1 = unlinkScope scope s;
             s2 = s1\<lparr>acct := (acct s1)\<lparr>totalBytes := i64 (totalBytes (acct s1) - scopeBufferOverhead)\<rparr>\<rparr>
         in detachBuf p (addScopeCount (- 1) s2)))"

definition ensureScope :: "int \<Rightarrow> string \<Rightarrow> store \<Rightarrow> nat option \<times> store" where
  "ensureScope now scope s =
     (case getScope s scope of
        Some p \<Rightarrow> (Some p, s)
      | None \<Rightarrow>
          (case reserveBytes scopeBufferOverhead (acct s) of (ok, _, _, a1) \<Rightarrow>
             if \<not> ok then (None, s\<lparr>acct := a1\<rparr>)
             else
               (let b = store_newscopeBuffer now s;
                    s1 = addScopeCount 1 (linkScope scope b (s\<lparr>acct := a1\<rparr>))
                in (Some (length (bufs s)), s1\<lparr>acct := bumpLastWriteTS (bufLastWriteTS b) (acct s1)\<rparr>))))"

section \<open>Subscriptions\<close>

definition Subscribe :: "string \<Rightarrow> store \<Rightarrow> (goError + nat) \<times> store" where
  "Subscribe scope s =
     (if \<not> isReservedScope scope then (Inl ErrInvalidSubscribeScope, s)
      else case map_of (subscribers s) scope of
        Some _ \<Rightarrow> (Inl ErrAlreadySubscribed, s)
      | None \<Rightarrow>
          (let q = length (subs s)
           in (Inr q, s\<lparr>subs := subs s @ [\<lparr>slotFull = False, chClosed = False\<rparr>],
                        subscribers := AList.update scope q (subscribers s)\<rparr>)))"

definition unsubscribe :: "string \<Rightarrow> store \<Rightarrow> store" where
  "unsubscribe scope s =
     (case map_of (subscribers s) scope of
        None \<Rightarrow> s
      | Some q \<Rightarrow> s\<lparr>subscribers := AList.delete scope (subscribers s),
                    subs := (subs s)[q := (subs s ! q)\<lparr>chClosed := True\<rparr>]\<rparr>)"

definition notifySubscriber :: "string \<Rightarrow> store \<Rightarrow> store" where
  "notifySubscriber scope s =
     (case map_of (subscribers s) scope of
        None \<Rightarrow> s
      | Some q \<Rightarrow> if slotFull (subs s ! q) then s
                  else s\<lparr>subs := (subs s)[q := (subs s ! q)\<lparr>slotFull := True\<rparr>]\<rparr>)"

section \<open>The invariant\<close>

text \<open>All entries of the scope map, whatever their shard.\<close>

definition scopes :: "store \<Rightarrow> (string \<times> nat) list" where
  "scopes s = concat (shards s)"

definition shards_ok :: "store \<Rightarrow> bool" where
  "shards_ok s \<longleftrightarrow> length (shards s) = numShards \<and>
     (\<forall>i < numShards. distinct (map fst (shards s ! i)) \<and> (\<forall>(n, p) \<in> set (shards s ! i). shardIdxFor s n = i)) \<and>
     distinct (map snd (scopes s)) \<and> (\<forall>(n, p) \<in> set (scopes s). p < length (bufs s) \<and> n \<noteq> [])"

definition scope_ok :: "store \<Rightarrow> string \<Rightarrow> scopeBuffer \<Rightarrow> bool" where
  "scope_ok s n b \<longleftrightarrow> attached b \<and> \<not> detached b \<and> buf_ok b \<and> scope_items n b \<and>
     maxItems b = maxItemsFor s n \<and> bufMaxItemBytes b = maxItemBytesFor (acct s) n"

definition totals_ok :: "store \<Rightarrow> bool" where
  "totals_ok s \<longleftrightarrow>
     totalBytes (acct s) = (\<Sum>(n, p)\<leftarrow>scopes s. bytes (bufs s ! p) + scopeBufferOverhead) \<and>
     totalItems (acct s) = (\<Sum>(n, p)\<leftarrow>scopes s. int (length (items (bufs s ! p)))) \<and>
     scopeCount s = int (length (scopes s))"

definition reserved_ok :: "store \<Rightarrow> bool" where
  "reserved_ok s \<longleftrightarrow> (\<forall>n \<in> set reservedScopeNames. getScope s n \<noteq> None)"

definition caps_ok :: "store \<Rightarrow> bool" where
  "caps_ok s \<longleftrightarrow> totalBytes (acct s) \<le> maxStoreBytes (acct s) \<and> maxStoreBytes (acct s) \<le> MaxInt64 \<and>
     reservedScopesOverhead \<le> maxStoreBytes (acct s)"

definition store_ok :: "store \<Rightarrow> bool" where
  "store_ok s \<longleftrightarrow> shards_ok s \<and> (\<forall>(n, p) \<in> set (scopes s). scope_ok s n (bufs s ! p)) \<and>
     (\<forall>p < length (bufs s). p \<notin> snd ` set (scopes s) \<longrightarrow> detached (bufs s ! p) \<and> \<not> attached (bufs s ! p)) \<and>
     totals_ok s \<and> caps_ok s"

text \<open>No sequence counter of a linked scope has reached \<open>N\<close>.\<close>

definition seqs_below :: "nat \<Rightarrow> store \<Rightarrow> bool" where
  "seqs_below N s \<longleftrightarrow> (\<forall>(n, p) \<in> set (scopes s). lastSeq (bufs s ! p) < N)"

text \<open>What a client sees of a scope: its items, or that it does not exist.\<close>

definition view :: "store \<Rightarrow> string \<Rightarrow> item list option" where
  "view s n = map_option (\<lambda>p. bufItems (bufs s ! p)) (getScope s n)"

definition conf_same :: "store \<Rightarrow> store \<Rightarrow> bool" where
  "conf_same s s' \<longleftrightarrow> hashSeed s' = hashSeed s \<and> defaultMaxItems s' = defaultMaxItems s \<and>
     inboxMaxItems s' = inboxMaxItems s \<and> eventsMode s' = eventsMode s \<and> caps_same (acct s) (acct s')"

section \<open>The scope map\<close>

lemma shardIdx_lt [simp]: "shardIdxFor s n < numShards"
proof -
  have "shardMask = mask 5" by (simp add: shardMask_def numShards_def mask_eq_exp_minus_1)
  then have "shardIdxFor s n = take_bit 5 (hashSeed s n)"
    by (simp add: shardIdxFor_def take_bit_eq_mask)
  also have "\<dots> < 2 ^ 5" by (rule take_bit_nat_less_exp)
  finally show ?thesis by (simp add: numShards_def)
qed

lemma scope_shard:
  assumes "shards_ok s" shows "(n, p) \<in> set (scopes s) \<longleftrightarrow> (n, p) \<in> set (shardFor s n)"
proof
  assume "(n, p) \<in> set (scopes s)"
  then obtain i where "i < length (shards s)" "(n, p) \<in> set (shards s ! i)"
    unfolding scopes_def set_concat by (metis UN_E in_set_conv_nth)
  moreover then have "shardIdxFor s n = i" using assms by (auto simp: shards_ok_def)
  ultimately show "(n, p) \<in> set (shardFor s n)" by (simp add: shardFor_def)
next
  assume "(n, p) \<in> set (shardFor s n)"
  moreover have "shardIdxFor s n < length (shards s)" using assms by (simp add: shards_ok_def)
  ultimately show "(n, p) \<in> set (scopes s)" by (auto simp: scopes_def shardFor_def)
qed

lemma shard_distinct: "shards_ok s \<Longrightarrow> distinct (map fst (shardFor s n))"
  by (simp add: shards_ok_def shardFor_def)

lemma getScope_iff: "shards_ok s \<Longrightarrow> getScope s n = Some p \<longleftrightarrow> (n, p) \<in> set (scopes s)"
  using map_of_eq_Some_iff [OF shard_distinct] by (simp add: getScope_def scope_shard)

lemma getScope_None: "shards_ok s \<Longrightarrow> getScope s n = None \<longleftrightarrow> n \<notin> fst ` set (scopes s)"
  using getScope_iff [of s n] by (cases "getScope s n") force+

lemma scopes_distinct_fst: "shards_ok s \<Longrightarrow> (n, p) \<in> set (scopes s) \<Longrightarrow> (n, q) \<in> set (scopes s) \<Longrightarrow> p = q"
  by (metis getScope_iff option.inject)

lemma scopes_inj_snd:
  "shards_ok s \<Longrightarrow> (n, p) \<in> set (scopes s) \<Longrightarrow> (m, p) \<in> set (scopes s) \<Longrightarrow> n = m"
proof -
  assume ok: "shards_ok s" and np: "(n, p) \<in> set (scopes s)" and mp: "(m, p) \<in> set (scopes s)"
  have "inj_on snd (set (scopes s))" using ok by (simp add: shards_ok_def distinct_map)
  from inj_onD [OF this _ np mp] show "n = m" by simp
qed

lemma scopes_distinct: "shards_ok s \<Longrightarrow> distinct (scopes s)"
  by (simp add: shards_ok_def distinct_map)

lemma shards_update_scopes:
  assumes "shards_ok s" "mset (shardFor s n) + mset ys = mset xs + mset zs"
  shows "mset (concat ((shards s)[shardIdxFor s n := xs])) + mset zs = mset (scopes s) + mset ys"
proof -
  have "shardIdxFor s n < length (shards s)" using assms(1) by (simp add: shards_ok_def)
  from mset_concat_update [OF this, of xs] assms(2)
  have "mset (concat ((shards s)[shardIdxFor s n := xs])) + mset zs + (mset (shardFor s n) + mset xs) =
      mset (scopes s) + mset ys + (mset (shardFor s n) + mset xs)"
    by (simp add: scopes_def shardFor_def ac_simps)
  then show ?thesis by simp
qed

lemma scopes_link:
  assumes "shards_ok s" "getScope s n = None"
  shows "mset (scopes (linkScope n b s)) = add_mset (n, length (bufs s)) (mset (scopes s))"
proof -
  have "AList.update n (length (bufs s)) (shardFor s n) = shardFor s n @ [(n, length (bufs s))]"
    using assms(2) by (simp add: getScope_def AList_update_fresh)
  then have "mset (concat ((shards s)[shardIdxFor s n := AList.update n (length (bufs s)) (shardFor s n)])) + mset []
      = mset (scopes s) + mset [(n, length (bufs s))]"
    by (intro shards_update_scopes [OF assms(1)]) simp
  then show ?thesis by (simp add: linkScope_def scopes_def)
qed

lemma scopes_unlink:
  assumes "shards_ok s" "getScope s n = Some p"
  shows "mset (scopes s) = add_mset (n, p) (mset (scopes (unlinkScope n s)))"
proof -
  have "mset (shardFor s n) = add_mset (n, p) (mset (AList.delete n (shardFor s n)))"
    using mset_AList_delete [OF shard_distinct [OF assms(1)]] assms(2) by (simp add: getScope_def)
  then have "mset (concat ((shards s)[shardIdxFor s n := AList.delete n (shardFor s n)])) + mset [(n, p)]
      = mset (scopes s) + mset []"
    by (intro shards_update_scopes [OF assms(1)]) simp
  then show ?thesis by (simp add: unlinkScope_def scopes_def)
qed

lemma getScope_link:
  assumes "shards_ok s"
  shows "getScope (linkScope n b s) m = (if m = n then Some (length (bufs s)) else getScope s m)"
proof -
  have "shardIdxFor (linkScope n b s) = shardIdxFor s" by (simp add: fun_eq_iff shardIdxFor_def linkScope_def)
  moreover have "shardIdxFor s m < length (shards s)" for m using assms by (simp add: shards_ok_def)
  ultimately show ?thesis
    by (auto simp: getScope_def shardFor_def linkScope_def nth_list_update)
qed

lemma getScope_unlink:
  assumes "shards_ok s"
  shows "getScope (unlinkScope n s) m = (if m = n then None else getScope s m)"
proof -
  have "shardIdxFor (unlinkScope n s) = shardIdxFor s" by (simp add: fun_eq_iff shardIdxFor_def unlinkScope_def)
  moreover have "shardIdxFor s m < length (shards s)" for m using assms by (simp add: shards_ok_def)
  ultimately show ?thesis
    by (auto simp: getScope_def shardFor_def unlinkScope_def nth_list_update)
qed

text \<open>Shard well-formedness under the two map updates.\<close>

lemma shards_ok_link:
  assumes ok: "shards_ok s" and n: "getScope s n = None" "n \<noteq> []"
  shows "shards_ok (linkScope n b s)"
proof -
  let ?s = "linkScope n b s"
  have m: "mset (scopes ?s) = mset ((n, length (bufs s)) # scopes s)" using scopes_link [OF ok n(1)] by simp
  have set: "set (scopes ?s) = insert (n, length (bufs s)) (set (scopes s))"
    using arg_cong [OF m, of set_mset] by simp
  have "mset (map snd (scopes ?s)) = mset (map snd ((n, length (bufs s)) # scopes s))"
    using arg_cong [OF m, of "image_mset snd"] by simp
  then have "distinct (map snd (scopes ?s)) \<longleftrightarrow> distinct (map snd ((n, length (bufs s)) # scopes s))"
    by (rule mset_eq_imp_distinct_iff)
  moreover have "length (bufs s) \<notin> snd ` set (scopes s)" using ok by (auto simp: shards_ok_def)
  ultimately have d: "distinct (map snd (scopes ?s))" using ok by (simp add: shards_ok_def)
  have len: "length (shards s) = numShards" using ok by (simp add: shards_ok_def)
  have idx: "shardIdxFor ?s m = shardIdxFor s m" for m by (simp add: shardIdxFor_def linkScope_def)
  have sh: "distinct (map fst (shards ?s ! i)) \<and> (\<forall>(m, p) \<in> set (shards ?s ! i). shardIdxFor ?s m = i)"
    if i: "i < numShards" for i
  proof (cases "i = shardIdxFor s n")
    case True
    then have e: "shards ?s ! i = shardFor s n @ [(n, length (bufs s))]"
      using n(1) len i by (simp add: linkScope_def getScope_def AList_update_fresh)
    have "n \<notin> fst ` set (shardFor s n)" using n(1) by (simp add: getScope_def map_of_eq_None_iff)
    then show ?thesis using ok True i unfolding e idx by (auto simp: shards_ok_def shardFor_def)
  next
    case False
    then have "shards ?s ! i = shards s ! i" by (simp add: linkScope_def)
    then show ?thesis using ok i unfolding idx by (simp add: shards_ok_def)
  qed
  have "p < length (bufs ?s) \<and> m \<noteq> []" if "(m, p) \<in> set (scopes ?s)" for m p
    using that ok n(2) unfolding set by (auto simp: shards_ok_def linkScope_def)
  then show ?thesis using d sh len unfolding shards_ok_def by (auto simp: linkScope_def)
qed

lemma shards_ok_unlink:
  assumes ok: "shards_ok s" and n: "getScope s n = Some p"
  shows "shards_ok (unlinkScope n s)"
proof -
  let ?s = "unlinkScope n s"
  have m: "mset (scopes s) = mset ((n, p) # scopes ?s)" using scopes_unlink [OF ok n] by simp
  have set: "set (scopes s) = insert (n, p) (set (scopes ?s))" using arg_cong [OF m, of set_mset] by simp
  have "mset (map snd (scopes s)) = mset (map snd ((n, p) # scopes ?s))"
    using arg_cong [OF m, of "image_mset snd"] by simp
  then have "distinct (map snd (scopes s)) \<longleftrightarrow> distinct (map snd ((n, p) # scopes ?s))"
    by (rule mset_eq_imp_distinct_iff)
  then have d: "distinct (map snd (scopes ?s))" using ok by (simp add: shards_ok_def)
  have len: "length (shards s) = numShards" using ok by (simp add: shards_ok_def)
  have idx: "shardIdxFor ?s m = shardIdxFor s m" for m by (simp add: shardIdxFor_def unlinkScope_def)
  have sh: "distinct (map fst (shards ?s ! i)) \<and> (\<forall>(m, p) \<in> set (shards ?s ! i). shardIdxFor ?s m = i)"
    if i: "i < numShards" for i
  proof (cases "i = shardIdxFor s n")
    case True
    then have e: "shards ?s ! i = AList.delete n (shards s ! i)"
      using len i by (simp add: unlinkScope_def shardFor_def)
    show ?thesis using ok i unfolding e idx by (auto simp: shards_ok_def distinct_delete set_AList_delete)
  next
    case False
    then have "shards ?s ! i = shards s ! i" by (simp add: unlinkScope_def)
    then show ?thesis using ok i unfolding idx by (simp add: shards_ok_def)
  qed
  have "q < length (bufs ?s) \<and> m \<noteq> []" if "(m, q) \<in> set (scopes ?s)" for m q
    using that ok set by (auto simp: shards_ok_def unlinkScope_def)
  then show ?thesis using d sh len unfolding shards_ok_def by (auto simp: unlinkScope_def)
qed

section \<open>From the store's invariant to a buffer's preconditions\<close>

lemma conf_same_refl [simp]: "conf_same s s"
  by (simp add: conf_same_def caps_same_def)

lemma conf_same_trans: "conf_same s t \<Longrightarrow> conf_same t u \<Longrightarrow> conf_same s u"
  by (simp add: conf_same_def caps_same_def)

lemma scope_ok_conf: "conf_same s s' \<Longrightarrow> scope_ok s' n b = scope_ok s n b"
  by (simp add: scope_ok_def conf_same_def caps_same_def maxItemsFor_def maxItemBytesFor_def)

lemma store_scope_ok: "store_ok s \<Longrightarrow> (n, p) \<in> set (scopes s) \<Longrightarrow> scope_ok s n (bufs s ! p)"
  by (auto simp: store_ok_def)

lemma store_totals:
  assumes "store_ok s" "(n, p) \<in> set (scopes s)"
  shows "bytes (bufs s ! p) + scopeBufferOverhead \<le> totalBytes (acct s)"
    and "int (length (items (bufs s ! p))) \<le> totalItems (acct s)"
    and "bytes (bufs s ! p) + scopeBufferOverhead - 48 * int (length (items (bufs s ! p)))
      \<le> totalBytes (acct s) - 48 * totalItems (acct s)"
proof -
  let ?f = "\<lambda>(n :: string, p). bytes (bufs s ! p) + scopeBufferOverhead"
  let ?g = "\<lambda>(n :: string, p). int (length (items (bufs s ! p)))"
  have t: "totalBytes (acct s) = (\<Sum>x\<leftarrow>scopes s. ?f x)" "totalItems (acct s) = (\<Sum>x\<leftarrow>scopes s. ?g x)"
    using assms(1) by (simp_all add: store_ok_def totals_ok_def)
  have nn: "0 \<le> ?f x" "0 \<le> ?g x" "0 \<le> ?f x - 48 * ?g x" if "x \<in> set (scopes s)" for x
  proof -
    obtain m q where x: "x = (m, q)" by (cases x)
    have "buf_ok (bufs s ! q)" using store_scope_ok [OF assms(1)] that x by (simp add: scope_ok_def)
    from buf_bytes_nonneg [OF this] show "0 \<le> ?f x" "0 \<le> ?g x" "0 \<le> ?f x - 48 * ?g x"
      by (auto simp: x scopeBufferOverhead_def)
  qed
  show "bytes (bufs s ! p) + scopeBufferOverhead \<le> totalBytes (acct s)"
    using member_le_sum_list_int [of "scopes s" ?f, OF nn(1) assms(2)] t(1) by simp
  show "int (length (items (bufs s ! p))) \<le> totalItems (acct s)"
    using member_le_sum_list_int [of "scopes s" ?g, OF nn(2) assms(2)] t(2) by simp
  have "?f (n, p) - 48 * ?g (n, p) \<le> (\<Sum>x\<leftarrow>scopes s. ?f x - 48 * ?g x)"
    by (rule member_le_sum_list_int [of "scopes s" "\<lambda>x. ?f x - 48 * ?g x", OF nn(3) assms(2)])
  also have "\<dots> = totalBytes (acct s) - 48 * totalItems (acct s)"
    unfolding t by (simp add: sum_list_subtractf sum_list_const_mult)
  finally show "bytes (bufs s ! p) + scopeBufferOverhead - 48 * int (length (items (bufs s ! p)))
      \<le> totalBytes (acct s) - 48 * totalItems (acct s)" by simp
qed

lemma store_acct_ok: "store_ok s \<Longrightarrow> acct_ok (acct s)"
proof -
  assume ok: "store_ok s"
  let ?f = "\<lambda>(n :: string, p). bytes (bufs s ! p) + scopeBufferOverhead"
  let ?g = "\<lambda>(n :: string, p). int (length (items (bufs s ! p)))"
  have t: "totalBytes (acct s) = (\<Sum>x\<leftarrow>scopes s. ?f x)" "totalItems (acct s) = (\<Sum>x\<leftarrow>scopes s. ?g x)"
    using ok by (simp_all add: store_ok_def totals_ok_def)
  have nn: "0 \<le> ?g x" "0 \<le> ?f x - 48 * ?g x" if "x \<in> set (scopes s)" for x
  proof -
    obtain m q where x: "x = (m, q)" by (cases x)
    have "buf_ok (bufs s ! q)" using store_scope_ok [OF ok] that x by (simp add: scope_ok_def)
    from buf_bytes_nonneg [OF this] show "0 \<le> ?g x" "0 \<le> ?f x - 48 * ?g x"
      by (auto simp: x scopeBufferOverhead_def)
  qed
  have "0 \<le> totalItems (acct s)" unfolding t(2) by (rule sum_list_nonneg) (use nn(1) in auto)
  moreover have "0 \<le> (\<Sum>x\<leftarrow>scopes s. ?f x - 48 * ?g x)" by (rule sum_list_nonneg) (use nn(2) in auto)
  then have "48 * totalItems (acct s) \<le> totalBytes (acct s)"
    unfolding t by (simp add: sum_list_subtractf sum_list_const_mult)
  ultimately show "acct_ok (acct s)" using ok by (simp add: acct_ok_def store_ok_def caps_ok_def)
qed

lemma store_fits: "store_ok s \<Longrightarrow> (n, p) \<in> set (scopes s) \<Longrightarrow> fits (acct s) (bufs s ! p)"
  using store_totals [of s n p] by (auto simp: fits_def scopeBufferOverhead_def)

section \<open>Lifting the buffer contract\<close>

lemma view_upd:
  assumes "shards_ok s" "(n, p) \<in> set (scopes s)" "shards s' = shards s" "hashSeed s' = hashSeed s"
    "bufs s' = (bufs s)[p := b]"
  shows "view s' = (view s)(n := Some (bufItems b))" and "getScope s' = getScope s" and "scopes s' = scopes s"
proof -
  show g: "getScope s' = getScope s"
    using assms by (auto simp: fun_eq_iff getScope_def shardFor_def shardIdxFor_def)
  show "scopes s' = scopes s" using assms by (simp add: scopes_def)
  have p: "p < length (bufs s)" using assms(1,2) by (auto simp: shards_ok_def)
  have n: "getScope s n = Some p" using assms(1,2) by (simp add: getScope_iff)
  have "getScope s m = Some p \<longleftrightarrow> m = n" for m
    using assms(1,2) scopes_inj_snd by (auto simp: getScope_iff)
  note only = this
  show "view s' = (view s)(n := Some (bufItems b))"
  proof (rule ext)
    fix m show "view s' m = ((view s)(n := Some (bufItems b))) m"
    proof (cases "m = n")
      case True
      then show ?thesis using n p by (simp add: view_def g assms(5))
    next
      case False
      then have "getScope s m \<noteq> Some p" using only by simp
      then show ?thesis using False by (cases "getScope s m") (simp_all add: view_def g assms(5))
    qed
  qed
qed

lemma onBuf_ok:
  assumes ok: "store_ok s" and np: "(n, p) \<in> set (scopes s)" and op: "buffer_op op n us"
    and seq: "lastSeq (bufs s ! p) < 2 ^ 64 - 1" and r: "onBuf p op s = (r, s')"
  shows "store_ok s'" and "conf_same s s'" and "scopes s' = scopes s" and "getScope s' = getScope s"
    and "view s' = (view s)(n := Some (bufItems (bufs s' ! p)))"
    and "seqs_below N s \<Longrightarrow> seqs_below (Suc N) s'"
    and "bufs s' = (bufs s)[p := bufs s' ! p]"
proof -
  obtain a' b' where ob: "op (acct s) (bufs s ! p) = (r, a', b')"
    and s': "s' = s\<lparr>acct := a', bufs := (bufs s)[p := b']\<rparr>"
    using r by (auto simp: onBuf_def split: prod.splits)
  have sok: "scope_ok s n (bufs s ! p)" and sh: "shards_ok s" using ok np by (auto simp: store_ok_def)
  have p: "p < length (bufs s)" using sh np by (auto simp: shards_ok_def)
  have b: "buf_ok (bufs s ! p)" "attached (bufs s ! p)" "scope_items n (bufs s ! p)"
    using sok by (auto simp: scope_ok_def)
  note pre = store_acct_ok [OF ok] store_fits [OF ok np] b(1) seq ob
  have post: "op_post (acct s) (bufs s ! p) a' b'" by (rule buffer_op.op_post [OF op pre])
  have sc: "scope_items n b'" by (rule buffer_op.op_scope [OF op b(1) seq b(3) ob])
  show c: "conf_same s s'" using post by (simp add: conf_same_def s' op_post_def)
  note v = view_upd [OF sh np, of s' b']
  show sce: "scopes s' = scopes s" and g: "getScope s' = getScope s" using v by (simp_all add: s')
  show "view s' = (view s)(n := Some (bufItems (bufs s' ! p)))" using v(1) p by (simp add: s')
  show "bufs s' = (bufs s)[p := bufs s' ! p]" using p by (simp add: s')
  have q: "bufs s' ! q = (if q = p then b' else bufs s ! q)" for q using p by (simp add: s' nth_list_update)
  have lens: "length (bufs s') = length (bufs s)" by (simp add: s')
  have sh': "shards_ok s'"
    using sh unfolding shards_ok_def sce lens by (simp add: s' shardIdxFor_def)
  have "scope_ok s' m (bufs s' ! k)" if mk: "(m, k) \<in> set (scopes s')" for m k
  proof (cases "k = p")
    case True
    then have "m = n" using mk np scopes_inj_snd [OF sh] unfolding sce by blast
    then show ?thesis using True sok sc post unfolding scope_ok_conf [OF c]
      by (simp add: q scope_ok_def op_post_def buf_frame_def)
  next
    case False
    then show ?thesis using mk store_scope_ok [OF ok] unfolding scope_ok_conf [OF c] sce by (simp add: q)
  qed
  moreover have "detached (bufs s' ! k) \<and> \<not> attached (bufs s' ! k)"
    if "k < length (bufs s')" "k \<notin> snd ` set (scopes s')" for k
  proof -
    have "k \<noteq> p" using that(2) np unfolding sce by force
    then show ?thesis using that ok unfolding sce lens by (auto simp: q store_ok_def)
  qed
  moreover have "totals_ok s'"
  proof -
    let ?f = "\<lambda>s (n :: string, p). bytes (bufs s ! p) + scopeBufferOverhead"
    let ?g = "\<lambda>s (n :: string, p). int (length (items (bufs s ! p)))"
    have neq: "y \<noteq> (n, p) \<Longrightarrow> snd y \<noteq> p" if "y \<in> set (scopes s)" for y
      using scopes_inj_snd [OF sh, of "fst y" "snd y" n] that np by (metis prod.collapse)
    have "(\<Sum>x\<leftarrow>scopes s. ?f s' x) = (\<Sum>x\<leftarrow>scopes s. ?f s x) - ?f s (n, p) + ?f s' (n, p)"
      by (rule sum_list_change [OF scopes_distinct [OF sh] np]) (drule (1) neq, simp add: q case_prod_beta)
    moreover have "(\<Sum>x\<leftarrow>scopes s. ?g s' x) = (\<Sum>x\<leftarrow>scopes s. ?g s x) - ?g s (n, p) + ?g s' (n, p)"
      by (rule sum_list_change [OF scopes_distinct [OF sh] np]) (drule (1) neq, simp add: q case_prod_beta)
    moreover have "totalBytes a' = totalBytes (acct s) + bytes b' - bytes (bufs s ! p)"
      "totalItems a' = totalItems (acct s) + int (length (items b')) - int (length (items (bufs s ! p)))"
      using post b(2) by (simp_all add: op_post_def lockstep_def)
    ultimately show ?thesis using ok unfolding totals_ok_def sce
      by (simp add: store_ok_def totals_ok_def q) (simp add: s')
  qed
  moreover have "caps_ok s'" using ok post by (simp add: store_ok_def caps_ok_def s' op_post_def caps_same_def)
  ultimately show "store_ok s'" using sh' unfolding store_ok_def by blast
  show "seqs_below N s \<Longrightarrow> seqs_below (Suc N) s'"
    using post np unfolding seqs_below_def sce by (auto simp: q op_post_def less_Suc_eq_le dest: order_trans)
qed

section \<open>Linking and unlinking a scope\<close>

lemma scopes_count_bound: "store_ok s \<Longrightarrow> scopeBufferOverhead * int (length (scopes s)) \<le> totalBytes (acct s)"
proof -
  assume ok: "store_ok s"
  have "(\<Sum>x\<leftarrow>scopes s. scopeBufferOverhead) \<le> (\<Sum>(n, p)\<leftarrow>scopes s. bytes (bufs s ! p) + scopeBufferOverhead)"
  proof (rule sum_list_mono)
    fix x assume x: "x \<in> set (scopes s)"
    then have "buf_ok (bufs s ! snd x)"
      using store_scope_ok [OF ok, of "fst x" "snd x"] by (simp add: scope_ok_def)
    then show "scopeBufferOverhead \<le> (case x of (n, p) \<Rightarrow> bytes (bufs s ! p) + scopeBufferOverhead)"
      using buf_bytes_nonneg by (auto simp: case_prod_beta)
  qed
  then show ?thesis using ok by (simp add: store_ok_def totals_ok_def sum_list_triv mult.commute)
qed

definition acct_moved :: "int \<Rightarrow> storeAcct \<Rightarrow> storeAcct \<Rightarrow> bool" where
  "acct_moved d a a' \<longleftrightarrow> caps_same a a' \<and> totalBytes a' = totalBytes a + d \<and> totalItems a' = totalItems a"

lemma link_ok:
  assumes ok: "store_ok s" and n: "getScope s n = None" "n \<noteq> []"
    and b: "scope_ok s n b" "items b = []" and a: "acct_moved scopeBufferOverhead (acct s) (acct s1)"
    and cap: "totalBytes (acct s) + scopeBufferOverhead \<le> maxStoreBytes (acct s)"
    and s1: "shards s1 = shards s" "bufs s1 = bufs s" "conf_same s s1" "scopeCount s1 = scopeCount s"
    and s': "s' = addScopeCount 1 (linkScope n b s1)"
  shows "store_ok s'" and "conf_same s s'" and "view s' = (view s)(n := Some [])"
    and "getScope s' = (getScope s)(n := Some (length (bufs s)))"
    and "mset (scopes s') = add_mset (n, length (bufs s)) (mset (scopes s))"
    and "bufs s' = bufs s @ [b]"
proof -
  have sh: "shards_ok s" using ok by (simp add: store_ok_def)
  have idx: "shardIdxFor s1 = shardIdxFor s" using s1 by (simp add: fun_eq_iff shardIdxFor_def conf_same_def)
  have sc1: "scopes s1 = scopes s" using s1 by (simp add: scopes_def)
  have sh1: "shards_ok s1" using sh by (simp add: shards_ok_def s1 idx sc1)
  have g1: "getScope s1 = getScope s" by (simp add: fun_eq_iff getScope_def shardFor_def s1 idx)
  show c: "conf_same s s'" using s1(3) by (simp add: s' conf_same_def addScopeCount_def linkScope_def)
  show bufs: "bufs s' = bufs s @ [b]" by (simp add: s' addScopeCount_def linkScope_def s1)
  have shl: "shards_ok (linkScope n b s1)" using shards_ok_link [OF sh1] n g1 by simp
  have scs: "scopes s' = scopes (linkScope n b s1)" by (simp add: s' addScopeCount_def scopes_def)
  have sh': "shards_ok s'"
    using shl unfolding shards_ok_def scs by (simp add: s' addScopeCount_def shardIdxFor_def)
  show m: "mset (scopes s') = add_mset (n, length (bufs s)) (mset (scopes s))"
    using scopes_link [OF sh1] n g1 sc1 s1 scs by simp
  have set: "set (scopes s') = insert (n, length (bufs s)) (set (scopes s))"
    using arg_cong [OF m, of set_mset] by simp
  have "getScope s' = getScope (linkScope n b s1)"
    by (simp add: fun_eq_iff s' addScopeCount_def getScope_def shardFor_def shardIdxFor_def)
  then show g: "getScope s' = (getScope s)(n := Some (length (bufs s)))"
    using getScope_link [OF sh1, of n b] g1 s1 by (auto simp: fun_eq_iff)
  have old: "bufs s' ! p = bufs s ! p" if "(m, p) \<in> set (scopes s)" for m p
    using sh that by (auto simp: bufs nth_append shards_ok_def)
  show "view s' = (view s)(n := Some [])"
  proof (rule ext)
    fix m show "view s' m = ((view s)(n := Some [])) m"
    proof (cases "m = n")
      case True
      then show ?thesis using b(2) by (simp add: view_def g bufs bufItems_def)
    next
      case False
      show ?thesis
      proof (cases "getScope s m")
        case (Some q)
        then have "bufs s' ! q = bufs s ! q" using old getScope_iff [OF sh] by blast
        then show ?thesis using False Some by (simp add: view_def g)
      qed (use False in \<open>simp add: view_def g\<close>)
    qed
  qed
  have "scope_ok s' m (bufs s' ! p)" if "(m, p) \<in> set (scopes s')" for m p
    using that b(1) store_scope_ok [OF ok] old unfolding set scope_ok_conf [OF c]
    by (auto simp: bufs)
  moreover have "detached (bufs s' ! p) \<and> \<not> attached (bufs s' ! p)"
    if "p < length (bufs s')" "p \<notin> snd ` set (scopes s')" for p
    using that ok unfolding set by (auto simp: bufs nth_append store_ok_def)
  moreover have "totals_ok s'"
  proof -
    let ?f = "\<lambda>s (n :: string, p). bytes (bufs s ! p) + scopeBufferOverhead"
    let ?g = "\<lambda>s (n :: string, p). int (length (items (bufs s ! p)))"
    have bb: "bytes b = 0" using b by (simp add: scope_ok_def buf_ok_def bufItems_def)
    have "(\<Sum>x\<leftarrow>scopes s'. ?f s' x) = scopeBufferOverhead + (\<Sum>x\<leftarrow>scopes s. ?f s x)"
    proof -
      have "(\<Sum>x\<leftarrow>scopes s'. ?f s' x) = ?f s' (n, length (bufs s)) + (\<Sum>x\<leftarrow>scopes s. ?f s' x)"
        by (rule sum_list_add_mset [OF m])
      also have "map (?f s') (scopes s) = map (?f s) (scopes s)" by (rule map_cong) (auto simp: old)
      finally show ?thesis by (simp add: bufs bb)
    qed
    moreover have "(\<Sum>x\<leftarrow>scopes s'. ?g s' x) = (\<Sum>x\<leftarrow>scopes s. ?g s x)"
    proof -
      have "(\<Sum>x\<leftarrow>scopes s'. ?g s' x) = ?g s' (n, length (bufs s)) + (\<Sum>x\<leftarrow>scopes s. ?g s' x)"
        by (rule sum_list_add_mset [OF m])
      also have "map (?g s') (scopes s) = map (?g s) (scopes s)" by (rule map_cong) (auto simp: old)
      finally show ?thesis by (simp add: bufs b(2))
    qed
    moreover have "int (length (scopes s)) + 1 \<le> MaxInt64" "length (scopes s') = length (scopes s) + 1"
    proof -
      have "scopeBufferOverhead * int (length (scopes s)) \<le> totalBytes (acct s)" "totalBytes (acct s) \<le> MaxInt64"
        using scopes_count_bound [OF ok] ok by (auto simp: store_ok_def caps_ok_def)
      then show "int (length (scopes s)) + 1 \<le> MaxInt64" by (simp add: scopeBufferOverhead_def MaxInt64_def)
      show "length (scopes s') = length (scopes s) + 1" using arg_cong [OF m, of size] by simp
    qed
    ultimately show ?thesis using ok a s1 unfolding totals_ok_def
      by (simp add: store_ok_def totals_ok_def) (simp add: s' addScopeCount_def linkScope_def acct_moved_def MinInt64_def)
  qed
  moreover have "caps_ok s'" using ok a cap
    by (simp add: store_ok_def caps_ok_def s' addScopeCount_def linkScope_def acct_moved_def caps_same_def)
  ultimately show "store_ok s'" using sh' unfolding store_ok_def by blast
qed

lemma fresh_scope_ok: "\<not> isReservedScope n \<Longrightarrow> scope_ok s n (store_newscopeBuffer now s)"
  by (simp add: scope_ok_def store_newscopeBuffer_def newscopeBuffer_def buf_ok_def idx_ok_def slice_ok_def
      byID_ok_def bySeq_ok_def byUUID_ok_def bufItems_def scope_items_def maxItemsFor_def maxItemBytesFor_def
      isReservedScope_iff)

lemma reserved_scope_ok: "scope_ok s n (reservedBuffer now lw n s)"
  by (simp add: reservedBuffer_def scope_ok_def store_newscopeBuffer_def newscopeBuffer_def buf_ok_def idx_ok_def
      slice_ok_def byID_ok_def bySeq_ok_def byUUID_ok_def bufItems_def scope_items_def)

text \<open>Unlinking and detaching a scope, whatever it still holds.\<close>

lemma unlink_ok:
  assumes ok: "store_ok s" and n: "getScope s n = Some p"
    and s': "s' = detachBuf p (addScopeCount (- 1) ((unlinkScope n s)\<lparr>acct := a'\<rparr>))"
    and a': "caps_same (acct s) a'" "totalBytes a' = totalBytes (acct s) - (bytes (bufs s ! p) + scopeBufferOverhead)"
      "totalItems a' = totalItems (acct s) - int (length (items (bufs s ! p)))"
  shows "store_ok s'" and "conf_same s s'" and "view s' = (view s)(n := None)"
    and "getScope s' = (getScope s)(n := None)" and "mset (scopes s) = add_mset (n, p) (mset (scopes s'))"
    and "bufs s' = (bufs s)[p := (bufs s ! p)\<lparr>detached := True, attached := False\<rparr>]"
proof -
  have sh: "shards_ok s" using ok by (simp add: store_ok_def)
  have np: "(n, p) \<in> set (scopes s)" using n sh by (simp add: getScope_iff)
  have p: "p < length (bufs s)" using np sh by (auto simp: shards_ok_def)
  have scs: "scopes s' = scopes (unlinkScope n s)" by (simp add: s' scopes_def detachBuf_def addScopeCount_def)
  have len: "length (bufs s') = length (bufs s)" by (simp add: s' detachBuf_def addScopeCount_def unlinkScope_def)
  have shu: "shards_ok (unlinkScope n s)" by (rule shards_ok_unlink [OF sh n])
  have sh': "shards_ok s'"
    using shu unfolding shards_ok_def scs len
    by (simp add: s' detachBuf_def addScopeCount_def shardIdxFor_def unlinkScope_def)
  show m: "mset (scopes s) = add_mset (n, p) (mset (scopes s'))" using scopes_unlink [OF sh n] scs by simp
  have set: "set (scopes s) = insert (n, p) (set (scopes s'))" using arg_cong [OF m, of set_mset] by simp
  show c: "conf_same s s'"
    using a' by (simp add: s' conf_same_def detachBuf_def addScopeCount_def unlinkScope_def)
  show bufs: "bufs s' = (bufs s)[p := (bufs s ! p)\<lparr>detached := True, attached := False\<rparr>]"
    by (simp add: s' detachBuf_def addScopeCount_def unlinkScope_def)
  have "getScope s' = getScope (unlinkScope n s)"
    by (simp add: fun_eq_iff s' detachBuf_def addScopeCount_def getScope_def shardFor_def shardIdxFor_def)
  then show g: "getScope s' = (getScope s)(n := None)"
    using getScope_unlink [OF sh, of n] by (auto simp: fun_eq_iff)
  have notp: "q \<noteq> p" if mq: "(m, q) \<in> set (scopes s')" for m q
  proof
    assume "q = p"
    then have "m = n" using mq np set scopes_inj_snd [OF sh] by blast
    then have "(n, q) \<in> set (scopes s')" using mq by simp
    then show False using g getScope_iff [OF sh', of n q] by simp
  qed
  have old: "bufs s' ! q = bufs s ! q" if "(m, q) \<in> set (scopes s')" for m q
    using notp [OF that] by (simp add: bufs)
  show "view s' = (view s)(n := None)"
  proof (rule ext)
    fix m show "view s' m = ((view s)(n := None)) m"
    proof (cases "m = n \<or> getScope s m = None")
      case False
      then obtain q where q: "getScope s m = Some q" "getScope s' m = Some q" "m \<noteq> n" using g by auto
      then have "bufs s' ! q = bufs s ! q" using old getScope_iff [OF sh'] by blast
      then show ?thesis using q by (simp add: view_def)
    qed (auto simp: view_def g)
  qed
  have "scope_ok s' m (bufs s' ! q)" if "(m, q) \<in> set (scopes s')" for m q
    using that store_scope_ok [OF ok, of m q] set unfolding scope_ok_conf [OF c] by (simp add: old [OF that])
  moreover have "detached (bufs s' ! q) \<and> \<not> attached (bufs s' ! q)"
    if "q < length (bufs s')" "q \<notin> snd ` set (scopes s')" for q
    using that ok p set by (cases "q = p") (auto simp: bufs store_ok_def)
  moreover have "totals_ok s'"
  proof -
    let ?f = "\<lambda>s (n :: string, p). bytes (bufs s ! p) + scopeBufferOverhead"
    let ?g = "\<lambda>s (n :: string, p). int (length (items (bufs s ! p)))"
    have "(\<Sum>x\<leftarrow>scopes s'. ?f s' x) = (\<Sum>x\<leftarrow>scopes s'. ?f s x)"
      by (rule arg_cong [of _ _ sum_list], rule map_cong) (auto simp: old)
    moreover have "(\<Sum>x\<leftarrow>scopes s'. ?g s' x) = (\<Sum>x\<leftarrow>scopes s'. ?g s x)"
      by (rule arg_cong [of _ _ sum_list], rule map_cong) (auto simp: old)
    moreover have "acct s' = a'" "scopeCount s' = i64 (scopeCount s - 1)"
      by (simp_all add: s' detachBuf_def addScopeCount_def unlinkScope_def)
    moreover have "(\<Sum>x\<leftarrow>scopes s. ?f s x) = ?f s (n, p) + (\<Sum>x\<leftarrow>scopes s'. ?f s x)"
      "(\<Sum>x\<leftarrow>scopes s. ?g s x) = ?g s (n, p) + (\<Sum>x\<leftarrow>scopes s'. ?g s x)"
      by (rule sum_list_add_mset [OF m])+
    moreover have "length (scopes s) = length (scopes s') + 1" using arg_cong [OF m, of size] by simp
    moreover have "i64 (int (length (scopes s')) ) = int (length (scopes s'))"
    proof (rule i64_id)
      have "scopeBufferOverhead * int (length (scopes s)) \<le> totalBytes (acct s)" "totalBytes (acct s) \<le> MaxInt64"
        using scopes_count_bound [OF ok] ok by (auto simp: store_ok_def caps_ok_def)
      then show "int (length (scopes s')) \<le> MaxInt64"
        using \<open>length (scopes s) = length (scopes s') + 1\<close> by (simp add: scopeBufferOverhead_def)
    qed (simp add: MinInt64_def)
    ultimately show ?thesis using ok a' unfolding totals_ok_def
      by (simp add: store_ok_def totals_ok_def del: map_eq_conv)
  qed
  moreover have "caps_ok s'"
  proof -
    have "0 \<le> bytes (bufs s ! p)" using store_scope_ok [OF ok np] buf_bytes_nonneg by (auto simp: scope_ok_def)
    then show ?thesis using ok a'
      by (simp add: store_ok_def caps_ok_def s' detachBuf_def addScopeCount_def unlinkScope_def caps_same_def scopeBufferOverhead_def)
  qed
  ultimately show "store_ok s'" using sh' unfolding store_ok_def by blast
qed

section \<open>Construction\<close>

lemma initOne_ok:
  assumes ok: "store_ok s" and n: "n \<noteq> []"
    and cap: "getScope s n = None \<Longrightarrow> totalBytes (acct s) + scopeBufferOverhead \<le> maxStoreBytes (acct s)"
  shows "store_ok (initOne now lw n s)" and "conf_same s (initOne now lw n s)"
    and "view (initOne now lw n s) = (view s)(n := Some (case view s n of None \<Rightarrow> [] | Some xs \<Rightarrow> xs))"
    and "getScope s n = None \<Longrightarrow> totalBytes (acct (initOne now lw n s)) = totalBytes (acct s) + scopeBufferOverhead"
    and "maxStoreBytes (acct (initOne now lw n s)) = maxStoreBytes (acct s)"
    and "lastWriteTS (acct (initOne now lw n s)) = lastWriteTS (acct s)"
    and "totalItems (acct (initOne now lw n s)) = totalItems (acct s)"
    and "seqs_below N s \<Longrightarrow> 0 < N \<Longrightarrow> seqs_below N (initOne now lw n s)"
proof -
  let ?s = "initOne now lw n s"
  have "store_ok ?s \<and> conf_same s ?s \<and> view ?s = (view s)(n := Some (case view s n of None \<Rightarrow> [] | Some xs \<Rightarrow> xs)) \<and>
    (getScope s n = None \<longrightarrow> totalBytes (acct ?s) = totalBytes (acct s) + scopeBufferOverhead) \<and>
    maxStoreBytes (acct ?s) = maxStoreBytes (acct s) \<and> lastWriteTS (acct ?s) = lastWriteTS (acct s) \<and>
    totalItems (acct ?s) = totalItems (acct s) \<and> (seqs_below N s \<and> 0 < N \<longrightarrow> seqs_below N ?s)"
  proof (cases "getScope s n")
    case (Some p)
    then show ?thesis using ok by (auto simp: initOne_def view_def fun_eq_iff)
  next
    case None
    let ?b = "reservedBuffer now lw n s"
    let ?a = "addTotals scopeBufferOverhead 0 (acct s)"
    have a: "?a = (acct s)\<lparr>totalBytes := totalBytes (acct s) + scopeBufferOverhead\<rparr>"
    proof -
      have "acct_ok (acct s)" by (rule store_acct_ok [OF ok])
      then have "i64 (totalBytes (acct s) + scopeBufferOverhead) = totalBytes (acct s) + scopeBufferOverhead"
        "i64 (totalItems (acct s)) = totalItems (acct s)"
        using cap [OF None] by (auto intro!: i64_id simp: acct_ok_def scopeBufferOverhead_def MinInt64_def MaxInt64_def)
      then show ?thesis by (simp add: addTotals_def)
    qed
    have s': "?s = addScopeCount 1 (linkScope n ?b (s\<lparr>acct := ?a\<rparr>))"
      using None by (simp add: initOne_def Let_def linkScope_def addScopeCount_def shardIdxFor_def shardFor_def)
    have l: "store_ok ?s \<and> conf_same s ?s \<and> view ?s = (view s)(n := Some []) \<and>
        mset (scopes ?s) = add_mset (n, length (bufs s)) (mset (scopes s)) \<and> bufs ?s = bufs s @ [?b]"
      using link_ok [OF ok None n reserved_scope_ok _ _ cap [OF None] _ _ _ _ s']
      by (auto simp: a acct_moved_def caps_same_def conf_same_def reservedBuffer_def store_newscopeBuffer_def newscopeBuffer_def)
    have "set (scopes ?s) = insert (n, length (bufs s)) (set (scopes s))"
      using l by (metis set_mset_add_mset_insert set_mset_mset)
    moreover have "p < length (bufs s)" if "(m, p) \<in> set (scopes s)" for m p
      using ok that by (auto simp: store_ok_def shards_ok_def)
    ultimately have sq: "seqs_below N s \<and> 0 < N \<longrightarrow> seqs_below N ?s"
      using l by (fastforce simp: seqs_below_def nth_append reservedBuffer_def store_newscopeBuffer_def newscopeBuffer_def)
    show ?thesis using l sq None by (simp add: view_def) (simp add: s' a addScopeCount_def linkScope_def)
  qed
  then show "store_ok ?s" "conf_same s ?s" "view ?s = (view s)(n := Some (case view s n of None \<Rightarrow> [] | Some xs \<Rightarrow> xs))"
    "getScope s n = None \<Longrightarrow> totalBytes (acct ?s) = totalBytes (acct s) + scopeBufferOverhead"
    "maxStoreBytes (acct ?s) = maxStoreBytes (acct s)" "lastWriteTS (acct ?s) = lastWriteTS (acct s)"
    "totalItems (acct ?s) = totalItems (acct s)"
    "seqs_below N s \<Longrightarrow> 0 < N \<Longrightarrow> seqs_below N ?s"
    by blast+
qed

lemma view_getScope_None: "view s n = None \<longleftrightarrow> getScope s n = None"
  by (simp add: view_def)

text \<open>Both boot-time and post-wipe initialisation create the two reserved scopes, empty.\<close>

lemma init_two_ok:
  assumes ok: "store_ok s" and none: "view s EventsScopeName = None" "view s InboxScopeName = None"
    and cap: "totalBytes (acct s) + reservedScopesOverhead \<le> maxStoreBytes (acct s)"
    and s': "s' = initOne now lw2 InboxScopeName (initOne now lw1 EventsScopeName s)"
  shows "store_ok s'" and "conf_same s s'"
    and "view s' = (view s)(EventsScopeName := Some [], InboxScopeName := Some [])" and "reserved_ok s'"
    and "totalBytes (acct s') = totalBytes (acct s) + reservedScopesOverhead"
    and "totalItems (acct s') = totalItems (acct s)"
    and "lastWriteTS (acct s') = lastWriteTS (acct s)"
    and "seqs_below N s \<Longrightarrow> 0 < N \<Longrightarrow> seqs_below N s'"
proof -
  have o2: "reservedScopesOverhead = scopeBufferOverhead + scopeBufferOverhead"
    by (simp add: reservedScopesOverhead_def reservedScopeNames_def scopeBufferOverhead_def)
  have cap1: "getScope s EventsScopeName = None \<Longrightarrow> totalBytes (acct s) + scopeBufferOverhead \<le> maxStoreBytes (acct s)"
    using cap o2 by (simp add: scopeBufferOverhead_def)
  note i1 = initOne_ok [where n = EventsScopeName, OF ok reserved_names(3) cap1, where now = now and lw = lw1]
  let ?s1 = "initOne now lw1 EventsScopeName s"
  have g1: "getScope s EventsScopeName = None" using none by (simp add: view_getScope_None)
  have v1: "view ?s1 = (view s)(EventsScopeName := Some [])" using i1(3) none by simp
  then have g2: "getScope ?s1 InboxScopeName = None" using none by (simp add: view_getScope_None [symmetric])
  have ok1: "store_ok ?s1" using i1(1) by simp
  have cap2: "getScope ?s1 InboxScopeName = None \<Longrightarrow> totalBytes (acct ?s1) + scopeBufferOverhead \<le> maxStoreBytes (acct ?s1)"
    using i1(4,5) g1 cap o2 by simp
  note i2 = initOne_ok [where n = InboxScopeName, OF ok1 reserved_names(4) cap2, where now = now and lw = lw2, folded s']
  show "store_ok s'" using i2(1) by simp
  show "conf_same s s'" using i1(2) i2(2) conf_same_trans by simp
  show v: "view s' = (view s)(EventsScopeName := Some [], InboxScopeName := Some [])"
    using i2(3) v1 none by simp
  show "reserved_ok s'" by (auto simp: reserved_ok_def reservedScopeNames_def view_getScope_None [symmetric] v)
  show "totalBytes (acct s') = totalBytes (acct s) + reservedScopesOverhead"
    using i1(4) i2(4) g1 g2 o2 by simp
  show "totalItems (acct s') = totalItems (acct s)" "lastWriteTS (acct s') = lastWriteTS (acct s)"
    using i1(6,7) i2(6,7) by simp_all
  show "seqs_below N s \<Longrightarrow> 0 < N \<Longrightarrow> seqs_below N s'" using i1(8) i2(8) by simp
qed

lemma newStore_ok:
  assumes "cfgMaxStoreBytes c \<le> MaxInt64"
  shows "store_ok (newStore seed now c)" and "reserved_ok (newStore seed now c)"
    and "view (newStore seed now c) = [EventsScopeName \<mapsto> [], InboxScopeName \<mapsto> []]"
    and "seqs_below 1 (newStore seed now c)" and "lastWriteTS (acct (newStore seed now c)) = 0"
    and "maxStoreBytes (acct (newStore seed now c)) = cfgMaxStoreBytes (WithDefaults c)"
    and "totalBytes (acct (newStore seed now c)) = reservedScopesOverhead"
proof -
  let ?c = "WithDefaults c"
  define s0 where "s0 = \<lparr>shards = replicate numShards [], bufs = [], hashSeed = seed,
    defaultMaxItems = cfgScopeMaxItems ?c, inboxMaxItems = cfgInboxMaxItems ?c, eventsMode = cfgEventsMode ?c,
    eventsDropsTotal = 0,
    acct = \<lparr>maxStoreBytes = cfgMaxStoreBytes ?c, maxItemBytes = cfgMaxItemBytes ?c,
       eventsMaxItemBytes = addClampedInt64 (if cfgInboxMaxItemBytes ?c > cfgMaxItemBytes ?c
         then cfgInboxMaxItemBytes ?c else cfgMaxItemBytes ?c) eventsItemEnvelopeOverhead,
       inboxMaxItemBytes = cfgInboxMaxItemBytes ?c, totalBytes = 0, totalItems = 0, lastWriteTS = 0\<rparr>,
    scopeCount = 0, subscribers = [], subs = []\<rparr>"
  have sc: "scopes s0 = []" by (simp add: scopes_def s0_def)
  have none: "view s0 n = None" for n
    using shardIdx_lt [of s0 n] by (simp add: view_def getScope_def shardFor_def) (simp add: s0_def)
  have cap: "reservedScopesOverhead \<le> cfgMaxStoreBytes ?c" "cfgMaxStoreBytes ?c \<le> MaxInt64"
    using WithDefaults_bounds(2) WithDefaults_le [OF assms] by auto
  have nn: "0 \<le> reservedScopesOverhead" by (simp add: reservedScopesOverhead_def scopeBufferOverhead_def)
  have ok: "store_ok s0"
    using cap nn by (auto simp: store_ok_def shards_ok_def sc totals_ok_def caps_ok_def) (simp_all add: s0_def)
  have e: "newStore seed now c = initOne now 0 InboxScopeName (initOne now 0 EventsScopeName s0)"
    by (simp add: newStore_def s0_def Let_def initReservedScopes_def reservedScopeNames_def)
  note i = init_two_ok [OF ok none none _ e]
  have t0: "totalBytes (acct s0) + reservedScopesOverhead \<le> maxStoreBytes (acct s0)" using cap by (simp add: s0_def)
  show "store_ok (newStore seed now c)" "reserved_ok (newStore seed now c)" using i(1,4) t0 by simp_all
  show "view (newStore seed now c) = [EventsScopeName \<mapsto> [], InboxScopeName \<mapsto> []]"
    using i(3) t0 none by (auto simp: fun_eq_iff)
  show "seqs_below 1 (newStore seed now c)" using i(8) [of 1] t0 by (simp add: seqs_below_def sc)
  show "lastWriteTS (acct (newStore seed now c)) = 0" using i(7) t0 by (simp add: s0_def)
  show "totalBytes (acct (newStore seed now c)) = reservedScopesOverhead" using i(5) t0 by (simp add: s0_def)
  have "conf_same s0 (newStore seed now c)" using i(2) t0 by simp
  then show "maxStoreBytes (acct (newStore seed now c)) = cfgMaxStoreBytes (WithDefaults c)"
    by (simp add: conf_same_def caps_same_def s0_def)
qed

section \<open>Creating a scope and taking it back\<close>

lemma not_reserved_if_absent: "reserved_ok s \<Longrightarrow> getScope s n = None \<Longrightarrow> \<not> isReservedScope n"
  by (auto simp: reserved_ok_def isReservedScope_iff reservedScopeNames_def)

lemma getOrCreate_cases:
  assumes r: "getOrCreateScopeTrackingCreated now n s = (r, s')"
  obtains (err) e where "r = Inl e" "s' = s"
  | (found) p where "r = Inr (p, False)" "s' = s" "getScope s n = Some p" "n \<noteq> []"
  | (created) a1 k m where "r = Inr (length (bufs s), True)" "getScope s n = None" "n \<noteq> []"
      "reserveBytes scopeBufferOverhead (acct s) = (True, k, m, a1)"
      "s' = addScopeCount 1 (linkScope n (store_newscopeBuffer now s) (s\<lparr>acct := a1\<rparr>))"
  using r by (auto simp: getOrCreateScopeTrackingCreated_def Let_def split: if_splits option.splits prod.splits
      dest: reserveBytes_False(1))

lemma created_ok:
  assumes ok: "store_ok s" "reserved_ok s" and n: "getScope s n = None" "n \<noteq> []"
    and rb: "reserveBytes scopeBufferOverhead (acct s) = (True, k, m, a1)"
    and s': "s' = addScopeCount 1 (linkScope n (store_newscopeBuffer now s) (s\<lparr>acct := a1\<rparr>))"
  shows "store_ok s'" and "conf_same s s'" and "view s' = (view s)(n := Some [])"
    and "getScope s' = (getScope s)(n := Some (length (bufs s)))"
    and "mset (scopes s') = add_mset (n, length (bufs s)) (mset (scopes s))"
    and "bufs s' = bufs s @ [store_newscopeBuffer now s]"
    and "a1 = (acct s)\<lparr>totalBytes := totalBytes (acct s) + scopeBufferOverhead\<rparr>"
proof -
  have a: "acct_ok (acct s)" by (rule store_acct_ok [OF ok(1)])
  have "- scopeBufferOverhead \<le> totalBytes (acct s)" using a by (simp add: acct_ok_def scopeBufferOverhead_def)
  note r = reserveBytes_True [OF a rb this]
  show "a1 = (acct s)\<lparr>totalBytes := totalBytes (acct s) + scopeBufferOverhead\<rparr>" by (rule r(1))
  note l = link_ok [OF ok(1) n fresh_scope_ok [OF not_reserved_if_absent [OF ok(2) n(1)]] _ _ r(2) _ _ _ _ s']
  show "store_ok s'" "conf_same s s'" "view s' = (view s)(n := Some [])"
    "getScope s' = (getScope s)(n := Some (length (bufs s)))"
    "mset (scopes s') = add_mset (n, length (bufs s)) (mset (scopes s))"
    "bufs s' = bufs s @ [store_newscopeBuffer now s]"
    using l r(1) by (simp_all add: acct_moved_def caps_same_def conf_same_def store_newscopeBuffer_def newscopeBuffer_def)
qed

text \<open>A failed write to a scope it had to create leaves the store as it was, save for unreachable garbage.\<close>

lemma cleanup_undoes_create:
  assumes ok: "store_ok s" and n: "getScope s n = None"
    and a1: "a1 = (acct s)\<lparr>totalBytes := totalBytes (acct s) + scopeBufferOverhead\<rparr>"
    and s1: "s1 = addScopeCount 1 (linkScope n b (s\<lparr>acct := a1\<rparr>))" and b: "items b = []"
    and cap: "totalBytes (acct s) + scopeBufferOverhead \<le> maxStoreBytes (acct s)"
  shows "cleanupIfEmptyAndUnused n (length (bufs s)) s1 = s\<lparr>bufs := bufs s @ [b\<lparr>detached := True, attached := False\<rparr>]\<rparr>"
proof -
  have sh: "shards_ok s" using ok by (simp add: store_ok_def)
  let ?i = "shardIdxFor s n"
  have i: "?i < length (shards s)" using sh by (simp add: shards_ok_def)
  have nk: "n \<notin> fst ` set (shards s ! ?i)" using n by (simp add: getScope_def shardFor_def map_of_eq_None_iff)
  have e: "AList.update n (length (bufs s)) (shards s ! ?i) = shards s ! ?i @ [(n, length (bufs s))]"
    using n by (simp add: getScope_def shardFor_def AList_update_fresh)
  have d: "AList.delete n (shards s ! ?i @ [(n, length (bufs s))]) = shards s ! ?i"
    using nk by (force simp: AList.delete_eq filter_id_conv)
  have t: "i64 (totalBytes (acct s)) = totalBytes (acct s)"
    using store_acct_ok [OF ok] by (intro i64_id) (auto simp: acct_ok_def MinInt64_def)
  have "scopeBufferOverhead * int (length (scopes s)) \<le> totalBytes (acct s)" "totalBytes (acct s) \<le> MaxInt64"
    using scopes_count_bound [OF ok] ok by (auto simp: store_ok_def caps_ok_def)
  then have "int (length (scopes s)) + 1 \<le> MaxInt64" by (simp add: scopeBufferOverhead_def MaxInt64_def)
  then have c: "i64 (scopeCount s + 1) = scopeCount s + 1" "i64 (scopeCount s) = scopeCount s"
    using ok by (auto intro!: i64_id simp: store_ok_def totals_ok_def MinInt64_def)
  have idx: "shardIdxFor s1 n = ?i" by (simp add: s1 shardIdxFor_def addScopeCount_def linkScope_def)
  have sf: "shards s1 = (shards s)[?i := shards s ! ?i @ [(n, length (bufs s))]]"
    by (simp add: s1 addScopeCount_def linkScope_def shardFor_def shardIdxFor_def) (simp add: e [unfolded shardIdxFor_def])
  have g: "getScope s1 n = Some (length (bufs s))"
    using i nk by (simp add: getScope_def shardFor_def idx sf map_of_eq_None_iff map_add_Some_iff)
  have bu: "bufs s1 = bufs s @ [b]" by (simp add: s1 addScopeCount_def linkScope_def)
  have "cleanupIfEmptyAndUnused n (length (bufs s)) s1 =
      detachBuf (length (bufs s)) (addScopeCount (- 1) ((unlinkScope n s1)\<lparr>acct := (acct s)\<rparr>))"
    using g bu b t by (simp add: cleanupIfEmptyAndUnused_def Let_def)
      (simp add: s1 addScopeCount_def linkScope_def unlinkScope_def a1)
  also have "unlinkScope n s1 = s1\<lparr>shards := shards s\<rparr>"
    using i by (simp add: unlinkScope_def idx shardFor_def sf d)
  finally show ?thesis
    by (simp add: detachBuf_def addScopeCount_def s1 linkScope_def c)
qed

lemma garbage_ok:
  assumes "store_ok s" "detached b" "\<not> attached b"
  shows "store_ok (s\<lparr>bufs := bufs s @ [b]\<rparr>)" and "view (s\<lparr>bufs := bufs s @ [b]\<rparr>) = view s"
    and "getScope (s\<lparr>bufs := bufs s @ [b]\<rparr>) = getScope s" and "seqs_below N s \<Longrightarrow> seqs_below N (s\<lparr>bufs := bufs s @ [b]\<rparr>)"
proof -
  let ?s = "s\<lparr>bufs := bufs s @ [b]\<rparr>"
  have sh: "shards_ok s" using assms by (simp add: store_ok_def)
  show g: "getScope ?s = getScope s" by (simp add: fun_eq_iff getScope_def shardFor_def shardIdxFor_def)
  have sc: "scopes ?s = scopes s" by (simp add: scopes_def)
  have old: "bufs ?s ! p = bufs s ! p" if "(n, p) \<in> set (scopes s)" for n p
    using sh that by (auto simp: shards_ok_def nth_append)
  show "view ?s = view s"
  proof (rule ext)
    fix n show "view ?s n = view s n"
    proof (cases "getScope s n")
      case (Some p)
      then have "bufs ?s ! p = bufs s ! p" using old getScope_iff [OF sh] by blast
      then show ?thesis using Some by (simp add: view_def g)
    qed (simp add: view_def g)
  qed
  have sh': "shards_ok ?s" using sh unfolding shards_ok_def sc by (auto simp: shardIdxFor_def)
  have c: "conf_same s ?s" by (simp add: conf_same_def caps_same_def)
  have m: "map (\<lambda>(n, p). f (bufs ?s ! p)) (scopes s) = map (\<lambda>(n, p). f (bufs s ! p)) (scopes s)" for f :: "scopeBuffer \<Rightarrow> int"
    using old by (auto intro!: map_cong)
  have "totals_ok ?s"
    using assms(1) m [of "\<lambda>b. bytes b + scopeBufferOverhead"] m [of "\<lambda>b. int (length (items b))"]
    unfolding totals_ok_def sc store_ok_def by (simp del: map_eq_conv)
  moreover have "caps_ok ?s" using assms(1) by (simp add: store_ok_def caps_ok_def)
  moreover have "scope_ok ?s n (bufs ?s ! p)" if "(n, p) \<in> set (scopes ?s)" for n p
    using that store_scope_ok [OF assms(1)] unfolding scope_ok_conf [OF c] sc by (simp only: old)
  moreover have "detached (bufs ?s ! p) \<and> \<not> attached (bufs ?s ! p)"
    if "p < length (bufs ?s)" "p \<notin> snd ` set (scopes ?s)" for p
    using that assms unfolding sc by (auto simp: nth_append store_ok_def)
  ultimately show "store_ok ?s" using sh' unfolding store_ok_def by blast
  show "seqs_below N s \<Longrightarrow> seqs_below N ?s" unfolding seqs_below_def sc by (auto simp: old [simplified])
qed

section \<open>Subscriptions\<close>

text \<open>
  A registered channel is open, belongs to one reserved scope, and no scope has two. In particular
  \<open>notifySubscriber\<close> never sends on a closed channel and \<open>unsubscribe\<close> never closes one twice (either
  would panic).
\<close>

definition subs_ok :: "store \<Rightarrow> bool" where
  "subs_ok s \<longleftrightarrow> distinct (map fst (subscribers s)) \<and> distinct (map snd (subscribers s)) \<and>
     (\<forall>(n, q) \<in> set (subscribers s). isReservedScope n \<and> q < length (subs s) \<and> \<not> chClosed (subs s ! q))"

lemma subs_entry:
  assumes "subs_ok s" "map_of (subscribers s) n = Some q"
  shows "isReservedScope n" "q < length (subs s)" "\<not> chClosed (subs s ! q)"
  using assms by (auto simp: subs_ok_def dest!: map_of_SomeD)

lemma Subscribe_ok: "subs_ok s \<Longrightarrow> Subscribe n s = (r, s') \<Longrightarrow> subs_ok s'"
proof -
  assume ok: "subs_ok s" and r: "Subscribe n s = (r, s')"
  show "subs_ok s'"
  proof (cases "isReservedScope n \<and> map_of (subscribers s) n = None")
    case False
    then show ?thesis using ok r by (auto simp: Subscribe_def split: if_splits)
  next
    case True
    then have s': "s' = s\<lparr>subs := subs s @ [\<lparr>slotFull = False, chClosed = False\<rparr>],
        subscribers := subscribers s @ [(n, length (subs s))]\<rparr>"
      using r by (auto simp: Subscribe_def Let_def AList_update_fresh)
    show ?thesis using ok True
      by (auto simp: s' subs_ok_def nth_append map_of_eq_None_iff)
  qed
qed

lemma unsubscribe_ok:
  assumes ok: "subs_ok s" shows "subs_ok (unsubscribe n s)"
proof (cases "map_of (subscribers s) n")
  case None
  then show ?thesis using ok by (simp add: unsubscribe_def)
next
  case (Some q)
  have d: "distinct (map snd (AList.delete n (subscribers s)))"
    using ok by (auto simp: subs_ok_def AList.delete_eq distinct_map inj_on_def)
  have other: "q' \<noteq> q" if "(m, q') \<in> set (AList.delete n (subscribers s))" for m q'
  proof
    assume "q' = q"
    moreover have "(n, q) \<in> set (subscribers s)" using Some by (rule map_of_SomeD)
    moreover have "(m, q') \<in> set (subscribers s)" using that by (simp add: set_AList_delete)
    moreover have "inj_on snd (set (subscribers s))" using ok by (simp add: subs_ok_def distinct_map)
    ultimately have "m = n" by (metis inj_onD fst_conv snd_conv)
    then show False using that by (simp add: set_AList_delete)
  qed
  have "\<not> chClosed ((subs s)[q := (subs s ! q)\<lparr>chClosed := True\<rparr>] ! q')"
    if mq: "(m, q') \<in> set (AList.delete n (subscribers s))" for m q'
  proof -
    have "(subs s)[q := (subs s ! q)\<lparr>chClosed := True\<rparr>] ! q' = subs s ! q'"
      using other [OF mq] by (simp add: nth_list_update_neq)
    then show ?thesis using ok mq by (auto simp: subs_ok_def set_AList_delete)
  qed
  then show ?thesis using ok d Some
    by (auto simp: unsubscribe_def subs_ok_def distinct_delete set_AList_delete)
qed

lemma notifySubscriber_ok:
  assumes ok: "subs_ok s" shows "subs_ok (notifySubscriber n s)"
proof (cases "map_of (subscribers s) n")
  case (Some q)
  have q: "q < length (subs s)" by (rule subs_entry(2) [OF ok Some])
  have "chClosed ((subs s)[q := (subs s ! q)\<lparr>slotFull := True\<rparr>] ! k) = chClosed (subs s ! k)" for k
    using q by (simp add: nth_list_update)
  then show ?thesis using ok Some by (auto simp: notifySubscriber_def subs_ok_def)
qed (use ok in \<open>simp add: notifySubscriber_def\<close>)

text \<open>After a notification the subscriber of that scope has a wake-up pending, and nothing else moved.\<close>

lemma notifySubscriber_pending:
  assumes "subs_ok s" "map_of (subscribers s) n = Some q"
  shows "slotFull (subs (notifySubscriber n s) ! q)"
    and "q' \<noteq> q \<Longrightarrow> subs (notifySubscriber n s) ! q' = subs s ! q'"
  using assms subs_entry [OF assms] by (auto simp: notifySubscriber_def)

text \<open>Only the channel heap moves.\<close>

lemma notify_frame [simp]:
  "shards (notifySubscriber n s) = shards s" "bufs (notifySubscriber n s) = bufs s"
  "hashSeed (notifySubscriber n s) = hashSeed s" "acct (notifySubscriber n s) = acct s"
  "scopeCount (notifySubscriber n s) = scopeCount s" "defaultMaxItems (notifySubscriber n s) = defaultMaxItems s"
  "inboxMaxItems (notifySubscriber n s) = inboxMaxItems s" "eventsMode (notifySubscriber n s) = eventsMode s"
  "eventsDropsTotal (notifySubscriber n s) = eventsDropsTotal s"
  "subscribers (notifySubscriber n s) = subscribers s"
  by (auto simp: notifySubscriber_def split: option.splits)

text \<open>The invariant and the view do not read the channels or the drop counter.\<close>

definition data_eq :: "store \<Rightarrow> store \<Rightarrow> bool" where
  "data_eq s s' \<longleftrightarrow> shards s' = shards s \<and> bufs s' = bufs s \<and> hashSeed s' = hashSeed s \<and> acct s' = acct s \<and>
     scopeCount s' = scopeCount s \<and> defaultMaxItems s' = defaultMaxItems s \<and> inboxMaxItems s' = inboxMaxItems s \<and>
     eventsMode s' = eventsMode s"

lemma data_eq_facts:
  assumes "data_eq s s'"
  shows "store_ok s' = store_ok s" and "view s' = view s" and "getScope s' = getScope s"
    and "reserved_ok s' = reserved_ok s" and "seqs_below N s' = seqs_below N s" and "conf_same s s'"
    and "scopes s' = scopes s"
proof -
  note d = assms [unfolded data_eq_def]
  show g: "getScope s' = getScope s" using d by (simp add: fun_eq_iff getScope_def shardFor_def shardIdxFor_def)
  show sc: "scopes s' = scopes s" using d by (simp add: scopes_def)
  show "view s' = view s" using d by (simp add: fun_eq_iff view_def g)
  show "reserved_ok s' = reserved_ok s" by (simp add: reserved_ok_def g)
  show "seqs_below N s' = seqs_below N s" using d by (simp add: seqs_below_def sc)
  show c: "conf_same s s'" using d by (simp add: conf_same_def caps_same_def)
  show "store_ok s' = store_ok s"
    using d unfolding store_ok_def shards_ok_def scope_ok_conf [OF c] totals_ok_def caps_ok_def sc
    by (simp add: shardIdxFor_def)
qed

lemma notify_data_eq: "data_eq s (notifySubscriber n s)"
  by (simp add: data_eq_def)

end
