(* ===== verification/Events.thy ===== *)
theory Events
  imports Store
begin

text \<open>
  Committing an append and the event it raises (\<^verbatim>\<open>appendOneTrusted\<close> of \<^verbatim>\<open>store.go\<close>, \<^verbatim>\<open>events.go\<close>).

  The two call each other: a committed append emits an event, an event is itself an append into
  \<^verbatim>\<open>_events\<close>, and the recursion guard \<^verbatim>\<open>eventsEnabled\<close> stops there. The termination proof below is the
  proof that the guard suffices.

  Everything a call reads from outside the store (the clock, the uuid mint) is the argument
  \<open>inp :: nat \<Rightarrow> int \<times> UUID\<close>, a sequence of readings; \<open>i\<close> is the position of the next one. A call uses two
  positions (scope creation, item) and passes the rest on.
\<close>

section \<open>Operations\<close>

type_synonym inputs = "nat \<Rightarrow> int \<times> UUID"

definition eventsEnabled :: "store \<Rightarrow> string \<Rightarrow> bool" where
  "eventsEnabled s scope \<longleftrightarrow> eventsMode s \<noteq> EventsModeOff \<and> scope \<noteq> EventsScopeName"

definition dropEvent :: "store \<Rightarrow> store" where
  "dropEvent s = s\<lparr>eventsDropsTotal := i64 (eventsDropsTotal s + 1)\<rparr>"

definition eventItem :: "string \<Rightarrow> item" where
  "eventItem body = zeroItem\<lparr>Scope := EventsScopeName, Payload := body\<rparr>"

text \<open>
  What \<^verbatim>\<open>appendOneTrusted\<close>, \<^verbatim>\<open>upsertOne\<close> and \<^verbatim>\<open>counterAddOne\<close> have in common: find or create the scope,
  run the buffer method, take a freshly created scope back if the method failed. The flag returned is
  \<^verbatim>\<open>scopeCreated\<close>.
\<close>

definition withScope ::
    "int \<Rightarrow> string \<Rightarrow> (storeAcct \<Rightarrow> scopeBuffer \<Rightarrow> (goError + 'r) \<times> storeAcct \<times> scopeBuffer) \<Rightarrow> store \<Rightarrow>
     (goError + 'r \<times> bool) \<times> store" where
  "withScope now scope m s =
     (case getOrCreateScopeTrackingCreated now scope s of
        (Inl e, s1) \<Rightarrow> (Inl e, s1)
      | (Inr (p, created), s1) \<Rightarrow>
          (case onBuf p m s1 of
             (Inl e, s2) \<Rightarrow> (Inl e, if created then cleanupIfEmptyAndUnused scope p s2 else s2)
           | (Inr result, s2) \<Rightarrow> (Inr (result, created), s2)))"

definition commitAppend :: "jsonLib \<Rightarrow> inputs \<Rightarrow> nat \<Rightarrow> item \<Rightarrow> store \<Rightarrow> (goError + item) \<times> store" where
  "commitAppend J inp i item s =
     (case withScope (fst (inp i)) (Scope item)
             (appendItem J (fst (inp (i + 1))) (snd (inp (i + 1))) item) s of
        (Inl e, s1) \<Rightarrow> (Inl e, s1)
      | (Inr (result, _), s1) \<Rightarrow> (Inr result, s1))"

lemma appendItem_scope: "appendItem J now u it a b = (Inr st, a', b') \<Longrightarrow> Scope st = Scope it"
  by (erule append_cases)
    (auto simp: insertNewItemLocked_def installItemLocked_def Let_def split: if_splits prod.splits)

lemma commitAppend_scope: "commitAppend J inp i it s = (Inr st, s') \<Longrightarrow> Scope st = Scope it"
  by (auto simp: commitAppend_def withScope_def onBuf_def split: prod.splits sum.splits if_splits
      dest!: appendItem_scope)

function (sequential) appendOneTrusted ::
      "jsonLib \<Rightarrow> inputs \<Rightarrow> nat \<Rightarrow> item \<Rightarrow> store \<Rightarrow> (goError + item) \<times> store"
    and emitEvent :: "jsonLib \<Rightarrow> inputs \<Rightarrow> nat \<Rightarrow> writeEvent \<Rightarrow> store \<Rightarrow> store"
    and emitAppendEvent ::
      "jsonLib \<Rightarrow> inputs \<Rightarrow> nat \<Rightarrow> string \<Rightarrow> string \<Rightarrow> nat \<Rightarrow> int \<Rightarrow> string \<Rightarrow> string \<Rightarrow> store \<Rightarrow> store" where
  "appendOneTrusted J inp i item s =
     (case commitAppend J inp i item s of
        (Inl e, s1) \<Rightarrow> (Inl e, s1)
      | (Inr result, s1) \<Rightarrow>
          (let s2 = emitAppendEvent J inp (i + 2) (Scope result) (ID result) (Seq result) (Ts result)
                      (wireUUID (UUID result)) (Payload result) s1;
               s3 = (if isReservedScope (Scope result) then notifySubscriber (Scope result) s2 else s2)
           in (Inr result, s3)))"
| "emitEvent J inp i evt0 s =
     (let evt = (if eventsMode s = EventsModeNotify then evt0\<lparr>evPayload := []\<rparr> else evt0)
      in case marshalEvent J evt of
           None \<Rightarrow> dropEvent s
         | Some body \<Rightarrow>
             (case appendOneTrusted J inp i (eventItem body) s of
                (Inl _, s1) \<Rightarrow> dropEvent s1
              | (Inr _, s1) \<Rightarrow> s1))"
| "emitAppendEvent J inp i scope k seq ts uuid payload s =
     (if \<not> eventsEnabled s scope then s
      else emitEvent J inp i
             (zeroEvent\<lparr>evOp := ''append'', evScope := scope, evID := k, evSeq := seq, evTs := ts,
                evUUID := uuid, evPayload := payload\<rparr>) s)"
  by pat_completeness auto

termination
proof (relation "measure (\<lambda>x. case x of
      Inl (J, inp, i, item, s) \<Rightarrow> if Scope item = EventsScopeName then 1 else 4
    | Inr (Inl (J, inp, i, evt, s)) \<Rightarrow> 2
    | Inr (Inr (J, inp, i, scope, r)) \<Rightarrow> if scope = EventsScopeName then 0 else 3)")
qed (auto simp: eventsEnabled_def eventItem_def dest: commitAppend_scope [OF sym] commitAppend_scope)

declare appendOneTrusted.simps [simp del] emitEvent.simps [simp del] emitAppendEvent.simps [simp del]

text \<open>The other emit helpers.\<close>

definition emitUpsertEvent ::
    "jsonLib \<Rightarrow> inputs \<Rightarrow> nat \<Rightarrow> string \<Rightarrow> string \<Rightarrow> nat \<Rightarrow> int \<Rightarrow> string \<Rightarrow> string \<Rightarrow> store \<Rightarrow> store" where
  "emitUpsertEvent J inp i scope k seq ts uuid payload s =
     (if \<not> eventsEnabled s scope then s
      else emitEvent J inp i
             (zeroEvent\<lparr>evOp := ''upsert'', evScope := scope, evID := k, evSeq := seq, evTs := ts,
                evUUID := uuid, evPayload := payload\<rparr>) s)"

definition emitUpdateEvent ::
    "jsonLib \<Rightarrow> inputs \<Rightarrow> nat \<Rightarrow> string \<Rightarrow> string \<Rightarrow> nat \<Rightarrow> string \<Rightarrow> string \<Rightarrow> store \<Rightarrow> store" where
  "emitUpdateEvent J inp i scope k seq uuid payload s =
     (if \<not> eventsEnabled s scope then s
      else emitEvent J inp i
             (zeroEvent\<lparr>evOp := ''update'', evScope := scope, evID := k, evSeq := seq,
                evUUID := uuid, evPayload := payload\<rparr>) s)"

definition emitCounterAddEvent :: "jsonLib \<Rightarrow> inputs \<Rightarrow> nat \<Rightarrow> string \<Rightarrow> string \<Rightarrow> int \<Rightarrow> store \<Rightarrow> store" where
  "emitCounterAddEvent J inp i scope k inc s =
     (if \<not> eventsEnabled s scope then s
      else emitEvent J inp i
             (zeroEvent\<lparr>evOp := ''counter_add'', evScope := scope, evID := k, evBy := Some inc\<rparr>) s)"

definition emitDeleteEvent :: "jsonLib \<Rightarrow> inputs \<Rightarrow> nat \<Rightarrow> string \<Rightarrow> string \<Rightarrow> nat \<Rightarrow> string \<Rightarrow> store \<Rightarrow> store" where
  "emitDeleteEvent J inp i scope k seq uuid s =
     (if \<not> eventsEnabled s scope then s
      else emitEvent J inp i
             (zeroEvent\<lparr>evOp := ''delete'', evScope := scope, evID := k, evSeq := seq, evUUID := uuid\<rparr>) s)"

definition emitDeleteUpToEvent :: "jsonLib \<Rightarrow> inputs \<Rightarrow> nat \<Rightarrow> string \<Rightarrow> nat \<Rightarrow> string \<Rightarrow> store \<Rightarrow> store" where
  "emitDeleteUpToEvent J inp i scope maxSeq uuid s =
     (if \<not> eventsEnabled s scope then s
      else emitEvent J inp i
             (zeroEvent\<lparr>evOp := ''delete_up_to'', evScope := scope, evUUID := uuid, evMaxSeq := maxSeq\<rparr>) s)"

definition emitWarmEvent :: "jsonLib \<Rightarrow> inputs \<Rightarrow> nat \<Rightarrow> store \<Rightarrow> store" where
  "emitWarmEvent J inp i s =
     (if eventsMode s = EventsModeOff then s
      else emitEvent J inp (i + 1) (zeroEvent\<lparr>evOp := ''warm'', evTs := fst (inp i)\<rparr>) s)"

definition emitDeleteScopeEvent :: "jsonLib \<Rightarrow> inputs \<Rightarrow> nat \<Rightarrow> string \<Rightarrow> store \<Rightarrow> store" where
  "emitDeleteScopeEvent J inp i scope s =
     (if \<not> eventsEnabled s scope then s
      else emitEvent J inp (i + 1)
             (zeroEvent\<lparr>evOp := ''delete_scope'', evScope := scope, evTs := fst (inp i)\<rparr>) s)"

section \<open>The store invariant across a write\<close>

definition store_inv :: "store \<Rightarrow> bool" where
  "store_inv s \<longleftrightarrow> store_ok s \<and> reserved_ok s \<and> subs_ok s"

text \<open>Same data, up to unreachable detached buffers.\<close>

definition unchanged :: "store \<Rightarrow> store \<Rightarrow> bool" where
  "unchanged s s' \<longleftrightarrow> s' = s \<or> (\<exists>b. detached b \<and> \<not> attached b \<and> s' = s\<lparr>bufs := bufs s @ [b]\<rparr>)"

lemma unchanged_facts:
  assumes "unchanged s s'" "store_ok s"
  shows "store_ok s'" "view s' = view s" "getScope s' = getScope s" "acct s' = acct s" "scopeCount s' = scopeCount s"
    "conf_same s s'" "seqs_below N s \<Longrightarrow> seqs_below N s'" "eventsDropsTotal s' = eventsDropsTotal s"
    "subs s' = subs s" "subscribers s' = subscribers s" "eventsMode s' = eventsMode s"
    "shards s' = shards s"
  using assms garbage_ok [of s] by (auto simp: unchanged_def conf_same_def caps_same_def)

lemma unchanged_store_inv: "unchanged s s' \<Longrightarrow> store_inv s \<Longrightarrow> store_inv s'"
  using unchanged_facts [of s s'] by (simp add: store_inv_def reserved_ok_def subs_ok_def)

lemma onBuf_frame:
  assumes "onBuf p m s = (r, s')"
  shows "shards s' = shards s" "subs s' = subs s" "subscribers s' = subscribers s" "scopeCount s' = scopeCount s"
    "eventsDropsTotal s' = eventsDropsTotal s" "eventsMode s' = eventsMode s"
  using assms by (auto simp: onBuf_def split: prod.splits)

text \<open>A method that reports an error has changed nothing.\<close>

definition err_clean :: "(storeAcct \<Rightarrow> scopeBuffer \<Rightarrow> (goError + 'r) \<times> storeAcct \<times> scopeBuffer) \<Rightarrow> bool" where
  "err_clean m \<longleftrightarrow> (\<forall>a b e a' b'. buf_ok b \<longrightarrow> m a b = (Inl e, a', b') \<longrightarrow> a' = a \<and> b' = b)"

lemma err_cleanD: "err_clean m \<Longrightarrow> buf_ok b \<Longrightarrow> m a b = (Inl e, a', b') \<Longrightarrow> a' = a \<and> b' = b"
  by (simp add: err_clean_def)

lemma withScope_cases:
  assumes store_inv: "store_inv s" and seq: "seqs_below N s" "0 < N" "N < 2 ^ 64"
    and op: "buffer_op m n us"
    and err: "err_clean m"
    and r: "withScope now n m s = (r, s')"
  obtains (failed) e where "r = Inl e" "unchanged s s'"
  | (okay) x a0 b0 b' where "r = Inr (x, view s n = None)" "m a0 b0 = (Inr x, acct s', b')"
      "store_inv s'" "seqs_below (Suc N) s'" "conf_same s s'"
      "view s' = (view s)(n := Some (bufItems b'))" "scope_ok s n b0" "lastSeq b0 < N" "n \<noteq> []"
      "bufItems b0 = (case view s n of None \<Rightarrow> [] | Some xs \<Rightarrow> xs)" "lastWriteTS a0 = lastWriteTS (acct s)"
      "eventsDropsTotal s' = eventsDropsTotal s" "subs s' = subs s" "subscribers s' = subscribers s"
proof -
  have ok: "store_ok s" "reserved_ok s" "subs_ok s" using store_inv by (simp_all add: store_inv_def)
  have sh: "shards_ok s" using ok by (simp add: store_ok_def)
  obtain g s1 where g: "getOrCreateScopeTrackingCreated now n s = (g, s1)" by fastforce
  from g show thesis
  proof (cases rule: getOrCreate_cases)
    case (err e)
    then show ?thesis using r g failed by (auto simp: withScope_def unchanged_def)
  next
    case (found p)
    have np: "(n, p) \<in> set (scopes s)" using found(3) getScope_iff [OF sh] by simp
    have sk: "scope_ok s n (bufs s ! p)" by (rule store_scope_ok [OF ok(1) np])
    have sq: "lastSeq (bufs s ! p) < N" using seq(1) np by (auto simp: seqs_below_def)
    obtain x s2 where x: "onBuf p m s = (x, s2)" by fastforce
    show ?thesis
    proof (cases x)
      case (Inl e)
      have "p < length (bufs s)" using sh np by (auto simp: shards_ok_def)
      then have "s2 = s" using x err_cleanD [OF err, of "bufs s ! p" "acct s" e] sk Inl
        by (auto simp: onBuf_def scope_ok_def split: prod.splits)
      then show ?thesis using r g found Inl x failed by (auto simp: withScope_def unchanged_def)
    next
      case (Inr y)
      have lt: "lastSeq (bufs s ! p) < 2 ^ 64 - 1" using sq seq(3) by linarith
      note k = onBuf_ok [OF ok(1) np op lt x]
      obtain b' where b': "m (acct s) (bufs s ! p) = (Inr y, acct s2, b')" "bufs s2 ! p = b'"
        using x Inr sh np by (auto simp: onBuf_def shards_ok_def split: prod.splits)
      have v: "view s n = Some (bufItems (bufs s ! p))" using found(3) by (simp add: view_def)
      have e: "s' = s2" "r = Inr (y, False)" using r g found Inr x by (simp_all add: withScope_def)
      have i2: "store_inv s2" using k(1,4) ok(2,3) onBuf_frame [OF x] by (simp add: store_inv_def reserved_ok_def subs_ok_def)
      show ?thesis
        by (rule okay [of y "acct s" "bufs s ! p" b'])
          (use e v b' k i2 sk sq seq found onBuf_frame [OF x] in \<open>simp_all add: scope_ok_def\<close>)
    qed
  next
    case (created a1 k mx)
    let ?p = "length (bufs s)" and ?b = "store_newscopeBuffer now s"
    note c = created_ok [OF ok(1,2) created(2-5)]
    have rb: "totalBytes (acct s) + scopeBufferOverhead \<le> maxStoreBytes (acct s)"
      using c(1) c(7) created(5) by (simp add: store_ok_def caps_ok_def addScopeCount_def linkScope_def)
    have np: "(n, ?p) \<in> set (scopes s1)" using c(5) by (metis union_single_eq_member set_mset_mset)
    have b1: "bufs s1 ! ?p = ?b" using c(6) by simp
    have nb: "items ?b = []" "lastSeq ?b = 0" by (simp_all add: store_newscopeBuffer_def newscopeBuffer_def)
    obtain x s2 where x: "onBuf ?p m s1 = (x, s2)" by fastforce
    have sk: "scope_ok s n ?b" by (rule fresh_scope_ok [OF not_reserved_if_absent [OF ok(2) created(2)]])
    have frame1: "subs s1 = subs s" "subscribers s1 = subscribers s" "eventsDropsTotal s1 = eventsDropsTotal s"
      by (simp_all add: created(5) addScopeCount_def linkScope_def)
    show ?thesis
    proof (cases x)
      case (Inl e)
      have "s2 = s1" using x err_cleanD [OF err, of ?b "acct s1" e] sk Inl b1 c(6)
        by (auto simp: onBuf_def scope_ok_def split: prod.splits)
      then have "s' = s\<lparr>bufs := bufs s @ [?b\<lparr>detached := True, attached := False\<rparr>]\<rparr>" "r = Inl e"
        using r g created(1) Inl x cleanup_undoes_create [OF ok(1) created(2) c(7) created(5) nb(1) rb]
        by (simp_all add: withScope_def)
      moreover have "unchanged s (s\<lparr>bufs := bufs s @ [?b\<lparr>detached := True, attached := False\<rparr>]\<rparr>)"
        unfolding unchanged_def by (rule disjI2, rule exI [of _ "?b\<lparr>detached := True, attached := False\<rparr>"]) simp
      ultimately show ?thesis using failed by simp
    next
      case (Inr y)
      have lt: "lastSeq (bufs s1 ! ?p) < 2 ^ 64 - 1" using b1 nb by simp
      note kk = onBuf_ok [OF c(1) np op lt x]
      obtain b' where b': "m (acct s1) ?b = (Inr y, acct s2, b')" "bufs s2 ! ?p = b'"
        using x Inr b1 c(6) by (auto simp: onBuf_def split: prod.splits)
      have v: "view s n = None" using created(2) by (simp add: view_def)
      have e: "s' = s2" "r = Inr (y, True)" using r g created(1) Inr x by (simp_all add: withScope_def)
      have r1: "reserved_ok s1" using ok(2) c(4) by (auto simp: reserved_ok_def)
      have i2: "store_inv s2" using kk(1,4) r1 ok(3) onBuf_frame [OF x] frame1
        by (simp add: store_inv_def reserved_ok_def subs_ok_def)
      have "seqs_below N s1" using seq(1,2) nb arg_cong [OF c(5), of set_mset] sh
        by (fastforce simp: seqs_below_def c(6) nth_append shards_ok_def)
      then have "seqs_below (Suc N) s2" by (rule kk(6))
      moreover have "acct s1 = a1" by (simp add: created(5) addScopeCount_def linkScope_def)
      ultimately show ?thesis
        by (intro okay [of y "acct s1" ?b b'])
          (use e v b' kk i2 sk seq nb c created onBuf_frame [OF x] frame1 conf_same_trans in
            \<open>simp_all add: scope_ok_def bufItems_def\<close>)
    qed
  qed
qed

text \<open>The exact conditions under which an append is refused.\<close>

lemma append_Inl_iff:
  assumes "buf_ok b" "acct_ok a" "appendItem J now u it a b = (r, a', b')"
  shows "isl r \<longleftrightarrow> detached b \<or> itemCapExceeded b (int (length (items b)) + 1) \<or>
     (ID it \<noteq> [] \<and> (\<exists>x \<in> set (bufItems b). ID x = ID it)) \<or>
     (attached b \<and> (approxItemSize (preparedItem J it now u True) > bufMaxItemBytes b \<or>
        totalBytes a + approxItemSize (preparedItem J it now u True) > maxStoreBytes a))"
proof -
  have d: "ID it \<noteq> [] \<and> map_of (byID b) (ID it) \<noteq> None \<longleftrightarrow> ID it \<noteq> [] \<and> (\<exists>x \<in> set (bufItems b). ID x = ID it)"
    using byID_None_iff [OF assms(1), of "ID it"] by (cases "ID it = []") (simp_all del: not_None_eq)
  have p: "0 < approxItemSize (preparedItem J it now u True)" using approxItemSize_pos [of "preparedItem J it now u True"] by linarith
  show ?thesis using assms(3) unfolding appendItem_def d insertNewItemLocked_def Let_def
    by (cases "attached b") (auto simp: reserveBytes_positive [OF assms(2) p] split: if_splits prod.splits)
qed

lemma appendItem_err: "err_clean (appendItem J now u it)"
  by (auto simp: err_clean_def elim: append_cases)

text \<open>
  A committed append: the item goes to the end of its scope, which is created empty if it does not
  exist; a refused one leaves everything as it was.
\<close>

lemma commitAppend_cases:
  assumes store_inv: "store_inv s" and seq: "seqs_below N s" "0 < N" "N < 2 ^ 64"
    and r: "commitAppend J inp i it s = (r, s')"
  obtains (failed) e where "r = Inl e" "unchanged s s'"
  | (okay) st where "r = Inr st" "store_inv s'" "seqs_below (Suc N) s'" "conf_same s s'"
      "view s' = (view s)(Scope it := Some ((case view s (Scope it) of None \<Rightarrow> [] | Some xs \<Rightarrow> xs) @ [st]))"
      "Scope st = Scope it" "ID st = ID it" "Payload st = Payload it" "Ts st = fst (inp (i + 1))"
      "UUID st = (if IsZero (UUID it) then snd (inp (i + 1)) else UUID it)"
      "approxItemSize st \<le> maxItemBytesFor (acct s) (Scope it)"
      "eventsDropsTotal s' = eventsDropsTotal s" "subs s' = subs s" "subscribers s' = subscribers s"
proof -
  let ?m = "appendItem J (fst (inp (i + 1))) (snd (inp (i + 1))) it"
  obtain w s1 where w: "withScope (fst (inp i)) (Scope it) ?m s = (w, s1)" by fastforce
  have op: "buffer_op ?m (Scope it) {snd (inp (i + 1)), UUID it}" by (rule append.buffer_op_axioms)
  from store_inv seq op appendItem_err w show thesis
  proof (cases rule: withScope_cases)
    case (failed e)
    then show ?thesis using r w that(1) by (auto simp: commitAppend_def)
  next
    case (okay st a0 b0 b')
    have b0: "buf_ok b0" "lastSeq b0 < 2 ^ 64 - 1" "attached b0" "bufMaxItemBytes b0 = maxItemBytesFor (acct s) (Scope it)"
      using okay(7,8) seq(3) by (auto simp: scope_ok_def)
    note v = append_view [OF b0(1,2) okay(2)]
    have sz: "approxItemSize st \<le> bufMaxItemBytes b0"
      using okay(2) b0(3)
    proof (cases rule: append_cases)
      case (ok st')
      from ok(5) obtain b1 where "approxItemSize (preparedItem J it (fst (inp (i + 1))) (snd (inp (i + 1))) True) \<le> bufMaxItemBytes b0"
        using b0(3) by (auto elim: insertNew_Inr)
      then show ?thesis unfolding v(2) using b0(3) by (simp add: approxItemSize_def renderLen_def Let_def)
    qed simp
    have e: "r = Inr st" "s' = s1" using r w okay(1) by (simp_all add: commitAppend_def)
    show ?thesis
      by (rule that(2) [of st]) (use e okay v b0 sz in \<open>simp_all\<close>)
  qed
qed

section \<open>Emitting\<close>

definition stripped :: "store \<Rightarrow> writeEvent \<Rightarrow> writeEvent" where
  "stripped s evt = (if eventsMode s = EventsModeNotify then evt\<lparr>evPayload := []\<rparr> else evt)"

text \<open>Whether an event with this body has room in \<^verbatim>\<open>_events\<close>: under the per-item cap of that scope and under the cap of the store.\<close>

definition eventSize :: "jsonLib \<Rightarrow> string \<Rightarrow> int" where
  "eventSize J body =
     48 + int (length EventsScopeName) + int uuidStringLen + int (length body) + sliceLen (precomputeRenderBytes J body)"

definition eventFits :: "jsonLib \<Rightarrow> string \<Rightarrow> store \<Rightarrow> bool" where
  "eventFits J body s \<longleftrightarrow> eventSize J body \<le> maxItemBytesFor (acct s) EventsScopeName \<and>
     totalBytes (acct s) + eventSize J body \<le> maxStoreBytes (acct s)"

text \<open>
  What an emission does: exactly one entry, carrying the marshalled event, is appended to
  \<^verbatim>\<open>_events\<close> and its subscriber, if any, has a wake-up pending, or, if the event cannot be encoded or has no
  room, the drop counter goes up by one and nothing else happens. No other scope changes.
\<close>

definition emitted :: "jsonLib \<Rightarrow> writeEvent \<Rightarrow> store \<Rightarrow> store \<Rightarrow> bool" where
  "emitted J evt s s' \<longleftrightarrow> store_inv s' \<and> conf_same s s' \<and> subscribers s' = subscribers s \<and>
     (\<forall>n. n \<noteq> EventsScopeName \<longrightarrow> view s' n = view s n) \<and>
     ((\<exists>st. view s' EventsScopeName = Some (the (view s EventsScopeName) @ [st]) \<and> Scope st = EventsScopeName \<and>
         marshalEvent J (stripped s evt) = Some (Payload st) \<and> eventsDropsTotal s' = eventsDropsTotal s \<and>
         (\<forall>q. map_of (subscribers s) EventsScopeName = Some q \<longrightarrow> slotFull (subs s' ! q))) \<or>
      view s' EventsScopeName = view s EventsScopeName \<and> eventsDropsTotal s' = i64 (eventsDropsTotal s + 1) \<and>
      acct s' = acct s \<and> (\<forall>body. marshalEvent J (stripped s evt) = Some body \<longrightarrow> \<not> eventFits J body s'))"

lemma eventItem_size: "approxItemSize (preparedItem J (eventItem body) now u True) \<le> eventSize J body"
  by (simp add: approxItemSize_def Let_def eventSize_def sliceLen_def renderLen_def preparedItem_def renderOr_def eventItem_def
      zeroItem_def split: option.split)

text \<open>An event is refused only for want of room: its scope has no item cap, is never detached, and an event has no id.\<close>

lemma event_refused:
  assumes inv: "store_inv s" and c: "commitAppend J inp i (eventItem body) s = (Inl e, s1)"
  shows "\<not> eventFits J body s"
proof -
  have ok: "store_ok s" and sh: "shards_ok s" using inv by (simp_all add: store_inv_def store_ok_def)
  obtain p where p: "getScope s EventsScopeName = Some p" using inv by (auto simp: store_inv_def reserved_ok_def reservedScopeNames_def)
  have np: "(EventsScopeName, p) \<in> set (scopes s)" using p getScope_iff [OF sh] by simp
  have b: "buf_ok (bufs s ! p)" "\<not> detached (bufs s ! p)" "maxItems (bufs s ! p) = 0"
    "bufMaxItemBytes (bufs s ! p) = maxItemBytesFor (acct s) EventsScopeName"
    using store_scope_ok [OF ok np] by (simp_all add: scope_ok_def maxItemsFor_def unboundedScopeMaxItems_def)
  let ?m = "appendItem J (fst (inp (i + 1))) (snd (inp (i + 1))) (eventItem body)"
  have g: "getOrCreateScopeTrackingCreated now EventsScopeName s = (Inr (p, False), s)" for now
    using p by (simp add: getOrCreateScopeTrackingCreated_def EventsScopeName_def)
  obtain r a' b' where m: "?m (acct s) (bufs s ! p) = (r, a', b')" using prod_cases3 by blast
  have "isl r"
    using c g m by (cases r) (auto simp: commitAppend_def withScope_def onBuf_def eventItem_def split: prod.splits)
  with append_Inl_iff [OF b(1) store_acct_ok [OF ok] m] b
  have "approxItemSize (preparedItem J (eventItem body) (fst (inp (i + 1))) (snd (inp (i + 1))) True)
        > maxItemBytesFor (acct s) EventsScopeName \<or>
      totalBytes (acct s) + approxItemSize (preparedItem J (eventItem body) (fst (inp (i + 1))) (snd (inp (i + 1))) True)
        > maxStoreBytes (acct s)"
    by (auto simp: itemCapExceeded_def eventItem_def zeroItem_def)
  then show ?thesis using eventItem_size [of J body "fst (inp (i + 1))" "snd (inp (i + 1))"] by (auto simp: eventFits_def)
qed

lemma appendOneTrusted_events:
  "appendOneTrusted J inp i (eventItem body) s =
     (case commitAppend J inp i (eventItem body) s of
        (Inl e, s1) \<Rightarrow> (Inl e, s1)
      | (Inr st, s1) \<Rightarrow> (Inr st, notifySubscriber EventsScopeName s1))"
proof (cases "commitAppend J inp i (eventItem body) s")
  case (Pair r s1)
  show ?thesis
  proof (cases r)
    case (Inr st)
    then have "Scope st = EventsScopeName"
      using commitAppend_scope [of J inp i "eventItem body" s st s1] Pair by (simp add: eventItem_def)
    then show ?thesis using Pair Inr
      by (simp add: appendOneTrusted.simps emitAppendEvent.simps eventsEnabled_def Let_def)
  qed (use Pair in \<open>simp add: appendOneTrusted.simps\<close>)
qed

lemma dropEvent_data_eq: "data_eq s (dropEvent s)"
  by (simp add: data_eq_def dropEvent_def)

lemma data_eq_store_inv: "data_eq s s' \<Longrightarrow> subs_ok s' \<Longrightarrow> store_inv s \<Longrightarrow> store_inv s'"
  using data_eq_facts [of s s'] by (simp add: store_inv_def)

lemma inv_events_view: "store_inv s \<Longrightarrow> \<exists>xs. view s EventsScopeName = Some xs"
  by (auto simp: store_inv_def reserved_ok_def reservedScopeNames_def view_def)

lemma emitEvent_ok:
  assumes store_inv: "store_inv s" and seq: "seqs_below N s" "0 < N" "N < 2 ^ 64"
  shows "emitted J evt s (emitEvent J inp i evt s)" and "seqs_below (Suc N) (emitEvent J inp i evt s)"
proof -
  let ?s' = "emitEvent J inp i evt s"
  have suc: "seqs_below N t \<Longrightarrow> seqs_below (Suc N) t" for t by (auto simp: seqs_below_def less_Suc_eq)
  have drop: "emitted J evt s (dropEvent t) \<and> seqs_below (Suc N) (dropEvent t)" 
    if u: "unchanged s t" and full: "\<And>body. marshalEvent J (stripped s evt) = Some body \<Longrightarrow> \<not> eventFits J body s" for t
  proof -
    have so: "store_ok s" using store_inv by (simp add: store_inv_def)
    note uf = unchanged_facts [OF u so]
    have it: "store_inv t" by (rule unchanged_store_inv [OF u store_inv])
    have id: "store_inv (dropEvent t)"
      by (rule data_eq_store_inv [OF dropEvent_data_eq _ it]) (use it in \<open>simp add: store_inv_def subs_ok_def dropEvent_def\<close>)
    have "\<not> eventFits J body (dropEvent t)" if "marshalEvent J (stripped s evt) = Some body" for body
      using full [OF that] uf(4) by (simp add: eventFits_def dropEvent_def)
    then show ?thesis
      using id uf suc seq(1) data_eq_facts [OF dropEvent_data_eq [of t]] conf_same_trans
      by (auto simp: emitted_def) (simp_all add: dropEvent_def)
  qed
  have "emitted J evt s ?s' \<and> seqs_below (Suc N) ?s'"
  proof (cases "marshalEvent J (stripped s evt)")
    case None
    then have "?s' = dropEvent s" by (simp add: emitEvent.simps stripped_def Let_def)
    then show ?thesis using drop [of s] None by (simp add: unchanged_def)
  next
    case (Some body)
    obtain r s1 where c: "commitAppend J inp i (eventItem body) s = (r, s1)" by fastforce
    from store_inv seq c show ?thesis
    proof (cases rule: commitAppend_cases)
      case (failed e)
      then have "?s' = dropEvent s1"
        using Some c by (simp add: emitEvent.simps stripped_def Let_def appendOneTrusted_events)
      moreover have "\<not> eventFits J body s" using event_refused [OF store_inv] c failed(1) by simp
      ultimately show ?thesis using drop failed(2) Some by simp
    next
      case (okay st)
      have e: "?s' = notifySubscriber EventsScopeName s1"
        using Some c okay(1) by (simp add: emitEvent.simps stripped_def Let_def appendOneTrusted_events)
      note d = data_eq_facts [OF notify_data_eq [of s1 EventsScopeName]]
      have i2: "store_inv (notifySubscriber EventsScopeName s1)"
        by (rule data_eq_store_inv [OF notify_data_eq _ okay(2)]) (use okay(2) in \<open>simp add: store_inv_def notifySubscriber_ok\<close>)
      obtain xs where xs: "view s EventsScopeName = Some xs" using inv_events_view [OF store_inv] by blast
      have sc: "Scope (eventItem body) = EventsScopeName" "Payload (eventItem body) = body"
        by (simp_all add: eventItem_def)
      have "subs_ok s1" using okay(2) by (simp add: store_inv_def)
      then have "slotFull (subs (notifySubscriber EventsScopeName s1) ! q)" if "map_of (subscribers s) EventsScopeName = Some q" for q
        using notifySubscriber_pending(1) that okay(14) by simp
      then show ?thesis unfolding e
        using okay i2 d xs sc Some conf_same_trans by (auto simp: emitted_def)
    qed
  qed
  then show "emitted J evt s ?s'" "seqs_below (Suc N) ?s'" by blast+
qed

text \<open>An emission touches no buffer but the one of \<^verbatim>\<open>_events\<close>.\<close>

lemma commitAppend_events_frame:
  assumes p: "getScope s EventsScopeName = Some p" and c: "commitAppend J inp i (eventItem body) s = (r, s1)"
  shows "getScope s1 = getScope s" and "q \<noteq> p \<Longrightarrow> bufs s1 ! q = bufs s ! q"
proof -
  have g: "getOrCreateScopeTrackingCreated now EventsScopeName s = (Inr (p, False), s)" for now
    using p by (simp add: getOrCreateScopeTrackingCreated_def EventsScopeName_def)
  have f: "getScope t = getScope s \<and> (q \<noteq> p \<longrightarrow> bufs t ! q = bufs s ! q)" if "onBuf p m s = (x, t)" for m x t
    using that by (auto simp: onBuf_def fun_eq_iff getScope_def shardFor_def shardIdxFor_def split: prod.splits)
  have "getScope s1 = getScope s \<and> (q \<noteq> p \<longrightarrow> bufs s1 ! q = bufs s ! q)"
    using c f by (fastforce simp: commitAppend_def withScope_def g eventItem_def split: prod.splits sum.splits)
  then show "getScope s1 = getScope s" "q \<noteq> p \<Longrightarrow> bufs s1 ! q = bufs s ! q" by blast+
qed

lemma emitEvent_keeps:
  assumes inv: "store_inv s" and n: "getScope s n = Some q" "n \<noteq> EventsScopeName"
  shows "getScope (emitEvent J inp i evt s) n = Some q \<and> bufs (emitEvent J inp i evt s) ! q = bufs s ! q"
proof -
  have sh: "shards_ok s" using inv by (simp add: store_inv_def store_ok_def)
  obtain p where p: "getScope s EventsScopeName = Some p" using inv by (auto simp: store_inv_def reserved_ok_def reservedScopeNames_def)
  have ne: "q \<noteq> p" using scopes_inj_snd [OF sh] getScope_iff [OF sh] n p by metis
  have d: "getScope (dropEvent t) = getScope t \<and> bufs (dropEvent t) = bufs t" for t
    by (simp add: dropEvent_def fun_eq_iff getScope_def shardFor_def shardIdxFor_def)
  have nt: "getScope (notifySubscriber m t) = getScope t \<and> bufs (notifySubscriber m t) = bufs t" for m t
    using data_eq_facts(3) [OF notify_data_eq [of t m]] notify_data_eq [of t m] by (simp add: data_eq_def)
  show ?thesis
  proof (cases "marshalEvent J (stripped s evt)")
    case None
    then show ?thesis using n d [of s] by (simp add: emitEvent.simps stripped_def Let_def)
  next
    case (Some body)
    obtain r s1 where c: "commitAppend J inp i (eventItem body) s = (r, s1)" by fastforce
    note f = commitAppend_events_frame [OF p c]
    show ?thesis
      using Some c f(1) f(2) [OF ne] n d [of s1] nt [of EventsScopeName s1]
      by (cases r) (simp_all add: emitEvent.simps stripped_def Let_def appendOneTrusted_events)
  qed
qed

text \<open>A change of state followed, if events are on for this scope, by the emission of \<open>evt\<close>.\<close>

definition logged :: "jsonLib \<Rightarrow> string \<Rightarrow> writeEvent \<Rightarrow> store \<Rightarrow> store \<Rightarrow> bool" where
  "logged J n evt s s' \<longleftrightarrow> (if eventsEnabled s n then emitted J evt s s' else s' = s)"

lemma logged_facts:
  assumes "store_inv s" "logged J n evt s s'"
  shows "store_inv s'" "conf_same s s'" "subscribers s' = subscribers s" "\<And>m. m \<noteq> EventsScopeName \<Longrightarrow> view s' m = view s m"
  using assms by (auto simp: logged_def emitted_def split: if_splits)

lemma emit_if_logged:
  assumes "store_inv s" "seqs_below N s" "0 < N" "N < 2 ^ 64"
    and "s' = (if \<not> eventsEnabled s n then s else emitEvent J inp i evt s)"
  shows "logged J n evt s s'" and "seqs_below (Suc N) s'"
  using emitEvent_ok [OF assms(1-4)] assms(2,5)
  by (auto simp: logged_def seqs_below_def less_Suc_eq)

definition appendEvent :: "item \<Rightarrow> writeEvent" where
  "appendEvent st = zeroEvent\<lparr>evOp := ''append'', evScope := Scope st, evID := ID st, evSeq := Seq st,
     evTs := Ts st, evUUID := wireUUID (UUID st), evPayload := Payload st\<rparr>"

lemma appendOneTrusted_cases:
  assumes store_inv: "store_inv s" and seq: "seqs_below N s" "0 < N" "Suc N < 2 ^ 64"
    and r: "appendOneTrusted J inp i it s = (r, s')"
  obtains (failed) e where "r = Inl e" "unchanged s s'"
  | (okay) st s1 s2 where "r = Inr st" "commitAppend J inp i it s = (Inr st, s1)" "store_inv s1" "conf_same s s1"
      "view s1 = (view s)(Scope it := Some ((case view s (Scope it) of None \<Rightarrow> [] | Some xs \<Rightarrow> xs) @ [st]))"
      "Scope st = Scope it" "ID st = ID it" "Payload st = Payload it"
      "logged J (Scope it) (appendEvent st) s1 s2" "data_eq s2 s'" "store_inv s'" "seqs_below (Suc (Suc N)) s'" "conf_same s s'"
      "s' = (if isReservedScope (Scope it) then notifySubscriber (Scope it) s2 else s2)"
      "subscribers s1 = subscribers s" "eventsDropsTotal s1 = eventsDropsTotal s"
proof -
  obtain c s1 where c: "commitAppend J inp i it s = (c, s1)" by fastforce
  have N: "N < 2 ^ 64" using seq(3) by simp
  from store_inv seq(1,2) N c show thesis
  proof (cases rule: commitAppend_cases)
    case (failed e)
    then show ?thesis using r c that(1) by (auto simp: appendOneTrusted.simps)
  next
    case (okay st)
    define s2 where "s2 = emitAppendEvent J inp (i + 2) (Scope st) (ID st) (Seq st) (Ts st) (wireUUID (UUID st)) (Payload st) s1"
    have e2: "s2 = (if \<not> eventsEnabled s1 (Scope it) then s1 else emitEvent J inp (i + 2) (appendEvent st) s1)"
      using okay(6) by (simp add: s2_def emitAppendEvent.simps appendEvent_def)
    note lg = emit_if_logged [OF okay(2,3) _ seq(3) e2]
    have l2: "logged J (Scope it) (appendEvent st) s1 s2" "seqs_below (Suc (Suc N)) s2" using lg by simp_all
    have i2: "store_inv s2" "conf_same s1 s2" using logged_facts [OF okay(2) l2(1)] by simp_all
    have e: "r = Inr st" "s' = (if isReservedScope (Scope it) then notifySubscriber (Scope it) s2 else s2)"
      using r c okay(1,6) by (auto simp: appendOneTrusted.simps Let_def s2_def)
    have d: "data_eq s2 s'" using e(2) notify_data_eq by (auto simp: data_eq_def)
    have "subs_ok s'" using i2(1) e(2) notifySubscriber_ok by (auto simp: store_inv_def)
    then have i3: "store_inv s'" by (rule data_eq_store_inv [OF d _ i2(1)])
    note df = data_eq_facts [OF d]
    have c3: "conf_same s s'" using okay(4) i2(2) df(6) conf_same_trans by blast
    have sq: "seqs_below (Suc (Suc N)) s'" using df(5) l2(2) by simp
    show ?thesis
      by (rule that(2) [OF e(1) _ okay(2,4,5,6,7,8) l2(1) d i3 sq c3 e(2) okay(14) okay(12)])
        (use c okay(1) in simp)
  qed
qed

end
