(* ===== verification/StoreOps.thy ===== *)
theory StoreOps
  imports Events
begin

text \<open>
  The store's operations (\<^verbatim>\<open>store.go\<close>): the write paths behind \<^verbatim>\<open>/append\<close>, \<^verbatim>\<open>/upsert\<close>,
  \<^verbatim>\<open>/counter_add\<close>, \<^verbatim>\<open>/update\<close>, \<^verbatim>\<open>/delete\<close>, \<^verbatim>\<open>/delete_up_to\<close> and \<^verbatim>\<open>/delete_scope\<close>, the reads, and the
  statistics. Each write validates, changes one scope, and logs one event if it changed anything.
\<close>

section \<open>Writes\<close>

definition appendOne :: "jsonLib \<Rightarrow> inputs \<Rightarrow> nat \<Rightarrow> item \<Rightarrow> store \<Rightarrow> (goError + item) \<times> store" where
  "appendOne J inp i item s =
     (case validateWriteItem J item ''/append'' (maxItemBytesFor (acct s) (Scope item)) of
        Inl e \<Rightarrow> (Inl e, s)
      | Inr it \<Rightarrow> appendOneTrusted J inp i it s)"

definition upsertOne :: "jsonLib \<Rightarrow> inputs \<Rightarrow> nat \<Rightarrow> item \<Rightarrow> store \<Rightarrow> (goError + item \<times> bool) \<times> store" where
  "upsertOne J inp i item s =
     (case validateUpsertItem J item (maxItemBytes (acct s)) of
        Inl e \<Rightarrow> (Inl e, s)
      | Inr it \<Rightarrow>
          (case withScope (fst (inp i)) (Scope it) (upsertByID J (fst (inp (i + 1))) (snd (inp (i + 1))) it) s of
             (Inl e, s1) \<Rightarrow> (Inl e, s1)
           | (Inr ((result, itemCreated), _), s1) \<Rightarrow>
               (Inr (result, itemCreated),
                emitUpsertEvent J inp (i + 2) (Scope result) (ID result) (Seq result) (Ts result)
                  (wireUUID (UUID result)) (Payload result) s1)))"

definition counterAddOne ::
    "jsonLib \<Rightarrow> inputs \<Rightarrow> nat \<Rightarrow> string \<Rightarrow> string \<Rightarrow> int \<Rightarrow> store \<Rightarrow> (goError + int \<times> bool) \<times> store" where
  "counterAddOne J inp i scope k inc s =
     (case validateCounterAddRequest scope k (Some inc) (maxItemBytesFor (acct s) scope) of
        Inl e \<Rightarrow> (Inl e, s)
      | Inr _ \<Rightarrow>
          (case withScope (fst (inp i)) scope (counterAdd J (fst (inp (i + 1))) (snd (inp (i + 1))) scope k inc) s of
             (Inl e, s1) \<Rightarrow> (Inl e, s1)
           | (Inr (result, scopeCreated), s1) \<Rightarrow>
               (let s2 = (if scopeCreated then s1\<lparr>acct := bumpLastWriteTS (fst (inp (i + 2))) (acct s1)\<rparr> else s1)
                in (Inr result, emitCounterAddEvent J inp (i + 3) scope k inc s2))))"

text \<open>
  The buffer method an address selects: id, then uuid, then sequence number.
\<close>

definition updateMethod ::
    "jsonLib \<Rightarrow> int \<Rightarrow> item \<Rightarrow> storeAcct \<Rightarrow> scopeBuffer \<Rightarrow> (goError + nat) \<times> storeAcct \<times> scopeBuffer" where
  "updateMethod J now it =
     (if ID it \<noteq> [] then updateByID J now (ID it) (Payload it) (renderBytes it)
      else if \<not> IsZero (UUID it) then updateByUUID J now (UUID it) (Payload it) (renderBytes it)
      else updateBySeq J now (Seq it) (Payload it) (renderBytes it))"

definition updateOne :: "jsonLib \<Rightarrow> inputs \<Rightarrow> nat \<Rightarrow> item \<Rightarrow> store \<Rightarrow> (goError + nat) \<times> store" where
  "updateOne J inp i item s =
     (case validateUpdateItem J item (maxItemBytes (acct s)) of
        Inl e \<Rightarrow> (Inl e, s)
      | Inr it \<Rightarrow>
          (case getScope s (Scope it) of
             None \<Rightarrow> (Inr 0, s)
           | Some p \<Rightarrow>
               (case onBuf p (updateMethod J (fst (inp i)) it) s of
                  (Inl e, s1) \<Rightarrow> (Inl e, s1)
                | (Inr updated, s1) \<Rightarrow>
                    (Inr updated,
                     if updated > 0
                     then emitUpdateEvent J inp (i + 1) (Scope it) (ID it) (Seq it) (wireUUID (UUID it)) (Payload it) s1
                     else s1))))"

definition parsedUUID :: "string \<Rightarrow> UUID" where
  "parsedUUID uuid = (case parseUUIDv7 uuid of None \<Rightarrow> zeroUUID | Some u \<Rightarrow> u)"

definition deleteMethod ::
    "nat \<Rightarrow> int \<Rightarrow> string \<Rightarrow> nat \<Rightarrow> string \<Rightarrow> storeAcct \<Rightarrow> scopeBuffer \<Rightarrow> (goError + nat) \<times> storeAcct \<times> scopeBuffer" where
  "deleteMethod capq now k seq uuid =
     (if k \<noteq> [] then deleteByID capq now k
      else if uuid \<noteq> [] then deleteByUUID capq now (parsedUUID uuid)
      else deleteBySeq capq now seq)"

definition deleteOne ::
    "jsonLib \<Rightarrow> inputs \<Rightarrow> nat \<Rightarrow> nat \<Rightarrow> string \<Rightarrow> string \<Rightarrow> nat \<Rightarrow> string \<Rightarrow> store \<Rightarrow> (goError + nat) \<times> store" where
  "deleteOne J inp i capq scope k seq uuid s =
     (case validateDeleteRequest scope k seq uuid of
        Some e \<Rightarrow> (Inl e, s)
      | None \<Rightarrow>
          (case getScope s scope of
             None \<Rightarrow> (Inr 0, s)
           | Some p \<Rightarrow>
               (case onBuf p (deleteMethod capq (fst (inp i)) k seq uuid) s of
                  (Inl e, s1) \<Rightarrow> (Inl e, s1)
                | (Inr deleted, s1) \<Rightarrow>
                    (Inr deleted,
                     if deleted > 0 then emitDeleteEvent J inp (i + 1) scope k seq uuid s1 else s1))))"

definition drainMethod ::
    "int \<Rightarrow> nat \<Rightarrow> string \<Rightarrow> storeAcct \<Rightarrow> scopeBuffer \<Rightarrow> (goError + nat) \<times> storeAcct \<times> scopeBuffer" where
  "drainMethod now maxSeq uuid =
     (if uuid \<noteq> [] then deleteUpToUUID now (parsedUUID uuid) else deleteUpToSeq now maxSeq)"

definition deleteUpTo ::
    "jsonLib \<Rightarrow> inputs \<Rightarrow> nat \<Rightarrow> string \<Rightarrow> nat \<Rightarrow> string \<Rightarrow> store \<Rightarrow> (goError + nat) \<times> store" where
  "deleteUpTo J inp i scope maxSeq uuid s =
     (case validateDeleteUpToRequest scope maxSeq uuid of
        Some e \<Rightarrow> (Inl e, s)
      | None \<Rightarrow>
          (case getScope s scope of
             None \<Rightarrow> (Inr 0, s)
           | Some p \<Rightarrow>
               (case onBuf p (drainMethod (fst (inp i)) maxSeq uuid) s of
                  (Inl e, s1) \<Rightarrow> (Inl e, s1)
                | (Inr deleted, s1) \<Rightarrow>
                    (Inr deleted,
                     if deleted > 0 then emitDeleteUpToEvent J inp (i + 1) scope maxSeq uuid s1 else s1))))"

text \<open>The locked phase of \<^verbatim>\<open>deleteScope\<close>.\<close>

definition removeScope :: "int \<Rightarrow> string \<Rightarrow> nat \<Rightarrow> store \<Rightarrow> store" where
  "removeScope now scope p s =
     (let itemCount = int (length (items (bufs s ! p)));
          scopeBytes = bytes (bufs s ! p);
          s1 = unlinkScope scope s;
          a1 = addTotals (- (scopeBytes + scopeBufferOverhead)) (- itemCount) (acct s1);
          s2 = addScopeCount (- 1) (s1\<lparr>acct := a1\<rparr>)
      in detachBuf p (s2\<lparr>acct := bumpLastWriteTS now (acct s2)\<rparr>))"

definition deleteScope ::
    "jsonLib \<Rightarrow> inputs \<Rightarrow> nat \<Rightarrow> string \<Rightarrow> store \<Rightarrow> (goError + nat \<times> bool) \<times> store" where
  "deleteScope J inp i scope s =
     (case validateDeleteScopeRequest scope of
        Some e \<Rightarrow> (Inl e, s)
      | None \<Rightarrow>
          (case getScope s scope of
             None \<Rightarrow> (Inr (0, False), s)
           | Some p \<Rightarrow>
               (Inr (length (items (bufs s ! p)), True),
                emitDeleteScopeEvent J inp (i + 1) scope (removeScope (fst (inp i)) scope p s))))"

section \<open>Reads\<close>

definition readBuf :: "int \<Rightarrow> nat \<Rightarrow> store \<Rightarrow> store" where
  "readBuf now p s = s\<lparr>bufs := (bufs s)[p := recordRead now (bufs s ! p)]\<rparr>"

text \<open>\<^const>\<open>None\<close> is a missing scope, the result \<^verbatim>\<open>(nil, false, false)\<close>.\<close>

definition head :: "int \<Rightarrow> string \<Rightarrow> nat \<Rightarrow> int \<Rightarrow> store \<Rightarrow> (item list \<times> bool) option \<times> store" where
  "head now scope afterSeq limit s =
     (case getScope s scope of
        None \<Rightarrow> (None, s)
      | Some p \<Rightarrow>
          (case sinceSeq afterSeq limit (bufs s ! p) of (its, truncated) \<Rightarrow>
             (Some (its, truncated), if length its > 0 then readBuf now p s else s)))"

definition tail :: "int \<Rightarrow> string \<Rightarrow> int \<Rightarrow> int \<Rightarrow> store \<Rightarrow> (item list \<times> bool) option \<times> store" where
  "tail now scope limit offset s =
     (case getScope s scope of
        None \<Rightarrow> (None, s)
      | Some p \<Rightarrow>
          (case tailOffset limit offset (bufs s ! p) of (its, truncated) \<Rightarrow>
             (Some (its, truncated), if length its > 0 then readBuf now p s else s)))"

definition lookupTarget :: "string \<Rightarrow> nat \<Rightarrow> string \<Rightarrow> scopeBuffer \<Rightarrow> item option" where
  "lookupTarget k seq uuid b =
     (if k \<noteq> [] then getByID k b
      else if uuid \<noteq> [] then (case parseUUIDv7 uuid of None \<Rightarrow> None | Some u \<Rightarrow> getByUUID u b)
      else getBySeq seq b)"

text \<open>The method \<^verbatim>\<open>get\<close>.\<close>

definition store_get :: "int \<Rightarrow> string \<Rightarrow> string \<Rightarrow> nat \<Rightarrow> string \<Rightarrow> store \<Rightarrow> item option \<times> store" where
  "store_get now scope k seq uuid s =
     (case getScope s scope of
        None \<Rightarrow> (None, s)
      | Some p \<Rightarrow>
          (case lookupTarget k seq uuid (bufs s ! p) of
             None \<Rightarrow> (None, s)
           | Some it \<Rightarrow> (Some it, readBuf now p s)))"

definition render :: "int \<Rightarrow> string \<Rightarrow> string \<Rightarrow> nat \<Rightarrow> string \<Rightarrow> store \<Rightarrow> string option \<times> store" where
  "render now scope k seq uuid s =
     (case getScope s scope of
        None \<Rightarrow> (None, s)
      | Some p \<Rightarrow>
          (case lookupTarget k seq uuid (bufs s ! p) of
             None \<Rightarrow> (None, s)
           | Some it \<Rightarrow> (Some (case renderBytes it of Some r \<Rightarrow> r | None \<Rightarrow> Payload it), readBuf now p s)))"

section \<open>Statistics\<close>

record reservedScopeEntry =
  reScope :: string
  reItemCount :: nat
  reLastSeq :: nat
  reApproxScopeMB :: int
  reCreatedTS :: int
  reLastWriteTS :: int

record storeStats =
  stScopes :: int
  stItems :: int
  stApproxStoreMB :: int
  stLastWriteTS :: int
  stEventsDropsTotal :: int
  stReservedScopes :: "reservedScopeEntry list"

definition reservedScopeStats :: "store \<Rightarrow> reservedScopeEntry list" where
  "reservedScopeStats s =
     concat (map (\<lambda>name. case getScope s name of
        None \<Rightarrow> []
      | Some p \<Rightarrow> (let st = stats (bufs s ! p)
                   in [\<lparr>reScope = name, reItemCount = ssItemCount st, reLastSeq = ssLastSeq st,
                        reApproxScopeMB = ssApproxScopeMB st, reCreatedTS = ssCreatedTS st,
                        reLastWriteTS = ssLastWriteTS st\<rparr>])) reservedScopeNames)"

text \<open>The method \<^verbatim>\<open>(s *store) stats()\<close>.\<close>

definition store_stats :: "store \<Rightarrow> storeStats" where
  "store_stats s = \<lparr>stScopes = scopeCount s, stItems = totalItems (acct s), stApproxStoreMB = totalBytes (acct s),
     stLastWriteTS = lastWriteTS (acct s), stEventsDropsTotal = eventsDropsTotal s,
     stReservedScopes = reservedScopeStats s\<rparr>"

definition listScopes :: "store \<Rightarrow> (string \<times> nat) list" where
  "listScopes s = fold (\<lambda>sh out. fold (\<lambda>(k, v) o1. AList.update k v o1) sh out) (shards s) []"

record scopeListEntry =
  slScope :: string
  slStats :: scopeStats

definition scopeList :: "string \<Rightarrow> string \<Rightarrow> int \<Rightarrow> store \<Rightarrow> scopeListEntry list \<times> bool" where
  "scopeList pfx after limit s =
     (if limit \<le> 0 then ([], False)
      else
        (let refs0 = filter (\<lambda>(name, p). \<not> (pfx \<noteq> [] \<and> \<not> is_prefix pfx name) \<and> \<not> (after \<noteq> [] \<and> name \<le> after))
               (concat (shards s));
             refs1 = sort_key fst refs0;
             truncated = int (length refs1) > limit;
             refs = (if truncated then take (nat limit) refs1 else refs1)
         in (map (\<lambda>(name, p). \<lparr>slScope = name, slStats = stats (bufs s ! p)\<rparr>) refs, truncated)))"

section \<open>The methods keep the buffer contract\<close>

lemma updateMethod_op: "buffer_op (updateMethod J now it) n {}"
  using updID.buffer_op_axioms updSeq.buffer_op_axioms updUUID.buffer_op_axioms by (simp add: updateMethod_def)

lemma deleteMethod_op: "buffer_op (deleteMethod capq now k seq uuid) n {}"
  using delID.buffer_op_axioms delSeq.buffer_op_axioms delUUID.buffer_op_axioms by (simp add: deleteMethod_def)

lemma drainMethod_op: "buffer_op (drainMethod now m uuid) n {}"
  using drainSeq.buffer_op_axioms drainUUID.buffer_op_axioms by (simp add: drainMethod_def)

lemma upsertByID_err: "err_clean (upsertByID J now u it)"
  by (auto simp: err_clean_def elim: upsert_cases)

lemma addToCell_err: "addToCell now d p c b = (Inl e, b') \<Longrightarrow> b' = b"
  by (auto simp: addToCell_def split: prod.splits sum.splits)

lemma counterAdd_err: "k \<noteq> [] \<Longrightarrow> err_clean (counterAdd J now u n k d)"
  unfolding err_clean_def
proof (intro allI impI)
  fix a b e a' b'
  assume k: "k \<noteq> []" and ok: "buf_ok b" and r: "counterAdd J now u n k d a b = (Inl e, a', b')"
  from r show "a' = a \<and> b' = b"
  proof (cases rule: counterAdd_cases)
    case (cell p cl)
    then show ?thesis using addToCell_err by blast
  next
    case (promote p)
    from ok byID_live [OF ok promote(2)] promote(4) show ?thesis by (cases rule: promote_cases) auto
  next
    case create
    from create(3) k show ?thesis by (cases rule: create_cases) auto
  qed simp
qed

section \<open>The invariant across each operation\<close>

text \<open>An operation may advance a sequence counter by one in its scope and by one in \<^verbatim>\<open>_events\<close>.\<close>

definition good :: "nat \<Rightarrow> store \<Rightarrow> store \<Rightarrow> bool" where
  "good N s s' \<longleftrightarrow> store_inv s' \<and> seqs_below (N + 2) s' \<and> conf_same s s'"

lemma seqs_below_mono: "seqs_below N s \<Longrightarrow> N \<le> M \<Longrightarrow> seqs_below M s"
  by (auto simp: seqs_below_def dest: order_less_le_trans)

lemma good_refl: "store_inv s \<Longrightarrow> seqs_below N s \<Longrightarrow> good N s s"
  by (auto simp: good_def intro: seqs_below_mono)

lemma good_unchanged: "store_inv s \<Longrightarrow> seqs_below N s \<Longrightarrow> unchanged s s' \<Longrightarrow> good N s s'"
proof -
  assume i: "store_inv s" and q: "seqs_below N s" and u: "unchanged s s'"
  have so: "store_ok s" using i by (simp add: store_inv_def)
  show "good N s s'"
    using unchanged_store_inv [OF u i] unchanged_facts(6) [OF u so] seqs_below_mono [OF unchanged_facts(7) [OF u so q]]
    by (simp add: good_def)
qed

lemma good_logged:
  assumes s1: "store_inv s1" "seqs_below (Suc N) s1" "conf_same s s1" and N: "Suc N < 2 ^ 64"
    and e: "s' = (if \<not> eventsEnabled s1 n then s1 else emitEvent J inp i evt s1)"
  shows "logged J n evt s1 s'" and "good N s s'"
proof -
  note l = emit_if_logged [OF s1(1,2) _ N e]
  show lg: "logged J n evt s1 s'" using l(1) by simp
  have "seqs_below (Suc (Suc N)) s'" using l(2) by simp
  then show "good N s s'"
    using logged_facts(1,2) [OF s1(1) lg] conf_same_trans [OF s1(3)] by (simp add: good_def)
qed

lemma scope_buf_ok:
  assumes "store_inv s" "getScope s n = Some p" shows "buf_ok (bufs s ! p)"
proof -
  have "shards_ok s" using assms(1) by (simp add: store_inv_def store_ok_def)
  then show ?thesis using store_scope_ok getScope_iff assms by (auto simp: store_inv_def scope_ok_def)
qed

lemma existing_ok:
  assumes store_inv: "store_inv s" and seq: "seqs_below N s" "N < 2 ^ 64" and n: "getScope s n = Some p"
    and op: "buffer_op m n us" and r: "onBuf p m s = (r, s1)"
  shows "store_inv s1" and "seqs_below (Suc N) s1" and "conf_same s s1"
    and "\<exists>b'. m (acct s) (bufs s ! p) = (r, acct s1, b') \<and> view s1 = (view s)(n := Some (bufItems b')) \<and> bufs s1 ! p = b'"
    and "scope_ok s n (bufs s ! p)" and "lastSeq (bufs s ! p) < 2 ^ 64 - 1"
proof -
  have ok: "store_ok s" and sh: "shards_ok s" using store_inv by (simp_all add: store_inv_def store_ok_def)
  have np: "(n, p) \<in> set (scopes s)" using n getScope_iff [OF sh] by simp
  show sk: "scope_ok s n (bufs s ! p)" by (rule store_scope_ok [OF ok np])
  show lt: "lastSeq (bufs s ! p) < 2 ^ 64 - 1" using seq np by (fastforce simp: seqs_below_def)
  note k = onBuf_ok [OF ok np op lt r]
  show "store_inv s1" using store_inv k(1,4) onBuf_frame [OF r] by (simp add: store_inv_def reserved_ok_def subs_ok_def)
  show "seqs_below (Suc N) s1" "conf_same s s1" using k(2,6) seq(1) by simp_all
  obtain b' where "m (acct s) (bufs s ! p) = (r, acct s1, b')" "bufs s1 ! p = b'"
    using r sh np by (auto simp: onBuf_def shards_ok_def split: prod.splits)
  then show "\<exists>b'. m (acct s) (bufs s ! p) = (r, acct s1, b') \<and> view s1 = (view s)(n := Some (bufItems b')) \<and> bufs s1 ! p = b'"
    using k(5) by auto
qed

lemma appendOne_good:
  assumes "store_inv s" "seqs_below N s" "0 < N" "Suc N < 2 ^ 64" "appendOne J inp i it s = (r, s')"
  shows "good N s s'"
proof (cases "validateWriteItem J it ''/append'' (maxItemBytesFor (acct s) (Scope it))")
  case (Inl e)
  then show ?thesis using assms by (simp add: appendOne_def good_refl)
next
  case (Inr it')
  then have "appendOneTrusted J inp i it' s = (r, s')" using assms(5) by (simp add: appendOne_def)
  from assms(1-4) this show ?thesis
  proof (cases rule: appendOneTrusted_cases)
    case (failed e)
    then show ?thesis using assms(1,2) by (simp add: good_unchanged)
  next
    case (okay st s1 s2)
    then show ?thesis by (simp add: good_def)
  qed
qed

lemma upsertOne_cases:
  assumes store_inv: "store_inv s" and seq: "seqs_below N s" "0 < N" "Suc N < 2 ^ 64" and r: "upsertOne J inp i item s = (r, s')"
  obtains (failed) e where "r = Inl e" "unchanged s s'"
  | (okay) it st created a0 b0 b' s1 where "validateUpsertItem J item (maxItemBytes (acct s)) = Inr it"
      "r = Inr (st, created)" "upsertByID J (fst (inp (i + 1))) (snd (inp (i + 1))) it a0 b0 = (Inr (st, created), acct s1, b')"
      "scope_ok s (Scope it) b0" "lastSeq b0 < 2 ^ 64 - 1" "bufItems b0 = (case view s (Scope it) of None \<Rightarrow> [] | Some xs \<Rightarrow> xs)"
      "store_inv s1" "view s1 = (view s)(Scope it := Some (bufItems b'))" "eventsMode s1 = eventsMode s"
      "eventsDropsTotal s1 = eventsDropsTotal s"
      "logged J (Scope st) (zeroEvent\<lparr>evOp := ''upsert'', evScope := Scope st, evID := ID st, evSeq := Seq st,
         evTs := Ts st, evUUID := wireUUID (UUID st), evPayload := Payload st\<rparr>) s1 s'" "good N s s'"
proof (cases "validateUpsertItem J item (maxItemBytes (acct s))")
  case (Inl e)
  then show ?thesis using r that(1) by (auto simp: upsertOne_def unchanged_def)
next
  case (Inr it)
  let ?m = "upsertByID J (fst (inp (i + 1))) (snd (inp (i + 1))) it"
  obtain w s1 where w: "withScope (fst (inp i)) (Scope it) ?m s = (w, s1)" by fastforce
  have N: "N < 2 ^ 64" using seq(3) by simp
  from store_inv seq(1,2) N upsert.buffer_op_axioms upsertByID_err w show ?thesis
  proof (cases rule: withScope_cases)
    case (failed e)
    then show ?thesis using r w Inr that(1) by (auto simp: upsertOne_def)
  next
    case (okay x a0 b0 b')
    obtain st cr where x: "x = (st, cr)" by fastforce
    have e: "r = Inr (st, cr)" "s' = (if \<not> eventsEnabled s1 (Scope st) then s1 else emitEvent J inp (i + 2)
        (zeroEvent\<lparr>evOp := ''upsert'', evScope := Scope st, evID := ID st, evSeq := Seq st,
         evTs := Ts st, evUUID := wireUUID (UUID st), evPayload := Payload st\<rparr>) s1)"
      using r w Inr okay(1) x by (auto simp: upsertOne_def emitUpsertEvent_def)
    note g = good_logged [OF okay(3,4,5) seq(3) e(2)]
    show ?thesis
      by (rule that(2) [OF Inr e(1) _ okay(7) _ okay(10) okay(3,6) _ okay(12) g])
        (use okay x seq in \<open>auto simp: conf_same_def\<close>)
  qed
qed

lemma upsertOne_good:
  assumes "store_inv s" "seqs_below N s" "0 < N" "Suc N < 2 ^ 64" "upsertOne J inp i it s = (r, s')"
  shows "good N s s'"
  using assms by (cases rule: upsertOne_cases) (use assms in \<open>auto simp: good_unchanged\<close>)

text \<open>The freshness stamp is not part of the invariant.\<close>

lemma bump_facts:
  fixes s t defines "s' \<equiv> s\<lparr>acct := bumpLastWriteTS t (acct s)\<rparr>"
  shows "store_inv s \<Longrightarrow> store_inv s'" "view s' = view s" "seqs_below N s' = seqs_below N s" "conf_same s s'"
proof -
  have g: "getScope s' = getScope s" by (simp add: s'_def fun_eq_iff getScope_def shardFor_def shardIdxFor_def)
  have sc: "scopes s' = scopes s" by (simp add: scopes_def s'_def)
  show c: "conf_same s s'" by (simp add: s'_def conf_same_def caps_same_def)
  show "view s' = view s" by (simp add: fun_eq_iff view_def g) (simp add: s'_def)
  show "seqs_below N s' = seqs_below N s" by (simp add: seqs_below_def sc) (simp add: s'_def)
  show "store_inv s \<Longrightarrow> store_inv s'"
    unfolding store_inv_def store_ok_def shards_ok_def scope_ok_conf [OF c] totals_ok_def caps_ok_def sc reserved_ok_def g
    by (simp add: s'_def shardIdxFor_def subs_ok_def)
qed

lemma counterAddOne_cases:
  assumes store_inv: "store_inv s" and seq: "seqs_below N s" "0 < N" "Suc N < 2 ^ 64"
    and r: "counterAddOne J inp i n k d s = (r, s')"
  obtains (failed) e where "r = Inl e" "unchanged s s'"
  | (okay) v created a0 b0 b' s1 where "k \<noteq> []" "\<bar>d\<bar> \<le> MaxCounterValue" "d \<noteq> 0" "\<not> isReservedScope n"
      "r = Inr (v, created)" "counterAdd J (fst (inp (i + 1))) (snd (inp (i + 1))) n k d a0 b0 = (Inr (v, created), acct s1, b')"
      "scope_ok s n b0" "lastSeq b0 < 2 ^ 64 - 1" "bufItems b0 = (case view s n of None \<Rightarrow> [] | Some xs \<Rightarrow> xs)"
      "view s1 = (view s)(n := Some (bufItems b'))" "good N s s'"
      "\<And>m. m \<noteq> EventsScopeName \<Longrightarrow> view s' m = view s1 m" "lastWriteTS a0 = lastWriteTS (acct s)"
      "\<exists>s2. store_inv s2 \<and> view s2 = view s1 \<and> eventsMode s2 = eventsMode s \<and> eventsDropsTotal s2 = eventsDropsTotal s \<and>
         logged J n (zeroEvent\<lparr>evOp := ''counter_add'', evScope := n, evID := k, evBy := Some d\<rparr>) s2 s'"
proof (cases "validateCounterAddRequest n k (Some d) (maxItemBytesFor (acct s) n)")
  case (Inl e)
  then show ?thesis using r that(1) by (auto simp: counterAddOne_def unchanged_def)
next
  case (Inr d')
  note va = validateCounterAdd_Inr [OF Inr]
  let ?m = "counterAdd J (fst (inp (i + 1))) (snd (inp (i + 1))) n k d"
  obtain w s1 where w: "withScope (fst (inp i)) n ?m s = (w, s1)" by fastforce
  have N: "N < 2 ^ 64" using seq(3) by simp
  have d: "\<bar>d\<bar> \<le> MaxCounterValue" "d \<noteq> 0" using va by auto
  from store_inv seq(1,2) N counterAdd_op [OF va(4) d(1)] counterAdd_err [OF va(4)] w show ?thesis
  proof (cases rule: withScope_cases)
    case (failed e)
    then show ?thesis using r w Inr that(1) by (auto simp: counterAddOne_def)
  next
    case (okay x a0 b0 b')
    obtain v cr where x: "x = (v, cr)" by fastforce
    define s2 where "s2 = (if view s n = None then s1\<lparr>acct := bumpLastWriteTS (fst (inp (i + 2))) (acct s1)\<rparr> else s1)"
    have s2: "store_inv s2" "seqs_below (Suc N) s2" "conf_same s s2" "view s2 = view s1"
      using okay(3,4,5) bump_facts [where s = s1] conf_same_trans by (auto simp: s2_def)
    have e: "r = Inr (v, cr)" "s' = (if \<not> eventsEnabled s2 n then s2 else emitEvent J inp (i + 3)
        (zeroEvent\<lparr>evOp := ''counter_add'', evScope := n, evID := k, evBy := Some d\<rparr>) s2)"
      using r w Inr okay(1) x by (auto simp: counterAddOne_def emitCounterAddEvent_def s2_def Let_def)
    note g = good_logged [OF s2(1,2,3) seq(3) e(2)]
    have lv: "view s' m = view s1 m" if "m \<noteq> EventsScopeName" for m
      using logged_facts(4) [OF s2(1) g(1)] s2(4) that by simp
    have "eventsMode s2 = eventsMode s" "eventsDropsTotal s2 = eventsDropsTotal s"
      using s2(3) okay(12) by (simp_all add: conf_same_def s2_def)
    then have lg: "\<exists>s2. store_inv s2 \<and> view s2 = view s1 \<and> eventsMode s2 = eventsMode s \<and> eventsDropsTotal s2 = eventsDropsTotal s \<and>
        logged J n (zeroEvent\<lparr>evOp := ''counter_add'', evScope := n, evID := k, evBy := Some d\<rparr>) s2 s'"
      using s2(1,4) g(1) by blast
    show ?thesis
      by (rule that(2) [OF va(4) d va(6) e(1) _ okay(7) _ okay(10,6) g(2) lv okay(11) lg])
        (use okay x seq in auto)
  qed
qed

lemma counterAddOne_good:
  assumes "store_inv s" "seqs_below N s" "0 < N" "Suc N < 2 ^ 64" "counterAddOne J inp i n k d s = (r, s')"
  shows "good N s s'"
  using assms by (cases rule: counterAddOne_cases) (use assms in \<open>auto simp: good_unchanged\<close>)

text \<open>
  The three operations on an existing scope share their shape: find the scope, run the method, log one
  event if the method reports a hit.
\<close>

lemma existing_cases:
  assumes s: "store_inv s" "seqs_below N s" "Suc N < 2 ^ 64" and n: "getScope s n = Some p" and op: "buffer_op m n us"
    and ob: "onBuf p m s = (x, s1)" and r: "x = Inl e \<and> s' = s1 \<or> x = Inr (hits :: nat) \<and>
      s' = (if hits > 0 then (if \<not> eventsEnabled s1 n then s1 else emitEvent J inp i evt s1) else s1)"
  shows "good N s s'" and "\<exists>b'. m (acct s) (bufs s ! p) = (x, acct s1, b') \<and> view s1 = (view s)(n := Some (bufItems b'))"
    and "x = Inr hits \<Longrightarrow> 0 < hits \<Longrightarrow> logged J n evt s1 s'"
    and "(\<exists>e. x = Inl e) \<or> x = Inr 0 \<Longrightarrow> s' = s1"
    and "scope_ok s n (bufs s ! p)" and "store_inv s1"
    and "m' \<noteq> EventsScopeName \<Longrightarrow> view s' m' = view s1 m'"
    and "eventsMode s1 = eventsMode s" and "eventsDropsTotal s1 = eventsDropsTotal s"
proof -
  show "eventsMode s1 = eventsMode s" "eventsDropsTotal s1 = eventsDropsTotal s" using onBuf_frame [OF ob] by simp_all
  have N: "N < 2 ^ 64" using s(3) by simp
  note k = existing_ok [OF s(1,2) N n op ob]
  show "\<exists>b'. m (acct s) (bufs s ! p) = (x, acct s1, b') \<and> view s1 = (view s)(n := Some (bufItems b'))"
    using k(4) by blast
  show "scope_ok s n (bufs s ! p)" "store_inv s1" by (rule k(5), rule k(1))
  have g1: "good N s s1" using k(1,2,3) seqs_below_mono [of "Suc N" s1 "N + 2"] by (simp add: good_def)
  have g2: "logged J n evt s1 s' \<and> good N s s'"
    if "x = Inr hits" "0 < hits" using good_logged [OF k(1-3) s(3), of s' n J inp i evt] r that by auto
  show "x = Inr hits \<Longrightarrow> 0 < hits \<Longrightarrow> logged J n evt s1 s'" using g2 by blast
  show s1: "(\<exists>e. x = Inl e) \<or> x = Inr 0 \<Longrightarrow> s' = s1" using r by auto
  show "good N s s'"
  proof (cases "x = Inr hits \<and> 0 < hits")
    case False
    then have "s' = s1" using r by auto
    then show ?thesis using g1 by simp
  qed (use g2 in blast)
  show "m' \<noteq> EventsScopeName \<Longrightarrow> view s' m' = view s1 m'"
    using g2 r logged_facts(4) [OF k(1)] by (cases "x = Inr hits \<and> 0 < hits") auto
qed

lemma updateOne_cases:
  assumes s: "store_inv s" "seqs_below N s" "Suc N < 2 ^ 64" and r: "updateOne J inp i item s = (r, s')"
  obtains (none) "s' = s" "(\<exists>e. r = Inl e) \<or> r = Inr 0 \<and> getScope s (Scope item) = None"
  | (found) it p b' s1 where "validateUpdateItem J item (maxItemBytes (acct s)) = Inr it" "getScope s (Scope it) = Some p"
      "updateMethod J (fst (inp i)) it (acct s) (bufs s ! p) = (r, acct s1, b')"
      "view s1 = (view s)(Scope it := Some (bufItems b'))" "good N s s'" "scope_ok s (Scope it) (bufs s ! p)"
      "\<And>m. m \<noteq> EventsScopeName \<Longrightarrow> view s' m = view s1 m"
      "\<And>h. r = Inr h \<Longrightarrow> 0 < h \<Longrightarrow> logged J (Scope it) (zeroEvent\<lparr>evOp := ''update'', evScope := Scope it, evID := ID it,
         evSeq := Seq it, evUUID := wireUUID (UUID it), evPayload := Payload it\<rparr>) s1 s'"
      "(\<exists>e. r = Inl e) \<or> r = Inr 0 \<Longrightarrow> s' = s1"
      "eventsMode s1 = eventsMode s" "eventsDropsTotal s1 = eventsDropsTotal s"
proof (cases "validateUpdateItem J item (maxItemBytes (acct s))")
  case (Inl e)
  then show ?thesis using r that(1) by (auto simp: updateOne_def)
next
  case (Inr it)
  show ?thesis
  proof (cases "getScope s (Scope it)")
    case None
    then show ?thesis using Inr r that(1) validateUpdateItem_Inr(1) [OF Inr] by (auto simp: updateOne_def)
  next
    case (Some p)
    obtain x s1 where x: "onBuf p (updateMethod J (fst (inp i)) it) s = (x, s1)" by fastforce
    let ?e = "zeroEvent\<lparr>evOp := ''update'', evScope := Scope it, evID := ID it,
         evSeq := Seq it, evUUID := wireUUID (UUID it), evPayload := Payload it\<rparr>"
    have rx: "r = x" and d: "\<exists>e hits. x = Inl e \<and> s' = s1 \<or> x = Inr hits \<and>
        s' = (if hits > 0 then (if \<not> eventsEnabled s1 (Scope it) then s1 else emitEvent J inp (i + 1) ?e s1) else s1)"
      using r Inr Some x by (auto simp: updateOne_def emitUpdateEvent_def split: sum.splits)
    from d obtain e hits where e: "x = Inl e \<and> s' = s1 \<or> x = Inr hits \<and>
        s' = (if hits > 0 then (if \<not> eventsEnabled s1 (Scope it) then s1 else emitEvent J inp (i + 1) ?e s1) else s1)"
      by blast
    note k = existing_cases [OF s Some updateMethod_op x e]
    obtain b' where b': "updateMethod J (fst (inp i)) it (acct s) (bufs s ! p) = (x, acct s1, b')"
      "view s1 = (view s)(Scope it := Some (bufItems b'))" using k(2) by blast
    show ?thesis
      by (rule that(2) [OF Inr Some _ b'(2) k(1,5)]) (use b' rx k e in auto)
  qed
qed

lemma deleteOne_cases:
  assumes s: "store_inv s" "seqs_below N s" "Suc N < 2 ^ 64" and r: "deleteOne J inp i capq n k seq uuid s = (r, s')"
  obtains (none) "s' = s" "(\<exists>e. r = Inl e) \<or> r = Inr 0 \<and> getScope s n = None"
  | (found) p b' s1 where "validateDeleteRequest n k seq uuid = None" "getScope s n = Some p"
      "deleteMethod capq (fst (inp i)) k seq uuid (acct s) (bufs s ! p) = (r, acct s1, b')"
      "view s1 = (view s)(n := Some (bufItems b'))" "good N s s'" "scope_ok s n (bufs s ! p)"
      "\<And>m. m \<noteq> EventsScopeName \<Longrightarrow> view s' m = view s1 m"
      "\<And>h. r = Inr h \<Longrightarrow> 0 < h \<Longrightarrow> logged J n (zeroEvent\<lparr>evOp := ''delete'', evScope := n, evID := k, evSeq := seq,
         evUUID := uuid\<rparr>) s1 s'"
      "(\<exists>e. r = Inl e) \<or> r = Inr 0 \<Longrightarrow> s' = s1"
      "eventsMode s1 = eventsMode s" "eventsDropsTotal s1 = eventsDropsTotal s"
proof (cases "validateDeleteRequest n k seq uuid = None \<and> getScope s n \<noteq> None")
  case False
  then show ?thesis using r that(1) by (auto simp: deleteOne_def split: option.splits)
next
  case True
  then obtain p where va: "validateDeleteRequest n k seq uuid = None" and p: "getScope s n = Some p" by auto
  obtain x s1 where x: "onBuf p (deleteMethod capq (fst (inp i)) k seq uuid) s = (x, s1)" by fastforce
  let ?e = "zeroEvent\<lparr>evOp := ''delete'', evScope := n, evID := k, evSeq := seq, evUUID := uuid\<rparr>"
  have rx: "r = x" and d: "\<exists>e hits. x = Inl e \<and> s' = s1 \<or> x = Inr hits \<and>
      s' = (if hits > 0 then (if \<not> eventsEnabled s1 n then s1 else emitEvent J inp (i + 1) ?e s1) else s1)"
    using r va p x by (auto simp: deleteOne_def emitDeleteEvent_def split: sum.splits)
  from d obtain e hits where e: "x = Inl e \<and> s' = s1 \<or> x = Inr hits \<and>
      s' = (if hits > 0 then (if \<not> eventsEnabled s1 n then s1 else emitEvent J inp (i + 1) ?e s1) else s1)" by blast
  note kk = existing_cases [OF s p deleteMethod_op x e]
  obtain b' where b': "deleteMethod capq (fst (inp i)) k seq uuid (acct s) (bufs s ! p) = (x, acct s1, b')"
    "view s1 = (view s)(n := Some (bufItems b'))" using kk(2) by blast
  show ?thesis
    by (rule that(2) [OF va p _ b'(2) kk(1,5)]) (use b' rx kk e in auto)
qed

lemma deleteUpTo_cases:
  assumes s: "store_inv s" "seqs_below N s" "Suc N < 2 ^ 64" and r: "deleteUpTo J inp i n m uuid s = (r, s')"
  obtains (none) "s' = s" "(\<exists>e. r = Inl e) \<or> r = Inr 0 \<and> getScope s n = None"
  | (found) p b' s1 where "validateDeleteUpToRequest n m uuid = None" "getScope s n = Some p"
      "drainMethod (fst (inp i)) m uuid (acct s) (bufs s ! p) = (r, acct s1, b')"
      "view s1 = (view s)(n := Some (bufItems b'))" "good N s s'" "scope_ok s n (bufs s ! p)"
      "\<And>m. m \<noteq> EventsScopeName \<Longrightarrow> view s' m = view s1 m"
      "\<And>h. r = Inr h \<Longrightarrow> 0 < h \<Longrightarrow> logged J n (zeroEvent\<lparr>evOp := ''delete_up_to'', evScope := n, evUUID := uuid,
         evMaxSeq := m\<rparr>) s1 s'"
      "(\<exists>e. r = Inl e) \<or> r = Inr 0 \<Longrightarrow> s' = s1"
      "eventsMode s1 = eventsMode s" "eventsDropsTotal s1 = eventsDropsTotal s"
proof (cases "validateDeleteUpToRequest n m uuid = None \<and> getScope s n \<noteq> None")
  case False
  then show ?thesis using r that(1) by (auto simp: deleteUpTo_def split: option.splits)
next
  case True
  then obtain p where va: "validateDeleteUpToRequest n m uuid = None" and p: "getScope s n = Some p" by auto
  obtain x s1 where x: "onBuf p (drainMethod (fst (inp i)) m uuid) s = (x, s1)" by fastforce
  let ?e = "zeroEvent\<lparr>evOp := ''delete_up_to'', evScope := n, evUUID := uuid, evMaxSeq := m\<rparr>"
  have rx: "r = x" and d: "\<exists>e hits. x = Inl e \<and> s' = s1 \<or> x = Inr hits \<and>
      s' = (if hits > 0 then (if \<not> eventsEnabled s1 n then s1 else emitEvent J inp (i + 1) ?e s1) else s1)"
    using r va p x by (auto simp: deleteUpTo_def emitDeleteUpToEvent_def split: sum.splits)
  from d obtain e hits where e: "x = Inl e \<and> s' = s1 \<or> x = Inr hits \<and>
      s' = (if hits > 0 then (if \<not> eventsEnabled s1 n then s1 else emitEvent J inp (i + 1) ?e s1) else s1)" by blast
  note kk = existing_cases [OF s p drainMethod_op x e]
  obtain b' where b': "drainMethod (fst (inp i)) m uuid (acct s) (bufs s ! p) = (x, acct s1, b')"
    "view s1 = (view s)(n := Some (bufItems b'))" using kk(2) by blast
  show ?thesis
    by (rule that(2) [OF va p _ b'(2) kk(1,5)]) (use b' rx kk e in auto)
qed

lemma updateOne_good:
  assumes "store_inv s" "seqs_below N s" "Suc N < 2 ^ 64" "updateOne J inp i it s = (r, s')" shows "good N s s'"
  using assms by (cases rule: updateOne_cases) (use assms in \<open>auto simp: good_refl\<close>)

lemma deleteOne_good:
  assumes "store_inv s" "seqs_below N s" "Suc N < 2 ^ 64" "deleteOne J inp i capq n k seq uuid s = (r, s')" shows "good N s s'"
  using assms by (cases rule: deleteOne_cases) (use assms in \<open>auto simp: good_refl\<close>)

lemma deleteUpTo_good:
  assumes "store_inv s" "seqs_below N s" "Suc N < 2 ^ 64" "deleteUpTo J inp i n m uuid s = (r, s')" shows "good N s s'"
  using assms by (cases rule: deleteUpTo_cases) (use assms in \<open>auto simp: good_refl\<close>)

section \<open>Deleting a scope\<close>

lemma removeScope_ok:
  assumes inv: "store_inv s" and n: "getScope s n = Some p" "\<not> isReservedScope n"
  shows "store_inv (removeScope now n p s)" and "conf_same s (removeScope now n p s)"
    and "view (removeScope now n p s) = (view s)(n := None)"
    and "seqs_below N s \<Longrightarrow> seqs_below N (removeScope now n p s)"
    and "totalBytes (acct (removeScope now n p s)) = totalBytes (acct s) - (bytes (bufs s ! p) + scopeBufferOverhead)"
    and "detached (bufs (removeScope now n p s) ! p)"
proof -
  let ?s = "removeScope now n p s"
  have ok: "store_ok s" and sh: "shards_ok s" using inv by (simp_all add: store_inv_def store_ok_def)
  have np: "(n, p) \<in> set (scopes s)" using n getScope_iff [OF sh] by simp
  note t = store_totals [OF ok np]
  have a: "acct_ok (acct s)" by (rule store_acct_ok [OF ok])
  let ?a = "bumpLastWriteTS now (addTotals (- (bytes (bufs s ! p) + scopeBufferOverhead)) (- int (length (items (bufs s ! p)))) (acct s))"
  have b: "0 \<le> bytes (bufs s ! p)" using store_scope_ok [OF ok np] buf_bytes_nonneg by (auto simp: scope_ok_def)
  have i1: "i64 (totalBytes (acct s) - (bytes (bufs s ! p) + scopeBufferOverhead)) =
      totalBytes (acct s) - (bytes (bufs s ! p) + scopeBufferOverhead)"
    by (rule i64_id) (use t a b in \<open>auto simp: acct_ok_def MinInt64_def scopeBufferOverhead_def\<close>)
  have i2: "i64 (totalItems (acct s) - int (length (items (bufs s ! p)))) = totalItems (acct s) - int (length (items (bufs s ! p)))"
    by (rule i64_id) (use t a in \<open>auto simp: acct_ok_def MinInt64_def\<close>)
  have ab: "totalBytes ?a = totalBytes (acct s) - (bytes (bufs s ! p) + scopeBufferOverhead)"
    "totalItems ?a = totalItems (acct s) - int (length (items (bufs s ! p)))" "caps_same (acct s) ?a"
    using i1 i2 by (simp_all add: addTotals_def caps_same_def algebra_simps)
  have e: "?s = detachBuf p (addScopeCount (- 1) ((unlinkScope n s)\<lparr>acct := ?a\<rparr>))"
    by (rule store.equality) (simp_all add: removeScope_def Let_def addScopeCount_def unlinkScope_def detachBuf_def onBuf_def)
  note u = unlink_ok [OF ok n(1) e ab(3,1,2)]
  show "conf_same s ?s" "view ?s = (view s)(n := None)" using u by simp_all
  have r: "reserved_ok ?s" using inv n(2) u(4) by (auto simp: store_inv_def reserved_ok_def isReservedScope_iff reservedScopeNames_def)
  have "subs ?s = subs s" "subscribers ?s = subscribers s"
    by (simp_all add: e detachBuf_def addScopeCount_def unlinkScope_def)
  then show "store_inv ?s" using u(1) r inv by (simp add: store_inv_def subs_ok_def)
  have p: "p < length (bufs s)" using np sh by (auto simp: shards_ok_def)
  show "detached (bufs ?s ! p)" using u(6) p by simp
  show "totalBytes (acct ?s) = totalBytes (acct s) - (bytes (bufs s ! p) + scopeBufferOverhead)"
    using ab(1) by (simp add: e detachBuf_def addScopeCount_def)
  have set: "set (scopes s) = insert (n, p) (set (scopes ?s))" using arg_cong [OF u(5), of set_mset] by simp
  have "lastSeq (bufs ?s ! q) = lastSeq (bufs s ! q)" for q
    using p by (cases "q = p") (simp_all add: u(6))
  then show "seqs_below N s \<Longrightarrow> seqs_below N ?s" using set by (auto simp: seqs_below_def)
qed

lemma deleteScope_cases:
  assumes s: "store_inv s" "seqs_below N s" "0 < N" "Suc N < 2 ^ 64" and r: "deleteScope J inp i n s = (r, s')"
  obtains (none) "s' = s" "(\<exists>e. r = Inl e) \<or> r = Inr (0, False) \<and> view s n = None"
  | (found) p s1 where "\<not> isReservedScope n" "getScope s n = Some p" "r = Inr (length (items (bufs s ! p)), True)"
      "s1 = removeScope (fst (inp i)) n p s" "good N s s'" "view s' = (\<lambda>m. if m = EventsScopeName then view s' m else ((view s)(n := None)) m)"
      "logged J n (zeroEvent\<lparr>evOp := ''delete_scope'', evScope := n, evTs := fst (inp (i + 1))\<rparr>) s1 s'"
proof (cases "validateDeleteScopeRequest n = None \<and> getScope s n \<noteq> None")
  case False
  then show ?thesis using r that(1) by (auto simp: deleteScope_def view_def split: option.splits)
next
  case True
  then obtain p where va: "validateDeleteScopeRequest n = None" and p: "getScope s n = Some p" by auto
  have nr: "\<not> isReservedScope n" using validateDeleteScope_None [OF va] by simp
  let ?s1 = "removeScope (fst (inp i)) n p s"
  note k = removeScope_ok [OF s(1) p nr, where now = "fst (inp i)"]
  have q: "seqs_below (Suc N) ?s1" using k(4) [OF s(2)] seqs_below_mono by simp
  have e: "s' = (if \<not> eventsEnabled ?s1 n then ?s1 else emitEvent J inp (i + 2)
      (zeroEvent\<lparr>evOp := ''delete_scope'', evScope := n, evTs := fst (inp (i + 1))\<rparr>) ?s1)"
    "r = Inr (length (items (bufs s ! p)), True)"
    using r va p by (auto simp: deleteScope_def emitDeleteScopeEvent_def)
  note g = good_logged [OF k(1) q k(2) s(4) e(1)]
  have v: "view s' = (\<lambda>m. if m = EventsScopeName then view s' m else ((view s)(n := None)) m)"
    using logged_facts(4) [OF k(1) g(1)] k(3) by (auto simp: fun_eq_iff)
  show ?thesis by (rule that(2) [OF nr p e(2) refl g(2) v g(1)])
qed

lemma deleteScope_good:
  assumes "store_inv s" "seqs_below N s" "0 < N" "Suc N < 2 ^ 64" "deleteScope J inp i n s = (r, s')" shows "good N s s'"
  using assms by (cases rule: deleteScope_cases) (use assms in \<open>auto simp: good_refl\<close>)

section \<open>Reads\<close>

lemma readBuf_facts:
  assumes inv: "store_inv s" and n: "getScope s n = Some p"
  shows "store_inv (readBuf now p s)" and "view (readBuf now p s) = view s" and "conf_same s (readBuf now p s)"
    and "seqs_below N s \<Longrightarrow> seqs_below N (readBuf now p s)" and "acct (readBuf now p s) = acct s"
proof -
  let ?s = "readBuf now p s"
  have ok: "store_ok s" and sh: "shards_ok s" using inv by (simp_all add: store_inv_def store_ok_def)
  have np: "(n, p) \<in> set (scopes s)" using n getScope_iff [OF sh] by simp
  have p: "p < length (bufs s)" using np sh by (auto simp: shards_ok_def)
  have b: "bufs ?s ! q = (if q = p then recordRead now (bufs s ! q) else bufs s ! q)" for q
    using p by (simp add: readBuf_def)
  note v = view_upd [OF sh np, of ?s "recordRead now (bufs s ! p)"]
  show c: "conf_same s ?s" by (simp add: readBuf_def conf_same_def caps_same_def)
  have sc: "scopes ?s = scopes s" and g: "getScope ?s = getScope s" using v by (simp_all add: readBuf_def)
  show "view ?s = view s" using v(1) n by (auto simp: readBuf_def view_def fun_eq_iff)
  show "acct ?s = acct s" by (simp add: readBuf_def)
  show "seqs_below N s \<Longrightarrow> seqs_below N ?s" unfolding seqs_below_def sc by (auto simp: b recordRead_def)
  have sk: "scope_ok ?s m (bufs ?s ! q) = scope_ok s m (bufs s ! q)" for m q
    unfolding scope_ok_conf [OF c] b by (simp add: scope_ok_def) (simp add: recordRead_def)
  have de: "detached (bufs ?s ! q) = detached (bufs s ! q)" "attached (bufs ?s ! q) = attached (bufs s ! q)"
    "bytes (bufs ?s ! q) = bytes (bufs s ! q)" "items (bufs ?s ! q) = items (bufs s ! q)" for q
    by (simp_all add: b recordRead_def)
  have l: "length (bufs ?s) = length (bufs s)" by (simp add: readBuf_def)
  have "store_ok ?s" using ok
    unfolding store_ok_def shards_ok_def totals_ok_def caps_ok_def sc sk de l by (simp add: readBuf_def shardIdxFor_def)
  then show "store_inv ?s" using inv by (simp add: store_inv_def reserved_ok_def g subs_ok_def) (simp add: readBuf_def)
qed

lemma read_good: "store_inv s \<Longrightarrow> seqs_below N s \<Longrightarrow> getScope s n = Some p \<Longrightarrow> good N s (readBuf now p s)"
proof -
  assume i: "store_inv s" "seqs_below N s" "getScope s n = Some p"
  show "good N s (readBuf now p s)"
    using readBuf_facts(1,3) [OF i(1,3)] seqs_below_mono [OF readBuf_facts(4) [OF i(1,3,2)]] by (simp add: good_def)
qed

lemma head_good: "store_inv s \<Longrightarrow> seqs_below N s \<Longrightarrow> head now n m l s = (r, s') \<Longrightarrow> good N s s' \<and> view s' = view s"
  by (auto simp: head_def good_refl read_good readBuf_facts split: option.splits prod.splits if_splits)

lemma tail_good: "store_inv s \<Longrightarrow> seqs_below N s \<Longrightarrow> tail now n l off s = (r, s') \<Longrightarrow> good N s s' \<and> view s' = view s"
  by (auto simp: tail_def good_refl read_good readBuf_facts split: option.splits prod.splits if_splits)

lemma get_good:
  "store_inv s \<Longrightarrow> seqs_below N s \<Longrightarrow> store_get now n k q u s = (r, s') \<Longrightarrow> good N s s' \<and> view s' = view s"
  by (auto simp: store_get_def good_refl read_good readBuf_facts split: option.splits)

lemma render_good:
  "store_inv s \<Longrightarrow> seqs_below N s \<Longrightarrow> render now n k q u s = (r, s') \<Longrightarrow> good N s s' \<and> view s' = view s"
  by (auto simp: render_def good_refl read_good readBuf_facts split: option.splits)

end
