(* ===== verification/Bulk.thy ===== *)
theory Bulk
  imports StoreOps
begin

text \<open>
  The operations on many scopes at once (\<^verbatim>\<open>bulk.go\<close>): \<^verbatim>\<open>/wipe\<close>, \<^verbatim>\<open>/warm\<close> (\<^verbatim>\<open>replaceScopes\<close>) and
  \<^verbatim>\<open>/rebuild\<close> (\<^verbatim>\<open>rebuildAll\<close>). A Go map of scopes to items is an association list in iteration order;
  its keys are distinct. The locks held make each operation one step; the drift that a writer holding
  a stale pointer can cause inside \<^verbatim>\<open>replaceScopes\<close> is the subject of \<open>commitPreReserved_exact\<close>.

  The clock readings and minted uuids of a batch are the fields of \<open>bulkInputs\<close>, one per scope.
\<close>

section \<open>Operations\<close>

record bulkInputs =
  biNow :: "string \<Rightarrow> int"
  biMint :: "string \<Rightarrow> nat \<Rightarrow> UUID"
  biCreate :: "string \<Rightarrow> int"
  biCommit :: "string \<Rightarrow> int"

text \<open>The two loops that detach every linked buffer.\<close>

definition detachAll :: "store \<Rightarrow> store" where
  "detachAll s = fold detachBuf (map snd (concat (shards s))) s"

definition wipe :: "int \<Rightarrow> int \<Rightarrow> store \<Rightarrow> (nat \<times> nat \<times> int) \<times> store" where
  "wipe now now' s =
     (let scopeCnt = sum_list (map length (shards s));
          totalIt = (\<Sum>(n, p)\<leftarrow>concat (shards s). length (items (bufs s ! p)));
          s1 = detachAll s;
          freedBytes = totalBytes (acct s1);
          s2 = s1\<lparr>acct := (acct s1)\<lparr>totalBytes := 0, totalItems := 0\<rparr>, scopeCount := 0\<rparr>;
          s3 = s2\<lparr>acct := bumpLastWriteTS now (acct s2)\<rparr>;
          s4 = s3\<lparr>shards := replicate numShards []\<rparr>
      in ((scopeCnt, totalIt, freedBytes), initReservedScopesLocked now' s4))"

text \<open>
  Phase 1, which \<^verbatim>\<open>replaceScopes\<close> and \<^verbatim>\<open>rebuildAll\<close> have in common up to the endpoint's name. The
  validator completes the items it accepts (\<^verbatim>\<open>renderBytes\<close>).
\<close>

definition atItem :: "string \<Rightarrow> nat \<Rightarrow> goError \<Rightarrow> goError" where
  "atItem scope i e = (case e of InvalidInput r \<Rightarrow> InvalidInput (AtItem scope i r) | _ \<Rightarrow> e)"

fun checkItems :: "jsonLib \<Rightarrow> string \<Rightarrow> int \<Rightarrow> string \<Rightarrow> nat \<Rightarrow> item list \<Rightarrow> goError + item list" where
  "checkItems J endpoint cap scope i [] = Inr []"
| "checkItems J endpoint cap scope i (it # rest) =
     (case validateWriteItem J it endpoint cap of
        Inl e \<Rightarrow> Inl (atItem scope i e)
      | Inr it' \<Rightarrow>
          if Scope it' \<noteq> scope then Inl (InvalidInput (ScopeMismatch scope i (Scope it')))
          else (case checkItems J endpoint cap scope (Suc i) rest of
                  Inl e \<Rightarrow> Inl e
                | Inr its \<Rightarrow> Inr (it' # its)))"

text \<open>One iteration: an error, an offender (\<^const>\<open>None\<close>), or the scope's replacement state.\<close>

definition prepareScope ::
    "jsonLib \<Rightarrow> bulkInputs \<Rightarrow> string \<Rightarrow> store \<Rightarrow> string \<Rightarrow> item list \<Rightarrow> goError + scopeReplacement option" where
  "prepareScope J bi endpoint s scope its =
     (case firstErr [validateScope scope endpoint, reject (isReservedScope scope) (ScopeReserved scope endpoint)] of
        Some e \<Rightarrow> Inl (InvalidInput e)
      | None \<Rightarrow>
          (case checkItems J endpoint (maxItemBytes (acct s)) scope 0 its of
             Inl e \<Rightarrow> Inl e
           | Inr its' \<Rightarrow>
               if int (length its') > defaultMaxItems s then Inr None
               else (case buildReplacementState J (biNow bi scope) (biMint bi scope) its' True of
                       Inl e \<Rightarrow> Inl (InvalidInput (InScope scope e))
                     | Inr r \<Rightarrow> Inr (Some r))))"

fun prepare_loop ::
    "jsonLib \<Rightarrow> bulkInputs \<Rightarrow> string \<Rightarrow> store \<Rightarrow> (string \<times> item list) list \<Rightarrow>
     goError + (string \<times> scopeReplacement) list \<times> (string \<times> int \<times> int) list" where
  "prepare_loop J bi endpoint s [] = Inr ([], [])"
| "prepare_loop J bi endpoint s ((scope, its) # rest) =
     (case prepareScope J bi endpoint s scope its of
        Inl e \<Rightarrow> Inl e
      | Inr x \<Rightarrow>
          (case prepare_loop J bi endpoint s rest of
             Inl e \<Rightarrow> Inl e
           | Inr (plans, offenders) \<Rightarrow>
               (case x of
                  None \<Rightarrow> Inr (plans, (scope, int (length its), defaultMaxItems s) # offenders)
                | Some r \<Rightarrow> Inr ((scope, r) # plans, offenders))))"

text \<open>Phase 1.5: the bytes of the scope a plan replaces, and the batch's net charge.\<close>

definition oldBytes :: "store \<Rightarrow> string \<Rightarrow> int" where
  "oldBytes s scope = (case getScope s scope of Some p \<Rightarrow> bytes (bufs s ! p) | None \<Rightarrow> 0)"

definition planDelta :: "store \<Rightarrow> string \<times> scopeReplacement \<Rightarrow> int" where
  "planDelta s pl =
     (case pl of (scope, r) \<Rightarrow>
        (if getScope s scope = None then scopeBufferOverhead else 0) + (sumItemBytes r - oldBytes s scope))"

text \<open>Phase 2: create on demand and commit; \<open>old\<close> is the snapshot of phase 1.5.\<close>

definition commitPlan ::
    "bulkInputs \<Rightarrow> (string \<Rightarrow> int) \<Rightarrow> string \<times> scopeReplacement \<Rightarrow> store \<times> int \<Rightarrow> store \<times> int" where
  "commitPlan bi old pl st =
     (case pl of (scope, r) \<Rightarrow> case st of (s, newScopes) \<Rightarrow>
        (let (p, s1, n1) = (case getScope s scope of
                Some p \<Rightarrow> (p, s, newScopes)
              | None \<Rightarrow> (length (bufs s), linkScope scope (store_newscopeBuffer (biCreate bi scope) s) s, newScopes + 1))
         in case commitReplacementPreReserved (biCommit bi scope) r (sumItemBytes r) (old scope) (acct s1) (bufs s1 ! p) of
              (a', b') \<Rightarrow> (s1\<lparr>acct := a', bufs := (bufs s1)[p := b']\<rparr>, n1)))"

text \<open>The closure that runs with the batch's shards locked.\<close>

definition replaceLocked ::
    "bulkInputs \<Rightarrow> (string \<times> scopeReplacement) list \<Rightarrow> store \<Rightarrow> (goError + nat) \<times> store" where
  "replaceLocked bi plans s =
     (let totalDelta = (\<Sum>pl\<leftarrow>plans. planDelta s pl)
      in case reserveBytes totalDelta (acct s) of (ok, current, mx, a1) \<Rightarrow>
           if \<not> ok then (Inl (StoreFullError current totalDelta mx), s\<lparr>acct := a1\<rparr>)
           else case fold (commitPlan bi (oldBytes s)) plans (s\<lparr>acct := a1\<rparr>, 0) of (s2, newScopes) \<Rightarrow>
                  (Inr (length plans), if newScopes > 0 then addScopeCount newScopes s2 else s2))"

definition replaceScopes ::
    "jsonLib \<Rightarrow> inputs \<Rightarrow> nat \<Rightarrow> bulkInputs \<Rightarrow> (string \<times> item list) list \<Rightarrow> store \<Rightarrow> (goError + nat) \<times> store" where
  "replaceScopes J inp i bi grouped s =
     (case prepare_loop J bi ''/warm'' s grouped of
        Inl e \<Rightarrow> (Inl e, s)
      | Inr (plans, offenders) \<Rightarrow>
          if offenders \<noteq> [] then (Inl (ScopeCapacityError offenders), s)
          else (case replaceLocked bi plans s of
                  (Inl e, s1) \<Rightarrow> (Inl e, s1)
                | (Inr n, s1) \<Rightarrow> (Inr n, if n > 0 then emitWarmEvent J inp i s1 else s1)))"

text \<open>
  The buffer \<^verbatim>\<open>rebuildAll\<close> fills field by field. The source assigns every index but not
  \<^verbatim>\<open>idKeyBytes\<close>, which keeps the zero of the fresh buffer.
\<close>

definition rebuiltBuffer :: "int \<Rightarrow> store \<Rightarrow> scopeReplacement \<Rightarrow> scopeBuffer" where
  "rebuiltBuffer now s r =
     (store_newscopeBuffer now s)\<lparr>heap := rHeap r, items := rItems r, byID := rByID r, bySeq := rBySeq r,
        byUUID := rByUUID r, lastSeq := rLastSeq r, firstUUID := rFirstUUID r, lastUUID := rLastUUID r,
        bytes := sumItemBytes r\<rparr>"

definition rebuildAll ::
    "jsonLib \<Rightarrow> int \<Rightarrow> int \<Rightarrow> bulkInputs \<Rightarrow> (string \<times> item list) list \<Rightarrow> store \<Rightarrow> (goError + nat \<times> nat) \<times> store" where
  "rebuildAll J now now' bi grouped s =
     (case prepare_loop J bi ''/rebuild'' s grouped of
        Inl e \<Rightarrow> (Inl e, s)
      | Inr (plans, offenders) \<Rightarrow>
          if offenders \<noteq> [] then (Inl (ScopeCapacityError offenders), s)
          else
            (let built = map (\<lambda>(scope, r). (scope, rebuiltBuffer (biCreate bi scope) s r)) plans;
                 totalIt = (\<Sum>(scope, r)\<leftarrow>plans. length (rItems r));
                 totalNewBytes = (\<Sum>(scope, r)\<leftarrow>plans. sumItemBytes r + scopeBufferOverhead)
             in if totalNewBytes + reservedScopesOverhead > maxStoreBytes (acct s)
                then (Inl (StoreFullError 0 (totalNewBytes + reservedScopesOverhead) (maxStoreBytes (acct s))), s)
                else
                  (let s1 = (detachAll s)\<lparr>shards := replicate numShards []\<rparr>;
                       s2 = fold (\<lambda>(scope, b). linkScope scope b) built s1;
                       s3 = s2\<lparr>acct := (acct s2)\<lparr>totalBytes := totalNewBytes, totalItems := int totalIt\<rparr>,
                               scopeCount := int (length plans)\<rparr>;
                       s4 = s3\<lparr>acct := bumpLastWriteTS now (acct s3)\<rparr>
                   in (Inr (length plans, totalIt), initReservedScopesLocked now' s4))))"

section \<open>The scope map without its totals\<close>

text \<open>
  Between the reservation and the last commit of a batch the totals do not match the scopes, so the
  parts of the store's invariant are followed separately.
\<close>

definition struct_ok :: "store \<Rightarrow> bool" where
  "struct_ok s \<longleftrightarrow> shards_ok s \<and> (\<forall>(n, p) \<in> set (scopes s). scope_ok s n (bufs s ! p)) \<and>
     (\<forall>p < length (bufs s). p \<notin> snd ` set (scopes s) \<longrightarrow> detached (bufs s ! p) \<and> \<not> attached (bufs s ! p))"

definition bytesSum :: "store \<Rightarrow> int" where
  "bytesSum s = (\<Sum>(n, p)\<leftarrow>scopes s. bytes (bufs s ! p) + scopeBufferOverhead)"

definition itemsSum :: "store \<Rightarrow> int" where
  "itemsSum s = (\<Sum>(n, p)\<leftarrow>scopes s. int (length (items (bufs s ! p))))"

lemma store_ok_split:
  "store_ok s \<longleftrightarrow> struct_ok s \<and> totalBytes (acct s) = bytesSum s \<and> totalItems (acct s) = itemsSum s \<and>
     scopeCount s = int (length (scopes s)) \<and> caps_ok s"
  by (auto simp: store_ok_def struct_ok_def totals_ok_def bytesSum_def itemsSum_def)

lemma struct_set:
  assumes ok: "struct_ok s" and n: "getScope s n = Some p" and b: "scope_ok s n b" and c: "caps_same (acct s) a"
    and s': "s' = s\<lparr>acct := a, bufs := (bufs s)[p := b]\<rparr>"
  shows "struct_ok s'" and "conf_same s s'" and "getScope s' = getScope s" and "scopes s' = scopes s"
    and "view s' = (view s)(n := Some (bufItems b))"
    and "bytesSum s' = bytesSum s - bytes (bufs s ! p) + bytes b"
    and "itemsSum s' = itemsSum s - int (length (items (bufs s ! p))) + int (length (items b))"
    and "bufs s' ! q = (if q = p then b else bufs s ! q)"
proof -
  have sh: "shards_ok s" using ok by (simp add: struct_ok_def)
  have np: "(n, p) \<in> set (scopes s)" using n sh by (simp add: getScope_iff)
  have p: "p < length (bufs s)" using sh np by (auto simp: shards_ok_def)
  note v = view_upd [OF sh np, of s' b]
  show g: "getScope s' = getScope s" and sc: "scopes s' = scopes s"
    and "view s' = (view s)(n := Some (bufItems b))" using v by (simp_all add: s')
  show cs: "conf_same s s'" using c by (simp add: conf_same_def s')
  show q: "bufs s' ! q = (if q = p then b else bufs s ! q)" for q using p by (simp add: s' nth_list_update)
  have neq: "y \<noteq> (n, p) \<Longrightarrow> snd y \<noteq> p" if "y \<in> set (scopes s)" for y
    using scopes_inj_snd [OF sh, of "fst y" "snd y" n] that np by (metis prod.collapse)
  let ?f = "\<lambda>s (n :: string, p). bytes (bufs s ! p) + scopeBufferOverhead"
  let ?g = "\<lambda>s (n :: string, p). int (length (items (bufs s ! p)))"
  have "(\<Sum>x\<leftarrow>scopes s. ?f s' x) = (\<Sum>x\<leftarrow>scopes s. ?f s x) - ?f s (n, p) + ?f s' (n, p)"
    by (rule sum_list_change [OF scopes_distinct [OF sh] np]) (drule (1) neq, simp add: q case_prod_beta)
  then show "bytesSum s' = bytesSum s - bytes (bufs s ! p) + bytes b" by (simp add: bytesSum_def sc q)
  have "(\<Sum>x\<leftarrow>scopes s. ?g s' x) = (\<Sum>x\<leftarrow>scopes s. ?g s x) - ?g s (n, p) + ?g s' (n, p)"
    by (rule sum_list_change [OF scopes_distinct [OF sh] np]) (drule (1) neq, simp add: q case_prod_beta)
  then show "itemsSum s' = itemsSum s - int (length (items (bufs s ! p))) + int (length (items b))"
    by (simp add: itemsSum_def sc q)
  have l: "length (bufs s') = length (bufs s)" and i: "shardIdxFor s' = shardIdxFor s" and h: "shards s' = shards s"
    by (simp_all add: s' fun_eq_iff shardIdxFor_def)
  have sok: "scope_ok s' m (bufs s' ! k)" if "(m, k) \<in> set (scopes s)" for m k
    using that ok b scopes_inj_snd [OF sh that, of n] np unfolding scope_ok_conf [OF cs] q by (auto simp: struct_ok_def)
  have sh': "shards_ok s'" using sh unfolding shards_ok_def sc l i h .
  have ne: "k \<noteq> p" if "k \<notin> snd ` set (scopes s)" for k using that np by force
  have "detached (bufs s' ! k) \<and> \<not> attached (bufs s' ! k)" if "k < length (bufs s)" "k \<notin> snd ` set (scopes s)" for k
    using that ok ne [OF that(2)] by (auto simp: struct_ok_def q)
  then show "struct_ok s'" using sh' sok unfolding struct_ok_def sc l by blast
qed

lemma struct_link:
  assumes ok: "struct_ok s" and n: "getScope s n = None" "n \<noteq> []" and b: "scope_ok s n b"
  shows "struct_ok (linkScope n b s)" and "conf_same s (linkScope n b s)"
    and "getScope (linkScope n b s) = (getScope s)(n := Some (length (bufs s)))"
    and "view (linkScope n b s) = (view s)(n := Some (bufItems b))"
    and "bytesSum (linkScope n b s) = bytesSum s + bytes b + scopeBufferOverhead"
    and "itemsSum (linkScope n b s) = itemsSum s + int (length (items b))"
    and "length (scopes (linkScope n b s)) = Suc (length (scopes s))"
    and "bufs (linkScope n b s) = bufs s @ [b]" and "acct (linkScope n b s) = acct s"
    and "set (scopes (linkScope n b s)) = insert (n, length (bufs s)) (set (scopes s))"
proof -
  let ?s = "linkScope n b s"
  have sh: "shards_ok s" using ok by (simp add: struct_ok_def)
  show bf: "bufs ?s = bufs s @ [b]" and "acct ?s = acct s" by (simp_all add: linkScope_def)
  show cs: "conf_same s ?s" by (simp add: conf_same_def linkScope_def caps_same_def)
  show g: "getScope ?s = (getScope s)(n := Some (length (bufs s)))" using getScope_link [OF sh] by (auto simp: fun_eq_iff)
  have m: "mset (scopes ?s) = add_mset (n, length (bufs s)) (mset (scopes s))" by (rule scopes_link [OF sh n(1)])
  then show "length (scopes ?s) = Suc (length (scopes s))" by (metis size_add_mset size_mset)
  show st: "set (scopes ?s) = insert (n, length (bufs s)) (set (scopes s))" using arg_cong [OF m, of set_mset] by simp
  have old: "bufs ?s ! k = bufs s ! k" if "(i, k) \<in> set (scopes s)" for i k
    using that sh by (auto simp: shards_ok_def bf nth_append)
  have gk: "bufs ?s ! k = bufs s ! k" if "getScope s i = Some k" for i k
    using that old getScope_iff [OF sh] by blast
  show "view ?s = (view s)(n := Some (bufItems b))"
  proof (rule ext)
    fix i show "view ?s i = ((view s)(n := Some (bufItems b))) i"
      using gk [of i] by (cases "getScope s i") (simp_all add: view_def g bf)
  qed
  have f: "(\<Sum>x\<leftarrow>scopes s. case x of (i, k) \<Rightarrow> h (bufs ?s ! k)) = (\<Sum>x\<leftarrow>scopes s. case x of (i, k) \<Rightarrow> (h (bufs s ! k) :: int))" for h
    by (rule arg_cong [where f = sum_list], rule map_cong) (auto simp: old)
  show "bytesSum ?s = bytesSum s + bytes b + scopeBufferOverhead"
    unfolding bytesSum_def sum_list_add_mset [OF m] f [of "\<lambda>b. bytes b + scopeBufferOverhead"] by (simp add: bf)
  show "itemsSum ?s = itemsSum s + int (length (items b))"
    unfolding itemsSum_def sum_list_add_mset [OF m] f [of "\<lambda>b. int (length (items b))"] by (simp add: bf)
  have sk: "scope_ok ?s i (bufs ?s ! k)" if "(i, k) \<in> set (scopes ?s)" for i k
  proof (cases "(i, k) = (n, length (bufs s))")
    case True
    then show ?thesis using b unfolding scope_ok_conf [OF cs] by (simp add: bf)
  next
    case False
    then have "(i, k) \<in> set (scopes s)" using that unfolding st by blast
    then show ?thesis using ok old unfolding scope_ok_conf [OF cs] by (auto simp: struct_ok_def)
  qed
  have "detached (bufs ?s ! k) \<and> \<not> attached (bufs ?s ! k)"
    if k: "k < length (bufs ?s)" "k \<notin> snd ` set (scopes ?s)" for k
  proof -
    have "k \<noteq> length (bufs s)" "k \<notin> snd ` set (scopes s)" using k(2) unfolding st by auto
    then show ?thesis using k(1) ok by (auto simp: struct_ok_def bf nth_append)
  qed
  then show "struct_ok ?s" using shards_ok_link [OF sh n, of b] sk unfolding struct_ok_def by blast
qed

section \<open>Wiping\<close>

lemma detach_fold:
  assumes "\<forall>p \<in> set ps. p < length (bufs s)"
  shows "shards (fold detachBuf ps s) = shards s" and "acct (fold detachBuf ps s) = acct s"
    and "hashSeed (fold detachBuf ps s) = hashSeed s" and "conf_same s (fold detachBuf ps s)"
    and "subs (fold detachBuf ps s) = subs s" and "subscribers (fold detachBuf ps s) = subscribers s"
    and "eventsDropsTotal (fold detachBuf ps s) = eventsDropsTotal s"
    and "length (bufs (fold detachBuf ps s)) = length (bufs s)"
    and "\<forall>k < length (bufs s). bufs (fold detachBuf ps s) ! k =
      (if k \<in> set ps then (bufs s ! k)\<lparr>detached := True, attached := False\<rparr> else bufs s ! k)"
proof -
  let ?P = "\<lambda>s t ps. shards t = shards s \<and> acct t = acct s \<and> hashSeed t = hashSeed s \<and> conf_same s t \<and>
    subs t = subs s \<and> subscribers t = subscribers s \<and> eventsDropsTotal t = eventsDropsTotal s \<and>
    length (bufs t) = length (bufs s) \<and> (\<forall>k < length (bufs s). bufs t ! k =
      (if k \<in> set ps then (bufs s ! k)\<lparr>detached := True, attached := False\<rparr> else bufs s ! k))"
  have "?P s (fold detachBuf ps s) ps" using assms
  proof (induction ps arbitrary: s)
    case (Cons p ps)
    obtain t where t: "detachBuf p s = t" by simp
    have h: "?P s t [p]" using Cons.prems unfolding t [symmetric]
      by (simp add: detachBuf_def conf_same_def caps_same_def nth_list_update)
    have "?P t (fold detachBuf ps t) ps" by (rule Cons.IH) (use Cons.prems h in simp)
    then show ?case using h conf_same_trans [of s t] by (simp add: t)
  qed simp
  then show "shards (fold detachBuf ps s) = shards s" "acct (fold detachBuf ps s) = acct s"
    "hashSeed (fold detachBuf ps s) = hashSeed s" "conf_same s (fold detachBuf ps s)"
    "subs (fold detachBuf ps s) = subs s" "subscribers (fold detachBuf ps s) = subscribers s"
    "eventsDropsTotal (fold detachBuf ps s) = eventsDropsTotal s"
    "length (bufs (fold detachBuf ps s)) = length (bufs s)"
    "\<forall>k < length (bufs s). bufs (fold detachBuf ps s) ! k =
      (if k \<in> set ps then (bufs s ! k)\<lparr>detached := True, attached := False\<rparr> else bufs s ! k)" by blast+
qed

text \<open>The map emptied and everything it held detached: what \<^verbatim>\<open>wipe\<close> and \<^verbatim>\<open>rebuildAll\<close> start from.\<close>

lemma emptied:
  assumes ok: "struct_ok s"
    and s': "shards s' = replicate numShards []" "bufs s' = bufs (detachAll s)" "conf_same s s'"
  shows "struct_ok s'" and "scopes s' = []" and "view s' = (\<lambda>_. None)" and "getScope s' = (\<lambda>_. None)"
    and "bytesSum s' = 0" and "itemsSum s' = 0"
proof -
  have pos: "\<forall>p \<in> set (map snd (scopes s)). p < length (bufs s)" using ok by (auto simp: struct_ok_def shards_ok_def)
  note d = detach_fold [OF pos, folded detachAll_def [unfolded scopes_def [symmetric]]]
  show sc: "scopes s' = []" by (simp add: scopes_def s')
  show g: "getScope s' = (\<lambda>_. None)" by (simp add: fun_eq_iff getScope_def shardFor_def s')
  then show "view s' = (\<lambda>_. None)" by (simp add: view_def fun_eq_iff)
  show "bytesSum s' = 0" "itemsSum s' = 0" by (simp_all add: bytesSum_def itemsSum_def sc)
  have "shards_ok s'" by (simp add: shards_ok_def s' sc)
  moreover have "detached (bufs s' ! k) \<and> \<not> attached (bufs s' ! k)" if "k < length (bufs s')" for k
    using that d(8,9) ok by (auto simp: s' struct_ok_def)
  ultimately show "struct_ok s'" by (simp add: struct_ok_def sc)
qed

lemma initLocked_ok:
  assumes ok: "store_ok s" and none: "view s EventsScopeName = None" "view s InboxScopeName = None"
    and cap: "totalBytes (acct s) + reservedScopesOverhead \<le> maxStoreBytes (acct s)"
    and s': "s' = initReservedScopesLocked now s"
  shows "store_ok s'" and "conf_same s s'" and "reserved_ok s'"
    and "view s' = (view s)(EventsScopeName := Some [], InboxScopeName := Some [])"
    and "totalBytes (acct s') = totalBytes (acct s) + reservedScopesOverhead"
    and "totalItems (acct s') = totalItems (acct s)" and "lastWriteTS (acct s') = lastWriteTS (acct s)"
    and "seqs_below N s \<Longrightarrow> 0 < N \<Longrightarrow> seqs_below N s'"
    and "subs s' = subs s" and "subscribers s' = subscribers s" and "eventsDropsTotal s' = eventsDropsTotal s"
proof -
  have e: "s' = initOne now (lastWriteTS (acct (initOne now (lastWriteTS (acct s)) EventsScopeName s)))
      InboxScopeName (initOne now (lastWriteTS (acct s)) EventsScopeName s)"
    by (simp add: s' initReservedScopesLocked_def reservedScopeNames_def)
  note i = init_two_ok [OF ok none cap e]
  show "store_ok s'" "conf_same s s'" "reserved_ok s'"
    "view s' = (view s)(EventsScopeName := Some [], InboxScopeName := Some [])"
    "totalBytes (acct s') = totalBytes (acct s) + reservedScopesOverhead"
    "totalItems (acct s') = totalItems (acct s)" "lastWriteTS (acct s') = lastWriteTS (acct s)" by (fact i)+
  show "seqs_below N s \<Longrightarrow> 0 < N \<Longrightarrow> seqs_below N s'" by (rule i(8))
  have "subs (initOne now l n t) = subs t" "subscribers (initOne now l n t) = subscribers t"
    "eventsDropsTotal (initOne now l n t) = eventsDropsTotal t" for l n t
    by (simp_all add: initOne_def Let_def addScopeCount_def linkScope_def split: option.splits)
  then show "subs s' = subs s" "subscribers s' = subscribers s" "eventsDropsTotal s' = eventsDropsTotal s"
    unfolding e by simp_all
qed

lemma initLocked_keeps:
  assumes ok: "struct_ok s" and n: "getScope s n = Some p"
  shows "getScope (initReservedScopesLocked now s) n = Some p \<and> bufs (initReservedScopesLocked now s) ! p = bufs s ! p"
proof -
  have one: "struct_ok (initOne now l m t) \<and> (getScope t n = Some p \<longrightarrow>
      getScope (initOne now l m t) n = Some p \<and> bufs (initOne now l m t) ! p = bufs t ! p)"
    if t: "struct_ok t" "m \<noteq> []" for l m t
  proof (cases "getScope t m")
    case None
    let ?b = "reservedBuffer now l m t"
    note k = struct_link [OF t(1) None t(2) reserved_scope_ok, where now1 = now and lw1 = l]
    have sh: "shards_ok t" using t(1) by (simp add: struct_ok_def)
    let ?u = "linkScope m ?b t"
    have e: "initOne now l m t = addScopeCount 1 (?u\<lparr>acct := addTotals scopeBufferOverhead 0 (acct ?u)\<rparr>)"
      using None by (simp add: initOne_def Let_def)
    have c: "conf_same ?u (initOne now l m t)" by (simp add: e addScopeCount_def addTotals_def conf_same_def caps_same_def)
    have sc: "scopes (initOne now l m t) = scopes ?u" "bufs (initOne now l m t) = bufs ?u" "shards (initOne now l m t) = shards ?u"
      "getScope (initOne now l m t) = getScope ?u" "shardIdxFor (initOne now l m t) = shardIdxFor ?u"
      by (simp_all add: e addScopeCount_def scopes_def fun_eq_iff getScope_def shardFor_def shardIdxFor_def)
    have "struct_ok (initOne now l m t)"
      using k(1) unfolding struct_ok_def shards_ok_def scope_ok_conf [OF c] sc .
    moreover have "getScope ?u n = Some p \<and> bufs ?u ! p = bufs t ! p" if "getScope t n = Some p"
      using that None getScope_iff [OF sh, of n p] sh unfolding k(3,8) by (auto simp: shards_ok_def nth_append)
    ultimately show ?thesis by (simp add: sc)
  qed (simp add: initOne_def t)
  show ?thesis using one [OF ok] n one by (simp add: initReservedScopesLocked_def reservedScopeNames_def)
qed

lemma wipe_facts:
  assumes inv: "store_inv s" and r: "wipe now now' s = (r, s')"
  shows "store_inv s'" and "conf_same s s'" and "view s' = [EventsScopeName \<mapsto> [], InboxScopeName \<mapsto> []]"
    and "seqs_below 1 s'" and "totalBytes (acct s') = reservedScopesOverhead" and "totalItems (acct s') = 0"
    and "lastWriteTS (acct s') = max (lastWriteTS (acct s)) now"
    and "r = (length (scopes s), \<Sum>(n, p)\<leftarrow>scopes s. length (items (bufs s ! p)), totalBytes (acct s))"
    and "subs s' = subs s" and "subscribers s' = subscribers s" and "eventsDropsTotal s' = eventsDropsTotal s"
proof -
  have ok: "store_ok s" and st: "struct_ok s" and cap: "caps_ok s" using inv by (simp_all add: store_inv_def store_ok_split)
  have pos: "\<forall>p \<in> set (map snd (scopes s)). p < length (bufs s)" using st by (auto simp: struct_ok_def shards_ok_def)
  note d = detach_fold [OF pos, folded detachAll_def [unfolded scopes_def [symmetric]]]
  define s1 where "s1 = (detachAll s)\<lparr>scopeCount := 0,
    acct := bumpLastWriteTS now ((acct s)\<lparr>totalBytes := 0, totalItems := 0\<rparr>), shards := replicate numShards []\<rparr>"
  have e: "s' = initReservedScopesLocked now' s1"
    and r': "r = (sum_list (map length (shards s)), \<Sum>(n, p)\<leftarrow>scopes s. length (items (bufs s ! p)), totalBytes (acct s))"
    using r d(2) by (auto simp: wipe_def Let_def s1_def scopes_def)
  have c1: "conf_same s s1" using d(4) by (simp add: s1_def conf_same_def caps_same_def)
  note em = emptied [OF st, of s1]
  have em': "struct_ok s1" "scopes s1 = []" "view s1 = (\<lambda>_. None)" "bytesSum s1 = 0" "itemsSum s1 = 0"
    using em c1 by (simp_all add: s1_def)
  have ok1: "store_ok s1" using em' cap by (simp add: store_ok_split) (simp add: s1_def caps_ok_def reservedScopesOverhead_def scopeBufferOverhead_def)
  have cap1: "totalBytes (acct s1) + reservedScopesOverhead \<le> maxStoreBytes (acct s1)"
    using cap by (simp add: s1_def caps_ok_def)
  note i = initLocked_ok [OF ok1 _ _ cap1 e]
  have v: "view s1 EventsScopeName = None" "view s1 InboxScopeName = None" by (simp_all add: em'(3))
  note i = i [OF v]
  show "conf_same s s'" by (rule conf_same_trans [OF c1 i(2)])
  show "view s' = [EventsScopeName \<mapsto> [], InboxScopeName \<mapsto> []]" using i(4) em'(3) by simp
  show "seqs_below 1 s'" by (rule i(8)) (simp_all add: seqs_below_def em'(2))
  show "totalBytes (acct s') = reservedScopesOverhead" "totalItems (acct s') = 0"
    using i(5,6) by (simp_all add: s1_def)
  show "lastWriteTS (acct s') = max (lastWriteTS (acct s)) now" using i(7) by (simp add: s1_def bumpLastWriteTS_def)
  show "r = (length (scopes s), \<Sum>(n, p)\<leftarrow>scopes s. length (items (bufs s ! p)), totalBytes (acct s))"
    using r' by (simp add: scopes_def length_concat)
  show sub: "subs s' = subs s" "subscribers s' = subscribers s" and "eventsDropsTotal s' = eventsDropsTotal s"
    using i(9,10,11) d(5,6,7) by (simp_all add: s1_def)
  show "store_inv s'" using i(1,3) inv sub by (simp add: store_inv_def subs_ok_def)
qed

section \<open>Preparing a batch\<close>

definition completed :: "jsonLib \<Rightarrow> item \<Rightarrow> item" where
  "completed J it = it\<lparr>renderBytes := renderOr J (renderBytes it) (Payload it)\<rparr>"

lemma completed_simps [simp]:
  "Scope (completed J it) = Scope it" "ID (completed J it) = ID it" "UUID (completed J it) = UUID it"
  "Payload (completed J it) = Payload it"
  by (simp_all add: completed_def)

lemma validateWriteItem_completes:
  assumes "validateWriteItem J it ep m = Inr it'" shows "it' = completed J it"
proof -
  have "checkItemSize J it m = Inr it'" using assms by (simp add: validateWriteItem_def sized_Inr)
  then show ?thesis
    by (cases "renderBytes it") (auto simp: checkItemSize_def Let_def completed_def renderOr_def split: if_splits)
qed

lemma checkItems_Inr:
  "checkItems J ep cap n i its = Inr its' \<Longrightarrow> its' = map (completed J) its \<and> (\<forall>it \<in> set its. Scope it = n)"
  by (induction its arbitrary: i its') (auto split: sum.splits if_splits dest: validateWriteItem_completes)

lemma builtItem_completed [simp]: "builtItem J now mu mints q (completed J it) = builtItem J now mu mints q it"
  by (cases "renderBytes it"; cases "precomputeRenderBytes J (Payload it)")
    (simp_all add: builtItem_def completed_def Let_def renderOr_def)

lemma replacementItems_completed [simp]:
  "replacementItems J now mints (map (completed J) its) mu = replacementItems J now mints its mu"
  by (rule nth_equalityI) simp_all

text \<open>What phase 1 guarantees of a scope it accepts.\<close>

definition planned :: "jsonLib \<Rightarrow> bulkInputs \<Rightarrow> store \<Rightarrow> string \<times> item list \<Rightarrow> string \<times> scopeReplacement \<Rightarrow> bool" where
  "planned J bi s g pl \<longleftrightarrow> (case g of (n, its) \<Rightarrow> case pl of (m, r) \<Rightarrow>
     m = n \<and> n \<noteq> [] \<and> \<not> isReservedScope n \<and> int (length its) \<le> defaultMaxItems s \<and> (\<forall>it \<in> set its. Scope it = n) \<and>
     buildReplacementState J (biNow bi n) (biMint bi n) (map (completed J) its) True = Inr r)"

lemma validateScope_nonempty: "validateScope n ep = None \<Longrightarrow> n \<noteq> []"
  by (auto simp: validateScope_def split: if_splits)

lemma prepareScope_Inr:
  assumes "prepareScope J bi ep s n its = Inr (Some r)" shows "planned J bi s (n, its) (n, r)"
proof -
  obtain its' where v: "validateScope n ep = None" "\<not> isReservedScope n"
    and c: "checkItems J ep (maxItemBytes (acct s)) n 0 its = Inr its'"
    and b: "buildReplacementState J (biNow bi n) (biMint bi n) its' True = Inr r" "int (length its') \<le> defaultMaxItems s"
    using assms by (auto simp: prepareScope_def firstErr_None split: option.splits sum.splits if_splits)
  then show ?thesis using checkItems_Inr [OF c] validateScope_nonempty by (auto simp: planned_def)
qed

lemma prepare_loop_Inr:
  "prepare_loop J bi ep s grouped = Inr (plans, []) \<Longrightarrow> list_all2 (planned J bi s) grouped plans"
proof (induction grouped arbitrary: plans)
  case (Cons g grouped)
  obtain n its where g: "g = (n, its)" by fastforce
  obtain r plans' where p: "prepareScope J bi ep s n its = Inr (Some r)"
      "prepare_loop J bi ep s grouped = Inr (plans', [])" "plans = (n, r) # plans'"
    using Cons.prems by (auto simp: g split: sum.splits option.splits prod.splits)
  show ?case using Cons.IH [OF p(2)] prepareScope_Inr [OF p(1)] by (simp add: g p(3))
qed simp

lemma planned_fst: "list_all2 (planned J bi s) grouped plans \<Longrightarrow> map fst plans = map fst grouped"
  by (induction rule: list_all2_induct) (auto simp: planned_def)

text \<open>The buffer a plan commits.\<close>

lemma planned_holds:
  assumes pl: "planned J bi s (n, its) (n, r)" and len: "length its < 2 ^ 64" and h: "holds r b"
    and b: "attached b" "\<not> detached b" "maxItems b = defaultMaxItems s" "bufMaxItemBytes b = maxItemBytes (acct s)"
  shows "scope_ok s n b" and "bufItems b = replacementItems J (biNow bi n) (biMint bi n) its True"
    and "lastSeq b = length its" and "length (items b) = length its" and "byUUID_full b"
    and "idKeyBytes b = rIdKeyBytes r \<Longrightarrow> idkey_ok b" and "bytes b = sumItemBytes r"
    and "length (rItems r) = length its"
proof -
  have r: "buildReplacementState J (biNow bi n) (biMint bi n) (map (completed J) its) True = Inr r"
    and n: "\<not> isReservedScope n" "int (length its) \<le> defaultMaxItems s" "\<forall>it \<in> set its. Scope it = n"
    using pl by (auto simp: planned_def)
  have l: "length (map (completed J) its) < 2 ^ 64" using len by simp
  have c: "maxItems b > 0 \<longrightarrow> int (length (map (completed J) its)) \<le> maxItems b" using n b by simp
  note k = holds_ok [OF r l h c]
  show v: "bufItems b = replacementItems J (biNow bi n) (biMint bi n) its True" using k(3) by simp
  have "scope_items n b" unfolding scope_items_def v using n(3) by (auto dest!: replacementItems_mem)
  then show "scope_ok s n b"
    using k(1) b n(1) by (simp add: scope_ok_def maxItemsFor_def maxItemBytesFor_def isReservedScope_iff)
  show "lastSeq b = length its" using k(5) by simp
  show "length (items b) = length its" using arg_cong [OF v, of length] by simp
  show "byUUID_full b" "idKeyBytes b = rIdKeyBytes r \<Longrightarrow> idkey_ok b" by (fact k)+
  show "bytes b = sumItemBytes r" using h by (simp add: holds_def)
  show "length (rItems r) = length its" using buildReplacement_Inr(2) [OF r l] by simp
qed

section \<open>Rebuilding\<close>

definition aux_same :: "store \<Rightarrow> store \<Rightarrow> bool" where
  "aux_same s s' \<longleftrightarrow> conf_same s s' \<and> subs s' = subs s \<and> subscribers s' = subscribers s \<and>
     eventsDropsTotal s' = eventsDropsTotal s"

lemma aux_same_refl [simp]: "aux_same s s" by (simp add: aux_same_def)

lemma aux_same_trans: "aux_same s t \<Longrightarrow> aux_same t u \<Longrightarrow> aux_same s u"
  using conf_same_trans by (auto simp: aux_same_def)

lemma link_fold_all:
  assumes "struct_ok s" "distinct (map fst built)" "\<forall>(n, b) \<in> set built. getScope s n = None \<and> n \<noteq> [] \<and> scope_ok s n b"
    and "s' = fold (\<lambda>(n, b). linkScope n b) built s"
  shows "struct_ok s' \<and> aux_same s s' \<and> acct s' = acct s \<and>
    view s' = view s ++ map_of (map (\<lambda>(n, b). (n, bufItems b)) built) \<and>
    bytesSum s' = bytesSum s + (\<Sum>(n, b)\<leftarrow>built. bytes b + scopeBufferOverhead) \<and>
    itemsSum s' = itemsSum s + (\<Sum>(n, b)\<leftarrow>built. int (length (items b))) \<and>
    length (scopes s') = length (scopes s) + length built \<and>
    (seqs_below N s \<longrightarrow> (\<forall>(n, b) \<in> set built. lastSeq b < N) \<longrightarrow> seqs_below N s') \<and>
    (\<forall>(n, b) \<in> set built. \<exists>p. getScope s' n = Some p \<and> bufs s' ! p = b) \<and>
    (\<forall>n p. getScope s n = Some p \<longrightarrow> getScope s' n = Some p \<and> bufs s' ! p = bufs s ! p)"
  using assms
proof (induction built arbitrary: s)
  case (Cons nb built)
  obtain n b where nb: "nb = (n, b)" by fastforce
  have h: "getScope s n = None" "n \<noteq> []" "scope_ok s n b" using Cons.prems(3) by (auto simp: nb)
  let ?t = "linkScope n b s"
  note l = struct_link [OF Cons.prems(1) h]
  have sh: "shards_ok s" using Cons.prems(1) by (simp add: struct_ok_def)
  have aux: "aux_same s ?t" using l(2) by (simp add: aux_same_def linkScope_def)
  have n: "n \<notin> fst ` set built" "distinct (map fst built)" using Cons.prems(2) by (auto simp: nb)
  have "\<forall>(m, c) \<in> set built. getScope ?t m = None \<and> m \<noteq> [] \<and> scope_ok ?t m c"
    using Cons.prems(3) n(1) unfolding scope_ok_conf [OF l(2)] l(3) by (force simp: nb)
  note ih = Cons.IH [OF l(1) n(2) this Cons.prems(4) [unfolded nb fold_Cons comp_def prod.case]]
  have fresh: "map_of (map (\<lambda>(n, b). (n, bufItems b)) built) n = None"
    using n(1) by (force simp: map_of_eq_None_iff)
  have v: "view s' = view s ++ map_of (map (\<lambda>(n, b). (n, bufItems b)) (nb # built))"
    using ih l(4) fresh by (auto simp: nb map_add_def fun_eq_iff split: option.splits)
  have q: "seqs_below N s \<longrightarrow> lastSeq b < N \<longrightarrow> seqs_below N ?t"
    using sh unfolding seqs_below_def l(10) l(8) by (auto simp: shards_ok_def nth_append)
  have keep: "getScope ?t m = Some p \<and> bufs ?t ! p = bufs s ! p" if "getScope s m = Some p" for m p
    using that h(1) sh getScope_iff [OF sh, of m p] unfolding l(3,8) by (auto simp: shards_ok_def nth_append)
  have new: "getScope s' n = Some (length (bufs s)) \<and> bufs s' ! length (bufs s) = b"
    using ih l(3,8) by (metis fun_upd_same nth_append_length)
  note i = ih [THEN conjunct1]
    ih [THEN conjunct2, THEN conjunct1]
    ih [THEN conjunct2, THEN conjunct2, THEN conjunct1]
    ih [THEN conjunct2, THEN conjunct2, THEN conjunct2, THEN conjunct2, THEN conjunct1]
    ih [THEN conjunct2, THEN conjunct2, THEN conjunct2, THEN conjunct2, THEN conjunct2, THEN conjunct1]
    ih [THEN conjunct2, THEN conjunct2, THEN conjunct2, THEN conjunct2, THEN conjunct2, THEN conjunct2, THEN conjunct1]
    ih [THEN conjunct2, THEN conjunct2, THEN conjunct2, THEN conjunct2, THEN conjunct2, THEN conjunct2, THEN conjunct2, THEN conjunct1]
    ih [THEN conjunct2, THEN conjunct2, THEN conjunct2, THEN conjunct2, THEN conjunct2, THEN conjunct2, THEN conjunct2, THEN conjunct2, THEN conjunct1]
    ih [THEN conjunct2, THEN conjunct2, THEN conjunct2, THEN conjunct2, THEN conjunct2, THEN conjunct2, THEN conjunct2, THEN conjunct2, THEN conjunct2]
  have "(\<forall>(n, b) \<in> set (nb # built). \<exists>p. getScope s' n = Some p \<and> bufs s' ! p = b)"
    using i(8) new by (auto simp: nb)
  moreover have "\<forall>n p. getScope s n = Some p \<longrightarrow> getScope s' n = Some p \<and> bufs s' ! p = bufs s ! p"
    using i(9) keep by metis
  moreover have "seqs_below N s \<longrightarrow> (\<forall>(n, b) \<in> set (nb # built). lastSeq b < N) \<longrightarrow> seqs_below N s'"
    using q i(7) by (simp add: nb)
  moreover have "bytesSum s' = bytesSum s + (\<Sum>(n, b)\<leftarrow>nb # built. bytes b + scopeBufferOverhead)"
    "itemsSum s' = itemsSum s + (\<Sum>(n, b)\<leftarrow>nb # built. int (length (items b)))"
    "length (scopes s') = length (scopes s) + length (nb # built)" "acct s' = acct s"
    using i(3-6) l(5-7,9) by (simp_all add: nb)
  ultimately show ?case using i(1) v aux_same_trans [OF aux i(2)] by blast
qed simp

lemmas link_fold =
  link_fold_all [THEN conjunct1]
  link_fold_all [THEN conjunct2, THEN conjunct1]
  link_fold_all [THEN conjunct2, THEN conjunct2, THEN conjunct1]
  link_fold_all [THEN conjunct2, THEN conjunct2, THEN conjunct2, THEN conjunct1]
  link_fold_all [THEN conjunct2, THEN conjunct2, THEN conjunct2, THEN conjunct2, THEN conjunct1]
  link_fold_all [THEN conjunct2, THEN conjunct2, THEN conjunct2, THEN conjunct2, THEN conjunct2, THEN conjunct1]
  link_fold_all [THEN conjunct2, THEN conjunct2, THEN conjunct2, THEN conjunct2, THEN conjunct2, THEN conjunct2, THEN conjunct1]
  link_fold_all [THEN conjunct2, THEN conjunct2, THEN conjunct2, THEN conjunct2, THEN conjunct2, THEN conjunct2, THEN conjunct2, THEN conjunct1]
  link_fold_all [THEN conjunct2, THEN conjunct2, THEN conjunct2, THEN conjunct2, THEN conjunct2, THEN conjunct2, THEN conjunct2, THEN conjunct2, THEN conjunct1]
  link_fold_all [THEN conjunct2, THEN conjunct2, THEN conjunct2, THEN conjunct2, THEN conjunct2, THEN conjunct2, THEN conjunct2, THEN conjunct2, THEN conjunct2]

lemma rebuiltBuffer_holds:
  "holds r (rebuiltBuffer now s r)" "attached (rebuiltBuffer now s r)" "\<not> detached (rebuiltBuffer now s r)"
  "maxItems (rebuiltBuffer now s r) = defaultMaxItems s" "bufMaxItemBytes (rebuiltBuffer now s r) = maxItemBytes (acct s)"
  "idKeyBytes (rebuiltBuffer now s r) = 0"
  by (simp_all add: holds_def rebuiltBuffer_def store_newscopeBuffer_def newscopeBuffer_def)

text \<open>The items a batch puts into a scope.\<close>

definition batchItems :: "jsonLib \<Rightarrow> bulkInputs \<Rightarrow> string \<times> item list \<Rightarrow> string \<times> item list" where
  "batchItems J bi g = (case g of (n, its) \<Rightarrow> (n, replacementItems J (biNow bi n) (biMint bi n) its True))"

lemma fst_batchItems [simp]: "fst (batchItems J bi g) = fst g"
  by (simp add: batchItems_def case_prod_beta)

definition batchLen :: "(string \<times> item list) list \<Rightarrow> nat" where
  "batchLen grouped = (\<Sum>(n, its)\<leftarrow>grouped. length its)"

lemma batchLen_mem: "(n, its) \<in> set grouped \<Longrightarrow> length its \<le> batchLen grouped"
  by (induction grouped) (auto simp: batchLen_def)

text \<open>The buffers phase 1 of \<^verbatim>\<open>rebuildAll\<close> builds.\<close>

lemma rebuilt_list:
  assumes "list_all2 (planned J bi s) grouped plans" "\<forall>(n, its) \<in> set grouped. length its < 2 ^ 64"
    and b: "built = map (\<lambda>(n, r). (n, rebuiltBuffer (biCreate bi n) s r)) plans"
  shows "map (\<lambda>(n, b). (n, bufItems b)) built = map (batchItems J bi) grouped"
    and "\<forall>(n, b) \<in> set built. n \<noteq> [] \<and> \<not> isReservedScope n \<and> scope_ok s n b \<and> byUUID_full b \<and> idKeyBytes b = 0 \<and>
       lastSeq b \<le> batchLen grouped"
    and "(\<Sum>(n, b)\<leftarrow>built. bytes b + scopeBufferOverhead) = (\<Sum>(n, r)\<leftarrow>plans. sumItemBytes r + scopeBufferOverhead)"
    and "(\<Sum>(n, b)\<leftarrow>built. int (length (items b))) = int (\<Sum>(n, r)\<leftarrow>plans. length (rItems r))"
    and "(\<Sum>(n, r)\<leftarrow>plans. length (rItems r)) = batchLen grouped"
proof -
  have k: "scope_ok s n (rebuiltBuffer now s r) \<and> byUUID_full (rebuiltBuffer now s r) \<and>
      bufItems (rebuiltBuffer now s r) = replacementItems J (biNow bi n) (biMint bi n) its True \<and>
      lastSeq (rebuiltBuffer now s r) = length its \<and> length (rItems r) = length its"
    if "planned J bi s (n, its) (n, r)" "length its < 2 ^ 64" for n its r now
    using planned_holds [OF that rebuiltBuffer_holds(1-5)] by simp
  have "map (\<lambda>(n, b). (n, bufItems b)) built = map (batchItems J bi) grouped \<and>
    (\<forall>(n, b) \<in> set built. n \<noteq> [] \<and> \<not> isReservedScope n \<and> scope_ok s n b \<and> byUUID_full b \<and> idKeyBytes b = 0 \<and>
       lastSeq b \<le> batchLen grouped) \<and> (\<Sum>(n, r)\<leftarrow>plans. length (rItems r)) = batchLen grouped"
    using assms(1,2) unfolding b
  proof (induction rule: list_all2_induct)
    case (Cons g grouped pl plans)
    obtain n its r where g: "g = (n, its)" "pl = (n, r)" using Cons.hyps(1) by (auto simp: planned_def)
    have p: "planned J bi s (n, its) (n, r)" "length its < 2 ^ 64" using Cons.hyps Cons.prems by (auto simp: g)
    have ne: "n \<noteq> []" "\<not> isReservedScope n" using p(1) by (auto simp: planned_def)
    have ih: "map (\<lambda>(n, b). (n, bufItems b)) (map (\<lambda>(n, r). (n, rebuiltBuffer (biCreate bi n) s r)) plans) =
        map (batchItems J bi) grouped"
      "\<forall>(n, b) \<in> set (map (\<lambda>(n, r). (n, rebuiltBuffer (biCreate bi n) s r)) plans). n \<noteq> [] \<and> \<not> isReservedScope n \<and>
         scope_ok s n b \<and> byUUID_full b \<and> idKeyBytes b = 0 \<and> lastSeq b \<le> batchLen grouped"
      "(\<Sum>(n, r)\<leftarrow>plans. length (rItems r)) = batchLen grouped"
      using Cons.IH Cons.prems by auto
    show ?case using ih k [OF p] ne
      by (auto simp: g batchItems_def batchLen_def rebuiltBuffer_holds dest: order_trans intro: trans_le_add2)
  qed (simp add: batchLen_def)
  then show "map (\<lambda>(n, b). (n, bufItems b)) built = map (batchItems J bi) grouped"
    "\<forall>(n, b) \<in> set built. n \<noteq> [] \<and> \<not> isReservedScope n \<and> scope_ok s n b \<and> byUUID_full b \<and> idKeyBytes b = 0 \<and>
       lastSeq b \<le> batchLen grouped" "(\<Sum>(n, r)\<leftarrow>plans. length (rItems r)) = batchLen grouped" by blast+
  show "(\<Sum>(n, b)\<leftarrow>built. bytes b + scopeBufferOverhead) = (\<Sum>(n, r)\<leftarrow>plans. sumItemBytes r + scopeBufferOverhead)"
    unfolding b by (induction plans) (auto simp: rebuiltBuffer_def)
  show "(\<Sum>(n, b)\<leftarrow>built. int (length (items b))) = int (\<Sum>(n, r)\<leftarrow>plans. length (rItems r))"
    unfolding b by (induction plans) (auto simp: rebuiltBuffer_def)
qed

lemma rebuildAll_cases:
  assumes inv: "store_inv s" and d: "distinct (map fst grouped)" and len: "batchLen grouped < 2 ^ 64"
    and r: "rebuildAll J now now' bi grouped s = (r, s')"
  obtains (failed) e where "r = Inl e" "s' = s"
  | (okay) "r = Inr (length grouped, batchLen grouped)" "store_inv s'" "conf_same s s'"
      "view s' = (map_of (map (batchItems J bi) grouped))(EventsScopeName := Some [], InboxScopeName := Some [])"
      "seqs_below (Suc (batchLen grouped)) s'" "totalItems (acct s') = int (batchLen grouped)"
      "lastWriteTS (acct s') = max (lastWriteTS (acct s)) now"
      "\<And>n. n \<in> fst ` set grouped \<Longrightarrow> \<exists>p. getScope s' n = Some p \<and> byUUID_full (bufs s' ! p) \<and> idKeyBytes (bufs s' ! p) = 0"
      "map_of (map (batchItems J bi) grouped) EventsScopeName = None"
proof (cases "fst (rebuildAll J now now' bi grouped s)")
  case (Inl e)
  then show ?thesis using r that(1)
    by (auto simp: rebuildAll_def Let_def split: sum.splits prod.splits if_splits)
next
  case (Inr x)
  obtain plans where p: "prepare_loop J bi ''/rebuild'' s grouped = Inr (plans, [])"
    using Inr by (auto simp: rebuildAll_def split: sum.splits if_splits)
  define built where "built = map (\<lambda>(n, r). (n, rebuiltBuffer (biCreate bi n) s r)) plans"
  define nb where "nb = (\<Sum>(n, r)\<leftarrow>plans. sumItemBytes r + scopeBufferOverhead)"
  define s1 where "s1 = (detachAll s)\<lparr>shards := replicate numShards []\<rparr>"
  define s2 where "s2 = fold (\<lambda>(n, b). linkScope n b) built s1"
  note la = prepare_loop_Inr [OF p]
  have l64: "\<forall>(n, its) \<in> set grouped. length its < 2 ^ 64" using len batchLen_mem by (fastforce dest: order_le_less_trans)
  note rl = rebuilt_list [OF la l64 built_def]
  have cap: "nb + reservedScopesOverhead \<le> maxStoreBytes (acct s)"
    using Inr by (auto simp: rebuildAll_def p Let_def nb_def split: if_splits)
  define a4 where "a4 = bumpLastWriteTS now ((acct s2)\<lparr>totalBytes := nb, totalItems := int (batchLen grouped)\<rparr>)"
  define s4 where "s4 = s2\<lparr>scopeCount := int (length plans), acct := a4\<rparr>"
  have res: "r = Inr (length plans, batchLen grouped)" "s' = initReservedScopesLocked now' s4"
    using r cap by (simp_all add: rebuildAll_def p Let_def nb_def built_def s1_def s2_def s4_def a4_def rl(5))
  have st: "struct_ok s" and co: "caps_ok s" using inv by (simp_all add: store_inv_def store_ok_split)
  have pos: "\<forall>q \<in> set (map snd (scopes s)). q < length (bufs s)" using st by (auto simp: struct_ok_def shards_ok_def)
  note df = detach_fold [OF pos, folded detachAll_def [unfolded scopes_def [symmetric]]]
  have aux1: "aux_same s s1" using df(4-7) by (simp add: aux_same_def s1_def conf_same_def)
  have e1: "struct_ok s1" "scopes s1 = []" "view s1 = (\<lambda>_. None)" "getScope s1 = (\<lambda>_. None)" "bytesSum s1 = 0" "itemsSum s1 = 0"
    using emptied [OF st, of s1] aux1 by (simp_all add: s1_def aux_same_def)
  have dist: "distinct (map fst built)" using d planned_fst [OF la] by (simp add: built_def comp_def case_prod_beta)
  have bok: "\<forall>(n, b) \<in> set built. getScope s1 n = None \<and> n \<noteq> [] \<and> scope_ok s1 n b"
    using rl(2) aux1 by (auto simp: e1(4) aux_same_def scope_ok_conf)
  note lf = link_fold [OF e1(1) dist bok s2_def]
  have f2: "struct_ok s2" "aux_same s1 s2" "view s2 = map_of (map (batchItems J bi) grouped)" "bytesSum s2 = nb"
    "itemsSum s2 = int (batchLen grouped)" "length (scopes s2) = length plans"
    using lf(1-7) rl(1,3,4,5) e1 by (simp_all add: nb_def built_def)
  have "seqs_below (Suc (batchLen grouped)) s1" by (simp add: seqs_below_def e1)
  then have f4: "seqs_below (Suc (batchLen grouped)) s2" using lf(8) rl(2) by (fastforce simp: less_Suc_eq_le)
  have c24: "aux_same s2 s4" by (simp add: s4_def a4_def aux_same_def conf_same_def caps_same_def)
  have aux: "aux_same s s4" using aux1 f2(2) c24 aux_same_trans by blast
  have m: "maxStoreBytes (acct s4) = maxStoreBytes (acct s)" using aux by (simp add: aux_same_def conf_same_def caps_same_def)
  have sc: "scopes s4 = scopes s2" "bufs s4 = bufs s2" "getScope s4 = getScope s2"
    by (simp_all add: s4_def scopes_def fun_eq_iff getScope_def shardFor_def shardIdxFor_def)
  have v4: "view s4 = view s2" by (simp add: fun_eq_iff view_def sc)
  have st4: "struct_ok s4"
    using f2(1) scope_ok_conf [of s2 s4] c24 unfolding struct_ok_def shards_ok_def sc
    by (simp add: aux_same_def s4_def shardIdxFor_def)
  have t4: "totalBytes (acct s4) = nb" "totalItems (acct s4) = int (batchLen grouped)" by (simp_all add: s4_def a4_def)
  have ok4: "store_ok s4"
    using st4 f2 t4 cap co m unfolding store_ok_split bytesSum_def itemsSum_def sc
    by (simp add: s4_def caps_ok_def bytesSum_def itemsSum_def reservedScopesOverhead_def scopeBufferOverhead_def)
  have "map fst built = map fst plans" by (simp add: built_def comp_def case_prod_beta)
  then have names: "fst ` set grouped = fst ` set built"
    using arg_cong [OF planned_fst [OF la], of set] arg_cong [of _ _ set] by (metis list.set_map)
  have res0: "view s4 n = None" if "isReservedScope n" for n
  proof -
    have "n \<notin> fst ` set built" using that rl(2) by (auto simp: case_prod_beta)
    then have "n \<notin> fst ` set (map (batchItems J bi) grouped)" unfolding names [symmetric] by (simp add: image_image)
    then show ?thesis unfolding v4 f2(3) map_of_eq_None_iff .
  qed
  have cap4: "totalBytes (acct s4) + reservedScopesOverhead \<le> maxStoreBytes (acct s4)" using cap t4 m by simp
  note i = initLocked_ok [OF ok4 res0 res0 cap4 res(2)]
  have inv': "store_inv s'" using i(1,3,9,10) inv aux by (simp add: store_inv_def subs_ok_def aux_same_def isReservedScope_iff)
  have conf': "conf_same s s'" using conf_same_trans [of s s4] i(2) aux by (simp add: aux_same_def isReservedScope_iff)
  have view': "view s' = (map_of (map (batchItems J bi) grouped))(EventsScopeName := Some [], InboxScopeName := Some [])"
    using i(4) by (simp add: v4 f2(3) isReservedScope_iff)
  have seq': "seqs_below (Suc (batchLen grouped)) s'"
    using i(8) f4 by (simp add: seqs_below_def sc isReservedScope_iff)
  have ts: "lastWriteTS (acct s') = max (lastWriteTS (acct s)) now"
    using i(7) lf(3) df(2) by (simp add: s4_def a4_def bumpLastWriteTS_def s1_def isReservedScope_iff)
  have it': "totalItems (acct s') = int (batchLen grouped)" using i(6) t4(2) by (simp add: isReservedScope_iff)
  have lp: "length plans = length grouped" using list_all2_lengthD [OF la] by simp
  have keep: "\<exists>q. getScope s' n = Some q \<and> byUUID_full (bufs s' ! q) \<and> idKeyBytes (bufs s' ! q) = 0"
    if n: "n \<in> fst ` set grouped" for n
  proof -
    obtain b where b: "(n, b) \<in> set built" using n names by force
    then obtain q where q: "getScope s4 n = Some q" "bufs s4 ! q = b" using lf(9) unfolding sc by (auto simp: split_beta dest!: bspec)
    have "getScope s' n = Some q \<and> bufs s' ! q = bufs s4 ! q"
      using q(1) unfolding res(2) by (rule initLocked_keeps [OF st4])
    then show ?thesis using rl(2) b q(2) by auto
  qed
  have ev: "map_of (map (batchItems J bi) grouped) EventsScopeName = None"
    using res0 [of EventsScopeName] by (simp add: v4 f2(3))
  show ?thesis by (rule that(2) [OF _ inv' conf' view' seq' it' ts keep ev]) (simp add: res(1) lp)
qed

end
