(* ===== verification/Bulk_Warm.thy ===== *)
theory Bulk_Warm
  imports Bulk
begin

text \<open>
  \<^verbatim>\<open>/warm\<close>: the batch is reserved as one delta and then committed scope by scope. The proof follows the
  scope map and the two totals separately until the last commit, where they meet again; a batch is
  applied as a whole or not at all.
\<close>

section \<open>One commit\<close>

lemma oldBytes_Some: "getScope s n = Some p \<Longrightarrow> oldBytes s n = bytes (bufs s ! p)"
  and oldBytes_None: "getScope s n = None \<Longrightarrow> oldBytes s n = 0"
  by (simp_all add: oldBytes_def)

lemma preReserved_no_drift:
  assumes "attached b" "bytes b = old" "commitReplacementPreReserved now r nb old a b = (a', b')"
  shows "totalBytes a' = totalBytes a" and "caps_same a a'" and "lastWriteTS a' = max (lastWriteTS a) now"
    and "totalItems a' = i64 (totalItems a + (int (length (rItems r)) - int (length (items b))))"
    and "b' = swapIn r nb now b"
  using assms by (auto simp: commitReplacementPreReserved_def Let_def caps_same_def bumpLastWriteTS_def)

lemma swapIn_frame:
  "attached (swapIn r nb now b) = attached b" "detached (swapIn r nb now b) = detached b"
  "maxItems (swapIn r nb now b) = maxItems b" "bufMaxItemBytes (swapIn r nb now b) = bufMaxItemBytes b"
  "idKeyBytes (swapIn r nb now b) = rIdKeyBytes r" "length (items (swapIn r nb now b)) = length (rItems r)"
  by (simp_all add: swapIn_def)

text \<open>The commit into a linked scope.\<close>

lemma commit_linked:
  assumes st: "struct_ok t" and c: "conf_same s t" and pl: "planned J bi s (n, its) (n, r)" and len: "length its < 2 ^ 64"
    and g: "getScope t n = Some p" and old: "bytes (bufs t ! p) = old"
    and cm: "commitReplacementPreReserved now r (sumItemBytes r) old (acct t) (bufs t ! p) = (a', b')"
    and t': "t' = t\<lparr>acct := a', bufs := (bufs t)[p := b']\<rparr>"
  shows "struct_ok t'" and "aux_same t t'" and "getScope t' = getScope t" and "scopes t' = scopes t"
    and "view t' = (view t)(n := Some (replacementItems J (biNow bi n) (biMint bi n) its True))"
    and "bytesSum t' = bytesSum t + (sumItemBytes r - old)"
    and "totalBytes (acct t') = totalBytes (acct t)"
    and "totalItems (acct t') = i64 (totalItems (acct t) + (itemsSum t' - itemsSum t))"
    and "lastWriteTS (acct t) \<le> lastWriteTS (acct t')"
    and "bufs t' ! q = (if q = p then b' else bufs t ! q)" and "lastSeq b' = length its"
    and "idkey_ok b' \<and> byUUID_full b'"
proof -
  have sh: "shards_ok t" using st by (simp add: struct_ok_def)
  have sok: "scope_ok t n (bufs t ! p)" using st getScope_iff [OF sh, of n p] g by (auto simp: struct_ok_def)
  have nr: "\<not> isReservedScope n" using pl by (simp add: planned_def)
  have b: "attached (bufs t ! p)" "\<not> detached (bufs t ! p)" "maxItems (bufs t ! p) = defaultMaxItems s"
    "bufMaxItemBytes (bufs t ! p) = maxItemBytes (acct s)"
    using sok nr unfolding scope_ok_conf [OF c]
    by (simp_all add: scope_ok_def maxItemsFor_def maxItemBytesFor_def isReservedScope_iff)
  note d = preReserved_no_drift [OF b(1) old cm]
  have h: "holds r b'" unfolding d(5) by (rule swapIn_holds)
  have fr: "attached b'" "\<not> detached b'" "maxItems b' = defaultMaxItems s" "bufMaxItemBytes b' = maxItemBytes (acct s)"
    "idKeyBytes b' = rIdKeyBytes r"
    using b by (simp_all add: d(5) swapIn_frame)
  note k = planned_holds [OF pl len h fr(1-4)]
  have sok': "scope_ok t n b'" using k(1) unfolding scope_ok_conf [OF c] .
  note u = struct_set [OF st g sok' d(2) t']
  show "struct_ok t'" "getScope t' = getScope t" "scopes t' = scopes t" by (fact u)+
  show "aux_same t t'" using u(2) by (simp add: aux_same_def t')
  show "view t' = (view t)(n := Some (replacementItems J (biNow bi n) (biMint bi n) its True))" using u(5) k(2) by simp
  show "bytesSum t' = bytesSum t + (sumItemBytes r - old)" using u(6) k(7) old by simp
  show "totalBytes (acct t') = totalBytes (acct t)" "lastWriteTS (acct t) \<le> lastWriteTS (acct t')"
    using d(1,3) by (simp_all add: t')
  show "totalItems (acct t') = i64 (totalItems (acct t) + (itemsSum t' - itemsSum t))"
    using d(4) u(7) k(4,8) by (simp add: t')
  show "bufs t' ! q = (if q = p then b' else bufs t ! q)" by (rule u(8))
  show "lastSeq b' = length its" by (rule k(3))
  show "idkey_ok b' \<and> byUUID_full b'" using k(5,6) fr(5) by simp
qed

text \<open>Phase 2 finds the scope or creates it.\<close>

definition ensured :: "bulkInputs \<Rightarrow> string \<Rightarrow> store \<Rightarrow> store" where
  "ensured bi n t = (case getScope t n of Some p \<Rightarrow> t | None \<Rightarrow> linkScope n (store_newscopeBuffer (biCreate bi n) t) t)"

lemma ensured_ok:
  assumes st: "struct_ok t" and ne: "n \<noteq> []" "\<not> isReservedScope n" and u: "u = ensured bi n t"
  obtains p where "struct_ok u" "aux_same t u" "acct u = acct t" "getScope u n = Some p" "scopeCount u = scopeCount t"
    "bytes (bufs u ! p) = oldBytes t n" "itemsSum u = itemsSum t"
    "bytesSum u = bytesSum t + (if getScope t n = None then scopeBufferOverhead else 0)"
    "\<And>z. (view u)(n := z) = (view t)(n := z)"
    "\<And>m. m \<noteq> n \<Longrightarrow> getScope u m = getScope t m" "\<And>m q. getScope t m = Some q \<Longrightarrow> bufs u ! q = bufs t ! q"
    "\<And>N. seqs_below N t \<Longrightarrow> 0 < N \<Longrightarrow> seqs_below N u"
    "int (length (scopes u)) = int (length (scopes t)) + (if getScope t n = None then 1 else 0)"
    "p = (case getScope t n of Some p \<Rightarrow> p | None \<Rightarrow> length (bufs t))"
proof (cases "getScope t n")
  case None
  let ?b = "store_newscopeBuffer (biCreate bi n) t"
  have fresh: "bytes ?b = 0" "items ?b = []" "lastSeq ?b = 0"
    by (simp_all add: store_newscopeBuffer_def newscopeBuffer_def)
  have e: "u = linkScope n ?b t" using None by (simp add: u ensured_def)
  note k = struct_link [OF st None ne(1) fresh_scope_ok [OF ne(2)], where now1 = "biCreate bi n", folded e]
  have sh: "shards_ok t" using st by (simp add: struct_ok_def)
  have aux: "aux_same t u" using k(2) by (simp add: aux_same_def e linkScope_def)
  have old: "bufs u ! q = bufs t ! q" if "getScope t m = Some q" for m q
    using that getScope_iff [OF sh, of m q] sh unfolding k(8) by (auto simp: shards_ok_def nth_append)
  have seq: "seqs_below N t \<Longrightarrow> 0 < N \<Longrightarrow> seqs_below N u" for N
    using sh fresh unfolding seqs_below_def k(10,8) by (auto simp: shards_ok_def nth_append)
  show ?thesis
    by (rule that [OF k(1) aux k(9) _ _ _ _ _ _ _ old seq, of "length (bufs t)"])
      (use None fresh k in \<open>simp_all add: oldBytes_None, simp add: e linkScope_def\<close>)
next
  case (Some p)
  then have "u = t" by (simp add: u ensured_def)
  then show ?thesis using Some st by (intro that [of p]) (simp_all add: oldBytes_Some)
qed

text \<open>One iteration of phase 2, whether the scope exists or not.\<close>

lemma commitPlan_ok:
  assumes st: "struct_ok t" and c: "conf_same s t" and pl: "planned J bi s (n, its) (n, r)" and len: "length its < 2 ^ 64"
    and old: "old n = oldBytes t n" and cm: "commitPlan bi old (n, r) (t, k) = (t', k')"
  shows "struct_ok t'" and "aux_same t t'"
    and "view t' = (view t)(n := Some (replacementItems J (biNow bi n) (biMint bi n) its True))"
    and "bytesSum t' = bytesSum t + planDelta t (n, r)" and "totalBytes (acct t') = totalBytes (acct t)"
    and "totalItems (acct t') = i64 (totalItems (acct t) + (itemsSum t' - itemsSum t))"
    and "lastWriteTS (acct t) \<le> lastWriteTS (acct t')"
    and "int (length (scopes t')) - k' = int (length (scopes t)) - k" and "k \<le> k'" and "scopeCount t' = scopeCount t"
    and "\<And>m x. m \<noteq> n \<Longrightarrow> oldBytes t' m = oldBytes t m \<and> planDelta t' (m, x) = planDelta t (m, x)"
    and "seqs_below N t \<Longrightarrow> length its < N \<Longrightarrow> seqs_below N t'"
    and "\<exists>p. getScope t' n = Some p \<and> idkey_ok (bufs t' ! p) \<and> byUUID_full (bufs t' ! p)"
    and "m \<noteq> n \<Longrightarrow> getScope t m = Some q \<Longrightarrow> getScope t' m = Some q \<and> bufs t' ! q = bufs t ! q"
proof -
  have ne: "n \<noteq> []" "\<not> isReservedScope n" using pl by (simp_all add: planned_def)
  define u where "u = ensured bi n t"
  obtain p where u: "struct_ok u" "aux_same t u" "acct u = acct t" "getScope u n = Some p" "scopeCount u = scopeCount t"
    "bytes (bufs u ! p) = oldBytes t n" "itemsSum u = itemsSum t"
    "bytesSum u = bytesSum t + (if getScope t n = None then scopeBufferOverhead else 0)"
    "\<And>z. (view u)(n := z) = (view t)(n := z)"
    "\<And>m. m \<noteq> n \<Longrightarrow> getScope u m = getScope t m" "\<And>m q. getScope t m = Some q \<Longrightarrow> bufs u ! q = bufs t ! q"
    "\<And>N. seqs_below N t \<Longrightarrow> 0 < N \<Longrightarrow> seqs_below N u"
    "int (length (scopes u)) = int (length (scopes t)) + (if getScope t n = None then 1 else 0)"
    and p: "p = (case getScope t n of Some p \<Rightarrow> p | None \<Rightarrow> length (bufs t))"
    by (rule ensured_ok [OF st ne u_def]) blast
  obtain a' b' where ab: "commitReplacementPreReserved (biCommit bi n) r (sumItemBytes r) (oldBytes t n) (acct u) (bufs u ! p) = (a', b')"
    by fastforce
  have t': "t' = u\<lparr>acct := a', bufs := (bufs u)[p := b']\<rparr>" and k': "k' = k + (if getScope t n = None then 1 else 0)"
    using cm ab by (auto simp: commitPlan_def old u_def ensured_def p Let_def split: option.splits prod.splits)
  have cu: "conf_same s u" using u(2) conf_same_trans [OF c] by (simp add: aux_same_def)
  note k = commit_linked [OF u(1) cu pl len u(4,6) ab t']
  show "struct_ok t'" by (rule k(1))
  show "aux_same t t'" by (rule aux_same_trans [OF u(2) k(2)])
  show "view t' = (view t)(n := Some (replacementItems J (biNow bi n) (biMint bi n) its True))" using k(5) u(9) by simp
  show "bytesSum t' = bytesSum t + planDelta t (n, r)" using k(6) u(8) by (simp add: planDelta_def)
  show "totalBytes (acct t') = totalBytes (acct t)" "lastWriteTS (acct t) \<le> lastWriteTS (acct t')" using k(7,9) u(3) by simp_all
  show "totalItems (acct t') = i64 (totalItems (acct t) + (itemsSum t' - itemsSum t))" using k(8) u(3,7) by simp
  show "int (length (scopes t')) - k' = int (length (scopes t)) - k" "k \<le> k'" using k(4) k' u(13) by simp_all
  show "scopeCount t' = scopeCount t" using u(5) by (simp add: t')
  have keep: "getScope t' m = Some q \<and> bufs t' ! q = bufs t ! q" if m: "m \<noteq> n" and q: "getScope t m = Some q" for m q
  proof -
    have sh: "shards_ok u" using u(1) by (simp add: struct_ok_def)
    have "q \<noteq> p" using q m u(4) u(10) [OF m] scopes_inj_snd [OF sh] getScope_iff [OF sh] by metis
    then show ?thesis using k(3) k(10) [of q] u(10) [OF m] u(11) [OF q] q by simp
  qed
  then show "m \<noteq> n \<Longrightarrow> getScope t m = Some q \<Longrightarrow> getScope t' m = Some q \<and> bufs t' ! q = bufs t ! q" .
  show "\<exists>p. getScope t' n = Some p \<and> idkey_ok (bufs t' ! p) \<and> byUUID_full (bufs t' ! p)"
    using k(3,12) k(10) [of p] u(4) by simp
  show "oldBytes t' m = oldBytes t m \<and> planDelta t' (m, x) = planDelta t (m, x)" if m: "m \<noteq> n" for m x
  proof -
    have g: "getScope t' m = getScope t m" using m k(3) u(10) by simp
    have "bufs t' ! q = bufs t ! q" if q: "getScope t m = Some q" for q using keep [OF m q] by blast
    then have "oldBytes t' m = oldBytes t m" using g by (cases "getScope t m") (simp_all add: oldBytes_def)
    then show ?thesis using g by (simp add: planDelta_def)
  qed
  show "seqs_below N t \<Longrightarrow> length its < N \<Longrightarrow> seqs_below N t'"
    using u(12) [of N] k(11) unfolding seqs_below_def k(4,10) by (auto simp: split_beta)
qed

section \<open>The whole batch\<close>

lemma i64_add_left: "i64 (i64 a + b) = i64 (a + b)"
proof -
  have "i64 a + b + 2 ^ 63 = (a + 2 ^ 63) mod 2 ^ 64 + b" by (simp add: i64_def)
  then have "i64 (i64 a + b) = ((a + 2 ^ 63) mod 2 ^ 64 + b) mod 2 ^ 64 - 2 ^ 63" by (simp only: i64_def [of "i64 a + b"])
  also have "\<dots> = (a + 2 ^ 63 + b) mod 2 ^ 64 - 2 ^ 63" by (simp only: mod_add_left_eq)
  finally show ?thesis by (simp add: i64_def algebra_simps)
qed

lemma commit_fold_all:
  assumes "list_all2 (planned J bi s) grouped plans" "distinct (map fst plans)" "struct_ok t" "conf_same s t"
    "\<forall>(n, its) \<in> set grouped. length its < 2 ^ 64" "\<forall>pl \<in> set plans. old (fst pl) = oldBytes t (fst pl)"
    "fold (commitPlan bi old) plans (t, k) = (t', k')" "totalItems (acct t) = i64 (x + itemsSum t)"
  shows "struct_ok t' \<and> aux_same t t' \<and> view t' = view t ++ map_of (map (batchItems J bi) grouped) \<and>
    bytesSum t' = bytesSum t + (\<Sum>pl\<leftarrow>plans. planDelta t pl) \<and> totalBytes (acct t') = totalBytes (acct t) \<and>
    totalItems (acct t') = i64 (x + itemsSum t') \<and> lastWriteTS (acct t) \<le> lastWriteTS (acct t') \<and>
    int (length (scopes t')) - k' = int (length (scopes t)) - k \<and> k \<le> k' \<and> scopeCount t' = scopeCount t \<and>
    (\<forall>N. seqs_below N t \<longrightarrow> (\<forall>(n, its) \<in> set grouped. length its < N) \<longrightarrow> seqs_below N t')"
  using assms
proof (induction arbitrary: t k rule: list_all2_induct)
  case (Cons g grouped pl plans)
  obtain n its r where g: "g = (n, its)" "pl = (n, r)" using Cons.hyps(1) by (auto simp: planned_def)
  obtain t1 k1 where c1: "commitPlan bi old (n, r) (t, k) = (t1, k1)" by fastforce
  have p: "planned J bi s (n, its) (n, r)" "length its < 2 ^ 64" "old n = oldBytes t n"
    using Cons.hyps Cons.prems by (auto simp: g)
  note k = commitPlan_ok [OF Cons.prems(2,3) p c1]
  have nf: "n \<notin> fst ` set plans" using Cons.prems(1) by (simp add: g)
  have nd: "(\<Sum>pl\<leftarrow>plans. planDelta t1 pl) = (\<Sum>pl\<leftarrow>plans. planDelta t pl)"
    by (rule arg_cong [where f = sum_list], rule map_cong) (use nf k(11) in \<open>auto simp: image_iff\<close>)
  have ol: "\<forall>pl \<in> set plans. old (fst pl) = oldBytes t1 (fst pl)"
    using Cons.prems(5) nf k(11) by (auto simp: image_iff)
  have it: "totalItems (acct t1) = i64 (x + itemsSum t1)" unfolding k(6) Cons.prems(7) i64_add_left by simp
  have cs: "conf_same s t1" using k(2) conf_same_trans [OF Cons.prems(3)] by (simp add: aux_same_def)
  have ih: "struct_ok t' \<and> aux_same t1 t' \<and> view t' = view t1 ++ map_of (map (batchItems J bi) grouped) \<and>
    bytesSum t' = bytesSum t1 + (\<Sum>pl\<leftarrow>plans. planDelta t1 pl) \<and> totalBytes (acct t') = totalBytes (acct t1) \<and>
    totalItems (acct t') = i64 (x + itemsSum t') \<and> lastWriteTS (acct t1) \<le> lastWriteTS (acct t') \<and>
    int (length (scopes t')) - k' = int (length (scopes t1)) - k1 \<and> k1 \<le> k' \<and> scopeCount t' = scopeCount t1 \<and>
    (\<forall>N. seqs_below N t1 \<longrightarrow> (\<forall>(n, its) \<in> set grouped. length its < N) \<longrightarrow> seqs_below N t')"
    by (rule Cons.IH [OF _ k(1) cs _ ol _ it]) (use Cons.prems c1 in \<open>auto simp: g\<close>)
  have names: "fst ` set plans = fst ` set grouped"
    using arg_cong [OF planned_fst [OF Cons.hyps(2)], of set] by simp
  have fresh: "map_of (map (batchItems J bi) grouped) n = None"
    using nf unfolding names map_of_eq_None_iff by (simp add: image_image)
  have v: "view t' = view t ++ map_of (map (batchItems J bi) (g # grouped))"
    using ih k(3) fresh by (auto simp: g map_add_def fun_eq_iff batchItems_def split: option.splits)
  have q: "\<forall>N. seqs_below N t \<longrightarrow> (\<forall>(n, its) \<in> set (g # grouped). length its < N) \<longrightarrow> seqs_below N t'"
    using ih k(12) by (simp add: g)
  note i = ih [THEN conjunct1]
    ih [THEN conjunct2, THEN conjunct1]
    ih [THEN conjunct2, THEN conjunct2, THEN conjunct1]
    ih [THEN conjunct2, THEN conjunct2, THEN conjunct2, THEN conjunct1]
    ih [THEN conjunct2, THEN conjunct2, THEN conjunct2, THEN conjunct2, THEN conjunct1]
    ih [THEN conjunct2, THEN conjunct2, THEN conjunct2, THEN conjunct2, THEN conjunct2, THEN conjunct1]
    ih [THEN conjunct2, THEN conjunct2, THEN conjunct2, THEN conjunct2, THEN conjunct2, THEN conjunct2, THEN conjunct1]
    ih [THEN conjunct2, THEN conjunct2, THEN conjunct2, THEN conjunct2, THEN conjunct2, THEN conjunct2, THEN conjunct2, THEN conjunct1]
    ih [THEN conjunct2, THEN conjunct2, THEN conjunct2, THEN conjunct2, THEN conjunct2, THEN conjunct2, THEN conjunct2, THEN conjunct2, THEN conjunct1]
    ih [THEN conjunct2, THEN conjunct2, THEN conjunct2, THEN conjunct2, THEN conjunct2, THEN conjunct2, THEN conjunct2, THEN conjunct2, THEN conjunct2, THEN conjunct1]
    ih [THEN conjunct2, THEN conjunct2, THEN conjunct2, THEN conjunct2, THEN conjunct2, THEN conjunct2, THEN conjunct2, THEN conjunct2, THEN conjunct2, THEN conjunct2]
  have "bytesSum t' = bytesSum t + (\<Sum>pl\<leftarrow>pl # plans. planDelta t pl)" "aux_same t t'"
    "totalBytes (acct t') = totalBytes (acct t)" "lastWriteTS (acct t) \<le> lastWriteTS (acct t')"
    "int (length (scopes t')) - k' = int (length (scopes t)) - k" "k \<le> k'" "scopeCount t' = scopeCount t"
    using i(4) nd k(4) aux_same_trans [OF k(2) i(2)] i(5,7-10) k(5,7-10) by (simp_all add: g)
  then show ?case using i(1,6) v q by blast
qed (simp add: case_prod_beta)

lemmas commit_fold =
  commit_fold_all [THEN conjunct1]
  commit_fold_all [THEN conjunct2, THEN conjunct1]
  commit_fold_all [THEN conjunct2, THEN conjunct2, THEN conjunct1]
  commit_fold_all [THEN conjunct2, THEN conjunct2, THEN conjunct2, THEN conjunct1]
  commit_fold_all [THEN conjunct2, THEN conjunct2, THEN conjunct2, THEN conjunct2, THEN conjunct1]
  commit_fold_all [THEN conjunct2, THEN conjunct2, THEN conjunct2, THEN conjunct2, THEN conjunct2, THEN conjunct1]
  commit_fold_all [THEN conjunct2, THEN conjunct2, THEN conjunct2, THEN conjunct2, THEN conjunct2, THEN conjunct2, THEN conjunct1]
  commit_fold_all [THEN conjunct2, THEN conjunct2, THEN conjunct2, THEN conjunct2, THEN conjunct2, THEN conjunct2, THEN conjunct2, THEN conjunct1]
  commit_fold_all [THEN conjunct2, THEN conjunct2, THEN conjunct2, THEN conjunct2, THEN conjunct2, THEN conjunct2, THEN conjunct2, THEN conjunct2, THEN conjunct1]
  commit_fold_all [THEN conjunct2, THEN conjunct2, THEN conjunct2, THEN conjunct2, THEN conjunct2, THEN conjunct2, THEN conjunct2, THEN conjunct2, THEN conjunct2, THEN conjunct1]
  commit_fold_all [THEN conjunct2, THEN conjunct2, THEN conjunct2, THEN conjunct2, THEN conjunct2, THEN conjunct2, THEN conjunct2, THEN conjunct2, THEN conjunct2, THEN conjunct2]

text \<open>What phase 2 leaves in the scopes: a complete index of uuids and an exact total of id bytes in those of the batch.\<close>

lemma commit_fold_scopes:
  assumes "list_all2 (planned J bi s) grouped plans" "distinct (map fst plans)" "struct_ok t" "conf_same s t"
    "\<forall>(n, its) \<in> set grouped. length its < 2 ^ 64" "\<forall>pl \<in> set plans. old (fst pl) = oldBytes t (fst pl)"
    "fold (commitPlan bi old) plans (t, k) = (t', k')"
  shows "(\<forall>n \<in> fst ` set plans. \<exists>p. getScope t' n = Some p \<and> idkey_ok (bufs t' ! p) \<and> byUUID_full (bufs t' ! p)) \<and>
    (\<forall>m q. m \<notin> fst ` set plans \<longrightarrow> getScope t m = Some q \<longrightarrow> getScope t' m = Some q \<and> bufs t' ! q = bufs t ! q)"
  using assms
proof (induction arbitrary: t k rule: list_all2_induct)
  case (Cons g grouped pl plans)
  obtain n its r where g: "g = (n, its)" "pl = (n, r)" using Cons.hyps(1) by (auto simp: planned_def)
  obtain t1 k1 where c1: "commitPlan bi old (n, r) (t, k) = (t1, k1)" by fastforce
  have p: "planned J bi s (n, its) (n, r)" "length its < 2 ^ 64" "old n = oldBytes t n"
    using Cons.hyps Cons.prems by (auto simp: g)
  note c = commitPlan_ok [OF Cons.prems(2,3) p c1]
  have nf: "n \<notin> fst ` set plans" using Cons.prems(1) by (simp add: g)
  have ol: "\<forall>pl \<in> set plans. old (fst pl) = oldBytes t1 (fst pl)"
    using Cons.prems(5) nf c(11) by (auto simp: image_iff)
  have cs: "conf_same s t1" using c(2) conf_same_trans [OF Cons.prems(3)] by (simp add: aux_same_def)
  have ih: "(\<forall>n \<in> fst ` set plans. \<exists>p. getScope t' n = Some p \<and> idkey_ok (bufs t' ! p) \<and> byUUID_full (bufs t' ! p)) \<and>
    (\<forall>m q. m \<notin> fst ` set plans \<longrightarrow> getScope t1 m = Some q \<longrightarrow> getScope t' m = Some q \<and> bufs t' ! q = bufs t1 ! q)"
    by (rule Cons.IH [OF _ c(1) cs _ ol]) (use Cons.prems c1 in \<open>auto simp: g\<close>)
  obtain q where "getScope t1 n = Some q" "idkey_ok (bufs t1 ! q)" "byUUID_full (bufs t1 ! q)" using c(13) by blast
  then have "\<exists>p. getScope t' n = Some p \<and> idkey_ok (bufs t' ! p) \<and> byUUID_full (bufs t' ! p)" using ih nf by auto
  moreover have "getScope t' m = Some q \<and> bufs t' ! q = bufs t ! q" if "m \<noteq> n" "m \<notin> fst ` set plans" "getScope t m = Some q" for m q
    using c(14) [OF that(1,3)] ih that(2) by auto
  ultimately show ?case using ih by (auto simp: g)
qed simp

lemma struct_sums:
  assumes "struct_ok s"
  shows "0 \<le> itemsSum s" and "48 * itemsSum s \<le> bytesSum s" and "scopeBufferOverhead * int (length (scopes s)) \<le> bytesSum s"
proof -
  have b: "0 \<le> bytes (bufs s ! snd x) \<and> 48 * int (length (items (bufs s ! snd x))) \<le> bytes (bufs s ! snd x)"
    if "x \<in> set (scopes s)" for x
    using that assms buf_bytes_nonneg [of "bufs s ! snd x"] by (auto simp: struct_ok_def scope_ok_def split_beta)
  show "0 \<le> itemsSum s" unfolding itemsSum_def by (rule sum_list_nonneg) auto
  have "(\<Sum>x\<leftarrow>scopes s. 48 * (case x of (n, p) \<Rightarrow> int (length (items (bufs s ! p))))) \<le>
      (\<Sum>(n, p)\<leftarrow>scopes s. bytes (bufs s ! p) + scopeBufferOverhead)"
    by (rule sum_list_mono) (use b in \<open>force simp: split_beta scopeBufferOverhead_def\<close>)
  then show "48 * itemsSum s \<le> bytesSum s" by (simp add: itemsSum_def bytesSum_def sum_list_const_mult)
  have "(\<Sum>x\<leftarrow>scopes s. scopeBufferOverhead) \<le> (\<Sum>(n, p)\<leftarrow>scopes s. bytes (bufs s ! p) + scopeBufferOverhead)"
    by (rule sum_list_mono) (use b in \<open>force simp: split_beta\<close>)
  then show "scopeBufferOverhead * int (length (scopes s)) \<le> bytesSum s"
    by (simp add: bytesSum_def sum_list_triv mult.commute)
qed

lemma struct_acct:
  assumes "struct_ok s" "caps_same (acct s) a" "s' = s\<lparr>acct := a\<rparr>"
  shows "struct_ok s'" and "bytesSum s' = bytesSum s" and "itemsSum s' = itemsSum s" and "scopes s' = scopes s"
    and "view s' = view s" and "aux_same s s'" and "oldBytes s' = oldBytes s" and "planDelta s' = planDelta s"
    and "seqs_below N s' = seqs_below N s"
proof -
  have g: "getScope s' = getScope s" and b: "bufs s' = bufs s" and h: "shards s' = shards s" "shardIdxFor s' = shardIdxFor s"
    by (simp_all add: assms(3) fun_eq_iff getScope_def shardFor_def shardIdxFor_def)
  show sc: "scopes s' = scopes s" by (simp add: scopes_def h)
  show aux: "aux_same s s'" using assms(2) by (simp add: aux_same_def conf_same_def assms(3))
  have c: "conf_same s s'" using aux by (simp add: aux_same_def)
  show "struct_ok s'" using assms(1) unfolding struct_ok_def shards_ok_def scope_ok_conf [OF c] sc b h .
  show "bytesSum s' = bytesSum s" "itemsSum s' = itemsSum s" "seqs_below N s' = seqs_below N s"
    by (simp_all add: bytesSum_def itemsSum_def seqs_below_def sc b)
  show ob: "oldBytes s' = oldBytes s" by (auto simp: fun_eq_iff oldBytes_def g b split: option.splits)
  show "planDelta s' = planDelta s" by (simp add: fun_eq_iff planDelta_def ob g)
  show "view s' = view s" by (simp add: fun_eq_iff view_def g b)
qed

lemma replaceLocked_cases:
  assumes inv: "store_inv s" and la: "list_all2 (planned J bi s) grouped plans" and d: "distinct (map fst plans)"
    and len: "batchLen grouped < 2 ^ 64" and r: "replaceLocked bi plans s = (r, s')"
  obtains (failed) e where "r = Inl e" "s' = s"
  | (okay) "r = Inr (length plans)" "store_ok s'" "aux_same s s'" "view s' = view s ++ map_of (map (batchItems J bi) grouped)"
      "\<And>N. seqs_below N s \<Longrightarrow> batchLen grouped < N \<Longrightarrow> seqs_below N s'" "lastWriteTS (acct s) \<le> lastWriteTS (acct s')"
      "\<forall>n \<in> fst ` set plans. \<exists>p. getScope s' n = Some p \<and> idkey_ok (bufs s' ! p) \<and> byUUID_full (bufs s' ! p)"
proof -
  have st: "struct_ok s" and t: "totalBytes (acct s) = bytesSum s" "totalItems (acct s) = itemsSum s"
    "scopeCount s = int (length (scopes s))" and co: "caps_ok s"
    using inv by (simp_all add: store_inv_def store_ok_split)
  have a: "acct_ok (acct s)" using inv store_acct_ok by (simp add: store_inv_def)
  have l64: "\<forall>(n, its) \<in> set grouped. length its < 2 ^ 64" using len batchLen_mem by (fastforce dest: order_le_less_trans)
  have ol: "\<forall>pl \<in> set plans. oldBytes s (fst pl) = oldBytes s (fst pl)" by simp
  have ir: "itemsSum s = i64 (0 + itemsSum s)"
    using struct_sums(1,2) [OF st] t co by (simp add: caps_ok_def MinInt64_def)
  let ?d = "\<Sum>pl\<leftarrow>plans. planDelta s pl"
  have nn: "0 \<le> bytesSum s + ?d"
  proof -
    obtain u j where f: "fold (commitPlan bi (oldBytes s)) plans (s, 0) = (u, j)" by fastforce
    note k = commit_fold [OF la d st conf_same_refl l64 ol f, of 0]
    show ?thesis using k(4) struct_sums [OF k(1)] t(2) ir by (simp add: k)
  qed
  obtain ok cur mx a1 where rb: "reserveBytes ?d (acct s) = (ok, cur, mx, a1)" using prod_cases4 by blast
  show ?thesis
  proof (cases ok)
    case False
    then show ?thesis using that(1) r rb reserveBytes_False(1) [of ?d "acct s"] by (auto simp: replaceLocked_def Let_def)
  next
    case True
    have rt: "reserveBytes ?d (acct s) = (True, cur, mx, a1)" using rb True by simp
    have a1: "a1 = (acct s)\<lparr>totalBytes := bytesSum s + ?d\<rparr>" "bytesSum s + ?d \<le> maxStoreBytes (acct s)"
      using reserveBytes_True(1,2) [OF a rt] nn t(1) by simp_all
    define u where "u = s\<lparr>acct := a1\<rparr>"
    have ca: "caps_same (acct s) a1" by (simp add: a1 caps_same_def)
    note su = struct_acct [OF st ca u_def]
    obtain v j where f: "fold (commitPlan bi (oldBytes s)) plans (u, 0) = (v, j)" by fastforce
    have olu: "\<forall>pl \<in> set plans. oldBytes s (fst pl) = oldBytes u (fst pl)" by (simp add: su(7))
    have iu: "totalItems (acct u) = i64 (0 + itemsSum u)" using ir t(2) by (simp add: su(3)) (simp add: u_def a1)
    have cu: "conf_same s u" using su(6) by (simp add: aux_same_def)
    note k = commit_fold [OF la d su(1) cu l64 olu f iu]
    have tot: "totalBytes (acct v) = bytesSum v" using k(4,5) su(2,8) by (simp add: u_def a1)
    have cap: "bytesSum v \<le> maxStoreBytes (acct s)" using k(4) su(2,8) a1(2) by simp
    note sv = struct_sums [OF k(1)]
    have rng: "bytesSum v \<le> MaxInt64" using cap co by (simp add: caps_ok_def)
    have iv: "totalItems (acct v) = itemsSum v" using k(6) sv(1,2) rng by (simp add: MinInt64_def)
    have j: "int (length (scopes v)) = int (length (scopes s)) + j" "0 \<le> j" using k(8,9) su(4) by simp_all
    define w where "w = (if j > 0 then addScopeCount j v else v)"
    have res: "r = Inr (length plans)" "s' = w"
      using r True by (simp_all add: replaceLocked_def Let_def rb u_def [symmetric] f w_def)
    have scv: "scopeCount v = int (length (scopes s))" using k(10) t(3) by (simp add: u_def)
    have "i64 (int (length (scopes s)) + j) = int (length (scopes v))"
      using sv(3) rng by (subst j(1) [symmetric], intro i64_id) (auto simp: MinInt64_def scopeBufferOverhead_def)
    then have wc: "scopeCount w = int (length (scopes v))" using j scv by (simp add: w_def addScopeCount_def)
    have we: "w = v\<lparr>scopeCount := scopeCount w\<rparr>" by (simp add: w_def addScopeCount_def)
    have ww: "shards w = shards v" "bufs w = bufs v" "acct w = acct v" "scopes w = scopes v" "getScope w = getScope v"
      "shardIdxFor w = shardIdxFor v" "aux_same v w"
      by (subst we, simp add: scopes_def fun_eq_iff getScope_def shardFor_def shardIdxFor_def aux_same_def conf_same_def caps_same_def)+
    have cw: "conf_same v w" using ww(7) by (simp add: aux_same_def)
    have "struct_ok w" using k(1) unfolding struct_ok_def shards_ok_def scope_ok_conf [OF cw] ww .
    moreover have aux: "aux_same s w" using aux_same_trans su(6) k(2) ww(7) by blast
    moreover have "caps_ok w" using co cap tot aux
      by (simp add: caps_ok_def ww(3) aux_same_def conf_same_def caps_same_def)
    ultimately have "store_ok w" using tot iv wc by (simp add: store_ok_split bytesSum_def itemsSum_def ww)
    moreover have "view w = view s ++ map_of (map (batchItems J bi) grouped)"
      using k(3) su(5) by (simp add: fun_eq_iff view_def ww)
    moreover have "seqs_below N w" if "seqs_below N s" "batchLen grouped < N" for N
    proof -
      have "\<forall>(n, its) \<in> set grouped. length its < N" using batchLen_mem that(2) by (fastforce dest: order_le_less_trans)
      then have "seqs_below N v" using k(11) su(9) that(1) by blast
      then show ?thesis by (simp add: seqs_below_def ww)
    qed
    moreover have "lastWriteTS (acct s) \<le> lastWriteTS (acct w)" using k(7) by (simp add: ww u_def a1)
    moreover have "\<forall>n \<in> fst ` set plans. \<exists>p. getScope w n = Some p \<and> idkey_ok (bufs w ! p) \<and> byUUID_full (bufs w ! p)"
      using commit_fold_scopes [OF la d su(1) cu l64 olu f] by (simp add: ww)
    ultimately show ?thesis using that(2) res aux by blast
  qed
qed

lemma replaceScopes_cases:
  assumes inv: "store_inv s" and d: "distinct (map fst grouped)" and N: "seqs_below N s" "batchLen grouped < N" "Suc N < 2 ^ 64"
    and r: "replaceScopes J inp i bi grouped s = (r, s')"
  obtains (failed) e where "r = Inl e" "s' = s"
  | (okay) s1 where "r = Inr (length grouped)" "store_inv s1" "view s1 = view s ++ map_of (map (batchItems J bi) grouped)"
      "\<forall>n \<in> fst ` set grouped. n \<noteq> [] \<and> \<not> isReservedScope n"
      "if grouped = [] then s' = s1 else logged J [] (zeroEvent\<lparr>evOp := ''warm'', evTs := fst (inp i)\<rparr>) s1 s'"
      "good N s s'" "eventsMode s1 = eventsMode s" "eventsDropsTotal s1 = eventsDropsTotal s"
      "\<forall>n \<in> fst ` set grouped. \<exists>p. getScope s' n = Some p \<and> idkey_ok (bufs s' ! p) \<and> byUUID_full (bufs s' ! p)"
proof (cases "prepare_loop J bi ''/warm'' s grouped")
  case (Inl e)
  then show ?thesis using r that(1) by (auto simp: replaceScopes_def)
next
  case (Inr x)
  obtain plans offs where x: "x = (plans, offs)" by fastforce
  show ?thesis
  proof (cases "offs = []")
    case False
    then show ?thesis using r that(1) Inr by (auto simp: replaceScopes_def x)
  next
    case True
    note la = prepare_loop_Inr [OF Inr [unfolded x True]]
    have dp: "distinct (map fst plans)" using d planned_fst [OF la] by simp
    have len: "batchLen grouped < 2 ^ 64" using N by simp
    have lp: "length plans = length grouped" using list_all2_lengthD [OF la] by simp
    have names: "\<forall>n \<in> fst ` set grouped. n \<noteq> [] \<and> \<not> isReservedScope n"
      using la by (induction rule: list_all2_induct) (auto simp: planned_def)
    obtain r1 s1 where rl: "replaceLocked bi plans s = (r1, s1)" by fastforce
    show ?thesis using inv la dp len rl
    proof (cases rule: replaceLocked_cases)
      case (failed e)
      then show ?thesis using that(1) r Inr True by (auto simp: replaceScopes_def x rl)
    next
      case okay
      let ?evt = "zeroEvent\<lparr>evOp := ''warm'', evTs := fst (inp i)\<rparr>"
      have s': "r = Inr (length grouped)" "s' = (if grouped = [] then s1 else if \<not> eventsEnabled s1 [] then s1
          else emitEvent J inp (i + 1) ?evt s1)"
        using r Inr True lp okay(1) by (auto simp: replaceScopes_def x rl emitWarmEvent_def eventsEnabled_def EventsScopeName_def)
      have v: "view s1 n = None \<longleftrightarrow> view s n = None \<and> n \<notin> fst ` set grouped" for n
        using okay(4) by (auto simp: map_add_None map_of_eq_None_iff image_image)
      have inv1: "store_inv s1" using okay(2,3) inv v
        by (simp add: store_inv_def reserved_ok_def subs_ok_def aux_same_def view_getScope_None [symmetric])
      have q1: "seqs_below (Suc N) s1" by (rule seqs_below_mono [OF okay(5) [OF N(1,2)]]) simp
      have c1: "conf_same s s1" and ev: "eventsMode s1 = eventsMode s" "eventsDropsTotal s1 = eventsDropsTotal s"
        using okay(3) by (simp_all add: aux_same_def conf_same_def)
      have pn: "fst ` set plans = fst ` set grouped" using arg_cong [OF planned_fst [OF la], of set] by simp
      have kp: "\<forall>n \<in> fst ` set grouped. \<exists>p. getScope s' n = Some p \<and> idkey_ok (bufs s' ! p) \<and> byUUID_full (bufs s' ! p)"
      proof
        fix n assume n: "n \<in> fst ` set grouped"
        then obtain p where p: "getScope s1 n = Some p" "idkey_ok (bufs s1 ! p)" "byUUID_full (bufs s1 ! p)"
          using okay(7) unfolding pn by blast
        have "n \<noteq> EventsScopeName" using names n by (auto simp: isReservedScope_iff)
        then show "\<exists>p. getScope s' n = Some p \<and> idkey_ok (bufs s' ! p) \<and> byUUID_full (bufs s' ! p)"
          using emitEvent_keeps [OF inv1 p(1), of J inp "i + 1" ?evt] p by (simp add: s'(2))
      qed
      show ?thesis
      proof (cases "grouped = []")
        case True
        have "good N s s'" using inv1 c1 seqs_below_mono [OF q1, of "N + 2"] s' True by (simp add: good_def)
        then show ?thesis using that(2) [OF s'(1) inv1 okay(4) names _ _ ev kp] s' True by simp
      next
        case False
        have "s' = (if \<not> eventsEnabled s1 [] then s1 else emitEvent J inp (i + 1) ?evt s1)" using s' False by simp
        note g = good_logged [OF inv1 q1 c1 N(3) this]
        show ?thesis using that(2) [OF s'(1) inv1 okay(4) names _ g(2) ev kp] g(1) False by simp
      qed
    qed
  qed
qed

end
