(* ===== verification/Machine.thy ===== *)
theory Machine
  imports Bulk_Warm
begin

text \<open>
  The cache as a state machine: one step per operation of the store, any clock readings and any
  minted uuids, in any order. The index of a step bounds how far a sequence counter can have moved:
  an operation appends at most one item to its own scope and one event, a batch numbers its items
  from one. Every theorem about reachable states assumes fewer than \<open>2 ^ 64\<close> such increments, the range
  of the sequence counters.
\<close>

section \<open>Steps\<close>

inductive store_step :: "jsonLib \<Rightarrow> nat \<Rightarrow> store \<Rightarrow> store \<Rightarrow> bool" where
  append: "appendOne J inp i it s = (r, s') \<Longrightarrow> store_step J 2 s s'"
| upsert: "upsertOne J inp i it s = (r, s') \<Longrightarrow> store_step J 2 s s'"
| counter_add: "counterAddOne J inp i n k d s = (r, s') \<Longrightarrow> store_step J 2 s s'"
| update: "updateOne J inp i it s = (r, s') \<Longrightarrow> store_step J 2 s s'"
| delete: "deleteOne J inp i capq n k q u s = (r, s') \<Longrightarrow> store_step J 2 s s'"
| delete_up_to: "deleteUpTo J inp i n m u s = (r, s') \<Longrightarrow> store_step J 2 s s'"
| delete_scope: "deleteScope J inp i n s = (r, s') \<Longrightarrow> store_step J 2 s s'"
| wipe: "wipe now now' s = (r, s') \<Longrightarrow> store_step J 2 s s'"
| warm: "replaceScopes J inp i bi grouped s = (r, s') \<Longrightarrow> distinct (map fst grouped) \<Longrightarrow>
    store_step J (batchLen grouped + 2) s s'"
| rebuild: "rebuildAll J now now' bi grouped s = (r, s') \<Longrightarrow> distinct (map fst grouped) \<Longrightarrow>
    store_step J (batchLen grouped + 2) s s'"
| ensure: "ensureScope now n s = (r, s') \<Longrightarrow> n \<noteq> [] \<Longrightarrow> store_step J 2 s s'"
| head: "head now n m l s = (r, s') \<Longrightarrow> store_step J 2 s s'"
| tail: "tail now n l off s = (r, s') \<Longrightarrow> store_step J 2 s s'"
| get: "store_get now n k q u s = (r, s') \<Longrightarrow> store_step J 2 s s'"
| render: "render now n k q u s = (r, s') \<Longrightarrow> store_step J 2 s s'"
| subscribe: "Subscribe n s = (r, s') \<Longrightarrow> store_step J 2 s s'"
| unsubscribe: "store_step J 2 s (unsubscribe n s)"

inductive_cases store_stepE: "store_step J w s s'"

inductive reachable :: "jsonLib \<Rightarrow> Config \<Rightarrow> nat \<Rightarrow> store \<Rightarrow> bool" for J c where
  start: "reachable J c 1 (newStore seed now c)"
| step: "reachable J c N s \<Longrightarrow> store_step J w s s' \<Longrightarrow> reachable J c (N + w) s'"

section \<open>Every step keeps the invariant\<close>

lemma ensureScope_good:
  assumes inv: "store_inv s" and N: "seqs_below N s" "0 < N" and n: "n \<noteq> []" and r: "ensureScope now n s = (r, s')"
  shows "good N s s'"
proof (cases "s' = s")
  case True
  then show ?thesis using inv N by (simp add: good_refl)
next
  case False
  then obtain k m a1 where g: "getScope s n = None" and rb: "reserveBytes scopeBufferOverhead (acct s) = (True, k, m, a1)"
    and e: "s' = (addScopeCount 1 (linkScope n (store_newscopeBuffer now s) (s\<lparr>acct := a1\<rparr>)))
      \<lparr>acct := bumpLastWriteTS (bufLastWriteTS (store_newscopeBuffer now s))
        (acct (addScopeCount 1 (linkScope n (store_newscopeBuffer now s) (s\<lparr>acct := a1\<rparr>))))\<rparr>"
    using r by (auto simp: ensureScope_def Let_def split: option.splits prod.splits if_splits dest: reserveBytes_False(1))
  define u where "u = addScopeCount 1 (linkScope n (store_newscopeBuffer now s) (s\<lparr>acct := a1\<rparr>))"
  have ok: "store_ok s" "reserved_ok s" using inv by (simp_all add: store_inv_def)
  note k = created_ok [OF ok g n rb u_def]
  have e': "s' = u\<lparr>acct := bumpLastWriteTS (bufLastWriteTS (store_newscopeBuffer now s)) (acct u)\<rparr>" unfolding e u_def ..
  note b = bump_facts [where s = u and t = "bufLastWriteTS (store_newscopeBuffer now s)", folded e']
  have sub: "subs u = subs s" "subscribers u = subscribers s" by (simp_all add: u_def addScopeCount_def linkScope_def)
  have "reserved_ok u" using ok(2) by (auto simp: reserved_ok_def k(4))
  then have iu: "store_inv u" using k(1) inv sub by (simp add: store_inv_def subs_ok_def)
  have sh: "shards_ok s" using ok by (simp add: store_ok_def)
  have st: "set (scopes u) = insert (n, length (bufs s)) (set (scopes s))" using arg_cong [OF k(5), of set_mset] by simp
  have "seqs_below N u" using N sh unfolding seqs_below_def st k(6)
    by (auto simp: shards_ok_def nth_append store_newscopeBuffer_def newscopeBuffer_def)
  then have "seqs_below (N + 2) u" by (rule seqs_below_mono) simp
  then show ?thesis using b(1) [OF iu] b(3) conf_same_trans [OF k(2) b(4)] by (simp add: good_def)
qed

lemma subscription_good:
  assumes inv: "store_inv s" and N: "seqs_below N s"
  shows "Subscribe n s = (r, s') \<Longrightarrow> good N s s'" and "good N s (unsubscribe n s)"
proof -
  have k: "data_eq s t \<Longrightarrow> subs_ok t \<Longrightarrow> good N s t" for t
    using data_eq_facts [of s t] inv seqs_below_mono [OF N, of "N + 2"] by (simp add: good_def store_inv_def)
  have so: "subs_ok s" using inv by (simp add: store_inv_def)
  show "good N s (unsubscribe n s)"
    by (rule k [OF _ unsubscribe_ok [OF so]]) (simp add: data_eq_def unsubscribe_def split: option.split)
  show "good N s s'" if r: "Subscribe n s = (r, s')"
  proof (rule k)
    show "data_eq s s'" using r by (auto simp: data_eq_def Subscribe_def Let_def split: if_splits option.splits)
    show "subs_ok s'" using Subscribe_ok [OF so r] by blast
  qed
qed

text \<open>The bound \<open>N\<close> moves by the weight of the step.\<close>

lemma step_good:
  assumes "store_step J w s s'" "store_inv s" "seqs_below N s" "0 < N" "N + w < 2 ^ 64"
  shows "store_inv s' \<and> seqs_below (N + w) s' \<and> conf_same s s'"
  using assms
proof (cases rule: store_step.cases)
  case (warm inp i bi grouped r)
  have q: "seqs_below (N + batchLen grouped) s" by (rule seqs_below_mono [OF assms(3)]) simp
  have b: "batchLen grouped < N + batchLen grouped" "Suc (N + batchLen grouped) < 2 ^ 64"
    using assms(4,5) warm(1) by simp_all
  have "good (N + batchLen grouped) s s'" using assms(2) warm(3) q b warm(2)
  proof (cases rule: replaceScopes_cases)
    case (failed e)
    then show ?thesis using good_refl [OF assms(2) q] by simp
  qed simp
  then show ?thesis by (simp add: good_def warm(1) add.assoc)
next
  case (rebuild now now' bi grouped r)
  have len: "batchLen grouped < 2 ^ 64" using assms(5) rebuild(1) by simp
  show ?thesis using assms(2) rebuild(3) len rebuild(2)
  proof (cases rule: rebuildAll_cases)
    case (failed e)
    then show ?thesis using assms seqs_below_mono [of N s "N + w"] by simp
  next
    case okay
    have "seqs_below (N + w) s'" by (rule seqs_below_mono [OF okay(5)]) (use rebuild(1) in simp)
    then show ?thesis using okay by blast
  qed
next
  case (wipe now now' r)
  have "seqs_below (N + w) s'" by (rule seqs_below_mono [OF wipe_facts(4) [OF assms(2) wipe(2)]]) (use assms(4) in simp)
  then show ?thesis using wipe_facts(1,2) [OF assms(2) wipe(2)] by simp
next
  case (ensure now n r)
  then show ?thesis using ensureScope_good [OF assms(2,3,4)] by (simp add: good_def)
next
  case (subscribe n r)
  then show ?thesis using subscription_good(1) [OF assms(2,3)] by (simp add: good_def)
next
  case (unsubscribe n)
  then show ?thesis using subscription_good(2) [OF assms(2,3)] by (simp add: good_def)
next
  case (append inp i it r)
  then show ?thesis using appendOne_good [OF assms(2-4)] assms(5) by (simp add: good_def)
next
  case (upsert inp i it r)
  then show ?thesis using upsertOne_good [OF assms(2-4)] assms(5) by (simp add: good_def)
next
  case (counter_add inp i n k d r)
  then show ?thesis using counterAddOne_good [OF assms(2-4)] assms(5) by (simp add: good_def)
next
  case (update inp i it r)
  then show ?thesis using updateOne_good [OF assms(2,3)] assms(5) by (simp add: good_def)
next
  case (delete inp i capq n k q u r)
  then show ?thesis using deleteOne_good [OF assms(2,3)] assms(5) by (simp add: good_def)
next
  case (delete_up_to inp i n m u r)
  then show ?thesis using deleteUpTo_good [OF assms(2,3)] assms(5) by (simp add: good_def)
next
  case (delete_scope inp i n r)
  then show ?thesis using deleteScope_good [OF assms(2-4)] assms(5) by (simp add: good_def)
next
  case (head now n m l r)
  then show ?thesis using head_good [OF assms(2,3)] by (simp add: good_def)
next
  case (tail now n l off r)
  then show ?thesis using tail_good [OF assms(2,3)] by (simp add: good_def)
next
  case (get now n k q u r)
  then show ?thesis using get_good [OF assms(2,3)] by (simp add: good_def)
next
  case (render now n k q u r)
  then show ?thesis using render_good [OF assms(2,3)] by (simp add: good_def)
qed

section \<open>Reachable states\<close>

lemma newStore_inv:
  assumes "cfgMaxStoreBytes c \<le> MaxInt64"
  shows "store_inv (newStore seed now c)"
proof -
  have "subscribers (newStore seed now c) = []"
    by (simp add: newStore_def Let_def initReservedScopes_def reservedScopeNames_def initOne_def addScopeCount_def
        linkScope_def split: option.split)
  then show ?thesis using newStore_ok [OF assms, of seed now] by (simp add: store_inv_def subs_ok_def)
qed

lemma reachable_inv:
  assumes "reachable J c N s" "cfgMaxStoreBytes c \<le> MaxInt64" "N < 2 ^ 64"
  shows "store_inv s" and "seqs_below N s" and "0 < N" and "maxStoreBytes (acct s) = cfgMaxStoreBytes (WithDefaults c)"
proof -
  have "store_inv s \<and> seqs_below N s \<and> 0 < N \<and> maxStoreBytes (acct s) = cfgMaxStoreBytes (WithDefaults c)"
    using assms(1,3)
  proof induction
    case (start seed now)
    then show ?case using newStore_inv [OF assms(2)] newStore_ok(4,6) [OF assms(2)] by simp
  next
    case (step N s w s')
    have ih: "store_inv s" "seqs_below N s" "0 < N" "maxStoreBytes (acct s) = cfgMaxStoreBytes (WithDefaults c)"
      using step.IH step.prems by auto
    have "store_inv s' \<and> seqs_below (N + w) s' \<and> conf_same s s'"
      by (rule step_good [OF step.hyps(2) ih(1-3) step.prems])
    then show ?case using ih(3,4) by (simp add: conf_same_def caps_same_def)
  qed
  then show "store_inv s" "seqs_below N s" "0 < N" "maxStoreBytes (acct s) = cfgMaxStoreBytes (WithDefaults c)" by blast+
qed

end
