(* ===== verification/Sample.thy ===== *)
theory Sample
  imports Machine
begin

text \<open>
  A concrete cache the properties are instantiated on: a JSON library, a configuration, and buffers
  and stores that the operations themselves build, so that their invariants come from the theorems
  about those operations.
\<close>

section \<open>Evaluation of the wide bounds\<close>

text \<open>Natural numbers evaluate in unary, so the comparisons with large bounds are evaluated over the integers.\<close>

lemma u64_inc_code [code]: "u64_inc n = nat ((int n + 1) mod 2 ^ 64)"
proof -
  have "(int n + 1) mod 2 ^ 64 = int ((n + 1) mod 2 ^ 64)" by (simp add: zmod_int add.commute)
  then show ?thesis by (simp add: u64_inc_def)
qed

lemma push_state_code [code]:
  "push_state st p ps = (if int (length ps) < 10000 then Some (st, p # ps) else None)"
  by (simp add: push_state_def maxNestingDepth_def)

lemma parseUint_code [code]:
  "parseUint s = (if s \<noteq> [] \<and> (\<forall>c \<in> set s. is_digit c) \<and> int (digits_val 0 s) < 2 ^ 64
     then Some (digits_val 0 s) else None)"
proof -
  have "int (digits_val 0 s) < 2 ^ 64 \<longleftrightarrow> digits_val 0 s < 2 ^ 64" by (metis of_nat_less_iff of_nat_numeral of_nat_power)
  then show ?thesis by (simp add: parseUint_def)
qed

lemma parseInt_code [code]:
  "parseInt s =
     (let neg = (case s of c # _ \<Rightarrow> c = CHR ''-'' | [] \<Rightarrow> False);
          body = (case s of c # cs \<Rightarrow> if c = CHR ''-'' \<or> c = CHR ''+'' then cs else s | [] \<Rightarrow> s)
      in case parseUint body of
           None \<Rightarrow> None
         | Some un \<Rightarrow>
             if \<not> neg \<and> int un \<ge> 2 ^ 63 then None
             else if neg \<and> int un > 2 ^ 63 then None
             else Some (if neg then - int un else int un))"
proof -
  have i: "int un \<ge> 2 ^ 63 \<longleftrightarrow> un \<ge> 2 ^ 63" "int un > 2 ^ 63 \<longleftrightarrow> un > 2 ^ 63" for un
    by (metis of_nat_le_iff of_nat_numeral of_nat_power, metis of_nat_less_iff of_nat_numeral of_nat_power)
  show ?thesis unfolding parseInt_def i ..
qed

lemma space_runes_code [code]:
  "space_runes = [[CHR 0x09], [CHR 0x0A], [CHR 0x0B], [CHR 0x0C], [CHR 0x0D], [CHR 0x20],
     [CHR 0xC2, CHR 0x85], [CHR 0xC2, CHR 0xA0], [CHR 0xE1, CHR 0x9A, CHR 0x80],
     [CHR 0xE2, CHR 0x80, CHR 0x80], [CHR 0xE2, CHR 0x80, CHR 0x81], [CHR 0xE2, CHR 0x80, CHR 0x82],
     [CHR 0xE2, CHR 0x80, CHR 0x83], [CHR 0xE2, CHR 0x80, CHR 0x84], [CHR 0xE2, CHR 0x80, CHR 0x85],
     [CHR 0xE2, CHR 0x80, CHR 0x86], [CHR 0xE2, CHR 0x80, CHR 0x87], [CHR 0xE2, CHR 0x80, CHR 0x88],
     [CHR 0xE2, CHR 0x80, CHR 0x89], [CHR 0xE2, CHR 0x80, CHR 0x8A], [CHR 0xE2, CHR 0x80, CHR 0xA8],
     [CHR 0xE2, CHR 0x80, CHR 0xA9], [CHR 0xE2, CHR 0x80, CHR 0xAF], [CHR 0xE2, CHR 0x81, CHR 0x9F],
     [CHR 0xE3, CHR 0x80, CHR 0x80]]"
  by (simp add: space_runes_def char_of_def bit_0)

section \<open>A JSON library\<close>

text \<open>
  Decimal integers are the only numbers it decodes and quoted text without escapes the only strings;
  an event is written as its operation and its scope.
\<close>

definition sampleJson :: jsonLib where
  "sampleJson = \<lparr>unmarshalString = (\<lambda>s. if length s < 2 then None else Some (butlast (tl s))),
     unmarshalNumber = (\<lambda>s. if json_valid s then Some s else None),
     marshalEvent = (\<lambda>e. Some (evOp e @ '':'' @ evScope e)),
     marshalString = (\<lambda>s. [CHR 0x22] @ s @ [CHR 0x22])\<rparr>"

definition sampleUuid :: "nat \<Rightarrow> UUID" where
  "sampleUuid k = newUUIDv7 (of_nat k) 0 0"

definition sampleItem :: "string \<Rightarrow> string \<Rightarrow> item" where
  "sampleItem k payload = zeroItem\<lparr>Scope := ''posts'', ID := k, Payload := payload\<rparr>"

section \<open>A buffer with three items\<close>

definition sampleAcct0 :: storeAcct where
  "sampleAcct0 = \<lparr>maxStoreBytes = 10000, maxItemBytes = 500, eventsMaxItemBytes = 1524, inboxMaxItemBytes = 500,
     totalBytes = 3072, totalItems = 0, lastWriteTS = 0\<rparr>"

definition sampleBuf0 :: scopeBuffer where
  "sampleBuf0 = (newscopeBuffer 4 1)\<lparr>attached := True, bufMaxItemBytes := 500\<rparr>"

definition sampleAppend :: "nat \<Rightarrow> string \<Rightarrow> string \<Rightarrow> storeAcct \<times> scopeBuffer \<Rightarrow> storeAcct \<times> scopeBuffer" where
  "sampleAppend n k payload = (\<lambda>(a, b).
     snd (appendItem sampleJson (int n * 10) (sampleUuid n) (sampleItem k payload) a b))"

definition sampleState :: "storeAcct \<times> scopeBuffer" where
  "sampleState = sampleAppend 3 ''c'' ''7'' (sampleAppend 2 [] ''[2]'' (sampleAppend 1 ''a'' ''1'' (sampleAcct0, sampleBuf0)))"

definition sampleAcct :: storeAcct where "sampleAcct = fst sampleState"
definition sampleBuf :: scopeBuffer where "sampleBuf = snd sampleState"

lemma sample_buf0_ok: "acct_ok sampleAcct0" "fits sampleAcct0 sampleBuf0" "buf_ok sampleBuf0" "lastSeq sampleBuf0 < 1"
  "byUUID_full sampleBuf0"
  by (simp_all add: acct_ok_def fits_def sampleAcct0_def sampleBuf0_def newscopeBuffer_def MaxInt64_def buf_ok_def
      idx_ok_def slice_ok_def byID_ok_def bySeq_ok_def byUUID_ok_def byUUID_full_def bufItems_def sizeSum_def)

section \<open>The sample buffer satisfies the invariants\<close>

lemma sampleAppend_ok:
  assumes "acct_ok a" "fits a b" "buf_ok b" "lastSeq b < m" "m < 10" "sampleAppend n k payload (a, b) = (a', b')"
  shows "acct_ok a' \<and> fits a' b' \<and> buf_ok b' \<and> lastSeq b' < Suc m"
proof -
  let ?op = "appendItem sampleJson (int n * 10) (sampleUuid n) (sampleItem k payload)"
  have e: "?op a b = (fst (?op a b), a', b')" using assms(6) by (simp add: sampleAppend_def prod_eq_iff)
  have l: "lastSeq b < 2 ^ 64 - 1" using assms(4,5) by simp
  show ?thesis
    using append.op_post [OF assms(1-3) l e] append.acct_kept [OF assms(1-3) l e] assms(4)
    by (auto simp: op_post_def)
qed

lemma sample_ok: "acct_ok sampleAcct" "fits sampleAcct sampleBuf" "buf_ok sampleBuf" "lastSeq sampleBuf < 2 ^ 64 - 1"
proof -
  obtain a1 b1 where 1: "sampleAppend 1 ''a'' ''1'' (sampleAcct0, sampleBuf0) = (a1, b1)" by fastforce
  obtain a2 b2 where 2: "sampleAppend 2 [] ''[2]'' (a1, b1) = (a2, b2)" by fastforce
  obtain a3 b3 where 3: "sampleAppend 3 ''c'' ''7'' (a2, b2) = (a3, b3)" by fastforce
  have k1: "acct_ok a1" "fits a1 b1" "buf_ok b1" "lastSeq b1 < Suc 1"
    using sampleAppend_ok [OF sample_buf0_ok(1-4) _ 1] by simp_all
  have k2: "acct_ok a2" "fits a2 b2" "buf_ok b2" "lastSeq b2 < Suc (Suc 1)"
    using sampleAppend_ok [OF k1 _ 2] by simp_all
  have "acct_ok a3 \<and> fits a3 b3 \<and> buf_ok b3 \<and> lastSeq b3 < Suc (Suc (Suc 1))"
    by (rule sampleAppend_ok [OF k2 _ 3]) simp
  then show "acct_ok sampleAcct" "fits sampleAcct sampleBuf" "buf_ok sampleBuf" "lastSeq sampleBuf < 2 ^ 64 - 1"
    unfolding sampleAcct_def sampleBuf_def sampleState_def 1 2 3 by simp_all
qed

lemma sample_full: "byUUID_full sampleBuf" by code_simp

section \<open>A store with one scope\<close>

definition sampleConf :: Config where
  "sampleConf = \<lparr>cfgScopeMaxItems = 4, cfgMaxStoreBytes = 10000, cfgMaxItemBytes = 500, cfgEventsMode = EventsModeFull,
     cfgInboxMaxItems = 0, cfgInboxMaxItemBytes = 0\<rparr>"

definition sampleInp :: inputs where
  "sampleInp k = (int k * 10, sampleUuid k)"

definition sampleStore0 :: store where
  "sampleStore0 = newStore length 5 sampleConf"

text \<open>The state after \<^verbatim>\<open>/append\<close> of an item with id \<^verbatim>\<open>a\<close> into \<^verbatim>\<open>posts\<close>.\<close>

definition sampleStore :: store where
  "sampleStore = snd (appendOneTrusted sampleJson sampleInp 1 (sampleItem ''a'' ''1'') sampleStore0)"

lemma sample_valid: "validateWriteItem sampleJson (sampleItem ''a'' ''1'') ''/append'' 500 = Inr (sampleItem ''a'' ''1'')"
  by code_simp

lemma sample_append: "appendOne sampleJson sampleInp 1 (sampleItem ''a'' ''1'') sampleStore0 =
    (fst (appendOneTrusted sampleJson sampleInp 1 (sampleItem ''a'' ''1'') sampleStore0), sampleStore)"
proof -
  have "maxItemBytesFor (acct sampleStore0) (Scope (sampleItem ''a'' ''1'')) = 500" by code_simp
  then show ?thesis by (simp add: appendOne_def sample_valid sampleStore_def)
qed

lemma sample_conf: "cfgMaxStoreBytes sampleConf \<le> MaxInt64" by (simp add: sampleConf_def MaxInt64_def)

lemma sample_reachable: "reachable sampleJson sampleConf 3 sampleStore"
proof -
  have "reachable sampleJson sampleConf (1 + 2) sampleStore"
    by (rule reachable.step [OF _ store_step.append [OF sample_append]])
      (unfold sampleStore0_def, rule reachable.start)
  then show ?thesis by (simp add: numeral_3_eq_3)
qed

lemma sample_store_ok: "store_inv sampleStore" "seqs_below 3 sampleStore" "store_inv sampleStore0" "seqs_below 1 sampleStore0"
  using reachable_inv [OF sample_reachable sample_conf] newStore_inv [OF sample_conf] newStore_ok(4) [OF sample_conf]
  by (simp_all add: sampleStore0_def)

lemma sample_view: "map_option (map ID) (view sampleStore ''posts'') = Some [''a'']" by code_simp

text \<open>The readings a batch uses.\<close>

definition sampleBatch :: bulkInputs where
  "sampleBatch = \<lparr>biNow = (\<lambda>_. 60), biMint = (\<lambda>_ k. sampleUuid (100 + k)), biCreate = (\<lambda>_. 61), biCommit = (\<lambda>_. 62)\<rparr>"

end
