(* ===== verification/Buffer_Calls.thy ===== *)
theory Buffer_Calls
  imports Buffer_Replace
begin

text \<open>
  The methods of a buffer under one roof: the three ways of addressing an item, and any sequence of
  calls that write, change or remove items. The buffer's lock makes a sequence of calls the general case of concurrent use.
\<close>

section \<open>Addresses\<close>

datatype address = ById string | BySeq nat | ByUuid UUID

fun addresses :: "address \<Rightarrow> item \<Rightarrow> bool" where
  "addresses (ById k) x = (ID x = k)"
| "addresses (BySeq q) x = (Seq x = q)"
| "addresses (ByUuid u) x = (UUID x = u)"

fun address_ok :: "address \<Rightarrow> bool" where
  "address_ok (ById k) = (k \<noteq> [])"
| "address_ok (BySeq q) = True"
| "address_ok (ByUuid u) = (\<not> IsZero u)"

fun updateAt ::
    "jsonLib \<Rightarrow> int \<Rightarrow> string \<Rightarrow> string option \<Rightarrow> address \<Rightarrow> storeAcct \<Rightarrow> scopeBuffer \<Rightarrow>
     (goError + nat) \<times> storeAcct \<times> scopeBuffer" where
  "updateAt J now payload pre (ById k) = updateByID J now k payload pre"
| "updateAt J now payload pre (BySeq q) = updateBySeq J now q payload pre"
| "updateAt J now payload pre (ByUuid u) = updateByUUID J now u payload pre"

fun deleteAt :: "nat \<Rightarrow> int \<Rightarrow> address \<Rightarrow> storeAcct \<Rightarrow> scopeBuffer \<Rightarrow> (goError + nat) \<times> storeAcct \<times> scopeBuffer" where
  "deleteAt capq now (ById k) = deleteByID capq now k"
| "deleteAt capq now (BySeq q) = deleteBySeq capq now q"
| "deleteAt capq now (ByUuid u) = deleteByUUID capq now u"

fun getAt :: "address \<Rightarrow> scopeBuffer \<Rightarrow> item option" where
  "getAt (ById k) = getByID k"
| "getAt (BySeq q) = getBySeq q"
| "getAt (ByUuid u) = getByUUID u"

lemma updateAt_op: "buffer_op (updateAt J now payload pre ad) n {}"
  by (cases ad) (simp_all add: updID.buffer_op_axioms updSeq.buffer_op_axioms updUUID.buffer_op_axioms)

lemma deleteAt_op: "buffer_op (deleteAt capq now ad) n {}"
  by (cases ad) (simp_all add: delID.buffer_op_axioms delSeq.buffer_op_axioms delUUID.buffer_op_axioms)

lemma updateAt_view:
  assumes "buf_ok b" "byUUID_full b" "address_ok ad" "updateAt J now payload pre ad a b = (Inr n, a', b')"
  shows "bufItems b' = map (\<lambda>x. if addresses ad x then overwritten payload now (renderOr J pre payload) x else x) (bufItems b)"
    and "n = (if \<exists>x \<in> set (bufItems b). addresses ad x then 1 else 0)"
proof -
  have "bufItems b' = map (\<lambda>x. if addresses ad x then overwritten payload now (renderOr J pre payload) x else x) (bufItems b) \<and>
    n = (if \<exists>x \<in> set (bufItems b). addresses ad x then 1 else 0)"
  proof (cases ad)
    case (ById k)
    then show ?thesis using updateByID_view [OF assms(1), of J now k payload pre a n a' b'] assms(3,4) by simp
  next
    case (BySeq q)
    then show ?thesis using updateBySeq_view [OF assms(1), of J now q payload pre a n a' b'] assms(4) by simp
  next
    case (ByUuid u)
    then show ?thesis using updateByUUID_view [OF assms(1,2), of J now u payload pre a n a' b'] assms(3,4) by simp
  qed
  then show "bufItems b' = map (\<lambda>x. if addresses ad x then overwritten payload now (renderOr J pre payload) x else x) (bufItems b)"
    "n = (if \<exists>x \<in> set (bufItems b). addresses ad x then 1 else 0)" by blast+
qed

lemma deleteAt_view:
  assumes "buf_ok b" "byUUID_full b" "address_ok ad" "\<not> detached b" "deleteAt capq now ad a b = (r, a', b')"
  shows "bufItems b' = filter (\<lambda>x. \<not> addresses ad x) (bufItems b)"
    and "r = Inr (if \<exists>x \<in> set (bufItems b). addresses ad x then 1 else 0)"
proof -
  have "bufItems b' = filter (\<lambda>x. \<not> addresses ad x) (bufItems b) \<and>
    r = Inr (if \<exists>x \<in> set (bufItems b). addresses ad x then 1 else 0)"
  proof (cases ad)
    case (ById k)
    then show ?thesis using deleteByID_view [OF assms(1), of capq now k a r a' b'] assms(3-5) by simp
  next
    case (BySeq q)
    then show ?thesis using deleteBySeq_view [OF assms(1), of capq now q a r a' b'] assms(4,5) by simp
  next
    case (ByUuid u)
    then show ?thesis using deleteByUUID_view [OF assms(1,2), of capq now u a r a' b'] assms(3-5) by simp
  qed
  then show "bufItems b' = filter (\<lambda>x. \<not> addresses ad x) (bufItems b)"
    "r = Inr (if \<exists>x \<in> set (bufItems b). addresses ad x then 1 else 0)" by blast+
qed

text \<open>
  Without \<^const>\<open>byUUID_full\<close> two entries can share a uuid, and a uuid picks out the one the index knows, or none: what it
  selects is a miss or the single entry with the sequence number of an item that carries it.
\<close>

definition picks :: "bool \<Rightarrow> address \<Rightarrow> item list \<Rightarrow> (item \<Rightarrow> bool) \<Rightarrow> bool" where
  "picks full ad xs sel \<longleftrightarrow>
     (case ad of
        ByUuid u \<Rightarrow> if full then sel = addresses ad
                    else sel = (\<lambda>x. False) \<or> (\<exists>y \<in> set xs. UUID y = u \<and> sel = (\<lambda>x. Seq x = Seq y))
      | _ \<Rightarrow> sel = addresses ad)"

definition cuts :: "bool \<Rightarrow> UUID \<Rightarrow> item list \<Rightarrow> (item \<Rightarrow> bool) \<Rightarrow> bool" where
  "cuts full u xs sel \<longleftrightarrow>
     (if full then sel = (\<lambda>x. \<exists>y \<in> set xs. UUID y = u \<and> Seq x \<le> Seq y)
      else sel = (\<lambda>x. False) \<or> (\<exists>y \<in> set xs. UUID y = u \<and> sel = (\<lambda>x. Seq x \<le> Seq y)))"

lemma picks_addresses: "full \<or> (\<forall>u. ad \<noteq> ByUuid u) \<Longrightarrow> picks full ad xs (addresses ad)"
  by (cases ad) (auto simp: picks_def)

text \<open>An indexed uuid leads to the entry that its sequence number leads to.\<close>

lemma byUUID_entry:
  assumes "buf_ok b" "map_of (byUUID b) u = Some p"
  shows "deref b p \<in> set (bufItems b)" and "UUID (deref b p) = u" and "map_of (bySeq b) (Seq (deref b p)) = Some p"
  using byUUID_SomeD [OF buf_ok_idx [OF assms(1)] assms(2)] assms(1)
  by (auto simp: bufItems_def buf_ok_def idx_ok_def bySeq_ok_def)

lemma updateAt_picks:
  assumes ok: "buf_ok b" "address_ok ad" and r: "updateAt J now payload pre ad a b = (Inr n, a', b')"
  shows "\<exists>sel. picks (byUUID_full b) ad (bufItems b) sel \<and>
    bufItems b' = map (\<lambda>x. if sel x then overwritten payload now (renderOr J pre payload) x else x) (bufItems b) \<and>
    n = (if \<exists>x \<in> set (bufItems b). sel x then 1 else 0)"
proof (cases ad)
  case (ById k)
  then show ?thesis using updateByID_view [OF ok(1), of J now k payload pre a n a' b'] assms
    by (intro exI [of _ "addresses ad"]) (simp add: picks_def)
next
  case (BySeq q)
  then show ?thesis using updateBySeq_view [OF ok(1), of J now q payload pre a n a' b'] assms
    by (intro exI [of _ "addresses ad"]) (simp add: picks_def)
next
  case (ByUuid u)
  show ?thesis
  proof (cases "byUUID_full b")
    case True
    then show ?thesis using updateAt_view [OF ok(1) True ok(2) r] picks_addresses [of True ad] by auto
  next
    case False
    show ?thesis
    proof (cases "map_of (byUUID b) u")
      case None
      then have "n = 0" "b' = b" using r ByUuid by (auto simp: updateByUUID_def split: if_splits)
      then show ?thesis using False ByUuid by (intro exI [of _ "\<lambda>x. False"]) (simp add: picks_def)
    next
      case (Some p)
      note e = byUUID_entry [OF ok(1) Some]
      have "updateByUUID J now u payload pre a b = updateBySeq J now (Seq (deref b p)) payload pre a b"
        by (simp add: updateByUUID_def updateBySeq_def Some e(3))
      then have "updateBySeq J now (Seq (deref b p)) payload pre a b = (Inr n, a', b')" using r ByUuid by simp
      note v = updateBySeq_view [OF ok(1) this]
      have "picks (byUUID_full b) ad (bufItems b) (\<lambda>x. Seq x = Seq (deref b p))"
        using e False ByUuid by (auto simp: picks_def)
      then show ?thesis using v by (intro exI [of _ "\<lambda>x. Seq x = Seq (deref b p)"]) simp
    qed
  qed
qed

lemma deleteAt_picks:
  assumes ok: "buf_ok b" "address_ok ad" "\<not> detached b" and r: "deleteAt capq now ad a b = (r, a', b')"
  shows "\<exists>sel. picks (byUUID_full b) ad (bufItems b) sel \<and> bufItems b' = filter (\<lambda>x. \<not> sel x) (bufItems b) \<and>
    r = Inr (if \<exists>x \<in> set (bufItems b). sel x then 1 else 0)"
proof (cases ad)
  case (ById k)
  then show ?thesis using deleteByID_view [OF ok(1), of capq now k a r a' b'] assms
    by (intro exI [of _ "addresses ad"]) (simp add: picks_def)
next
  case (BySeq q)
  then show ?thesis using deleteBySeq_view [OF ok(1), of capq now q a r a' b'] assms
    by (intro exI [of _ "addresses ad"]) (simp add: picks_def)
next
  case (ByUuid u)
  show ?thesis
  proof (cases "byUUID_full b")
    case True
    then show ?thesis using deleteAt_view [OF ok(1) True ok(2,3) r] picks_addresses [of True ad] by auto
  next
    case False
    show ?thesis
    proof (cases "map_of (byUUID b) u")
      case None
      then have "r = Inr 0" "b' = b" using r ByUuid ok(3) by (auto simp: deleteByUUID_def)
      then show ?thesis using False ByUuid by (intro exI [of _ "\<lambda>x. False"]) (simp add: picks_def)
    next
      case (Some p)
      note e = byUUID_entry [OF ok(1) Some]
      have "deleteByUUID capq now u a b = deleteBySeq capq now (Seq (deref b p)) a b"
        by (simp add: deleteByUUID_def deleteBySeq_def Some e(3))
      then have "deleteBySeq capq now (Seq (deref b p)) a b = (r, a', b')" using r ByUuid by simp
      note v = deleteBySeq_view [OF ok(1) this ok(3)]
      have "picks (byUUID_full b) ad (bufItems b) (\<lambda>x. Seq x = Seq (deref b p))"
        using e False ByUuid by (auto simp: picks_def)
      then show ?thesis using v by (intro exI [of _ "\<lambda>x. Seq x = Seq (deref b p)"]) simp
    qed
  qed
qed

lemma deleteUpToUUID_cuts:
  assumes ok: "buf_ok b" "\<not> IsZero u" "\<not> detached b" and r: "deleteUpToUUID now u a b = (r, a', b')"
  shows "\<exists>sel. cuts (byUUID_full b) u (bufItems b) sel \<and> bufItems b' = filter (\<lambda>x. \<not> sel x) (bufItems b) \<and>
    r = Inr (length (filter sel (bufItems b)))"
proof (cases "map_of (byUUID b) u")
  case None
  then have "r = Inr 0" "b' = b" using r ok(3) by (auto simp: deleteUpToUUID_def)
  moreover have "\<forall>y \<in> set (bufItems b). UUID y \<noteq> u" if "byUUID_full b" using uuid_addresses [OF ok(1) that ok(2)] None by auto
  ultimately show ?thesis by (intro exI [of _ "\<lambda>x. False"]) (auto simp: cuts_def)
next
  case (Some p)
  note e = byUUID_entry [OF ok(1) Some]
  let ?sel = "\<lambda>x. Seq x \<le> Seq (deref b p)"
  obtain n a1 b1 where d: "deleteUpToSeqLocked now (Seq (deref b p)) a b = (n, a1, b1)" using prod_cases3 by blast
  have u: "deleteUpToUUID now u a b = (Inr n, a1, b1)" by (simp add: deleteUpToUUID_def Some ok(3) d)
  have "r = Inr n" "b' = b1" using r unfolding u by blast+
  moreover have "cuts (byUUID_full b) u (bufItems b) ?sel"
  proof (cases "byUUID_full b")
    case True
    have "Seq y = Seq (deref b p)" if "y \<in> set (bufItems b)" "UUID y = u" for y
      using uuid_addresses [OF ok(1) True ok(2) that(1)] that(2) Some by auto
    then have "(\<exists>y \<in> set (bufItems b). UUID y = u \<and> Seq x \<le> Seq y) \<longleftrightarrow> Seq x \<le> Seq (deref b p)" for x :: item
      using e(1,2) by metis
    then show ?thesis using True by (simp add: cuts_def fun_eq_iff)
  qed (use e in \<open>auto simp: cuts_def\<close>)
  ultimately show ?thesis using deleteUpToSeqLocked_view [OF ok(1) d] by (intro exI [of _ ?sel]) (simp add: not_le)
qed

section \<open>Sequences of calls\<close>

text \<open>
  The methods the single-item operations of the store call. The methods of theory \<open>Buffer_Replace\<close> are not among them: they
  install a new content and number it from one, so sequence numbers start over, and the bytes are charged by their
  caller, or not against the cap at all (\<open>replaceAll\<close>, which nothing in the program calls).
\<close>

datatype bufCall =
    CAppend int UUID item
  | CUpsert int UUID item
  | CUpdate int string "string option" address
  | CCounter int UUID string string int
  | CDelete nat int address
  | CDrainSeq int nat
  | CDrainUUID int UUID

text \<open>The state a call leaves behind.\<close>

fun callBuf :: "jsonLib \<Rightarrow> bufCall \<Rightarrow> storeAcct \<times> scopeBuffer \<Rightarrow> storeAcct \<times> scopeBuffer" where
  "callBuf J (CAppend now u it) (a, b) = snd (appendItem J now u it a b)"
| "callBuf J (CUpsert now u it) (a, b) = snd (upsertByID J now u it a b)"
| "callBuf J (CUpdate now payload pre ad) (a, b) = snd (updateAt J now payload pre ad a b)"
| "callBuf J (CCounter now u scope k d) (a, b) = snd (counterAdd J now u scope k d a b)"
| "callBuf J (CDelete capq now ad) (a, b) = snd (deleteAt capq now ad a b)"
| "callBuf J (CDrainSeq now m) (a, b) = snd (deleteUpToSeq now m a b)"
| "callBuf J (CDrainUUID now u) (a, b) = snd (deleteUpToUUID now u a b)"

text \<open>The arguments the validators admit.\<close>

fun call_ok :: "bufCall \<Rightarrow> bool" where
  "call_ok (CCounter now u scope k d) = (k \<noteq> [] \<and> \<bar>d\<bar> \<le> MaxCounterValue)"
| "call_ok c = True"

definition kept :: "storeAcct \<Rightarrow> scopeBuffer \<Rightarrow> storeAcct \<Rightarrow> scopeBuffer \<Rightarrow> bool" where
  "kept a b a' b' \<longleftrightarrow> acct_ok a' \<and> fits a' b' \<and> op_post a b a' b' \<and> (detached b \<longrightarrow> a' = a \<and> b' = b)"

lemma op_kept:
  assumes "buffer_op op n us" "acct_ok a" "fits a b" "buf_ok b" "lastSeq b < 2 ^ 64 - 1" "snd (op a b) = (a', b')"
  shows "kept a b a' b'"
proof -
  have e: "op a b = (fst (op a b), a', b')" using assms(6) by (simp add: prod_eq_iff)
  show ?thesis
    using buffer_op.op_post [OF assms(1-5) e] buffer_op.acct_kept [OF assms(1-5) e] buffer_op.op_detached [OF assms(1) _ e]
    by (simp add: kept_def)
qed

lemma call_kept:
  assumes "call_ok c" "acct_ok a" "fits a b" "buf_ok b" "lastSeq b < 2 ^ 64 - 1" "callBuf J c (a, b) = (a', b')"
  shows "kept a b a' b'"
proof (cases c)
  case (CAppend now u it)
  then show ?thesis using op_kept [OF append.buffer_op_axioms assms(2-5)] assms(6) by simp
next
  case (CUpsert now u it)
  then show ?thesis using op_kept [OF upsert.buffer_op_axioms assms(2-5)] assms(6) by simp
next
  case (CUpdate now payload pre ad)
  then show ?thesis using op_kept [OF updateAt_op assms(2-5)] assms(6) by simp
next
  case (CCounter now u scope k d)
  then show ?thesis using op_kept [OF counterAdd_op [of k d] assms(2-5)] assms(1,6) by simp
next
  case (CDelete capq now ad)
  then show ?thesis using op_kept [OF deleteAt_op assms(2-5)] assms(6) by simp
next
  case (CDrainSeq now m)
  then show ?thesis using op_kept [OF drainSeq.buffer_op_axioms assms(2-5)] assms(6) by simp
next
  case (CDrainUUID now u)
  then show ?thesis using op_kept [OF drainUUID.buffer_op_axioms assms(2-5)] assms(6) by simp
qed

text \<open>The rest of the store, whatever the calls: the totals less this buffer's share.\<close>

definition rest :: "storeAcct \<Rightarrow> scopeBuffer \<Rightarrow> int \<times> int" where
  "rest a b = (totalBytes a - bytes b, totalItems a - int (length (items b)))"

lemma calls_kept:
  assumes "\<forall>c \<in> set cs. call_ok c" "acct_ok a" "fits a b" "buf_ok b" "lastSeq b + length cs < 2 ^ 64"
    "fold (callBuf J) cs (a, b) = (a', b')"
  shows "acct_ok a'" and "fits a' b'" and "buf_ok b'" and "attached b \<Longrightarrow> rest a' b' = rest a b"
    and "maxStoreBytes a' = maxStoreBytes a" and "lastSeq b \<le> lastSeq b'" and "lastWriteTS a \<le> lastWriteTS a'"
    and "detached b \<Longrightarrow> a' = a \<and> b' = b" and "\<not> attached b \<Longrightarrow> totalBytes a' = totalBytes a \<and> totalItems a' = totalItems a"
proof -
  have "acct_ok a' \<and> fits a' b' \<and> buf_ok b' \<and> (attached b \<longrightarrow> rest a' b' = rest a b) \<and> maxStoreBytes a' = maxStoreBytes a \<and>
    lastSeq b \<le> lastSeq b' \<and> lastWriteTS a \<le> lastWriteTS a' \<and> (detached b \<longrightarrow> a' = a \<and> b' = b) \<and>
    (\<not> attached b \<longrightarrow> totalBytes a' = totalBytes a \<and> totalItems a' = totalItems a)"
    using assms
  proof (induction cs arbitrary: a b)
    case (Cons c cs)
    obtain a1 b1 where c: "callBuf J c (a, b) = (a1, b1)" by fastforce
    have k: "kept a b a1 b1" by (rule call_kept [OF _ Cons.prems(2-4) _ c]) (use Cons.prems in auto)
    then have p: "acct_ok a1" "fits a1 b1" "buf_ok b1" "lastSeq b1 \<le> Suc (lastSeq b)" "attached b1 = attached b"
      "detached b1 = detached b" "attached b \<longrightarrow> rest a1 b1 = rest a b" "maxStoreBytes a1 = maxStoreBytes a"
      "lastSeq b \<le> lastSeq b1" "lastWriteTS a \<le> lastWriteTS a1" "detached b \<longrightarrow> a1 = a \<and> b1 = b"
      "\<not> attached b \<longrightarrow> totalBytes a1 = totalBytes a \<and> totalItems a1 = totalItems a"
      by (auto simp: kept_def op_post_def lockstep_def buf_frame_def caps_same_def rest_def)
    have "lastSeq b1 + length cs < 2 ^ 64" using p(4) Cons.prems(5) by simp
    then have ih: "acct_ok a' \<and> fits a' b' \<and> buf_ok b' \<and> (attached b1 \<longrightarrow> rest a' b' = rest a1 b1) \<and>
        maxStoreBytes a' = maxStoreBytes a1 \<and> lastSeq b1 \<le> lastSeq b' \<and> lastWriteTS a1 \<le> lastWriteTS a' \<and>
        (detached b1 \<longrightarrow> a' = a1 \<and> b' = b1) \<and>
        (\<not> attached b1 \<longrightarrow> totalBytes a' = totalBytes a1 \<and> totalItems a' = totalItems a1)"
      using Cons.prems(1,6) c by (intro Cons.IH [OF _ p(1-3)]) simp_all
    have "lastSeq b \<le> lastSeq b'" "lastWriteTS a \<le> lastWriteTS a'" "maxStoreBytes a' = maxStoreBytes a"
      using ih p(8-10) by (blast intro: order_trans, blast intro: order_trans, simp)
    moreover have "attached b \<longrightarrow> rest a' b' = rest a b" using ih p(5,7) by argo
    moreover have "detached b \<longrightarrow> a' = a \<and> b' = b" using ih p(6,11) by argo
    moreover have "\<not> attached b \<longrightarrow> totalBytes a' = totalBytes a \<and> totalItems a' = totalItems a" using ih p(5,12) by argo
    ultimately show ?case using ih by blast
  qed simp
  then show "acct_ok a'" "fits a' b'" "buf_ok b'" "attached b \<Longrightarrow> rest a' b' = rest a b"
    "maxStoreBytes a' = maxStoreBytes a" "lastSeq b \<le> lastSeq b'" "lastWriteTS a \<le> lastWriteTS a'"
    "detached b \<Longrightarrow> a' = a \<and> b' = b" "\<not> attached b \<Longrightarrow> totalBytes a' = totalBytes a \<and> totalItems a' = totalItems a" by blast+
qed

end
