(* ===== verification/Props_Buffer.thy ===== *)
theory Props_Buffer
  imports Sample Buffer_Calls
begin

text \<open>
  The properties of a scope buffer: what each method does to the items a client sees, when it
  refuses, and that the accounting and the indexes survive. Each is followed by its application to
  the buffer of theory \<open>Sample\<close>.
\<close>

lemma result_Inr: "\<not> isl (fst p) \<Longrightarrow> \<exists>v a' b'. p = (Inr v, a', b')"
  by (cases p; cases "fst p") auto

section \<open>Appending\<close>

text \<open>C15: An append either fails and leaves the buffer and the store's counters exactly as they were, and
  it fails exactly when the buffer is detached, the scope is at its item cap, the id is taken, the
  item is over the per-item cap or its size does not fit into the store; or it succeeds, and then the
  scope holds its old items in their order followed by the stored one, which has the next sequence
  number.\<close>

theorem append_outcome:
  assumes "buf_ok b" "acct_ok a" "lastSeq b < 2 ^ 64 - 1" "appendItem J now u it a b = (r, a', b')"
  shows "case r of
      Inl e \<Rightarrow> a' = a \<and> b' = b \<and>
        (detached b \<or> itemCapExceeded b (int (length (items b)) + 1) \<or>
         (ID it \<noteq> [] \<and> (\<exists>x \<in> set (bufItems b). ID x = ID it)) \<or>
         (attached b \<and> (approxItemSize (preparedItem J it now u True) > bufMaxItemBytes b \<or>
            totalBytes a + approxItemSize (preparedItem J it now u True) > maxStoreBytes a)))
    | Inr st \<Rightarrow> bufItems b' = bufItems b @ [st] \<and>
        st = (preparedItem J it now u (attached b))\<lparr>Seq := Suc (lastSeq b)\<rparr> \<and> lastSeq b' = Suc (lastSeq b) \<and>
        \<not> detached b \<and> \<not> itemCapExceeded b (int (length (items b)) + 1) \<and>
        (ID it \<noteq> [] \<longrightarrow> (\<forall>x \<in> set (bufItems b). ID x \<noteq> ID it)) \<and>
        (attached b \<longrightarrow> approxItemSize (preparedItem J it now u True) \<le> bufMaxItemBytes b \<and>
           totalBytes a + approxItemSize (preparedItem J it now u True) \<le> maxStoreBytes a)"
  using assms(4)
proof (cases rule: append_cases)
  case (err e)
  then show ?thesis using append_Inl_iff [OF assms(1,2,4)] by simp
next
  case (ok st)
  note v = append_view [OF assms(1,3) assms(4) [unfolded ok(1)]]
  have "\<not> isl r" using ok(1) by simp
  then have "\<not> (detached b \<or> itemCapExceeded b (int (length (items b)) + 1) \<or>
     (ID it \<noteq> [] \<and> (\<exists>x \<in> set (bufItems b). ID x = ID it)) \<or>
     (attached b \<and> (approxItemSize (preparedItem J it now u True) > bufMaxItemBytes b \<or>
        totalBytes a + approxItemSize (preparedItem J it now u True) > maxStoreBytes a)))"
    unfolding append_Inl_iff [OF assms(1,2,4)] .
  then show ?thesis unfolding ok(1) sum.case using v by (auto simp: not_less)
qed

theorem append_outcome_witness:
  "isl (fst (appendItem sampleJson 40 (sampleUuid 4) (sampleItem ''a'' ''9'') sampleAcct sampleBuf)) \<and>
   (case appendItem sampleJson 40 (sampleUuid 4) (sampleItem ''d'' ''9'') sampleAcct sampleBuf of
      (r, _, b') \<Rightarrow> bufItems b' = bufItems sampleBuf @ [projr r] \<and> Seq (projr r) = 4)"
proof -
  let ?op = "\<lambda>k. appendItem sampleJson 40 (sampleUuid 4) (sampleItem k ''9'') sampleAcct sampleBuf"
  have e: "isl (fst (?op ''a''))" "\<not> isl (fst (?op ''d''))" "lastSeq sampleBuf = 3" by code_simp+
  obtain r a' b' where d: "?op ''d'' = (r, a', b')" using prod_cases3 by blast
  with append_outcome [OF sample_ok(3,1,4) d] e show ?thesis by (cases r) auto
qed

section \<open>Upsert, update, delete, drain\<close>

text \<open>C25: An upsert that fails changes nothing. One that succeeds creates the item exactly when no item has its
  id, and appends it then; otherwise it overwrites the payload of the one item with that id in place,
  keeping its position, sequence number and uuid. Either way the scope then holds the returned item, with the
  id and payload that were sent.\<close>

theorem upsert_outcome:
  assumes "buf_ok b" "lastSeq b < 2 ^ 64 - 1" "ID it \<noteq> []" "upsertByID J now u it a b = (r, a', b')"
  shows "case r of
      Inl e \<Rightarrow> a' = a \<and> b' = b
    | Inr (st, created) \<Rightarrow>
        (created \<longleftrightarrow> (\<forall>x \<in> set (bufItems b). ID x \<noteq> ID it)) \<and>
        bufItems b' = (if created then bufItems b @ [st]
          else map (\<lambda>x. if ID x = ID it then overwritten (Payload it) now (renderOr J (renderBytes it) (Payload it)) x else x)
                 (bufItems b)) \<and>
        st \<in> set (bufItems b') \<and> ID st = ID it \<and> Payload st = Payload it \<and> Ts st = now"
proof (cases r)
  case (Inl e)
  then show ?thesis using err_cleanD [OF upsertByID_err assms(1)] assms(4) by simp
next
  case (Inr x)
  obtain st created where x: "x = (st, created)" by fastforce
  have e: "upsertByID J now u it a b = (Inr (st, created), a', b')" using assms(4) by (simp add: Inr x)
  note v = upsert_view [OF assms(1-3) e]
  show ?thesis unfolding Inr x sum.case prod.case using v by presburger
qed

theorem upsert_outcome_witness:
  "case upsertByID sampleJson 40 (sampleUuid 4) (sampleItem ''a'' ''9'') sampleAcct sampleBuf of (r, _, b') \<Rightarrow>
     \<not> snd (projr r) \<and> map Payload (bufItems b') = [''9'', ''[2]'', ''7''] \<and> map Seq (bufItems b') = [1, 2, 3]"
proof -
  let ?op = "upsertByID sampleJson 40 (sampleUuid 4) (sampleItem ''a'' ''9'') sampleAcct sampleBuf"
  have e: "\<not> isl (fst ?op)" "map ID (bufItems sampleBuf) = [''a'', [], ''c'']" "map Seq (bufItems sampleBuf) = [1, 2, 3]"
    "map Payload (bufItems sampleBuf) = [''1'', ''[2]'', ''7'']" by code_simp+
  obtain x y z where l: "bufItems sampleBuf = [x, y, z]" using e(2) by (auto simp: map_eq_Cons_conv)
  have i: "ID (sampleItem ''a'' ''9'') = ''a''" "Payload (sampleItem ''a'' ''9'') = ''9''" by (simp_all add: sampleItem_def)
  obtain r a' b' where d: "?op = (r, a', b')" using prod_cases3 by blast
  have "ID (sampleItem ''a'' ''9'') \<noteq> []" by (simp add: i)
  from upsert_outcome [OF sample_ok(3,4) this d] e d show ?thesis
    by (cases r) (auto simp: l i)
qed

text \<open>An update by id, by sequence number or by uuid overwrites the payload, the timestamp and the rendered bytes
  of the addressed item and leaves every other item, the order and the length of the scope alone; it
  reports 1 if an item has that address and 0 otherwise.\<close>

theorem update_in_place:
  assumes "buf_ok b" "byUUID_full b" "address_ok ad" "updateAt J now payload pre ad a b = (Inr n, a', b')"
  shows "bufItems b' = map (\<lambda>x. if addresses ad x then overwritten payload now (renderOr J pre payload) x else x) (bufItems b) \<and>
    n = (if \<exists>x \<in> set (bufItems b). addresses ad x then 1 else 0)"
  using updateAt_view [OF assms] by blast

theorem update_in_place_witness:
  "case updateAt sampleJson 40 ''5'' None (BySeq 2) sampleAcct sampleBuf of (r, _, b') \<Rightarrow>
     r = Inr 1 \<and> map Payload (bufItems b') = [''1'', ''5'', ''7'']"
proof -
  let ?op = "updateAt sampleJson 40 ''5'' None (BySeq 2) sampleAcct sampleBuf"
  have e: "\<not> isl (fst ?op)" "map Seq (bufItems sampleBuf) = [1, 2, 3]"
    "map Payload (bufItems sampleBuf) = [''1'', ''[2]'', ''7'']" by code_simp+
  obtain x y z where l: "bufItems sampleBuf = [x, y, z]" using e(2) by (auto simp: map_eq_Cons_conv)
  obtain n a' b' where d: "?op = (Inr n, a', b')" using result_Inr [OF e(1)] by blast
  from update_in_place [OF sample_ok(3) sample_full _ d] e show ?thesis unfolding d by (simp add: l)
qed

text \<open>C26: A delete by id, by sequence number or by uuid on an attached scope always succeeds; it removes the
  addressed item, keeps the others in their order, and reports whether there was one.\<close>

theorem delete_filters:
  assumes "buf_ok b" "byUUID_full b" "address_ok ad" "\<not> detached b" "deleteAt capq now ad a b = (r, a', b')"
  shows "bufItems b' = filter (\<lambda>x. \<not> addresses ad x) (bufItems b) \<and>
    r = Inr (if \<exists>x \<in> set (bufItems b). addresses ad x then 1 else 0)"
  using deleteAt_view [OF assms] by blast

theorem delete_filters_witness:
  "case deleteAt 4 40 (ById ''a'') sampleAcct sampleBuf of (r, _, b') \<Rightarrow> r = Inr 1 \<and> map Seq (bufItems b') = [2, 3]"
proof -
  have e: "map ID (bufItems sampleBuf) = [''a'', [], ''c'']" "map Seq (bufItems sampleBuf) = [1, 2, 3]" "\<not> detached sampleBuf"
    by code_simp+
  obtain x y z where l: "bufItems sampleBuf = [x, y, z]" using e(2) by (auto simp: map_eq_Cons_conv)
  obtain r a' b' where d: "deleteAt 4 40 (ById ''a'') sampleAcct sampleBuf = (r, a', b')" using prod_cases3 by blast
  from delete_filters [OF sample_ok(3) sample_full _ e(3) d] e show ?thesis unfolding d by (simp add: l)
qed

text \<open>A drain up to a sequence number removes exactly the items at or below it and reports how many; a drain up to a
  uuid removes exactly the items up to and including the one that has it, and nothing if there is none.\<close>

theorem drain_prefix:
  assumes "buf_ok b" "byUUID_full b" "\<not> detached b" "\<not> IsZero u"
    "deleteUpToSeq now m a b = (r, a1, b1)" "deleteUpToUUID now u a b = (r2, a2, b2)"
  shows "bufItems b1 = filter (\<lambda>x. m < Seq x) (bufItems b) \<and> r = Inr (length (filter (\<lambda>x. Seq x \<le> m) (bufItems b))) \<and>
    bufItems b2 = (case find (\<lambda>x. UUID x = u) (bufItems b) of
      None \<Rightarrow> bufItems b | Some y \<Rightarrow> filter (\<lambda>x. Seq y < Seq x) (bufItems b))"
proof -
  obtain n a' b' where l: "deleteUpToSeqLocked now m a b = (n, a', b')" using prod_cases3 by blast
  have e: "r = Inr n" "b1 = b'" using assms(3,5) l by (auto simp: deleteUpToSeq_def)
  obtain k where "r2 = Inr k" using assms(3,6) by (auto simp: deleteUpToUUID_def split: option.splits prod.splits)
  then show ?thesis using deleteUpToSeqLocked_view [OF assms(1) l] e deleteUpToUUID_view [OF assms(1,2) _ assms(4)] assms(6)
    by simp
qed

theorem drain_prefix_witness:
  "(case deleteUpToSeq 40 2 sampleAcct sampleBuf of (r, _, b1) \<Rightarrow> r = Inr 2 \<and> map Seq (bufItems b1) = [3]) \<and>
   (case deleteUpToUUID 40 (sampleUuid 1) sampleAcct sampleBuf of (_, _, b2) \<Rightarrow> map Seq (bufItems b2) = [2, 3])"
proof -
  have e: "map Seq (bufItems sampleBuf) = [1, 2, 3]" "\<not> detached sampleBuf" "\<not> IsZero (sampleUuid 1)"
    "map (\<lambda>x. UUID x = sampleUuid 1) (bufItems sampleBuf) = [True, False, False]" by code_simp+
  obtain x y z where l: "bufItems sampleBuf = [x, y, z]" using e(1) by (auto simp: map_eq_Cons_conv)
  obtain r a1 b1 r2 a2 b2 where d: "deleteUpToSeq 40 2 sampleAcct sampleBuf = (r, a1, b1)"
    "deleteUpToUUID 40 (sampleUuid 1) sampleAcct sampleBuf = (r2, a2, b2)" using prod_cases3 by metis
  from drain_prefix [OF sample_ok(3) sample_full e(2,3) d] e show ?thesis unfolding d by (simp add: l)
qed

section \<open>Counters\<close>

text \<open>C20: A counter add that fails changes nothing. One that succeeds creates the counter with the increment as its
  value exactly when no item has the id; otherwise the value returned is the old value (the cell's, or the
  payload read as an integer) plus the increment. The value never leaves the range a JSON number can
  represent exactly, and it is what the entry holds afterwards.\<close>

theorem counter_outcome:
  assumes "buf_ok b" "lastSeq b < 2 ^ 64 - 1" "k \<noteq> []" "\<bar>d\<bar> \<le> MaxCounterValue" "counterAdd J now u n k d a b = (r, a', b')"
  shows "case r of
      Inl e \<Rightarrow> a' = a \<and> b' = b
    | Inr (v, created) \<Rightarrow>
        (created \<longleftrightarrow> (\<forall>x \<in> set (bufItems b). ID x \<noteq> k)) \<and> \<bar>v\<bar> \<le> MaxCounterValue \<and>
        (if created then v = d else \<exists>x \<in> set (bufItems b). ID x = k \<and> (\<exists>w. counterValue J x = Inr w \<and> v = w + d)) \<and>
        (\<exists>y \<in> set (bufItems b'). ID y = k \<and> counterValue J y = Inr v) \<and>
        length (bufItems b') = length (bufItems b) + (if created then 1 else 0)"
proof (cases r)
  case (Inl e)
  then show ?thesis using err_cleanD [OF counterAdd_err [OF assms(3)] assms(1)] assms(5) by simp
next
  case (Inr x)
  obtain v created where x: "x = (v, created)" by fastforce
  have e: "counterAdd J now u n k d a b = (Inr (v, created), a', b')" using assms(5) by (simp add: Inr x)
  show ?thesis
  proof (cases "map_of (byID b) k")
    case None
    note c = counterAdd_new [OF assms(1,2) None assms(3) e]
    have "length (items b') = Suc (length (items b))" using c(3) by (metis length_append_singleton length_bufItems)
    then show ?thesis using c assms(4) byID_None_iff [OF assms(1,3)] None by (auto simp: Inr x)
  next
    case (Some p)
    note c = counterAdd_existing [OF assms(1) Some assms(4) e]
    have p: "p \<in> set (items b)" "ID (deref b p) = k" using byID_SomeD [OF buf_ok_idx [OF assms(1)] Some] by simp_all
    have "ID (deref b' p) = k" using c(6) p(2) by simp
    moreover have "deref b' p \<in> set (bufItems b')" using p(1) c(5) by (metis deref_in_bufItems)
    moreover have "length (bufItems b') = length (bufItems b)" using c(5) by simp
    moreover have "\<not> (\<forall>x \<in> set (bufItems b). ID x \<noteq> k)" using byID_None_iff [OF assms(1,3)] Some by simp
    ultimately show ?thesis using c p deref_in_bufItems [OF p(1)] by (auto simp: Inr x)
  qed
qed

theorem counter_outcome_witness:
  "case counterAdd sampleJson 40 (sampleUuid 4) ''posts'' ''c'' 5 sampleAcct sampleBuf of (r, _, b') \<Rightarrow>
     r = Inr (12, False) \<and> (\<exists>y \<in> set (bufItems b'). ID y = ''c'' \<and> counterValue sampleJson y = Inr 12)"
proof -
  let ?op = "counterAdd sampleJson 40 (sampleUuid 4) ''posts'' ''c'' 5 sampleAcct sampleBuf"
  have e: "fst ?op = Inr (12, False)" by code_simp
  then obtain a' b' where d: "?op = (Inr (12, False), a', b')" by (cases ?op) auto
  have k: "''c'' \<noteq> ([] :: string)" "\<bar>5\<bar> \<le> MaxCounterValue" by (simp_all add: MaxCounterValue_def)
  from counter_outcome [OF sample_ok(3,4) k d] show ?thesis unfolding d by simp
qed

text \<open>The read-lock fast path of a counter add is equivalent to the path that takes the write lock from the start:
  whatever the state, the two return the same result and leave the same state.\<close>

theorem counter_fast_path:
  "counterAdd J now u scope k d a b = counterAddSlow J now u scope k d a b"
  by (rule fast_path_is_slow_path)

text \<open>Counter traffic is silent: no counter add, whether it creates, promotes, bumps or fails, moves the
  freshness timestamp of the scope or of the store.\<close>

theorem counter_silent:
  assumes "counterAdd J now u n k d a b = (r, a', b')" "k \<noteq> []" "buf_ok b" "lastSeq b < 2 ^ 64 - 1"
  shows "bufLastWriteTS b' = bufLastWriteTS b \<and> lastWriteTS a' = lastWriteTS a"
  using counterAdd_silent [OF assms] by blast

theorem counter_silent_witness:
  "case counterAdd sampleJson 40 (sampleUuid 4) ''posts'' ''c'' 5 sampleAcct sampleBuf of (_, a', b') \<Rightarrow>
     bufLastWriteTS b' = 30 \<and> lastWriteTS a' = 30"
proof -
  obtain r a' b' where d: "counterAdd sampleJson 40 (sampleUuid 4) ''posts'' ''c'' 5 sampleAcct sampleBuf = (r, a', b')"
    using prod_cases3 by blast
  have "bufLastWriteTS sampleBuf = 30" "lastWriteTS sampleAcct = 30" by code_simp+
  with counter_silent [OF d _ sample_ok(3,4)] show ?thesis unfolding d by simp
qed

text \<open>A materialised counter reads back: the decimal text a reader is shown for a counter cell is decoded by the
  counter path to the cell's value, when the JSON library decodes that text as the number it denotes.\<close>

theorem counter_text_roundtrip:
  assumes "\<bar>cellValue c\<bar> \<le> MaxCounterValue" "unmarshalNumber J (renderCounterPayload c) = Some (renderCounterPayload c)"
  shows "parseCounterValue J (renderCounterPayload c) = Inr (cellValue c)"
  by (rule parseCounterValue_render [OF assms])

theorem counter_text_roundtrip_witness:
  "parseCounterValue sampleJson (renderCounterPayload \<lparr>cellValue = - 407, cellTs = 9\<rparr>) = Inr (- 407)"
proof -
  let ?c = "\<lparr>cellValue = - 407, cellTs = 9\<rparr>"
  have "unmarshalNumber sampleJson (renderCounterPayload ?c) = Some (renderCounterPayload ?c)" by code_simp
  from counter_text_roundtrip [OF _ this] show ?thesis by (simp add: MaxCounterValue_def)
qed

section \<open>Sequences of calls\<close>

text \<open>C24: Whatever sequence of appends, upserts, updates, counter adds, deletes and drains an attached scope receives, with
  arguments the validators admit and fewer of them than the sequence counter has room for, its indexes, its byte count
  and its item cap stay
  consistent, the store's byte total never exceeds the cap, the totals move exactly with this scope, so that the
  share of all other scopes is untouched, and sequence numbers and the freshness timestamp never go back. The replacement of a
  whole scope, which numbers its items anew, is not among these calls.\<close>

theorem buffer_calls_invariant:
  assumes "\<forall>c \<in> set cs. call_ok c" "acct_ok a" "fits a b" "buf_ok b" "attached b" "lastSeq b + length cs < 2 ^ 64"
    "fold (callBuf J) cs (a, b) = (a', b')"
  shows "buf_ok b' \<and> acct_ok a' \<and> fits a' b' \<and> totalBytes a' \<le> maxStoreBytes a \<and>
    totalBytes a' - bytes b' = totalBytes a - bytes b \<and>
    totalItems a' - int (length (items b')) = totalItems a - int (length (items b)) \<and>
    lastSeq b \<le> lastSeq b' \<and> lastWriteTS a \<le> lastWriteTS a'"
proof -
  note k = calls_kept [OF assms(1-4,6,7)]
  have "totalBytes a' \<le> maxStoreBytes a" using k(1,5) by (simp add: acct_ok_def)
  then show ?thesis using k(1-3,6,7) k(4) [OF assms(5)] by (simp add: rest_def)
qed

theorem buffer_calls_invariant_witness:
  "case fold (callBuf sampleJson) [CCounter 40 (sampleUuid 4) ''posts'' ''c'' 5, CDrainSeq 50 1,
       CUpdate 60 ''[]'' None (BySeq 2), CAppend 70 (sampleUuid 5) (sampleItem ''d'' ''8'')] (sampleAcct, sampleBuf) of
     (a', b') \<Rightarrow> buf_ok b' \<and> totalBytes a' - bytes b' = 3072 \<and> map Seq (bufItems b') = [2, 3, 4]"
proof -
  let ?cs = "[CCounter 40 (sampleUuid 4) ''posts'' ''c'' 5, CDrainSeq 50 1, CUpdate 60 ''[]'' None (BySeq 2),
    CAppend 70 (sampleUuid 5) (sampleItem ''d'' ''8'')]"
  have e: "attached sampleBuf" "lastSeq sampleBuf = 3" "totalBytes sampleAcct - bytes sampleBuf = 3072"
    "map Seq (bufItems (snd (fold (callBuf sampleJson) ?cs (sampleAcct, sampleBuf)))) = [2, 3, 4]" by code_simp+
  obtain a' b' where d: "fold (callBuf sampleJson) ?cs (sampleAcct, sampleBuf) = (a', b')" by fastforce
  have c: "\<forall>c \<in> set ?cs. call_ok c" by (simp add: MaxCounterValue_def)
  have l: "lastSeq sampleBuf + length ?cs < 2 ^ 64" using e(2) by simp
  from buffer_calls_invariant [OF c sample_ok(1-3) e(1) l d] e(3,4) show ?thesis unfolding d by simp
qed

text \<open>A buffer that has been detached refuses every write: no sequence of calls through a stale pointer changes it or
  the counters of the store.\<close>

theorem detached_refuses:
  assumes "detached b" "\<forall>c \<in> set cs. call_ok c" "acct_ok a" "fits a b" "buf_ok b" "lastSeq b + length cs < 2 ^ 64"
  shows "fold (callBuf J) cs (a, b) = (a, b)"
proof -
  obtain a' b' where e: "fold (callBuf J) cs (a, b) = (a', b')" by fastforce
  show ?thesis using calls_kept(8) [OF assms(2-6) e assms(1)] e by simp
qed

theorem detached_refuses_witness:
  "fold (callBuf sampleJson) [CDrainSeq 50 9, CUpsert 60 (sampleUuid 5) (sampleItem ''a'' ''8'')]
     (sampleAcct0, sampleBuf0\<lparr>detached := True, attached := False\<rparr>) =
   (sampleAcct0, sampleBuf0\<lparr>detached := True, attached := False\<rparr>)"
  by (rule detached_refuses)
    (use sample_buf0_ok in \<open>simp_all add: fits_def buf_ok_def idx_ok_def slice_ok_def byID_ok_def bySeq_ok_def byUUID_ok_def
      bufItems_def sizeSum_def sampleBuf0_def newscopeBuffer_def\<close>)

end
