(* ===== verification/Props_Read.thy ===== *)
theory Props_Read
  imports Sample Buffer_Calls
begin

text \<open>
  The properties of reading a scope (windows, lookups, the binary search over sequence numbers), of
  the index maintenance behind deletes, and of the replacement states of \<^verbatim>\<open>/warm\<close> and \<^verbatim>\<open>/rebuild\<close>.
\<close>

section \<open>Reads\<close>

text \<open>C37: Reading the head of a scope after a sequence number returns, oldest first, the first items above it, at
  most the limit, with counters materialised; the truncation flag says exactly whether more were left.\<close>

theorem head_window:
  assumes "buf_ok b" "limit > 0"
  shows "sinceSeq m limit b = (take (nat limit) (filter (\<lambda>x. m < Seq x) (shown b)),
    int (length (filter (\<lambda>x. m < Seq x) (shown b))) > limit)"
  using sinceSeq_window [OF assms] by (simp add: prod_eq_iff)

theorem head_window_witness:
  "fst (sinceSeq 1 1 sampleBuf) = [shown sampleBuf ! 1] \<and> snd (sinceSeq 1 1 sampleBuf)"
proof -
  have e: "map Seq (shown sampleBuf) = [1, 2, 3]" by code_simp
  then obtain x y z where l: "shown sampleBuf = [x, y, z]" by (auto simp: map_eq_Cons_conv)
  show ?thesis using head_window [OF sample_ok(3), of 1 1] e by (simp add: l)
qed

text \<open>C38: Reading the tail of a scope skips the newest items the offset names and returns, oldest first, the newest
  of the rest, at most the limit; the truncation flag says exactly whether older items were left.\<close>

theorem tail_window:
  assumes "limit > 0" "offset \<ge> 0"
  shows "tailOffset limit offset b =
    (let kept = take (length (shown b) - nat offset) (shown b) in drop (length kept - nat limit) kept,
     int (length (shown b)) > offset + limit)"
  using tailOffset_window [OF assms] by (simp add: prod_eq_iff)

theorem tail_window_witness: "map Seq (fst (tailOffset 1 1 sampleBuf)) = [2] \<and> snd (tailOffset 1 1 sampleBuf)"
proof -
  have e: "map Seq (shown sampleBuf) = [1, 2, 3]" by code_simp
  then obtain x y z where l: "shown sampleBuf = [x, y, z]" by (auto simp: map_eq_Cons_conv)
  show ?thesis using tail_window [of 1 1 sampleBuf] e by (simp add: l)
qed

lemma find_unique:
  assumes "x \<in> set xs" "P x" "\<And>y. y \<in> set xs \<Longrightarrow> P y \<Longrightarrow> y = x" shows "find P xs = Some x"
proof -
  obtain y where y: "find P xs = Some y" using assms(1,2) by (metis find_None_iff not_None_eq)
  then have "y \<in> set xs" "P y" by (auto simp: find_Some_iff)
  then show ?thesis using assms(3) y by metis
qed

lemma getAt_iff:
  assumes "buf_ok b" "byUUID_full b" "address_ok ad"
  shows "getAt ad b = Some x \<longleftrightarrow> x \<in> set (shown b) \<and> addresses ad x"
  using assms byId.lookup_iff bySq.lookup_iff byUu.lookup_iff by (cases ad) simp_all

text \<open>A lookup through an index (id, sequence number or uuid) is equivalent to a linear search through the items the
  scope shows: it finds the item with that address if there is one, and nothing otherwise.\<close>

theorem lookup_is_search:
  assumes "buf_ok b" "byUUID_full b" "address_ok ad"
  shows "getAt ad b = find (addresses ad) (shown b)"
proof (cases "getAt ad b")
  case None
  then have "find (addresses ad) (shown b) = None" using getAt_iff [OF assms] by (auto simp: find_None_iff)
  then show ?thesis using None by simp
next
  case (Some x)
  then have x: "x \<in> set (shown b)" "addresses ad x" using getAt_iff [OF assms] by blast+
  have "y = x" if "y \<in> set (shown b)" "addresses ad y" for y
    using getAt_iff [OF assms, of y] Some that by simp
  then show ?thesis unfolding Some by (rule find_unique [where P = "addresses ad", OF x, symmetric])
qed

theorem lookup_is_search_witness:
  "getAt (ByUuid (sampleUuid 2)) sampleBuf = Some (shown sampleBuf ! 1) \<and> getAt (ById ''zz'') sampleBuf = None"
proof -
  have e: "map UUID (shown sampleBuf) = [sampleUuid 1, sampleUuid 2, sampleUuid 3]" "map ID (shown sampleBuf) = [''a'', [], ''c'']"
    "\<not> IsZero (sampleUuid 2)" "sampleUuid 1 \<noteq> sampleUuid 2" by code_simp+
  then obtain x y z where l: "shown sampleBuf = [x, y, z]" by (auto simp: map_eq_Cons_conv)
  show ?thesis
    using lookup_is_search [OF sample_ok(3) sample_full, of "ByUuid (sampleUuid 2)"]
      lookup_is_search [OF sample_ok(3) sample_full, of "ById ''zz''"] e by (simp add: l)
qed

lemma search_loop_le: "i \<le> j \<Longrightarrow> search_loop f i j \<le> j"
proof (induction f i j rule: search_loop.induct)
  case (1 f i j)
  then show ?case
    using "1.IH" by (subst search_loop.simps) (force simp: Let_def intro: order_trans)
qed

lemma indexBySeq_bound: "indexBySeqLocked b q = Some i \<Longrightarrow> i < length (items b)"
  using search_loop_le [of 0 "length (items b)" "\<lambda>i. Seq (deref b (items b ! i)) \<ge> q"]
  by (auto simp: indexBySeqLocked_def Let_def sortSearch_def split: if_splits)

text \<open>The binary search for a sequence number finds a position exactly when the scope has an item with that number,
  and then that item's position.\<close>

theorem seq_search:
  assumes "buf_ok b"
  shows "indexBySeqLocked b q = Some i \<longleftrightarrow> i < length (items b) \<and> Seq (bufItems b ! i) = q"
proof -
  have sl: "slice_ok b" using assms by (simp add: buf_ok_def idx_ok_def)
  have hit: "indexBySeqLocked b q = Some i" if "i < length (items b)" "Seq (bufItems b ! i) = q" for i
  proof -
    have m: "items b ! i \<in> set (items b)" using that(1) by simp
    obtain j where j: "indexBySeqLocked b (Seq (deref b (items b ! i))) = Some j" "j < length (items b)" "items b ! j = items b ! i"
      using indexBySeq_hit [OF sl m] by blast
    have "distinct (items b)" using sl by (simp add: slice_ok_def)
    then have "j = i" using j that(1) by (simp add: nth_eq_iff_index_eq)
    then show ?thesis using j(1) that by simp
  qed
  have "i < length (items b) \<and> Seq (bufItems b ! i) = q" if s: "indexBySeqLocked b q = Some i" for i
    using indexBySeq_SomeD [OF s] indexBySeq_bound [OF s] by simp
  then show ?thesis using hit by blast
qed

theorem seq_search_witness: "indexBySeqLocked sampleBuf 3 = Some 2 \<and> indexBySeqLocked sampleBuf 9 \<noteq> Some 0"
proof -
  have e: "length (items sampleBuf) = 3" "map Seq (bufItems sampleBuf) = [1, 2, 3]" by code_simp+
  then obtain x y z where l: "bufItems sampleBuf = [x, y, z]" by (auto simp: map_eq_Cons_conv)
  show ?thesis using seq_search [OF sample_ok(3), of 3 2] seq_search [OF sample_ok(3), of 9 0] e by (simp add: l)
qed

section \<open>Index maintenance\<close>

text \<open>Rebuilding the indexes of a sparse scope and resetting those of an empty one are invisible: the item list,
  the byte count and the counters of the scope are unchanged, the indexes stay consistent, and every lookup
  gives the same answer as before.\<close>

theorem shrink_invisible:
  assumes "buf_ok b" "byUUID_full b" "address_ok ad" "b' \<in> {shrinkIfSparseLocked capq b, resetIfEmptyLocked b}"
  shows "bufItems b' = bufItems b \<and> bytes b' = bytes b \<and> lastSeq b' = lastSeq b \<and> buf_ok b' \<and> getAt ad b' = getAt ad b"
proof -
  have r: "reindexed b b'" using assms(4) shrinkIfSparse_reindexed [OF assms(1)] resetIfEmpty_reindexed [OF assms(1)] by auto
  have f: "byUUID_full b'" "buf_ok b'" using r assms(2) by (simp_all add: reindexed_def)
  have v: "bufItems b' = bufItems b" by (rule reindexed_view [OF r])
  have "getAt ad b' = Some x \<longleftrightarrow> getAt ad b = Some x" for x
    using getAt_iff [OF f(2,1) assms(3)] getAt_iff [OF assms(1-3)] v by (simp add: shown_def)
  then have "getAt ad b' = getAt ad b" by (metis not_Some_eq)
  then show ?thesis using v f r by (simp add: reindexed_def)
qed

theorem shrink_invisible_witness:
  "bufItems (shrinkIfSparseLocked 4096 sampleBuf) = bufItems sampleBuf \<and>
   getAt (ById ''c'') (shrinkIfSparseLocked 4096 sampleBuf) = Some (shown sampleBuf ! 2)"
proof -
  have e: "getAt (ById ''c'') sampleBuf = Some (shown sampleBuf ! 2)" by code_simp
  show ?thesis
    using shrink_invisible [OF sample_ok(3) sample_full, of "ById ''c''" "shrinkIfSparseLocked 4096 sampleBuf" 4096] e by simp
qed

section \<open>Replacement states\<close>

lemma build_loop_Inl:
  "distinct (filter (\<lambda>k. k \<noteq> []) (map ID its)) \<Longrightarrow> set (filter (\<lambda>k. k \<noteq> []) (map ID its)) \<inter> set seen = {} \<Longrightarrow>
   \<exists>built. build_loop J now mu mints seen s its = Inr built"
proof (induction its arbitrary: seen s)
  case (Cons it its)
  have n: "\<not> (ID it \<noteq> [] \<and> ID it \<in> set seen)" using Cons.prems(2) by auto
  obtain built where "build_loop J now mu mints (if ID it \<noteq> [] then ID it # seen else seen) (u64_inc s) its = Inr built"
  proof -
    have "distinct (filter (\<lambda>k. k \<noteq> []) (map ID its))" using Cons.prems(1) by (cases "ID it = []") simp_all
    moreover have "set (filter (\<lambda>k. k \<noteq> []) (map ID its)) \<inter> set (if ID it \<noteq> [] then ID it # seen else seen) = {}"
      using Cons.prems by (cases "ID it = []") auto
    ultimately show ?thesis using Cons.IH that by blast
  qed
  then show ?case using n by (simp add: Let_def)
qed simp

lemma uuid_loop_fails:
  "uuid_loop m p its = Inl e \<Longrightarrow>
   \<not> distinct (filter (\<lambda>u. \<not> IsZero u) (map UUID its)) \<or> (\<exists>it \<in> set its. \<not> IsZero (UUID it) \<and> map_of m (UUID it) \<noteq> None)"
proof (induction its arbitrary: m p)
  case (Cons it its)
  show ?case
  proof (cases "IsZero (UUID it) \<or> map_of m (UUID it) \<noteq> None")
    case True
    then show ?thesis using Cons.IH [of m "Suc p"] Cons.prems by (cases "IsZero (UUID it)") auto
  next
    case False
    then have "uuid_loop (AList.update (UUID it) p m) (Suc p) its = Inl e" using Cons.prems by simp
    from Cons.IH [OF this] show ?thesis
    proof
      assume "\<exists>x \<in> set its. \<not> IsZero (UUID x) \<and> map_of (AList.update (UUID it) p m) (UUID x) \<noteq> None"
      then obtain x where x: "x \<in> set its" "\<not> IsZero (UUID x)" "map_of (AList.update (UUID it) p m) (UUID x) \<noteq> None" by blast
      show ?thesis
      proof (cases "UUID x = UUID it")
        case True
        then have "UUID it \<in> set (filter (\<lambda>u. \<not> IsZero u) (map UUID its))" using x(1,2) by (metis (mono_tags) filter_set image_eqI list.set_map mem_Collect_eq set_filter)
        then show ?thesis using False by simp
      next
        case other: False
        then show ?thesis using x by (auto simp: update_conv')
      qed
    qed simp
  qed
qed simp

lemma uuid_loop_dup:
  assumes "uuid_loop m p its = Inr m'" "distinct (map fst m)"
  shows "distinct (filter (\<lambda>u. \<not> IsZero u) (map UUID its)) \<and> (\<forall>it \<in> set its. \<not> IsZero (UUID it) \<longrightarrow> map_of m (UUID it) = None)"
  using assms
proof (induction its arbitrary: m p)
  case (Cons it its)
  show ?case
  proof (cases "IsZero (UUID it)")
    case True
    then show ?thesis using Cons.IH [of m "Suc p"] Cons.prems by auto
  next
    case False
    then have n: "map_of m (UUID it) = None" and r: "uuid_loop (AList.update (UUID it) p m) (Suc p) its = Inr m'"
      using Cons.prems by (auto split: if_splits)
    have ih: "distinct (filter (\<lambda>u. \<not> IsZero u) (map UUID its))"
      "\<forall>x \<in> set its. \<not> IsZero (UUID x) \<longrightarrow> map_of (AList.update (UUID it) p m) (UUID x) = None"
      using Cons.IH [OF r] Cons.prems(2) by (simp_all add: distinct_update)
    have "UUID x \<noteq> UUID it \<and> map_of m (UUID x) = None" if "x \<in> set its" "\<not> IsZero (UUID x)" for x
      using ih(2) that by (metis fun_upd_apply option.distinct(1) update_conv')
    then have "UUID it \<notin> set (filter (\<lambda>u. \<not> IsZero u) (map UUID its))" "\<forall>x \<in> set its. \<not> IsZero (UUID x) \<longrightarrow> map_of m (UUID x) = None"
      by force+
    then show ?thesis using ih(1) n False by simp
  qed
qed simp

text \<open>Building the replacement state of a scope fails exactly when two items carry the same non-empty id or end up with the
  same uuid. Otherwise its items are the input in its order, numbered densely from one, all stamped with
  one time, each with its own uuid or a minted one, and a buffer that holds the state is consistent and finds
  every item by every address.\<close>

theorem replacement_state:
  assumes "length its < 2 ^ 64"
  shows "case buildReplacementState J now mints its mu of
      Inl e \<Rightarrow> \<not> distinct (filter (\<lambda>k. k \<noteq> []) (map ID its)) \<or>
        \<not> distinct (filter (\<lambda>u. \<not> IsZero u) (map UUID (replacementItems J now mints its mu)))
    | Inr r \<Rightarrow> distinct (filter (\<lambda>k. k \<noteq> []) (map ID its)) \<and>
        distinct (filter (\<lambda>u. \<not> IsZero u) (map UUID (replacementItems J now mints its mu))) \<and> rLastSeq r = length its \<and>
        (\<forall>b. holds r b \<and> (maxItems b > 0 \<longrightarrow> int (length its) \<le> maxItems b) \<longrightarrow>
           bufItems b = replacementItems J now mints its mu \<and> buf_ok b \<and> byUUID_full b)"
proof (cases "buildReplacementState J now mints its mu")
  case (Inr r)
  note b = buildReplacement_Inr [OF Inr assms]
  have "distinct (filter (\<lambda>u. \<not> IsZero u) (map UUID (replacementItems J now mints its mu)))"
    using b(1) b(5) uuid_loop_dup [of "[]" 0 "rHeap r" "rByUUID r"] by (cases "its = []") (simp_all add: replacementItems_def)
  then show ?thesis using Inr b(3,4) holds_ok(1,2,3) [OF Inr assms] by simp
next
  case (Inl e)
  then have ne: "its \<noteq> []" by (auto simp: buildReplacementState_def)
  show ?thesis
  proof (cases "build_loop J now mu mints [] 0 its")
    case (Inl e')
    then show ?thesis using build_loop_Inl [of its "[]" J now mu mints 0] \<open>buildReplacementState J now mints its mu = Inl e\<close> by auto
  next
    case (Inr built)
    have bu: "built = replacementItems J now mints its mu"
      using build_loop_built [OF Inr] assms by (simp add: replacementItems_def)
    have "uuid_loop [] 0 built = Inl e" using Inl ne Inr by (auto simp: buildReplacementState_def Let_def split: sum.splits)
    then show ?thesis using uuid_loop_fails [of "[]" 0 built e] Inl bu by simp
  qed
qed

theorem replacement_state_witness:
  "\<not> isl (buildReplacementState sampleJson 9 sampleUuid [sampleItem ''a'' ''1'', sampleItem [] ''2''] True) \<and>
   distinct (filter (\<lambda>k. k \<noteq> []) (map ID [sampleItem ''a'' ''1'', sampleItem [] ''2'']))"
proof -
  let ?its = "[sampleItem ''a'' ''1'', sampleItem [] ''2'']"
  have e: "\<not> isl (buildReplacementState sampleJson 9 sampleUuid ?its True)" by code_simp
  then obtain r where r: "buildReplacementState sampleJson 9 sampleUuid ?its True = Inr r" by (cases "buildReplacementState sampleJson 9 sampleUuid ?its True") simp_all
  show ?thesis using replacement_state [of ?its sampleJson 9 sampleUuid True] e by (simp add: r)
qed

end
