(* ===== verification/Refine.thy ===== *)
theory Refine
  imports Machine Buffer_Calls
begin

text \<open>
  What the cache promises a client, without shards, indexes or counters: a finite map from scope
  names to item lists, and for every request and its response the map it leaves behind. The store
  refines this specification.

  The event log is one of the scopes of that map. A request that addresses it, a delete or a drain of \<^verbatim>\<open>_events\<close>, leaves
  exactly what it says; any other may add one entry at its end, which theory \<open>Props_Events\<close> describes.
\<close>

section \<open>The specification\<close>

type_synonym cache = "string \<Rightarrow> item list option"

definition items_of :: "cache \<Rightarrow> string \<Rightarrow> item list" where
  "items_of c n = (case c n of None \<Rightarrow> [] | Some xs \<Rightarrow> xs)"

definition on_scope :: "string \<Rightarrow> (item list \<Rightarrow> item list) \<Rightarrow> cache \<Rightarrow> cache" where
  "on_scope n f c = (case c n of None \<Rightarrow> c | Some xs \<Rightarrow> c(n \<mapsto> f xs))"

text \<open>\<open>c\<close> up to one more entry of the event log, which a request on scope \<open>n\<close> may add unless \<open>n\<close> is the log itself.\<close>

definition settled :: "string \<Rightarrow> cache \<Rightarrow> cache \<Rightarrow> bool" where
  "settled n c c' \<longleftrightarrow> (\<forall>m. m \<noteq> EventsScopeName \<longrightarrow> c' m = c m) \<and>
     (\<exists>es. c' EventsScopeName = Some (items_of c EventsScopeName @ es) \<and> length es \<le> 1 \<and> (n = EventsScopeName \<longrightarrow> es = []))"

text \<open>
  The requests, one for every operation that writes. An item to update carries its address, an id, a sequence number or
  a uuid; a delete and a drain name the scope, then the id or the bound, and the uuid as text, empty if there is none.
\<close>

datatype request =
    QAppend item
  | QUpsert item
  | QCounter string string int
  | QUpdate item
  | QDelete string string nat string
  | QDrain string nat string
  | QDropScope string
  | QWipe
  | QWarm bulkInputs "(string \<times> item list) list"
  | QRebuild bulkInputs "(string \<times> item list) list"

datatype response =
    Refused goError
  | Stored item
  | Upserted item bool
  | Counted int bool
  | Hits nat
  | Dropped nat bool
  | Done nat

fun scopeOf :: "request \<Rightarrow> string" where
  "scopeOf (QAppend it) = Scope it"
| "scopeOf (QUpsert it) = Scope it"
| "scopeOf (QCounter n k d) = n"
| "scopeOf (QUpdate it) = Scope it"
| "scopeOf (QDelete n k q u) = n"
| "scopeOf (QDrain n m u) = n"
| "scopeOf (QDropScope n) = n"
| "scopeOf q = []"

text \<open>An id, if there is one, then a uuid, then a sequence number.\<close>

definition target :: "string \<Rightarrow> UUID \<Rightarrow> nat \<Rightarrow> address" where
  "target k u q = (if k \<noteq> [] then ById k else if \<not> IsZero u then ByUuid u else BySeq q)"

definition hitCount :: "(item \<Rightarrow> bool) \<Rightarrow> item list \<Rightarrow> nat" where
  "hitCount sel xs = (if \<exists>x \<in> set xs. sel x then 1 else 0)"

text \<open>What a drain takes: everything up to a sequence number, or up to the item with a uuid.\<close>

definition drains :: "bool \<Rightarrow> nat \<Rightarrow> string \<Rightarrow> item list \<Rightarrow> (item \<Rightarrow> bool) \<Rightarrow> bool" where
  "drains full m u xs sel \<longleftrightarrow> (if u \<noteq> [] then cuts full (parsedUUID u) xs sel else sel = (\<lambda>x. Seq x \<le> m))"

text \<open>An overwrite changes the payload, its rendering and the timestamp, never the identity of an item.\<close>

definition rewriting :: "string \<Rightarrow> (item \<Rightarrow> item) \<Rightarrow> bool" where
  "rewriting payload f \<longleftrightarrow> (\<exists>t rb. f = overwritten payload t rb)"

text \<open>\<open>full\<close> says that no two items of the addressed scope ever shared a uuid, so that a uuid means one item.\<close>

fun spec :: "jsonLib \<Rightarrow> bool \<Rightarrow> request \<Rightarrow> response \<Rightarrow> cache \<Rightarrow> cache \<Rightarrow> bool" where
  "spec J full q (Refused e) c c' = (c' = c)"
| "spec J full (QAppend it) (Stored st) c c' =
     (Scope st = Scope it \<and> ID st = ID it \<and> Payload st = Payload it \<and>
      settled (Scope it) (c(Scope it \<mapsto> items_of c (Scope it) @ [st])) c')"
| "spec J full (QUpsert it) (Upserted st created) c c' =
     (ID st = ID it \<and> Payload st = Payload it \<and>
      (created \<longleftrightarrow> (\<forall>x \<in> set (items_of c (Scope it)). ID x \<noteq> ID it)) \<and>
      (\<exists>f. rewriting (Payload it) f \<and>
         settled (Scope it) (c(Scope it \<mapsto> (if created then items_of c (Scope it) @ [st]
                             else map (\<lambda>x. if ID x = ID it then f x else x) (items_of c (Scope it))))) c'))"
| "spec J full (QCounter n k d) (Counted v created) c c' =
     (\<bar>v\<bar> \<le> MaxCounterValue \<and> (created \<longleftrightarrow> (\<forall>x \<in> set (items_of c n). ID x \<noteq> k)) \<and>
      (\<exists>y. ID y = k \<and> counterValue J y = Inr v \<and>
         (if created then v = d else \<forall>x \<in> set (items_of c n). ID x = k \<longrightarrow> counterValue J x = Inr (v - d)) \<and>
         settled n (c(n \<mapsto> (if created then items_of c n @ [y] else map (\<lambda>x. if ID x = k then y else x) (items_of c n)))) c'))"
| "spec J full (QUpdate it) (Hits h) c c' =
     (\<exists>sel f. picks full (target (ID it) (UUID it) (Seq it)) (items_of c (Scope it)) sel \<and> rewriting (Payload it) f \<and>
        h = hitCount sel (items_of c (Scope it)) \<and>
        settled (Scope it) (on_scope (Scope it) (map (\<lambda>x. if sel x then f x else x)) c) c')"
| "spec J full (QDelete n k q u) (Hits h) c c' =
     (\<exists>sel. picks full (target k (parsedUUID u) q) (items_of c n) sel \<and> h = hitCount sel (items_of c n) \<and>
        settled n (on_scope n (filter (\<lambda>x. \<not> sel x)) c) c')"
| "spec J full (QDrain n m u) (Hits h) c c' =
     (\<exists>sel. drains full m u (items_of c n) sel \<and> h = length (filter sel (items_of c n)) \<and>
        settled n (on_scope n (filter (\<lambda>x. \<not> sel x)) c) c')"
| "spec J full (QDropScope n) (Dropped h found) c c' =
     (h = length (items_of c n) \<and> (found \<longleftrightarrow> c n \<noteq> None) \<and> \<not> isReservedScope n \<and> settled n (c(n := None)) c')"
| "spec J full QWipe (Done h) c c' = (c' = [EventsScopeName \<mapsto> [], InboxScopeName \<mapsto> []])"
| "spec J full (QWarm bi grouped) (Done h) c c' =
     (h = length grouped \<and> settled [] (c ++ map_of (map (batchItems J bi) grouped)) c')"
| "spec J full (QRebuild bi grouped) (Done h) c c' =
     (h = length grouped \<and>
      c' = (map_of (map (batchItems J bi) grouped))(EventsScopeName \<mapsto> [], InboxScopeName \<mapsto> []))"
| "spec J full q p c c' = False"

section \<open>The store as an implementation of it\<close>

text \<open>
  A call of the store and the response it gives; the arguments of \<open>inp\<close> are the readings it may use, \<open>capq\<close> is the capacity
  of the slice a delete finds.
\<close>

definition respond :: "('a \<Rightarrow> response) \<Rightarrow> (goError + 'a) \<times> store \<Rightarrow> response \<times> store" where
  "respond f x = (case x of (Inl e, s) \<Rightarrow> (Refused e, s) | (Inr v, s) \<Rightarrow> (f v, s))"

fun serve :: "jsonLib \<Rightarrow> inputs \<Rightarrow> nat \<Rightarrow> nat \<Rightarrow> request \<Rightarrow> store \<Rightarrow> response \<times> store" where
  "serve J inp i capq (QAppend it) s = respond Stored (appendOne J inp i it s)"
| "serve J inp i capq (QUpsert it) s = respond (\<lambda>(st, created). Upserted st created) (upsertOne J inp i it s)"
| "serve J inp i capq (QCounter n k d) s = respond (\<lambda>(v, created). Counted v created) (counterAddOne J inp i n k d s)"
| "serve J inp i capq (QUpdate it) s = respond Hits (updateOne J inp i it s)"
| "serve J inp i capq (QDelete n k q u) s = respond Hits (deleteOne J inp i capq n k q u s)"
| "serve J inp i capq (QDrain n m u) s = respond Hits (deleteUpTo J inp i n m u s)"
| "serve J inp i capq (QDropScope n) s = respond (\<lambda>(h, found). Dropped h found) (deleteScope J inp i n s)"
| "serve J inp i capq QWipe s = (case wipe (fst (inp i)) (fst (inp (i + 1))) s of ((h, _, _), s') \<Rightarrow> (Done h, s'))"
| "serve J inp i capq (QWarm bi grouped) s = respond Done (replaceScopes J inp i bi grouped s)"
| "serve J inp i capq (QRebuild bi grouped) s =
     respond (\<lambda>(h, _). Done h) (rebuildAll J (fst (inp i)) (fst (inp (i + 1))) bi grouped s)"

text \<open>The items of a batch come grouped by scope in a map, so no scope is named twice.\<close>

fun request_ok :: "request \<Rightarrow> bool" where
  "request_ok (QWarm bi grouped) = distinct (map fst grouped)"
| "request_ok (QRebuild bi grouped) = distinct (map fst grouped)"
| "request_ok q = True"

fun request_weight :: "request \<Rightarrow> nat" where
  "request_weight (QWarm bi grouped) = batchLen grouped + 2"
| "request_weight (QRebuild bi grouped) = batchLen grouped + 2"
| "request_weight q = 2"

definition indexed :: "store \<Rightarrow> string \<Rightarrow> bool" where
  "indexed s n = (case getScope s n of None \<Rightarrow> True | Some p \<Rightarrow> byUUID_full (bufs s ! p))"

section \<open>Lemmas on the specification\<close>

lemma settled_refl: "c EventsScopeName = Some xs \<Longrightarrow> settled n c c"
  by (simp add: settled_def items_of_def)

lemma settled_logged:
  assumes "view s1 EventsScopeName = Some xs" "logged J n evt s1 s'"
  shows "settled n (view s1) (view s')"
proof (cases "eventsEnabled s1 n")
  case True
  then have "emitted J evt s1 s'" "n \<noteq> EventsScopeName" using assms(2) by (simp_all add: logged_def eventsEnabled_def)
  then show ?thesis using assms(1) by (fastforce simp: emitted_def settled_def items_of_def)
next
  case False
  then show ?thesis using assms by (simp add: logged_def settled_refl)
qed

lemma settled_hits:
  assumes "view s1 EventsScopeName = Some xs" "\<And>h. r = Inr h \<Longrightarrow> 0 < h \<Longrightarrow> logged J n evt s1 s'"
    and "(\<exists>e. r = Inl e) \<or> r = Inr (0 :: nat) \<Longrightarrow> s' = s1"
  shows "settled n (view s1) (view s')"
proof (cases "\<exists>h. r = Inr h \<and> 0 < h")
  case True
  then show ?thesis using assms(2) settled_logged [OF assms(1)] by blast
next
  case False
  then have "s' = s1" using assms(3) by (cases r) auto
  then show ?thesis using settled_refl [of "view s1", OF assms(1)] by simp
qed

lemma log_exists: "store_inv s \<Longrightarrow> n \<noteq> EventsScopeName \<or> z \<noteq> None \<Longrightarrow> \<exists>xs. ((view s)(n := z)) EventsScopeName = Some xs"
  using inv_events_view by auto

lemma view_unchanged: "unchanged s s' \<Longrightarrow> store_inv s \<Longrightarrow> view s' = view s"
  using unchanged_facts(2) by (simp add: store_inv_def)

lemma view_of_scope: "getScope s n = Some p \<Longrightarrow> view s n = Some (bufItems (bufs s ! p))"
  by (simp add: view_def)

lemma on_scope_found: "view s n = Some xs \<Longrightarrow> on_scope n f (view s) = (view s)(n \<mapsto> f xs) \<and> items_of (view s) n = xs"
  by (simp add: on_scope_def items_of_def)

lemma on_scope_absent: "getScope s n = None \<Longrightarrow> on_scope n f (view s) = view s \<and> items_of (view s) n = [] \<and> indexed s n"
  by (simp add: on_scope_def items_of_def view_def indexed_def)

lemma target_ok [simp]: "address_ok (target k u q)"
  by (simp add: target_def)

lemma updateMethod_at: "updateMethod J now it = updateAt J now (Payload it) (renderBytes it) (target (ID it) (UUID it) (Seq it))"
  by (simp add: updateMethod_def target_def)

lemma valid_uuid: "isValidUUIDv7 u \<Longrightarrow> \<not> IsZero (parsedUUID u)"
  by (cases "parseUUIDv7 u") (auto simp: isValidUUIDv7_def parsedUUID_def dest: format_parse isValidV7_nonzero)

lemma no_uuid [simp]: "IsZero (parsedUUID [])"
  by (simp add: parsedUUID_def parseUUIDv7_def IsZero_def)

lemma validateDelete_uuid: "validateDeleteRequest n k q u = None \<Longrightarrow> k = [] \<Longrightarrow> u \<noteq> [] \<Longrightarrow> isValidUUIDv7 u"
  by (auto simp: validateDeleteRequest_def wrapValidation_def firstErr_None validateIDSeqUUID_def Let_def split: if_splits)

lemma validateDeleteUpTo_uuid: "validateDeleteUpToRequest n m u = None \<Longrightarrow> u \<noteq> [] \<Longrightarrow> isValidUUIDv7 u"
  by (auto simp: validateDeleteUpToRequest_def wrapValidation_def firstErr_None Let_def split: if_splits)

lemma deleteMethod_at:
  assumes "validateDeleteRequest n k q u = None"
  shows "deleteMethod capq now k q u = deleteAt capq now (target k (parsedUUID u) q)"
  using validateDelete_uuid [OF assms] valid_uuid by (cases "u = []") (auto simp: deleteMethod_def target_def)

lemma picks_none: "\<exists>sel. picks full ad [] sel"
  by (cases ad) (auto simp: picks_def)

lemma drains_none: "\<exists>sel. drains full m u [] sel"
  by (auto simp: drains_def cuts_def)

lemma view_item_scope:
  assumes "store_inv s" "view s n = Some xs" "x \<in> set xs"
  shows "Scope x = n"
proof -
  obtain p where p: "getScope s n = Some p" "xs = bufItems (bufs s ! p)" using assms(2) by (auto simp: view_def)
  have "shards_ok s" using assms(1) by (simp add: store_inv_def store_ok_def)
  then have "scope_ok s n (bufs s ! p)" using store_scope_ok getScope_iff p(1) assms(1) by (simp add: store_inv_def)
  then show ?thesis using p(2) assms(3) by (simp add: scope_ok_def scope_items_def)
qed

section \<open>Each request\<close>

lemma append_refines:
  assumes s: "store_inv s" "seqs_below N s" "0 < N" "Suc N < 2 ^ 64" and r: "appendOne J inp i it s = (r, s')"
  shows "case r of Inl e \<Rightarrow> view s' = view s | Inr st \<Rightarrow> spec J full (QAppend it) (Stored st) (view s) (view s')"
proof (cases "validateWriteItem J it ''/append'' (maxItemBytesFor (acct s) (Scope it))")
  case (Inl e)
  then have "r = Inl e" "s' = s" using r by (simp_all add: appendOne_def)
  then show ?thesis by simp
next
  case (Inr it')
  note v = validateWriteItem_Inr [OF Inr]
  have t: "appendOneTrusted J inp i it' s = (r, s')" using r Inr by (simp add: appendOne_def)
  from s t show ?thesis
  proof (cases rule: appendOneTrusted_cases)
    case (failed e)
    then show ?thesis using view_unchanged [OF failed(2) s(1)] by simp
  next
    case (okay st s1 s2)
    have "view s1 = (view s)(Scope it \<mapsto> items_of (view s) (Scope it) @ [st])" using okay(5) v(4) by (simp add: items_of_def)
    moreover obtain xs where "view s1 EventsScopeName = Some xs" using inv_events_view [OF okay(3)] by blast
    moreover have "view s' = view s2" using data_eq_facts(2) [OF okay(10)] by simp
    ultimately have "settled (Scope it) ((view s)(Scope it \<mapsto> items_of (view s) (Scope it) @ [st])) (view s')"
      using settled_logged [OF _ okay(9)] v(4) by simp
    then show ?thesis using okay(1,6-8) v(4-6) by simp
  qed
qed

lemma upsert_refines:
  assumes s: "store_inv s" "seqs_below N s" "0 < N" "Suc N < 2 ^ 64" and r: "upsertOne J inp i it s = (r, s')"
  shows "case r of Inl e \<Rightarrow> view s' = view s
    | Inr (st, created) \<Rightarrow> spec J full (QUpsert it) (Upserted st created) (view s) (view s')"
  using s r
proof (cases rule: upsertOne_cases)
  case (failed e)
  then show ?thesis using view_unchanged [OF failed(2) s(1)] by simp
next
  case (okay it' st created a0 b0 b' s1)
  note v = validateUpsertItem_Inr [OF okay(1)]
  have b0: "buf_ok b0" using okay(4) by (simp add: scope_ok_def)
  have k: "ID it' \<noteq> []" using v(2,3) by simp
  note u = upsert_view [OF b0 okay(5) k okay(3)]
  let ?f = "overwritten (Payload it) (fst (inp (i + 1))) (renderOr J (renderBytes it') (Payload it'))"
  have it0: "bufItems b0 = items_of (view s) (Scope it)" using okay(6) v(1) by (simp add: items_of_def)
  have b': "bufItems b' = (if created then items_of (view s) (Scope it) @ [st]
      else map (\<lambda>x. if ID x = ID it then ?f x else x) (items_of (view s) (Scope it)))"
    using u(2,3) it0 v(2,7) by (cases created) simp_all
  have sc: "Scope st = Scope it"
  proof -
    have "st \<in> set (bufItems b')" using u(4) by blast
    moreover have "view s1 (Scope it) = Some (bufItems b')" using okay(8) v(1) by simp
    ultimately show ?thesis by (rule view_item_scope [OF okay(7), rotated])
  qed
  obtain xs where "view s1 EventsScopeName = Some xs" using inv_events_view [OF okay(7)] by blast
  then have "settled (Scope it) (view s1) (view s')" using settled_logged [OF _ okay(11)] sc by simp
  then have ab: "settled (Scope it) ((view s)(Scope it \<mapsto> bufItems b')) (view s')" using okay(8) v(1) by simp
  have rw: "rewriting (Payload it) ?f" unfolding rewriting_def by blast
  have cr: "created \<longleftrightarrow> (\<forall>x \<in> set (items_of (view s) (Scope it)). ID x \<noteq> ID it)" using u(1) it0 v(2) by simp
  have st: "ID st = ID it" "Payload st = Payload it" using u(4) v(2,7) by simp_all
  show ?thesis unfolding okay(2) sum.case prod.case spec.simps
    by (intro conjI exI [of _ ?f], fact st, fact st, fact cr, fact rw) (use ab in \<open>simp only: b'\<close>)
qed

lemma counter_refines:
  assumes s: "store_inv s" "seqs_below N s" "0 < N" "Suc N < 2 ^ 64" and r: "counterAddOne J inp i n k d s = (r, s')"
  shows "case r of Inl e \<Rightarrow> view s' = view s
    | Inr (v, created) \<Rightarrow> spec J full (QCounter n k d) (Counted v created) (view s) (view s')"
  using s r
proof (cases rule: counterAddOne_cases)
  case (failed e)
  then show ?thesis using view_unchanged [OF failed(2) s(1)] by simp
next
  case (okay v created a0 b0 b' s1)
  have b0: "buf_ok b0" using okay(7) by (simp add: scope_ok_def)
  have it0: "bufItems b0 = items_of (view s) n" using okay(9) by (simp add: items_of_def)
  obtain s2 where s2: "store_inv s2" "view s2 = view s1"
    "logged J n (zeroEvent\<lparr>evOp := ''counter_add'', evScope := n, evID := k, evBy := Some d\<rparr>) s2 s'"
    using okay(14) by blast
  obtain xs where "view s2 EventsScopeName = Some xs" using inv_events_view [OF s2(1)] by blast
  then have ab: "settled n ((view s)(n \<mapsto> bufItems b')) (view s')" using settled_logged [OF _ s2(3)] s2(2) okay(10) by simp
  have none: "map_of (byID b0) k = None \<longleftrightarrow> (\<forall>x \<in> set (bufItems b0). ID x \<noteq> k)" by (rule byID_None_iff [OF b0 okay(1)])
  show ?thesis
  proof (cases "map_of (byID b0) k")
    case None
    note c = counterAdd_new [OF b0 okay(8) None okay(1,6)]
    then show ?thesis using okay(2,5) ab none None it0 by (auto simp: map_of_eq_None_iff)
  next
    case (Some p)
    note c = counterAdd_existing [OF b0 Some okay(2,6)]
    have p: "p \<in> set (items b0)" "ID (deref b0 p) = k" using byID_SomeD [OF buf_ok_idx [OF b0] Some] by simp_all
    have only: "ID (deref b0 q) = k \<longleftrightarrow> q = p" if "q \<in> set (items b0)" for q
    proof -
      have "map_of (byID b0) k = Some q \<longleftrightarrow> ID (deref b0 q) = k"
        using b0 okay(1) that by (simp add: buf_ok_def idx_ok_def byID_ok_def)
      then show ?thesis using Some by auto
    qed
    have "bufItems b' = map (\<lambda>x. if ID x = k then deref b' p else x) (bufItems b0)"
      unfolding bufItems_def c(5) map_map by (rule map_cong [OF refl]) (use only c(7) p in auto)
    moreover have "\<forall>x \<in> set (bufItems b0). ID x = k \<longrightarrow> counterValue J x = Inr (v - d)"
      using c(2) only by (auto simp: bufItems_def)
    ultimately show ?thesis
      using c(1,3,4,6) p(2) okay(5) ab none Some it0 by (auto intro!: exI [of _ "deref b' p"])
  qed
qed

lemma updateMethod_err: "err_clean (updateMethod J now it)"
  unfolding err_clean_def updateMethod_def
  by (auto simp: updateByID_def updateBySeq_def updateByUUID_def Let_def split: if_splits option.splits
      elim!: overwrite_cases [rotated 2] dest: byID_live bySeq_live byUUID_live)

lemma update_refines:
  assumes s: "store_inv s" "seqs_below N s" "Suc N < 2 ^ 64" and r: "updateOne J inp i it s = (r, s')"
  shows "case r of Inl e \<Rightarrow> view s' = view s
    | Inr h \<Rightarrow> spec J (indexed s (Scope it)) (QUpdate it) (Hits h) (view s) (view s')"
  using s r
proof (cases rule: updateOne_cases)
  case none
  show ?thesis
  proof (cases r)
    case (Inr h)
    then have h: "h = 0" "getScope s (Scope it) = None" using none by auto
    obtain sel where "picks (indexed s (Scope it)) (target (ID it) (UUID it) (Seq it)) [] sel" using picks_none by blast
    moreover have "rewriting (Payload it) (overwritten (Payload it) 0 None)" by (auto simp: rewriting_def)
    moreover obtain xs where "view s EventsScopeName = Some xs" using inv_events_view [OF s(1)] by blast
    ultimately show ?thesis using Inr h none(1) on_scope_absent [OF h(2)] settled_refl by (auto simp: hitCount_def)
  qed (use none in simp)
next
  case (found it' p b' s1)
  note v = validateUpdateItem_Inr [OF found(1)]
  have b: "buf_ok (bufs s ! p)" using found(6) by (simp add: scope_ok_def)
  have vs: "view s (Scope it) = Some (bufItems (bufs s ! p))" using found(2) v(1) by (simp add: view_of_scope)
  show ?thesis
  proof (cases r)
    case (Inl e)
    have "b' = bufs s ! p" using err_cleanD [OF updateMethod_err b] found(3) Inl by blast
    then have "view s1 = view s" using found(4) vs v(1) by (simp add: fun_eq_iff)
    then show ?thesis using found(9) Inl by simp
  next
    case (Inr h)
    let ?f = "overwritten (Payload it) (fst (inp i)) (renderOr J (renderBytes it') (Payload it))"
    have "updateAt J (fst (inp i)) (Payload it) (renderBytes it') (target (ID it) (UUID it) (Seq it)) (acct s) (bufs s ! p) =
        (Inr h, acct s1, b')"
      using found(3) v(2-5) Inr by (simp add: updateMethod_at)
    then obtain sel where sel: "picks (byUUID_full (bufs s ! p)) (target (ID it) (UUID it) (Seq it)) (bufItems (bufs s ! p)) sel"
      "bufItems b' = map (\<lambda>x. if sel x then ?f x else x) (bufItems (bufs s ! p))"
      "h = (if \<exists>x \<in> set (bufItems (bufs s ! p)). sel x then 1 else 0)"
      using updateAt_picks [OF b target_ok] by blast
    note o = on_scope_found [OF vs]
    have "view s1 EventsScopeName \<noteq> None" using found(4) inv_events_view [OF s(1)] by auto
    then obtain xs where "view s1 EventsScopeName = Some xs" by blast
    then have st: "settled (Scope it') (view s1) (view s')" by (rule settled_hits [OF _ found(8,9)])
    have "settled (Scope it) (on_scope (Scope it) (map (\<lambda>x. if sel x then ?f x else x)) (view s)) (view s')"
      using st found(4) v(1) o sel(2) by simp
    moreover have "rewriting (Payload it) ?f" by (auto simp: rewriting_def)
    moreover have "indexed s (Scope it) = byUUID_full (bufs s ! p)" using found(2) v(1) by (simp add: indexed_def)
    ultimately have "spec J (indexed s (Scope it)) (QUpdate it) (Hits h) (view s) (view s')"
      unfolding spec.simps using sel(1,3) o by (intro exI [of _ sel] exI [of _ ?f]) (simp add: hitCount_def)
    then show ?thesis using Inr by simp
  qed
qed

lemma delete_refines:
  assumes s: "store_inv s" "seqs_below N s" "Suc N < 2 ^ 64" and r: "deleteOne J inp i capq n k sq u s = (r, s')"
  shows "case r of Inl e \<Rightarrow> view s' = view s | Inr h \<Rightarrow> spec J (indexed s n) (QDelete n k sq u) (Hits h) (view s) (view s')"
  using s r
proof (cases rule: deleteOne_cases)
  case none
  show ?thesis
  proof (cases r)
    case (Inr h)
    then have h: "h = 0" "getScope s n = None" using none by auto
    obtain sel where "picks (indexed s n) (target k (parsedUUID u) sq) [] sel" using picks_none by blast
    moreover obtain xs where "view s EventsScopeName = Some xs" using inv_events_view [OF s(1)] by blast
    ultimately show ?thesis using Inr h none(1) on_scope_absent [OF h(2)] settled_refl by (auto simp: hitCount_def)
  qed (use none in simp)
next
  case (found p b' s1)
  have b: "buf_ok (bufs s ! p)" "\<not> detached (bufs s ! p)" using found(6) by (simp_all add: scope_ok_def)
  have "deleteAt capq (fst (inp i)) (target k (parsedUUID u) sq) (acct s) (bufs s ! p) = (r, acct s1, b')"
    using found(3) by (simp add: deleteMethod_at [OF found(1)])
  then obtain sel where sel: "picks (byUUID_full (bufs s ! p)) (target k (parsedUUID u) sq) (bufItems (bufs s ! p)) sel"
    "bufItems b' = filter (\<lambda>x. \<not> sel x) (bufItems (bufs s ! p))"
    "r = Inr (if \<exists>x \<in> set (bufItems (bufs s ! p)). sel x then 1 else 0)"
    using deleteAt_picks [OF b(1) target_ok b(2)] by blast
  note o = on_scope_found [OF view_of_scope [OF found(2)]]
  have "view s1 EventsScopeName \<noteq> None" using found(4) inv_events_view [OF s(1)] by auto
  then obtain xs where "view s1 EventsScopeName = Some xs" by blast
  then have "settled n (view s1) (view s')" by (rule settled_hits [OF _ found(8,9)])
  then have st: "settled n (on_scope n (filter (\<lambda>x. \<not> sel x)) (view s)) (view s')" using found(4) o sel(2) by simp
  have ix: "indexed s n = byUUID_full (bufs s ! p)" using found(2) by (simp add: indexed_def)
  show ?thesis
    unfolding sel(3) sum.case spec.simps by (rule exI [of _ sel]) (use sel(1) o st ix in \<open>simp add: hitCount_def\<close>)
qed

lemma drain_refines:
  assumes s: "store_inv s" "seqs_below N s" "Suc N < 2 ^ 64" and r: "deleteUpTo J inp i n m u s = (r, s')"
  shows "case r of Inl e \<Rightarrow> view s' = view s | Inr h \<Rightarrow> spec J (indexed s n) (QDrain n m u) (Hits h) (view s) (view s')"
  using s r
proof (cases rule: deleteUpTo_cases)
  case none
  show ?thesis
  proof (cases r)
    case (Inr h)
    then have h: "h = 0" "getScope s n = None" using none by auto
    obtain sel where "drains (indexed s n) m u [] sel" using drains_none by blast
    moreover obtain xs where "view s EventsScopeName = Some xs" using inv_events_view [OF s(1)] by blast
    ultimately show ?thesis using Inr h none(1) on_scope_absent [OF h(2)] settled_refl by auto
  qed (use none in simp)
next
  case (found p b' s1)
  let ?b = "bufs s ! p"
  have b: "buf_ok ?b" "\<not> detached ?b" using found(6) by (simp_all add: scope_ok_def)
  have "\<exists>sel. drains (byUUID_full ?b) m u (bufItems ?b) sel \<and> bufItems b' = filter (\<lambda>x. \<not> sel x) (bufItems ?b) \<and>
      r = Inr (length (filter sel (bufItems ?b)))"
  proof (cases "u = []")
    case True
    obtain h a1 b1 where l: "deleteUpToSeqLocked (fst (inp i)) m (acct s) ?b = (h, a1, b1)" using prod_cases3 by blast
    have "drainMethod (fst (inp i)) m u (acct s) ?b = (Inr h, a1, b1)" by (simp add: True drainMethod_def deleteUpToSeq_def b(2) l)
    then have "r = Inr h" "b' = b1" using found(3) by auto
    then show ?thesis using deleteUpToSeqLocked_view [OF b(1) l] True
      by (intro exI [of _ "\<lambda>x. Seq x \<le> m"]) (simp add: drains_def not_le)
  next
    case False
    then have "deleteUpToUUID (fst (inp i)) (parsedUUID u) (acct s) ?b = (r, acct s1, b')"
      using found(3) by (simp add: drainMethod_def)
    from deleteUpToUUID_cuts [OF b(1) valid_uuid [OF validateDeleteUpTo_uuid [OF found(1) False]] b(2) this]
    show ?thesis using False by (simp add: drains_def)
  qed
  then obtain sel where sel: "drains (byUUID_full ?b) m u (bufItems ?b) sel" "bufItems b' = filter (\<lambda>x. \<not> sel x) (bufItems ?b)"
    "r = Inr (length (filter sel (bufItems ?b)))" by blast
  note o = on_scope_found [OF view_of_scope [OF found(2)]]
  have "view s1 EventsScopeName \<noteq> None" using found(4) inv_events_view [OF s(1)] by auto
  then obtain xs where "view s1 EventsScopeName = Some xs" by blast
  then have "settled n (view s1) (view s')" by (rule settled_hits [OF _ found(8,9)])
  then have st: "settled n (on_scope n (filter (\<lambda>x. \<not> sel x)) (view s)) (view s')" using found(4) o sel(2) by simp
  have ix: "indexed s n = byUUID_full ?b" using found(2) by (simp add: indexed_def)
  show ?thesis
    unfolding sel(3) sum.case spec.simps by (rule exI [of _ sel]) (use sel(1) o st ix in simp)
qed

lemma drop_refines:
  assumes s: "store_inv s" "seqs_below N s" "0 < N" "Suc N < 2 ^ 64" and r: "deleteScope J inp i n s = (r, s')"
  shows "case r of Inl e \<Rightarrow> view s' = view s
    | Inr (h, f) \<Rightarrow> spec J full (QDropScope n) (Dropped h f) (view s) (view s')"
  using s r
proof (cases rule: deleteScope_cases)
  case none
  show ?thesis
  proof (cases r)
    case (Inr x)
    then have x: "x = (0, False)" "view s n = None" using none by auto
    have "\<not> isReservedScope n" using x(2) s(1) by (auto simp: store_inv_def reserved_ok_def view_getScope_None isReservedScope_iff reservedScopeNames_def)
    moreover obtain xs where "view s EventsScopeName = Some xs" using inv_events_view [OF s(1)] by blast
    moreover have "(view s)(n := None) = view s" using x(2) by (simp add: fun_eq_iff)
    ultimately show ?thesis using x Inr none settled_refl by (simp add: items_of_def)
  qed (use none in simp)
next
  case (found p s1)
  have ne: "n \<noteq> EventsScopeName" using found(1) by (auto simp: isReservedScope_iff)
  have v: "view s n = Some (bufItems (bufs s ! p))" by (rule view_of_scope [OF found(2)])
  have v1: "view s1 = (view s)(n := None)" using removeScope_ok(3) [OF s(1) found(2,1)] found(4) by simp
  then obtain xs where "view s1 EventsScopeName = Some xs" using inv_events_view [OF s(1)] ne by auto
  then have "settled n ((view s)(n := None)) (view s')" using settled_logged [OF _ found(7)] v1 by simp
  then show ?thesis using found(1,3) v by (simp add: items_of_def)
qed

section \<open>The simulation\<close>

lemma respond_spec:
  assumes "case r of Inl e \<Rightarrow> view s' = view s | Inr v \<Rightarrow> spec J full q (f v) (view s) (view s')"
    and "respond f (r, s') = (p, t)"
  shows "spec J full q p (view s) (view t)"
  using assms by (cases r) (auto simp: respond_def)

lemma refines_pair:
  "(case r of Inl e \<Rightarrow> A | Inr (x, y) \<Rightarrow> spec J full q (f x y) c c') \<Longrightarrow>
   (case r of Inl e \<Rightarrow> A | Inr v \<Rightarrow> spec J full q (case v of (x, y) \<Rightarrow> f x y) c c')"
  by (cases r) auto

lemma reserved_absent: "\<forall>n \<in> fst ` set grouped. n \<noteq> [] \<and> \<not> isReservedScope n \<Longrightarrow> isReservedScope m \<Longrightarrow>
    map_of (map (batchItems J bi) grouped) m = None"
  by (auto simp: map_of_eq_None_iff)

lemma warm_refines:
  assumes s: "store_inv s" "distinct (map fst grouped)" "seqs_below N s" "batchLen grouped < N" "Suc N < 2 ^ 64"
    and r: "replaceScopes J inp i bi grouped s = (r, s')"
  shows "case r of Inl e \<Rightarrow> view s' = view s | Inr h \<Rightarrow> spec J full (QWarm bi grouped) (Done h) (view s) (view s')"
  using s r
proof (cases rule: replaceScopes_cases)
  case (okay s1)
  obtain xs where "view s1 EventsScopeName = Some xs" using inv_events_view [OF okay(2)] by blast
  then have "settled [] (view s1) (view s')"
    using okay(5) settled_logged settled_refl by (cases "grouped = []") auto
  then show ?thesis using okay(1,3) by simp
qed simp

lemma rebuild_refines:
  assumes s: "store_inv s" "distinct (map fst grouped)" "batchLen grouped < 2 ^ 64"
    and r: "rebuildAll J now now' bi grouped s = (r, s')"
  shows "case r of Inl e \<Rightarrow> view s' = view s | Inr (h, x) \<Rightarrow> spec J full (QRebuild bi grouped) (Done h) (view s) (view s')"
  using s r by (cases rule: rebuildAll_cases) simp_all

lemma serve_spec:
  assumes s: "store_inv s" "seqs_below N s" "0 < N" "N + request_weight q < 2 ^ 64" and q: "request_ok q"
    and r: "serve J inp i capq q s = (p, s')"
  shows "spec J (indexed s (scopeOf q)) q p (view s) (view s')"
proof -
  have N: "Suc N < 2 ^ 64" using s(4) by (cases q) simp_all
  show ?thesis
  proof (cases q)
    case (QAppend it)
    obtain r0 t where e: "appendOne J inp i it s = (r0, t)" by fastforce
    show ?thesis using respond_spec [OF append_refines [OF s(1-3) N e]] r QAppend e by simp
  next
    case (QUpsert it)
    obtain r0 t where e: "upsertOne J inp i it s = (r0, t)" by fastforce
    show ?thesis using respond_spec [OF refines_pair [OF upsert_refines [OF s(1-3) N e]]] r QUpsert e by simp
  next
    case (QCounter n k d)
    obtain r0 t where e: "counterAddOne J inp i n k d s = (r0, t)" by fastforce
    show ?thesis using respond_spec [OF refines_pair [OF counter_refines [OF s(1-3) N e]]] r QCounter e by simp
  next
    case (QUpdate it)
    obtain r0 t where e: "updateOne J inp i it s = (r0, t)" by fastforce
    show ?thesis using respond_spec [OF update_refines [OF s(1,2) N e]] r QUpdate e by simp
  next
    case (QDelete n k sq u)
    obtain r0 t where e: "deleteOne J inp i capq n k sq u s = (r0, t)" by fastforce
    show ?thesis using respond_spec [OF delete_refines [OF s(1,2) N e]] r QDelete e by simp
  next
    case (QDrain n m u)
    obtain r0 t where e: "deleteUpTo J inp i n m u s = (r0, t)" by fastforce
    show ?thesis using respond_spec [OF drain_refines [OF s(1,2) N e]] r QDrain e by simp
  next
    case (QDropScope n)
    obtain r0 t where e: "deleteScope J inp i n s = (r0, t)" by fastforce
    show ?thesis using respond_spec [OF refines_pair [OF drop_refines [OF s(1-3) N e]]] r QDropScope e by simp
  next
    case QWipe
    obtain h x y t where e: "wipe (fst (inp i)) (fst (inp (i + 1))) s = ((h, x, y), t)" by (metis prod.collapse)
    show ?thesis using wipe_facts(3) [OF s(1) e] r QWipe e by auto
  next
    case (QWarm bi grouped)
    obtain r0 t where e: "replaceScopes J inp i bi grouped s = (r0, t)" by fastforce
    have d: "distinct (map fst grouped)" using q QWarm by simp
    have b: "batchLen grouped < N + batchLen grouped" "Suc (N + batchLen grouped) < 2 ^ 64" using s(3,4) QWarm by simp_all
    have sb: "seqs_below (N + batchLen grouped) s" by (rule seqs_below_mono [OF s(2)]) simp
    show ?thesis using respond_spec [OF warm_refines [OF s(1) d sb b e]] r QWarm e by simp
  next
    case (QRebuild bi grouped)
    obtain r0 t where e: "rebuildAll J (fst (inp i)) (fst (inp (i + 1))) bi grouped s = (r0, t)" by fastforce
    have d: "distinct (map fst grouped)" and l: "batchLen grouped < 2 ^ 64" using q s(4) QRebuild by simp_all
    show ?thesis using respond_spec [OF refines_pair [OF rebuild_refines [OF s(1) d l e]]] r QRebuild e by simp
  qed
qed

end
