(* ===== verification/Props_Store.thy ===== *)
theory Props_Store
  imports Sample Refine
begin

text \<open>
  The properties of the store: its invariant over every reachable state, the refinement of the
  client's view, roll-back, events, reserved scopes, and the operations on many scopes.
\<close>

section \<open>The invariant\<close>

text \<open>C1: In every state the cache can reach, by any sequence of operations with fewer than 2^64 increments of a sequence
  counter: the byte total is the sum over the linked scopes of their items' sizes and the fixed overhead, and never exceeds
  the configured cap; the item total and the scope count are exact; every linked scope is attached,
  consistent and holds only items of its own name; both reserved scopes exist.\<close>

theorem reachable_invariant:
  assumes "reachable J c N s" "cfgMaxStoreBytes c \<le> MaxInt64" "N < 2 ^ 64"
  shows "totalBytes (acct s) = (\<Sum>(n, p)\<leftarrow>scopes s. bytes (bufs s ! p) + scopeBufferOverhead) \<and>
    totalBytes (acct s) \<le> cfgMaxStoreBytes (WithDefaults c) \<and>
    totalItems (acct s) = (\<Sum>(n, p)\<leftarrow>scopes s. int (length (items (bufs s ! p)))) \<and> scopeCount s = int (length (scopes s)) \<and>
    (\<forall>(n, p) \<in> set (scopes s). attached (bufs s ! p) \<and> buf_ok (bufs s ! p) \<and> (\<forall>x \<in> set (bufItems (bufs s ! p)). Scope x = n)) \<and>
    view s EventsScopeName \<noteq> None \<and> view s InboxScopeName \<noteq> None"
proof -
  note r = reachable_inv [OF assms]
  have ok: "store_ok s" and res: "reserved_ok s" using r(1) by (simp_all add: store_inv_def)
  have "\<forall>(n, p) \<in> set (scopes s). attached (bufs s ! p) \<and> buf_ok (bufs s ! p) \<and> (\<forall>x \<in> set (bufItems (bufs s ! p)). Scope x = n)"
    using ok by (auto simp: store_ok_def scope_ok_def scope_items_def)
  moreover have "view s EventsScopeName \<noteq> None" "view s InboxScopeName \<noteq> None"
    using res by (simp_all add: reserved_ok_def reservedScopeNames_def view_getScope_None)
  ultimately show ?thesis using ok r(4) by (simp add: store_ok_def totals_ok_def caps_ok_def)
qed

theorem reachable_invariant_witness:
  "totalBytes (acct sampleStore) = (\<Sum>(n, p)\<leftarrow>scopes sampleStore. bytes (bufs sampleStore ! p) + scopeBufferOverhead) \<and>
   length (scopes sampleStore) = 3 \<and> scopeCount sampleStore = 3"
proof -
  have "length (scopes sampleStore) = 3" by code_simp
  then show ?thesis using reachable_invariant [OF sample_reachable sample_conf] by simp
qed

text \<open>C2: The store refines the client's specification: serving any write request from any reachable state yields a
  response and a new cache content that the specification allows for that request. In particular a refused
  request changes nothing, an append adds one item at the end of one scope, an update rewrites one item in place, a
  delete or drain filters one scope, and a batch replaces exactly the scopes it names. Items can be addressed by id, by
  sequence number or by uuid; a uuid means the items that carry it if the scope's index of uuids is complete, as it is
  while no uuid occurs twice in a scope, and otherwise at most one of them. The event log belongs to the content: a delete or drain of
  it leaves exactly what it says, any other request adds at most one entry at its end. The capacity of the slice a delete meets is
  arbitrary.\<close>

theorem store_refines_spec:
  assumes "reachable J c N s" "cfgMaxStoreBytes c \<le> MaxInt64" "N + request_weight q < 2 ^ 64" "request_ok q"
    "serve J inp i capq q s = (p, s')"
  shows "spec J (indexed s (scopeOf q)) q p (view s) (view s')"
proof -
  have "N < 2 ^ 64" using assms(3) by simp
  note r = reachable_inv [OF assms(1,2) this]
  show ?thesis by (rule serve_spec [OF r(1-3) assms(3-5)])
qed

text \<open>A delete by uuid, and a drain of the event log.\<close>

theorem store_refines_spec_witness:
  "(case serve sampleJson sampleInp 7 0 (QDelete ''posts'' [] 0 ''00000000-0002-7000-8000-000000000000'') sampleStore of
      (p, s') \<Rightarrow> p = Hits 1 \<and> view s' ''posts'' = Some []) \<and>
   (case serve sampleJson sampleInp 7 0 (QDrain EventsScopeName 9 []) sampleStore of
      (p, s') \<Rightarrow> p = Hits 1 \<and> view s' EventsScopeName = Some [])"
proof -
  let ?u = "''00000000-0002-7000-8000-000000000000''"
  let ?q = "QDelete ''posts'' [] 0 ?u" and ?q' = "QDrain EventsScopeName 9 []"
  have e: "map_option (map (\<lambda>x. UUID x = parsedUUID ?u)) (view sampleStore ''posts'') = Some [True]"
    "map_option (map Seq) (view sampleStore EventsScopeName) = Some [1]"
    "indexed sampleStore ''posts''" "\<not> IsZero (parsedUUID ?u)"
    "fst (serve sampleJson sampleInp 7 0 ?q sampleStore) = Hits 1" "fst (serve sampleJson sampleInp 7 0 ?q' sampleStore) = Hits 1"
    by code_simp+
  obtain x y where v: "view sampleStore ''posts'' = Some [x]" "UUID x = parsedUUID ?u"
    "view sampleStore EventsScopeName = Some [y]" "Seq y = 1" using e(1,2) by (auto simp: map_eq_Cons_conv)
  obtain s1 s2 where d: "serve sampleJson sampleInp 7 0 ?q sampleStore = (Hits 1, s1)" "serve sampleJson sampleInp 7 0 ?q' sampleStore = (Hits 1, s2)"
    using e(5,6) by (metis prod.collapse)
  have "spec sampleJson (indexed sampleStore (scopeOf ?q)) ?q (Hits 1) (view sampleStore) (view s1)"
    "spec sampleJson (indexed sampleStore (scopeOf ?q')) ?q' (Hits 1) (view sampleStore) (view s2)"
    by (rule store_refines_spec [OF sample_reachable sample_conf _ _ d(1)] store_refines_spec [OF sample_reachable sample_conf _ _ d(2)]; simp)+
  then show ?thesis unfolding d using v e(3,4)
    by (auto simp: picks_def target_def drains_def settled_def on_scope_def items_of_def EventsScopeName_def)
qed

end
