(* ===== verification/Props_Events.thy ===== *)
theory Props_Events
  imports Sample Refine
begin

text \<open>
  The properties of the event log, the wake-up channels, and of failed writes.
\<close>

section \<open>One event per effective write\<close>

text \<open>
  The event of a request that has had an effect, before the mode strips its payload. It has the name of the operation and the
  address; a write that stores an item reports the stored one, the removal of a scope and a batch the time.
\<close>

fun eventOf :: "inputs \<Rightarrow> nat \<Rightarrow> request \<Rightarrow> response \<Rightarrow> writeEvent" where
  "eventOf inp i (QAppend it) (Stored st) = appendEvent st"
| "eventOf inp i (QUpsert it) (Upserted st created) =
     zeroEvent\<lparr>evOp := ''upsert'', evScope := Scope st, evID := ID st, evSeq := Seq st, evTs := Ts st,
       evUUID := wireUUID (UUID st), evPayload := Payload st\<rparr>"
| "eventOf inp i (QCounter n k d) p = zeroEvent\<lparr>evOp := ''counter_add'', evScope := n, evID := k, evBy := Some d\<rparr>"
| "eventOf inp i (QUpdate it) p =
     zeroEvent\<lparr>evOp := ''update'', evScope := Scope it, evID := ID it, evSeq := Seq it,
       evUUID := wireUUID (UUID it), evPayload := Payload it\<rparr>"
| "eventOf inp i (QDelete n k q u) p = zeroEvent\<lparr>evOp := ''delete'', evScope := n, evID := k, evSeq := q, evUUID := u\<rparr>"
| "eventOf inp i (QDrain n m u) p = zeroEvent\<lparr>evOp := ''delete_up_to'', evScope := n, evUUID := u, evMaxSeq := m\<rparr>"
| "eventOf inp i (QDropScope n) p = zeroEvent\<lparr>evOp := ''delete_scope'', evScope := n, evTs := fst (inp (i + 1))\<rparr>"
| "eventOf inp i (QWarm bi grouped) p = zeroEvent\<lparr>evOp := ''warm'', evTs := fst (inp i)\<rparr>"
| "eventOf inp i q p = zeroEvent"

fun effective :: "response \<Rightarrow> bool" where
  "effective (Refused e) = False"
| "effective (Hits h) = (0 < h)"
| "effective (Dropped h found) = found"
| "effective (Done h) = (0 < h)"
| "effective p = True"

fun logs :: "request \<Rightarrow> bool" where
  "logs QWipe = False"
| "logs (QRebuild bi grouped) = False"
| "logs q = (scopeOf q \<noteq> EventsScopeName)"

text \<open>One entry with the encoded event, or a drop, and that only if the event cannot be encoded or has no room.\<close>

definition dropped :: "store \<Rightarrow> store \<Rightarrow> bool" where
  "dropped s s' \<longleftrightarrow> view s' EventsScopeName = view s EventsScopeName \<and> eventsDropsTotal s' = i64 (eventsDropsTotal s + 1)"

definition recorded :: "jsonLib \<Rightarrow> writeEvent \<Rightarrow> store \<Rightarrow> store \<Rightarrow> bool" where
  "recorded J evt s s' \<longleftrightarrow>
     (case marshalEvent J evt of
        None \<Rightarrow> dropped s s'
      | Some body \<Rightarrow>
          (\<exists>st. view s' EventsScopeName = Some (the (view s EventsScopeName) @ [st]) \<and> Payload st = body \<and>
             eventsDropsTotal s' = eventsDropsTotal s) \<or>
          dropped s s' \<and> \<not> eventFits J body s')"

definition quiet :: "store \<Rightarrow> store \<Rightarrow> bool" where
  "quiet s s' \<longleftrightarrow> view s' EventsScopeName = view s EventsScopeName \<and> eventsDropsTotal s' = eventsDropsTotal s"
lemma quiet_refl [simp]: "quiet s s" by (simp add: quiet_def)

lemma quiet_unchanged: "store_inv s \<Longrightarrow> unchanged s s' \<Longrightarrow> quiet s s'"
  using unchanged_facts(2,8) by (simp add: quiet_def store_inv_def)

definition tracked :: "jsonLib \<Rightarrow> writeEvent \<Rightarrow> bool \<Rightarrow> store \<Rightarrow> store \<Rightarrow> bool" where
  "tracked J evt changed s s' \<longleftrightarrow>
     (if changed \<and> eventsMode s \<noteq> EventsModeOff then recorded J (stripped s evt) s s' else quiet s s')"

lemma quiet_tracked: "quiet s s' \<Longrightarrow> tracked J evt False s s'"
  by (simp add: tracked_def)

lemma tracked_cong:
  "tracked J evt b s s1 \<Longrightarrow> view s' = view s1 \<Longrightarrow> eventsDropsTotal s' = eventsDropsTotal s1 \<Longrightarrow> acct s' = acct s1 \<Longrightarrow>
   tracked J evt b s s'"
  by (simp only: tracked_def recorded_def quiet_def dropped_def eventFits_def)

lemma logged_tracked:
  assumes l: "logged J n evt s1 s'" and n: "n \<noteq> EventsScopeName"
    and s1: "view s1 EventsScopeName = view s EventsScopeName" "eventsMode s1 = eventsMode s" "eventsDropsTotal s1 = eventsDropsTotal s"
  shows "tracked J evt True s s'"
proof (cases "eventsMode s = EventsModeOff")
  case True
  then show ?thesis using l s1 by (simp add: logged_def eventsEnabled_def quiet_def tracked_def)
next
  case False
  then have e: "emitted J evt s1 s'" using l n s1(2) by (simp add: logged_def eventsEnabled_def)
  have "stripped s1 evt = stripped s evt" using s1(2) by (simp add: stripped_def)
  then have "recorded J (stripped s evt) s s'"
    using e s1 by (auto simp: emitted_def recorded_def dropped_def split: option.split)
  then show ?thesis using False by (simp add: tracked_def)
qed

text \<open>An operation on an existing scope: no event unless the method reports a hit.\<close>

lemma hits_tracked:
  assumes n: "n \<noteq> EventsScopeName"
    and s1: "view s1 = (view s)(n := Some xs)" "eventsMode s1 = eventsMode s" "eventsDropsTotal s1 = eventsDropsTotal s"
    and l: "\<And>h. r = Inr h \<Longrightarrow> 0 < h \<Longrightarrow> logged J n evt s1 s'" and z: "(\<exists>e. r = Inl e) \<or> r = Inr (0 :: nat) \<Longrightarrow> s' = s1"
  shows "tracked J evt (case r of Inl e \<Rightarrow> False | Inr h \<Rightarrow> 0 < h) s s'"
proof -
  have v: "view s1 EventsScopeName = view s EventsScopeName" using n s1(1) by simp
  show ?thesis
  proof (cases "\<exists>h. r = Inr h \<and> 0 < h")
    case True
    then show ?thesis using logged_tracked [OF l n v s1(2,3)] by auto
  next
    case False
    then have "s' = s1" using z by (cases r) auto
    then have "quiet s s'" using v s1(3) by (simp add: quiet_def)
    then show ?thesis using False quiet_tracked by (cases r) auto
  qed
qed

lemma append_tracked:
  assumes s: "store_inv s" "seqs_below N s" "0 < N" "Suc N < 2 ^ 64" and r: "appendOne J inp i it s = (r, s')"
  shows "case r of Inl e \<Rightarrow> quiet s s' | Inr st \<Rightarrow> tracked J (appendEvent st) True s s'"
proof (cases "validateWriteItem J it ''/append'' (maxItemBytesFor (acct s) (Scope it))")
  case (Inl e)
  then have "r = Inl e" "s' = s" using r by (simp_all add: appendOne_def)
  then show ?thesis by simp
next
  case (Inr it')
  note v = validateWriteItem_Inr [OF Inr]
  have t: "appendOneTrusted J inp i it' s = (r, s')" using r Inr by (simp add: appendOne_def)
  from s t show ?thesis
  proof (cases rule: appendOneTrusted_cases)
    case (failed e)
    then show ?thesis using quiet_unchanged [OF s(1)] by simp
  next
    case (okay st s1 s2)
    have ne: "Scope it' \<noteq> EventsScopeName" using v(4,11) by simp
    have m: "eventsMode s1 = eventsMode s" using okay(4) by (simp add: conf_same_def)
    have ve: "view s1 EventsScopeName = view s EventsScopeName" using okay(5) ne by simp
    have "tracked J (appendEvent st) True s s2" by (rule logged_tracked [OF okay(9) ne ve m okay(16)])
    moreover have "view s' = view s2" "eventsDropsTotal s' = eventsDropsTotal s2" "acct s' = acct s2"
      using data_eq_facts(2) [OF okay(10)] notify_data_eq [of s2 "Scope it'"] okay(14) by (simp_all add: data_eq_def)
    ultimately show ?thesis using okay(1) tracked_cong by simp
  qed
qed

lemma upsert_tracked:
  assumes s: "store_inv s" "seqs_below N s" "0 < N" "Suc N < 2 ^ 64" and r: "upsertOne J inp i it s = (r, s')"
  shows "case r of Inl e \<Rightarrow> quiet s s' | Inr (st, created) \<Rightarrow> tracked J (eventOf inp i (QUpsert it) (Upserted st created)) True s s'"
  using s r
proof (cases rule: upsertOne_cases)
  case (failed e)
  then show ?thesis using quiet_unchanged [OF s(1)] by simp
next
  case (okay it' st created a0 b0 b' s1)
  note v = validateUpsertItem_Inr [OF okay(1)]
  have b0: "buf_ok b0" using okay(4) by (simp add: scope_ok_def)
  have "st \<in> set (bufItems b')" using upsert_view(4) [OF b0 okay(5) _ okay(3)] v(2,3) by simp
  moreover have "view s1 (Scope it) = Some (bufItems b')" using okay(8) v(1) by simp
  ultimately have sc: "Scope st = Scope it" by (rule view_item_scope [OF okay(7), rotated])
  have ne: "Scope st \<noteq> EventsScopeName" using v(4) sc by (auto simp: isReservedScope_iff)
  have ve: "view s1 EventsScopeName = view s EventsScopeName" using sc okay(8) v(1) ne by simp
  show ?thesis using logged_tracked [OF okay(11) ne ve okay(9,10)] okay(2) by simp
qed

lemma counter_tracked:
  assumes s: "store_inv s" "seqs_below N s" "0 < N" "Suc N < 2 ^ 64" and r: "counterAddOne J inp i n k d s = (r, s')"
  shows "case r of Inl e \<Rightarrow> quiet s s' | Inr x \<Rightarrow> tracked J (eventOf inp i (QCounter n k d) p) True s s'"
  using s r
proof (cases rule: counterAddOne_cases)
  case (failed e)
  then show ?thesis using quiet_unchanged [OF s(1)] by simp
next
  case (okay v created a0 b0 b' s1)
  have ne: "n \<noteq> EventsScopeName" using okay(4) by (auto simp: isReservedScope_iff)
  obtain s2 where s2: "view s2 = view s1" "eventsMode s2 = eventsMode s" "eventsDropsTotal s2 = eventsDropsTotal s"
    "logged J n (zeroEvent\<lparr>evOp := ''counter_add'', evScope := n, evID := k, evBy := Some d\<rparr>) s2 s'"
    using okay(14) by blast
  have ve: "view s2 EventsScopeName = view s EventsScopeName" using s2(1) okay(10) ne by simp
  show ?thesis using logged_tracked [OF s2(4) ne ve s2(2,3)] okay(5) by simp
qed

lemma update_tracked:
  assumes s: "store_inv s" "seqs_below N s" "Suc N < 2 ^ 64" and r: "updateOne J inp i it s = (r, s')"
  shows "tracked J (eventOf inp i (QUpdate it) p) (case r of Inl e \<Rightarrow> False | Inr h \<Rightarrow> 0 < h) s s'"
  using s r
proof (cases rule: updateOne_cases)
  case none
  then show ?thesis by (auto simp: tracked_def)
next
  case (found it' p' b' s1)
  note v = validateUpdateItem_Inr [OF found(1)]
  have ne: "Scope it' \<noteq> EventsScopeName" using v(1,6) by (auto simp: isReservedScope_iff)
  show ?thesis using hits_tracked [OF ne found(4,10,11,8,9)] v(1-5) by simp
qed

lemma delete_tracked:
  assumes s: "store_inv s" "seqs_below N s" "Suc N < 2 ^ 64" and n: "n \<noteq> EventsScopeName"
    and r: "deleteOne J inp i capq n k sq u s = (r, s')"
  shows "tracked J (eventOf inp i (QDelete n k sq u) p) (case r of Inl e \<Rightarrow> False | Inr h \<Rightarrow> 0 < h) s s'"
  using s r
proof (cases rule: deleteOne_cases)
  case none
  then show ?thesis by (auto simp: tracked_def)
next
  case (found p' b' s1)
  show ?thesis unfolding eventOf.simps by (rule hits_tracked [OF n found(4,10,11,8,9)])
qed

lemma drain_tracked:
  assumes s: "store_inv s" "seqs_below N s" "Suc N < 2 ^ 64" and n: "n \<noteq> EventsScopeName"
    and r: "deleteUpTo J inp i n m u s = (r, s')"
  shows "tracked J (eventOf inp i (QDrain n m u) p) (case r of Inl e \<Rightarrow> False | Inr h \<Rightarrow> 0 < h) s s'"
  using s r
proof (cases rule: deleteUpTo_cases)
  case none
  then show ?thesis by (auto simp: tracked_def)
next
  case (found p' b' s1)
  show ?thesis unfolding eventOf.simps by (rule hits_tracked [OF n found(4,10,11,8,9)])
qed

lemma drop_tracked:
  assumes s: "store_inv s" "seqs_below N s" "0 < N" "Suc N < 2 ^ 64" and r: "deleteScope J inp i n s = (r, s')"
  shows "tracked J (eventOf inp i (QDropScope n) p) (case r of Inl e \<Rightarrow> False | Inr (h, found) \<Rightarrow> found) s s'"
  using s r
proof (cases rule: deleteScope_cases)
  case none
  then show ?thesis by (auto simp: tracked_def)
next
  case (found p' s1)
  have ne: "n \<noteq> EventsScopeName" using found(1) by (auto simp: isReservedScope_iff)
  have "view s1 = (view s)(n := None)" using removeScope_ok(3) [OF s(1) found(2,1)] found(4) by simp
  then have v: "view s1 EventsScopeName = view s EventsScopeName" using ne by simp
  have m: "eventsMode s1 = eventsMode s" "eventsDropsTotal s1 = eventsDropsTotal s"
    by (simp_all add: found(4) removeScope_def Let_def detachBuf_def addScopeCount_def unlinkScope_def)
  show ?thesis using logged_tracked [OF found(7) ne v m] found(3) by simp
qed

lemma warm_tracked:
  assumes s: "store_inv s" "seqs_below N s" and d: "distinct (map fst grouped)" and N: "batchLen grouped < N" "Suc N < 2 ^ 64"
    and r: "replaceScopes J inp i bi grouped s = (r, s')"
  shows "tracked J (eventOf inp i (QWarm bi grouped) p) (case r of Inl e \<Rightarrow> False | Inr h \<Rightarrow> 0 < h) s s'"
  using s(1) d s(2) N r
proof (cases rule: replaceScopes_cases)
  case (failed e)
  then show ?thesis by (simp add: tracked_def)
next
  case (okay s1)
  have v: "view s1 EventsScopeName = view s EventsScopeName"
    using okay(3) reserved_absent [OF okay(4), of EventsScopeName] by (simp add: isReservedScope_iff map_add_def)
  show ?thesis
  proof (cases "grouped = []")
    case True
    then show ?thesis using okay(1,5,7,8) v by (simp add: tracked_def quiet_def)
  next
    case False
    then have l: "logged J [] (zeroEvent\<lparr>evOp := ''warm'', evTs := fst (inp i)\<rparr>) s1 s'" using okay(5) by simp
    have ne: "[] \<noteq> EventsScopeName" by (simp add: EventsScopeName_def)
    show ?thesis using logged_tracked [OF l ne v okay(7,8)] okay(1) False by simp
  qed
qed

lemma respond_outcome: "respond f (r, t) = (p, s') \<Longrightarrow> s' = t \<and> (case r of Inl e \<Rightarrow> p = Refused e | Inr v \<Rightarrow> p = f v)"
  by (auto simp: respond_def split: sum.splits)

lemma responded:
  assumes "respond f y = (p, s')"
  obtains x where "y = (x, s')" "respond f (x, s') = (p, s')"
  using assms respond_outcome by (cases y) blast

text \<open>C3: The event log records every effective write exactly once. Take any write request but \<^verbatim>\<open>/wipe\<close> and
  \<^verbatim>\<open>/rebuild\<close>, which empty the log, and but a delete or drain of the log itself, with items addressed by id, sequence number or
  uuid. If the response reports a change and events are on, there is one event: it has the operation, the address and the
  data of the request, without the payload in notify mode. The log gains exactly one entry at its end, the encoding of that event; or,
  only when the event cannot be encoded or has no room in the log under its item cap or in the store under its cap, the log stays as it is and
  the drop counter goes up by one. A refused
  request, one that hits nothing, or any request with events off leaves both the log and the drop counter alone.\<close>

theorem event_log_exact:
  assumes "reachable J c N s" "cfgMaxStoreBytes c \<le> MaxInt64" "N + request_weight q < 2 ^ 64" "request_ok q" "logs q"
    "serve J inp i capq q s = (p, s')"
  shows "if effective p \<and> eventsMode s \<noteq> EventsModeOff then recorded J (stripped s (eventOf inp i q p)) s s' else quiet s s'"
proof -
  have "N < 2 ^ 64" using assms(3) by simp
  note s = reachable_inv(1-3) [OF assms(1,2) this]
  have N: "Suc N < 2 ^ 64" using assms(3) by (cases q) simp_all
  note r = assms(6)
  have "tracked J (eventOf inp i q p) (effective p) s s'"
  proof (cases q)
    case (QAppend it)
    obtain x where e: "appendOne J inp i it s = (x, s')" "respond Stored (x, s') = (p, s')"
      by (rule responded [OF r [unfolded QAppend serve.simps]])
    show ?thesis using append_tracked [OF s N e(1)] respond_outcome [OF e(2)] QAppend by (cases x) (simp_all add: quiet_tracked)
  next
    case (QUpsert it)
    obtain x where e: "upsertOne J inp i it s = (x, s')" "respond (\<lambda>(st, created). Upserted st created) (x, s') = (p, s')"
      by (rule responded [OF r [unfolded QUpsert serve.simps]])
    show ?thesis using upsert_tracked [OF s N e(1)] respond_outcome [OF e(2)] QUpsert by (cases x) (auto simp: quiet_tracked)
  next
    case (QCounter n k d)
    obtain x where e: "counterAddOne J inp i n k d s = (x, s')" "respond (\<lambda>(v, created). Counted v created) (x, s') = (p, s')"
      by (rule responded [OF r [unfolded QCounter serve.simps]])
    show ?thesis using counter_tracked [OF s N e(1)] respond_outcome [OF e(2)] QCounter by (cases x) (auto simp: quiet_tracked)
  next
    case (QUpdate it)
    obtain x where e: "updateOne J inp i it s = (x, s')" "respond Hits (x, s') = (p, s')"
      by (rule responded [OF r [unfolded QUpdate serve.simps]])
    show ?thesis using update_tracked [OF s(1,2) N e(1)] respond_outcome [OF e(2)] QUpdate by (cases x) simp_all
  next
    case (QDelete n k q u)
    obtain x where e: "deleteOne J inp i capq n k q u s = (x, s')" "respond Hits (x, s') = (p, s')"
      by (rule responded [OF r [unfolded QDelete serve.simps]])
    have n: "n \<noteq> EventsScopeName" using assms(5) QDelete by simp
    show ?thesis using delete_tracked [OF s(1,2) N n e(1)] respond_outcome [OF e(2)] QDelete by (cases x) simp_all
  next
    case (QDrain n m u)
    obtain x where e: "deleteUpTo J inp i n m u s = (x, s')" "respond Hits (x, s') = (p, s')"
      by (rule responded [OF r [unfolded QDrain serve.simps]])
    have n: "n \<noteq> EventsScopeName" using assms(5) QDrain by simp
    show ?thesis using drain_tracked [OF s(1,2) N n e(1)] respond_outcome [OF e(2)] QDrain by (cases x) simp_all
  next
    case (QDropScope n)
    obtain x where e: "deleteScope J inp i n s = (x, s')" "respond (\<lambda>(h, found). Dropped h found) (x, s') = (p, s')"
      by (rule responded [OF r [unfolded QDropScope serve.simps]])
    show ?thesis using drop_tracked [OF s N e(1)] respond_outcome [OF e(2)] QDropScope by (cases x) auto
  next
    case (QWarm bi grouped)
    obtain x where e: "replaceScopes J inp i bi grouped s = (x, s')" "respond Done (x, s') = (p, s')"
      by (rule responded [OF r [unfolded QWarm serve.simps]])
    have b: "distinct (map fst grouped)" "batchLen grouped < N + batchLen grouped" "Suc (N + batchLen grouped) < 2 ^ 64"
      using s(3) assms(3,4) QWarm by simp_all
    have q: "seqs_below (N + batchLen grouped) s" by (rule seqs_below_mono [OF s(2)]) simp
    show ?thesis using warm_tracked [OF s(1) q b e(1)] respond_outcome [OF e(2)] QWarm by (cases x) simp_all
  qed (use assms(5) in simp_all)
  then show ?thesis by (simp add: tracked_def)
qed

text \<open>A delete by uuid for which the log has room, so that the event is logged.\<close>

theorem event_log_exact_witness:
  "case serve sampleJson sampleInp 7 0 (QDelete ''posts'' [] 0 ''00000000-0002-7000-8000-000000000000'') sampleStore of (p, s') \<Rightarrow>
     \<exists>st. view s' EventsScopeName = Some (the (view sampleStore EventsScopeName) @ [st]) \<and> Payload st = ''delete:posts''"
proof -
  let ?q = "QDelete ''posts'' [] 0 ''00000000-0002-7000-8000-000000000000''"
  have e: "fst (serve sampleJson sampleInp 7 0 ?q sampleStore) = Hits 1" "eventsMode sampleStore \<noteq> EventsModeOff"
    "eventFits sampleJson ''delete:posts'' (snd (serve sampleJson sampleInp 7 0 ?q sampleStore))" by code_simp+
  obtain s' where d: "serve sampleJson sampleInp 7 0 ?q sampleStore = (Hits 1, s')" using e(1) by (metis prod.collapse)
  have "if effective (Hits 1) \<and> eventsMode sampleStore \<noteq> EventsModeOff
      then recorded sampleJson (stripped sampleStore (eventOf sampleInp 7 ?q (Hits 1))) sampleStore s' else quiet sampleStore s'"
    by (rule event_log_exact [OF sample_reachable sample_conf _ _ _ d]) (simp_all add: EventsScopeName_def)
  moreover have "marshalEvent sampleJson (stripped sampleStore (eventOf sampleInp 7 ?q (Hits 1))) = Some ''delete:posts''"
    by (simp add: sampleJson_def stripped_def zeroEvent_def)
  ultimately show ?thesis using e(2,3) unfolding d by (auto simp: recorded_def)
qed

section \<open>Roll-back\<close>

text \<open>C23: A failed write leaves no trace: when an append, an upsert or a counter add on any reachable state is
  refused, even after it had already created its scope, the scope is taken back and its overhead returned. The
  contents of every scope, the scope map, the byte and item totals, the timestamps, the scope count, the drop
  counter and the subscriptions are what they were.\<close>

theorem failed_write_rolls_back:
  assumes "reachable J c N s" "cfgMaxStoreBytes c \<le> MaxInt64" "Suc N < 2 ^ 64"
    "appendOne J inp i it s = (Inl e, s') \<or> upsertOne J inp i it s = (Inl e, s') \<or> counterAddOne J inp i n k d s = (Inl e, s')"
  shows "view s' = view s \<and> shards s' = shards s \<and> acct s' = acct s \<and> scopeCount s' = scopeCount s \<and>
    eventsDropsTotal s' = eventsDropsTotal s \<and> subscribers s' = subscribers s \<and> subs s' = subs s"
proof -
  have "N < 2 ^ 64" using assms(3) by simp
  note s = reachable_inv(1-3) [OF assms(1,2) this]
  have "unchanged s s'" using assms(4)
  proof (elim disjE)
    assume a: "appendOne J inp i it s = (Inl e, s')"
    show "unchanged s s'"
    proof (cases "validateWriteItem J it ''/append'' (maxItemBytesFor (acct s) (Scope it))")
      case (Inl e')
      then show ?thesis using a by (simp add: appendOne_def unchanged_def)
    next
      case (Inr it')
      then have "appendOneTrusted J inp i it' s = (Inl e, s')" using a by (simp add: appendOne_def)
      with s assms(3) show ?thesis by (cases rule: appendOneTrusted_cases) simp_all
    qed
  next
    assume "upsertOne J inp i it s = (Inl e, s')"
    with s assms(3) show "unchanged s s'" by (cases rule: upsertOne_cases) simp_all
  next
    assume "counterAddOne J inp i n k d s = (Inl e, s')"
    with s assms(3) show "unchanged s s'" by (cases rule: counterAddOne_cases) simp_all
  qed
  then show ?thesis using unchanged_facts(2,4,5,8,9,10,12) s(1) by (simp add: store_inv_def)
qed

theorem failed_write_rolls_back_witness:
  "case appendOne sampleJson sampleInp 7 (sampleItem ''a'' ''2'') sampleStore of (r, s') \<Rightarrow>
     isl r \<and> view s' = view sampleStore \<and> acct s' = acct sampleStore"
proof -
  obtain r s' where d: "appendOne sampleJson sampleInp 7 (sampleItem ''a'' ''2'') sampleStore = (r, s')" by fastforce
  have "isl (fst (appendOne sampleJson sampleInp 7 (sampleItem ''a'' ''2'') sampleStore))" by code_simp
  then obtain e where e: "r = Inl e" using d by (auto simp: isl_def)
  have "appendOne sampleJson sampleInp 7 (sampleItem ''a'' ''2'') sampleStore = (Inl e, s')" using d e by simp
  then have "view s' = view sampleStore \<and> shards s' = shards sampleStore \<and> acct s' = acct sampleStore \<and> scopeCount s' = scopeCount sampleStore \<and>
    eventsDropsTotal s' = eventsDropsTotal sampleStore \<and> subscribers s' = subscribers sampleStore \<and> subs s' = subs sampleStore"
    by (intro failed_write_rolls_back [OF sample_reachable sample_conf] disjI1) simp_all
  then show ?thesis unfolding d by (simp add: e)
qed

section \<open>Reserved scopes\<close>

lemma prepare_loop_reserved:
  "n \<in> fst ` set grouped \<Longrightarrow> isReservedScope n \<Longrightarrow> \<exists>e. prepare_loop J bi ep s grouped = Inl e"
proof (induction grouped)
  case (Cons g grouped)
  obtain m its where g: "g = (m, its)" by fastforce
  show ?case
  proof (cases "m = n")
    case True
    have "firstErr [validateScope n ep, reject (isReservedScope n) (ScopeReserved n ep)] \<noteq> None"
      using Cons.prems(2) by (simp add: firstErr_None reject_def)
    then have "\<exists>e. prepareScope J bi ep s n its = Inl e" by (auto simp: prepareScope_def)
    then show ?thesis using True by (auto simp: g)
  next
    case False
    then have "\<exists>e. prepare_loop J bi ep s grouped = Inl e" using Cons g by simp
    then show ?thesis by (auto simp: g split: sum.splits)
  qed
qed simp

text \<open>C30: The reserved scopes are protected: an upsert, an update or a counter add that names one, an append that names the
  event log, a deletion of the scope itself, and a batch in which one of them appears are all refused and leave the store
  exactly as it was.\<close>

theorem reserved_scopes_protected:
  assumes "isReservedScope n" "Scope it = n"
  shows "(\<exists>e. upsertOne J inp i it s = (Inl e, s)) \<and> (\<exists>e. updateOne J inp i it s = (Inl e, s)) \<and>
    (\<exists>e. counterAddOne J inp i n k d s = (Inl e, s)) \<and> (\<exists>e. deleteScope J inp i n s = (Inl e, s)) \<and>
    (n = EventsScopeName \<longrightarrow> (\<exists>e. appendOne J inp i it s = (Inl e, s))) \<and>
    (n \<in> fst ` set grouped \<longrightarrow> (\<exists>e. replaceScopes J inp i bi grouped s = (Inl e, s)) \<and>
       (\<exists>e. rebuildAll J now now' bi grouped s = (Inl e, s)))"
proof (intro conjI impI)
  show "\<exists>e. upsertOne J inp i it s = (Inl e, s)"
    using validateUpsertItem_Inr(4) assms by (cases "validateUpsertItem J it (maxItemBytes (acct s))") (auto simp: upsertOne_def)
  show "\<exists>e. updateOne J inp i it s = (Inl e, s)"
    using validateUpdateItem_Inr(6) assms by (cases "validateUpdateItem J it (maxItemBytes (acct s))") (auto simp: updateOne_def)
  show "\<exists>e. counterAddOne J inp i n k d s = (Inl e, s)"
    using validateCounterAdd_Inr(6) assms
    by (cases "validateCounterAddRequest n k (Some d) (maxItemBytesFor (acct s) n)") (auto simp: counterAddOne_def)
  show "\<exists>e. deleteScope J inp i n s = (Inl e, s)"
    using validateDeleteScope_None assms by (cases "validateDeleteScopeRequest n") (auto simp: deleteScope_def)
  show "\<exists>e. appendOne J inp i it s = (Inl e, s)" if "n = EventsScopeName"
    using validateWriteItem_Inr(11) that assms
    by (cases "validateWriteItem J it ''/append'' (maxItemBytesFor (acct s) (Scope it))") (auto simp: appendOne_def)
  show "\<exists>e. replaceScopes J inp i bi grouped s = (Inl e, s)" if "n \<in> fst ` set grouped"
    using prepare_loop_reserved [OF that assms(1), of J bi "''/warm''" s] by (auto simp: replaceScopes_def)
  show "\<exists>e. rebuildAll J now now' bi grouped s = (Inl e, s)" if "n \<in> fst ` set grouped"
    using prepare_loop_reserved [OF that assms(1), of J bi "''/rebuild''" s] by (auto simp: rebuildAll_def)
qed

theorem reserved_scopes_protected_witness:
  "\<exists>e. deleteScope sampleJson sampleInp 7 InboxScopeName sampleStore = (Inl e, sampleStore)"
  using reserved_scopes_protected [of InboxScopeName "zeroItem\<lparr>Scope := InboxScopeName\<rparr>"]
  by (simp add: isReservedScope_iff)

end
