(* ===== verification/Locks.thy ===== *)
theory Locks
  imports Sample
begin

text \<open>
  The locking discipline of the cache (the header of \<^verbatim>\<open>store.go\<close>): the locks each operation takes and releases, in order,
  as it runs through \<^verbatim>\<open>store.go\<close>, \<^verbatim>\<open>bulk.go\<close>, \<^verbatim>\<open>subscribe.go\<close> and the buffer methods, and what any number of goroutines
  that run these operations can do to each other.

  A \<^verbatim>\<open>sync.RWMutex\<close> is taken in the two stages of the library: a writer first announces itself, which keeps new readers
  and other writers out, and then waits for the readers inside to leave. What an operation does between two lock actions is
  the subject of the other theories.
\<close>

section \<open>Locks and goroutines\<close>

datatype lock = ShardMu nat | BufMu nat | SubsMu | RegistryMu

text \<open>The order in which locks nest: shards by ascending index, then a buffer; the other two are taken with nothing but those held.\<close>

fun level :: "lock \<Rightarrow> nat" where
  "level (ShardMu i) = 0"
| "level (BufMu b) = 1"
| "level SubsMu = 2"
| "level RegistryMu = 3"

fun shard_index :: "lock \<Rightarrow> nat" where
  "shard_index (ShardMu i) = i"
| "shard_index l = 0"

instantiation lock :: order
begin

definition less_lock :: "lock \<Rightarrow> lock \<Rightarrow> bool" where
  "l < m \<longleftrightarrow> level l < level m \<or> level l = level m \<and> shard_index l < shard_index m"

definition less_eq_lock :: "lock \<Rightarrow> lock \<Rightarrow> bool" where
  "l \<le> m \<longleftrightarrow> l = m \<or> l < (m :: lock)"

instance
  by standard (auto simp: less_lock_def less_eq_lock_def)

end

lemma lock_order [simp]:
  "ShardMu i < ShardMu j \<longleftrightarrow> i < j" "ShardMu i < BufMu b" "ShardMu i < SubsMu" "BufMu b < SubsMu" "\<not> BufMu b < BufMu c"
  by (simp_all add: less_lock_def)

datatype lockAct = Lock lock | Unlock lock | RLock lock | RUnlock lock

text \<open>A goroutine: what it has left to do, the locks it holds (for writing or not), and whether it has announced itself to the
  lock it is about to take.\<close>

record goroutine =
  todo :: "lockAct list"
  held :: "(lock \<times> bool) list"
  announced :: bool

definition starting :: "lockAct list \<Rightarrow> goroutine" where
  "starting acts = \<lparr>todo = acts, held = [], announced = False\<rparr>"

definition owns :: "lock \<Rightarrow> goroutine \<Rightarrow> bool" where
  "owns l g \<longleftrightarrow> (l, True) \<in> set (held g) \<or> announced g \<and> (case todo g of Lock k # _ \<Rightarrow> k = l | _ \<Rightarrow> False)"

definition reads :: "lock \<Rightarrow> goroutine \<Rightarrow> bool" where
  "reads l g \<longleftrightarrow> (l, False) \<in> set (held g)"

text \<open>One turn of goroutine \<open>i\<close>; \<^const>\<open>None\<close> when it is done or has to wait. A release of a lock that is not held, a crash of
  the program, has no turn either.\<close>

definition goroutine_turn :: "goroutine list \<Rightarrow> goroutine \<Rightarrow> goroutine option" where
  "goroutine_turn gs g =
     (case todo g of
        [] \<Rightarrow> None
      | RLock l # rest \<Rightarrow>
          if list_ex (owns l) gs then None else Some (g\<lparr>todo := rest, held := (l, False) # held g\<rparr>)
      | Lock l # rest \<Rightarrow>
          if \<not> announced g then (if list_ex (owns l) gs then None else Some (g\<lparr>announced := True\<rparr>))
          else if list_ex (reads l) gs then None
          else Some (g\<lparr>todo := rest, held := (l, True) # held g, announced := False\<rparr>)
      | RUnlock l # rest \<Rightarrow>
          if (l, False) \<in> set (held g) then Some (g\<lparr>todo := rest, held := remove1 (l, False) (held g)\<rparr>) else None
      | Unlock l # rest \<Rightarrow>
          if (l, True) \<in> set (held g) then Some (g\<lparr>todo := rest, held := remove1 (l, True) (held g)\<rparr>) else None)"

definition lock_turn :: "goroutine list \<Rightarrow> nat \<Rightarrow> goroutine list option" where
  "lock_turn gs i =
     (if length gs \<le> i then None
      else case goroutine_turn gs (gs ! i) of None \<Rightarrow> None | Some g \<Rightarrow> Some (gs[i := g]))"

fun run_turns :: "goroutine list \<Rightarrow> nat list \<Rightarrow> goroutine list option" where
  "run_turns gs [] = Some gs"
| "run_turns gs (i # is) = (case lock_turn gs i of None \<Rightarrow> None | Some gs' \<Rightarrow> run_turns gs' is)"

section \<open>The locks of each operation\<close>

text \<open>The helpers of \<^verbatim>\<open>store.go\<close>.\<close>

definition lockAllShards :: "lockAct list" where
  "lockAllShards = map (\<lambda>i. Lock (ShardMu i)) [0..<numShards]"

definition unlockAllShards :: "lockAct list" where
  "unlockAllShards = map (\<lambda>i. Unlock (ShardMu i)) [0..<numShards]"

definition lockShards :: "nat list \<Rightarrow> lockAct list" where
  "lockShards is = map (\<lambda>i. Lock (ShardMu i)) is"

definition unlockShards :: "nat list \<Rightarrow> lockAct list" where
  "unlockShards is = map (\<lambda>i. Unlock (ShardMu i)) is"

text \<open>A method of a buffer takes its lock for the length of the call.\<close>

definition buf_write :: "nat \<Rightarrow> lockAct list" where
  "buf_write b = [Lock (BufMu b), Unlock (BufMu b)]"

definition buf_read :: "nat \<Rightarrow> lockAct list" where
  "buf_read b = [RLock (BufMu b), RUnlock (BufMu b)]"

text \<open>\<^verbatim>\<open>counterAdd\<close> looks for a counter cell under the read lock and falls through to the slow path.\<close>

definition counterAdd_locks :: "nat \<Rightarrow> bool \<Rightarrow> lockAct list" where
  "counterAdd_locks b fast = buf_read b @ (if fast then [] else buf_write b)"

text \<open>What a call meets on its way: the outcome of \<^verbatim>\<open>getOrCreateScope\<close> (the scope is there; it appeared in between; it is
  created; there is no room for it), the buffer, whether the buffer accepts the write, and whether a scope to be rolled back is
  still the one that was created.\<close>

datatype lookup_outcome = Found | Raced | Created | NoRoom

record access =
  acLookup :: lookup_outcome
  acBuf :: nat
  acAccepted :: bool
  acMapped :: bool

definition succeeds :: "access \<Rightarrow> bool" where
  "succeeds a \<longleftrightarrow> acLookup a \<noteq> NoRoom \<and> acAccepted a"

definition getScope_locks :: "store \<Rightarrow> string \<Rightarrow> lockAct list" where
  "getScope_locks s scope = (let sh = ShardMu (shardIdxFor s scope) in [RLock sh, RUnlock sh])"

definition getOrCreateScope_locks :: "store \<Rightarrow> string \<Rightarrow> lookup_outcome \<Rightarrow> lockAct list" where
  "getOrCreateScope_locks s scope r =
     (let sh = ShardMu (shardIdxFor s scope)
      in [RLock sh, RUnlock sh] @ (if r = Found then [] else [Lock sh, Unlock sh]))"

definition cleanupIfEmptyAndUnused_locks :: "store \<Rightarrow> string \<Rightarrow> access \<Rightarrow> lockAct list" where
  "cleanupIfEmptyAndUnused_locks s scope a =
     (let sh = ShardMu (shardIdxFor s scope)
      in Lock sh # (if acMapped a then buf_write (acBuf a) else []) @ [Unlock sh])"

text \<open>The part the three writes that create a scope share; \<open>method\<close> are the locks of the buffer method.\<close>

definition scope_write_locks :: "store \<Rightarrow> string \<Rightarrow> access \<Rightarrow> lockAct list \<Rightarrow> lockAct list" where
  "scope_write_locks s scope a meth =
     getOrCreateScope_locks s scope (acLookup a) @
     (if acLookup a = NoRoom then []
      else meth @ (if \<not> acAccepted a \<and> acLookup a = Created then cleanupIfEmptyAndUnused_locks s scope a else []))"

definition notifySubscriber_locks :: "lockAct list" where
  "notifySubscriber_locks = [RLock SubsMu, RUnlock SubsMu]"

definition appendOneTrusted_locks :: "store \<Rightarrow> string \<Rightarrow> access \<Rightarrow> lockAct list \<Rightarrow> lockAct list" where
  "appendOneTrusted_locks s scope a emit =
     scope_write_locks s scope a (buf_write (acBuf a)) @
     (if succeeds a then emit @ (if isReservedScope scope then notifySubscriber_locks else []) else [])"

text \<open>An event is an append to \<^verbatim>\<open>_events\<close>, which raises none itself; \<^const>\<open>None\<close> when no event is emitted.\<close>

definition emitEvent_locks :: "store \<Rightarrow> access option \<Rightarrow> lockAct list" where
  "emitEvent_locks s ev = (case ev of None \<Rightarrow> [] | Some a \<Rightarrow> appendOneTrusted_locks s EventsScopeName a [])"

definition upsertOne_locks :: "store \<Rightarrow> string \<Rightarrow> access \<Rightarrow> access option \<Rightarrow> lockAct list" where
  "upsertOne_locks s scope a ev =
     scope_write_locks s scope a (buf_write (acBuf a)) @ (if succeeds a then emitEvent_locks s ev else [])"

definition counterAddOne_locks :: "store \<Rightarrow> string \<Rightarrow> access \<Rightarrow> bool \<Rightarrow> access option \<Rightarrow> lockAct list" where
  "counterAddOne_locks s scope a fast ev =
     scope_write_locks s scope a (counterAdd_locks (acBuf a) fast) @ (if succeeds a then emitEvent_locks s ev else [])"

text \<open>\<^verbatim>\<open>updateOne\<close>, \<^verbatim>\<open>deleteOne\<close> and \<^verbatim>\<open>deleteUpTo\<close>: \<open>b\<close> is the buffer, when there is one.\<close>

definition change_locks :: "store \<Rightarrow> string \<Rightarrow> nat option \<Rightarrow> access option \<Rightarrow> lockAct list" where
  "change_locks s scope b ev =
     getScope_locks s scope @ (case b of None \<Rightarrow> [] | Some k \<Rightarrow> buf_write k @ emitEvent_locks s ev)"

text \<open>\<^verbatim>\<open>head\<close>, \<^verbatim>\<open>tail\<close>, \<^verbatim>\<open>get\<close> and \<^verbatim>\<open>render\<close>.\<close>

definition read_locks :: "store \<Rightarrow> string \<Rightarrow> nat option \<Rightarrow> lockAct list" where
  "read_locks s scope b = getScope_locks s scope @ (case b of None \<Rightarrow> [] | Some k \<Rightarrow> buf_read k)"

text \<open>The locked phase of \<^verbatim>\<open>deleteScope\<close> ends before its event is emitted.\<close>

definition deleteScope_locks :: "store \<Rightarrow> string \<Rightarrow> nat option \<Rightarrow> access option \<Rightarrow> lockAct list" where
  "deleteScope_locks s scope b ev =
     (let sh = ShardMu (shardIdxFor s scope)
      in Lock sh # (case b of None \<Rightarrow> [] | Some k \<Rightarrow> buf_write k) @ [Unlock sh] @
         (case b of None \<Rightarrow> [] | Some k \<Rightarrow> emitEvent_locks s ev))"

definition reservedScopeStats_locks :: "store \<Rightarrow> (string \<Rightarrow> nat option) \<Rightarrow> lockAct list" where
  "reservedScopeStats_locks s bufOf = concat (map (\<lambda>name. read_locks s name (bufOf name)) reservedScopeNames)"

definition walk_locks :: "lockAct list" where
  "walk_locks = concat (map (\<lambda>i. [RLock (ShardMu i), RUnlock (ShardMu i)]) [0..<numShards])"

definition scopeList_locks :: "nat list \<Rightarrow> lockAct list" where
  "scopeList_locks bs = walk_locks @ concat (map buf_read bs)"

text \<open>\<^verbatim>\<open>wipe\<close> and the last phase of \<^verbatim>\<open>rebuildAll\<close> detach every buffer under the locks of all shards, with the same trace.\<close>

definition detachAll_locks :: "nat list \<Rightarrow> lockAct list" where
  "detachAll_locks bs = lockAllShards @ concat (map buf_write bs) @ unlockAllShards"

text \<open>\<^verbatim>\<open>replaceScopes\<close>: the names of the plans with the buffer of each, and the answer of \<^verbatim>\<open>reserveBytes\<close>. A new scope has
  no buffer to snapshot; \<^verbatim>\<open>commitReplacementPreReserved\<close> locks each.\<close>

definition replaceScopes_locks :: "store \<Rightarrow> (string \<times> nat \<times> bool) list \<Rightarrow> bool \<Rightarrow> access option \<Rightarrow> lockAct list" where
  "replaceScopes_locks s plans room ev =
     (let shards = shardsForScopes s (map fst plans)
      in lockShards shards @
         concat (map (\<lambda>(scope, b, existed). if existed then buf_read b else []) plans) @
         (if room then concat (map (\<lambda>(scope, b, existed). buf_write b) plans) else []) @
         unlockShards shards @ (if room \<and> plans \<noteq> [] then emitEvent_locks s ev else []))"

definition initReservedScopes_locks :: "store \<Rightarrow> lockAct list" where
  "initReservedScopes_locks s =
     concat (map (\<lambda>name. let sh = ShardMu (shardIdxFor s name) in [Lock sh, Unlock sh]) reservedScopeNames)"

text \<open>\<^verbatim>\<open>Subscribe\<close> and \<^verbatim>\<open>unsubscribe\<close>; a lookup of a slot of the gateway registry, by a name it knows or not.\<close>

definition subscribe_locks :: "lockAct list" where
  "subscribe_locks = [Lock SubsMu, Unlock SubsMu]"

definition registry_locks :: "bool \<Rightarrow> lockAct list" where
  "registry_locks known = [RLock RegistryMu, RUnlock RegistryMu] @ (if known then [] else [Lock RegistryMu, Unlock RegistryMu])"

text \<open>The calls a goroutine can make.\<close>

datatype cacheCall =
    CallAppend string access "access option"
  | CallUpsert string access "access option"
  | CallCounterAdd string access bool "access option"
  | CallChange string "nat option" "access option"
  | CallRead string "nat option"
  | CallEnsure string lookup_outcome
  | CallDeleteScope string "nat option" "access option"
  | CallStats "string \<Rightarrow> nat option"
  | CallScopeList "nat list"
  | CallDetachAll "nat list"
  | CallWarm "(string \<times> nat \<times> bool) list" bool "access option"
  | CallInit
  | CallSubscribe
  | CallRegistry bool

fun call_locks :: "store \<Rightarrow> cacheCall \<Rightarrow> lockAct list" where
  "call_locks s (CallAppend scope a ev) = appendOneTrusted_locks s scope a (emitEvent_locks s ev)"
| "call_locks s (CallUpsert scope a ev) = upsertOne_locks s scope a ev"
| "call_locks s (CallCounterAdd scope a fast ev) = counterAddOne_locks s scope a fast ev"
| "call_locks s (CallChange scope b ev) = change_locks s scope b ev"
| "call_locks s (CallRead scope b) = read_locks s scope b"
| "call_locks s (CallEnsure scope r) = getOrCreateScope_locks s scope r"
| "call_locks s (CallDeleteScope scope b ev) = deleteScope_locks s scope b ev"
| "call_locks s (CallStats bufOf) = reservedScopeStats_locks s bufOf"
| "call_locks s (CallScopeList bs) = scopeList_locks bs"
| "call_locks s (CallDetachAll bs) = detachAll_locks bs"
| "call_locks s (CallWarm plans room ev) = replaceScopes_locks s plans room ev"
| "call_locks s CallInit = initReservedScopes_locks s"
| "call_locks s CallSubscribe = subscribe_locks"
| "call_locks s (CallRegistry known) = registry_locks known"

definition serving :: "store \<Rightarrow> cacheCall list list \<Rightarrow> goroutine list" where
  "serving s callers = map (\<lambda>calls. starting (concat (map (call_locks s) calls))) callers"

section \<open>Every operation keeps the order\<close>

text \<open>
  The locks held after a sequence of actions that starts with \<open>h\<close> held; \<^const>\<open>None\<close> when an action takes a lock that is not
  above all that are held, or releases one that is not.
\<close>

fun locks_after :: "(lock \<times> bool) list \<Rightarrow> lockAct list \<Rightarrow> (lock \<times> bool) list option" where
  "locks_after h [] = Some h"
| "locks_after h (Lock l # as) = (if \<forall>(k, w) \<in> set h. k < l then locks_after ((l, True) # h) as else None)"
| "locks_after h (RLock l # as) = (if \<forall>(k, w) \<in> set h. k < l then locks_after ((l, False) # h) as else None)"
| "locks_after h (Unlock l # as) = (if (l, True) \<in> set h then locks_after (remove1 (l, True) h) as else None)"
| "locks_after h (RUnlock l # as) = (if (l, False) \<in> set h then locks_after (remove1 (l, False) h) as else None)"

definition balanced :: "lockAct list \<Rightarrow> bool" where
  "balanced as \<longleftrightarrow> locks_after [] as = Some []"

lemma locks_after_append:
  "locks_after h (as @ bs) = (case locks_after h as of None \<Rightarrow> None | Some h' \<Rightarrow> locks_after h' bs)"
  by (induction h as rule: locks_after.induct) auto

lemma balanced_Nil [simp]: "balanced []"
  by (simp add: balanced_def)

lemma balanced_append [simp]: "balanced as \<Longrightarrow> balanced bs \<Longrightarrow> balanced (as @ bs)"
  by (simp add: balanced_def locks_after_append)

lemma balanced_concat: "(\<And>as. as \<in> set ass \<Longrightarrow> balanced as) \<Longrightarrow> balanced (concat ass)"
  by (induction ass) auto

lemma balanced_pair [simp]:
  "balanced as \<Longrightarrow> balanced (Lock l # Unlock l # as)" "balanced as \<Longrightarrow> balanced (RLock l # RUnlock l # as)"
  by (simp_all add: balanced_def)

text \<open>Buffers are locked above any shards.\<close>

lemma under_shards:
  assumes "\<forall>(k, w) \<in> set h. \<exists>i. k = ShardMu i"
  shows "locks_after h (buf_write b) = Some h" "locks_after h (buf_read b) = Some h"
proof -
  have "\<forall>(k, w) \<in> set h. k < BufMu b" using assms by fastforce
  then show "locks_after h (buf_write b) = Some h" "locks_after h (buf_read b) = Some h"
    by (simp_all add: buf_write_def buf_read_def)
qed

lemma under_shards_each:
  assumes "\<And>x. x \<in> set xs \<Longrightarrow> locks_after h (f x) = Some h"
  shows "locks_after h (concat (map f xs)) = Some h"
  using assms by (induction xs) (simp_all add: locks_after_append)

lemma lockShards_after:
  assumes "sorted_wrt (<) is" "\<forall>(k, w) \<in> set h. \<forall>i \<in> set is. k < ShardMu i"
  shows "locks_after h (lockShards is) = Some (rev (map (\<lambda>i. (ShardMu i, True)) is) @ h)"
  using assms
proof (induction "is" arbitrary: h)
  case (Cons i "is")
  have "locks_after ((ShardMu i, True) # h) (lockShards is) = Some (rev (map (\<lambda>i. (ShardMu i, True)) is) @ (ShardMu i, True) # h)"
    by (rule Cons.IH) (use Cons.prems in auto)
  then show ?case using Cons.prems by (auto simp: lockShards_def)
qed (simp add: lockShards_def)

lemma unlockShards_after:
  assumes "distinct is"
  shows "locks_after (rev (map (\<lambda>i. (ShardMu i, True)) is)) (unlockShards is) = Some []"
  using assms by (induction "is") (auto simp: unlockShards_def remove1_append)

lemma all_shards: "lockAllShards = lockShards [0..<numShards]" "unlockAllShards = unlockShards [0..<numShards]"
  by (simp_all add: lockAllShards_def unlockAllShards_def lockShards_def unlockShards_def)

text \<open>What is done under the locks of ascending shards and leaves them as they are.\<close>

lemma balanced_shards:
  assumes s: "sorted_wrt (<) is" and m: "\<And>h. \<forall>(k, w) \<in> set h. \<exists>i. k = ShardMu i \<Longrightarrow> locks_after h middle = Some h"
  shows "balanced (lockShards is @ middle @ unlockShards is)"
proof -
  have d: "distinct is" using s by (simp add: strict_sorted_iff)
  have l: "locks_after [] (lockShards is) = Some (rev (map (\<lambda>i. (ShardMu i, True)) is))"
    using lockShards_after [OF s, of "[]"] by simp
  have "locks_after (rev (map (\<lambda>i. (ShardMu i, True)) is)) middle = Some (rev (map (\<lambda>i. (ShardMu i, True)) is))"
    by (rule m) auto
  then show ?thesis using unlockShards_after [OF d] by (simp add: balanced_def locks_after_append l)
qed

lemma shard_pair:
  assumes "\<And>h. \<forall>(k, w) \<in> set h. \<exists>i. k = ShardMu i \<Longrightarrow> locks_after h middle = Some h"
  shows "balanced (Lock (ShardMu i) # middle @ [Unlock (ShardMu i)])"
  using balanced_shards [of "[i]" middle] assms by (simp add: lockShards_def unlockShards_def)

lemma balanced_buf [simp]: "balanced (buf_write b)" "balanced (buf_read b)"
  by (simp_all add: buf_write_def buf_read_def)

lemma balanced_getScope [simp]: "balanced (getScope_locks s scope)" "balanced (getOrCreateScope_locks s scope r)"
  by (simp_all add: getScope_locks_def getOrCreateScope_locks_def Let_def balanced_def)

lemma balanced_cleanup [simp]: "balanced (cleanupIfEmptyAndUnused_locks s scope a)"
  unfolding cleanupIfEmptyAndUnused_locks_def Let_def by (rule shard_pair) (auto intro!: under_shards)

lemma balanced_write [simp]: "balanced meth \<Longrightarrow> balanced (scope_write_locks s scope a meth)"
  by (simp add: scope_write_locks_def)

lemma balanced_append_trusted [simp]: "balanced emit \<Longrightarrow> balanced (appendOneTrusted_locks s scope a emit)"
  by (simp add: appendOneTrusted_locks_def notifySubscriber_locks_def)

lemma balanced_emit [simp]: "balanced (emitEvent_locks s ev)"
  by (simp add: emitEvent_locks_def split: option.split)

lemma balanced_deleteScope: "balanced (deleteScope_locks s scope b ev)"
proof -
  have "balanced (Lock (ShardMu i) # (case b of None \<Rightarrow> [] | Some k \<Rightarrow> buf_write k) @ [Unlock (ShardMu i)])" for i
    by (rule shard_pair) (auto intro!: under_shards split: option.split)
  from balanced_append [OF this, of "case b of None \<Rightarrow> [] | Some k \<Rightarrow> emitEvent_locks s ev"]
  show ?thesis by (simp add: deleteScope_locks_def Let_def split: option.split)
qed

text \<open>A batch takes its locks in ascending order: the shards it locks are strictly ascending, all within the
  shard table, and they are exactly the shards its scopes live in, so every scope the batch touches is covered and
  no other shard is.\<close>

lemma seen_fold:
  "i < numShards \<Longrightarrow> length sn = numShards \<Longrightarrow>
   fold (\<lambda>scope sn. sn[shardIdxFor s scope := True]) ns sn ! i \<longleftrightarrow> sn ! i \<or> (\<exists>n \<in> set ns. shardIdxFor s n = i)"
  by (induction ns arbitrary: sn) (auto simp: nth_list_update)

theorem shards_ascending_and_exact:
  "sorted_wrt (<) (shardsForScopes s ns) \<and> set (shardsForScopes s ns) = shardIdxFor s ` set ns \<and>
   (\<forall>i \<in> set (shardsForScopes s ns). i < numShards)"
proof -
  let ?seen = "fold (\<lambda>scope sn. sn[shardIdxFor s scope := True]) ns (replicate numShards False)"
  have e: "shardsForScopes s ns = filter (\<lambda>i. ?seen ! i) [0..<numShards]" by (simp add: shardsForScopes_def)
  have "set (shardsForScopes s ns) = shardIdxFor s ` set ns" unfolding e using seen_fold [of _ "replicate numShards False"] by auto
  moreover have "sorted_wrt (<) (shardsForScopes s ns)" unfolding e by (intro sorted_wrt_filter sorted_wrt_upt)
  ultimately show ?thesis by (auto simp: shardsForScopes_def Let_def)
qed

lemma balanced_warm: "balanced (replaceScopes_locks s plans room ev)"
proof -
  have "balanced (lockShards (shardsForScopes s (map fst plans)) @
      (concat (map (\<lambda>(scope, b, existed). if existed then buf_read b else []) plans) @
       (if room then concat (map (\<lambda>(scope, b, existed). buf_write b) plans) else [])) @
      unlockShards (shardsForScopes s (map fst plans)))"
  proof (rule balanced_shards)
    show "sorted_wrt (<) (shardsForScopes s (map fst plans))" using shards_ascending_and_exact by blast
    fix h :: "(lock \<times> bool) list"
    assume h: "\<forall>(k, w) \<in> set h. \<exists>i. k = ShardMu i"
    have "locks_after h (concat (map (\<lambda>(scope, b, existed). if existed then buf_read b else []) plans)) = Some h"
      by (rule under_shards_each) (use h in \<open>auto intro!: under_shards\<close>)
    moreover have "locks_after h (concat (map (\<lambda>(scope, b, existed). buf_write b) plans)) = Some h"
      by (rule under_shards_each) (use h in \<open>auto intro!: under_shards\<close>)
    ultimately show "locks_after h (concat (map (\<lambda>(scope, b, existed). if existed then buf_read b else []) plans) @
       (if room then concat (map (\<lambda>(scope, b, existed). buf_write b) plans) else [])) = Some h"
      by (simp add: locks_after_append)
  qed
  from balanced_append [OF this, of "if room \<and> plans \<noteq> [] then emitEvent_locks s ev else []"]
  show ?thesis by (simp add: replaceScopes_locks_def Let_def)
qed

lemma balanced_detach: "balanced (detachAll_locks bs)"
  unfolding detachAll_locks_def all_shards
  by (rule balanced_shards) (auto intro!: under_shards under_shards_each)

lemma balanced_call: "balanced (call_locks s c)"
proof (cases c)
  case (CallAppend scope a ev)
  then show ?thesis by simp
next
  case (CallDeleteScope scope b ev)
  then show ?thesis by (simp add: balanced_deleteScope)
next
  case (CallDetachAll bs)
  then show ?thesis by (simp add: balanced_detach)
next
  case (CallWarm plans room ev)
  then show ?thesis by (simp add: balanced_warm)
qed (auto simp: upsertOne_locks_def counterAddOne_locks_def counterAdd_locks_def change_locks_def read_locks_def
    reservedScopeStats_locks_def walk_locks_def scopeList_locks_def initReservedScopes_locks_def subscribe_locks_def
    registry_locks_def Let_def intro!: balanced_append balanced_concat split: option.split)

section \<open>What goroutines can do to each other\<close>

text \<open>
  Every goroutine is on its way through ordered actions, announced only to the lock it takes next; a lock has at most one
  writer, announced or inside, and while one is inside nobody else reads.
\<close>

definition on_track :: "goroutine \<Rightarrow> bool" where
  "on_track g \<longleftrightarrow> locks_after (held g) (todo g) = Some [] \<and> (announced g \<longrightarrow> (\<exists>l rest. todo g = Lock l # rest))"

definition orderly :: "goroutine list \<Rightarrow> bool" where
  "orderly gs \<longleftrightarrow> (\<forall>g \<in> set gs. on_track g) \<and>
     (\<forall>i < length gs. \<forall>j < length gs. \<forall>l. owns l (gs ! i) \<longrightarrow> owns l (gs ! j) \<longrightarrow> i = j) \<and>
     (\<forall>i < length gs. \<forall>j < length gs. \<forall>l. (l, True) \<in> set (held (gs ! i)) \<longrightarrow> reads l (gs ! j) \<longrightarrow> i = j)"

definition left :: "goroutine \<Rightarrow> nat" where
  "left g = 2 * length (todo g) - (if announced g then 1 else 0)"

text \<open>What a turn changes of the goroutine that takes it.\<close>

lemma goroutine_turn_keeps:
  assumes t: "goroutine_turn gs g = Some g'" and track: "on_track g"
  shows "on_track g'" and "left g' < left g"
    and "owns l g' \<Longrightarrow> owns l g \<or> (\<forall>h \<in> set gs. \<not> owns l h)"
    and "(l, True) \<in> set (held g') \<Longrightarrow> (l, True) \<in> set (held g) \<or> owns l g \<and> (\<forall>h \<in> set gs. \<not> reads l h)"
    and "reads l g' \<Longrightarrow> reads l g \<or> (\<forall>h \<in> set gs. \<not> owns l h)"
proof -
  obtain a rest where a: "todo g = a # rest" using t by (cases "todo g") (auto simp: goroutine_turn_def)
  have r: "x \<in> set (remove1 y xs) \<Longrightarrow> x \<in> set xs" for x y :: "lock \<times> bool" and xs using set_remove1_subset by fastforce
  have "on_track g' \<and> left g' < left g \<and> (owns l g' \<longrightarrow> owns l g \<or> (\<forall>h \<in> set gs. \<not> owns l h)) \<and>
    ((l, True) \<in> set (held g') \<longrightarrow> (l, True) \<in> set (held g) \<or> owns l g \<and> (\<forall>h \<in> set gs. \<not> reads l h)) \<and>
    (reads l g' \<longrightarrow> reads l g \<or> (\<forall>h \<in> set gs. \<not> owns l h))"
    using t track
    by (cases a) (auto simp: a goroutine_turn_def on_track_def left_def owns_def reads_def list_ex_iff split: if_splits dest: r)
  then show "on_track g'" and "left g' < left g"
    and "owns l g' \<Longrightarrow> owns l g \<or> (\<forall>h \<in> set gs. \<not> owns l h)"
    and "(l, True) \<in> set (held g') \<Longrightarrow> (l, True) \<in> set (held g) \<or> owns l g \<and> (\<forall>h \<in> set gs. \<not> reads l h)"
    and "reads l g' \<Longrightarrow> reads l g \<or> (\<forall>h \<in> set gs. \<not> owns l h)"
    by blast+
qed

lemma orderly_turn:
  assumes ord: "orderly gs" and t: "lock_turn gs i = Some gs'"
  shows "orderly gs'" and "sum_list (map left gs') < sum_list (map left gs)" and "length gs' = length gs"
proof -
  from t obtain g' where i: "i < length gs" and gt: "goroutine_turn gs (gs ! i) = Some g'" and gs': "gs' = gs[i := g']"
    by (auto simp: lock_turn_def not_le split: if_splits option.splits)
  have "on_track (gs ! i)" using ord i by (simp add: orderly_def)
  note k = goroutine_turn_keeps [OF gt this]
  show l: "length gs' = length gs" by (simp add: gs')
  have "left (gs ! i) \<le> sum_list (map left gs)" using elem_le_sum_list [of i "map left gs"] i by simp
  then show "sum_list (map left gs') < sum_list (map left gs)"
    using k(2) i by (simp add: gs' map_update sum_list_update)
  have w_owns: "(l, True) \<in> set (held g) \<Longrightarrow> owns l g" for l g by (simp add: owns_def)
  have one: "owns l (gs ! m) \<Longrightarrow> owns l (gs ! j) \<Longrightarrow> m = j" if "m < length gs" "j < length gs" for m j l
    using ord that by (auto simp: orderly_def)
  have excl: "(l, True) \<in> set (held (gs ! m)) \<Longrightarrow> reads l (gs ! j) \<Longrightarrow> m = j" if "m < length gs" "j < length gs" for m j l
    using ord that by (auto simp: orderly_def)
  have "\<forall>g \<in> set gs'. on_track g" using ord k(1) by (auto simp: gs' orderly_def dest!: set_update_subset_insert [THEN subsetD])
  moreover have "m = j" if m: "m < length gs" "j < length gs" and own: "owns l (gs' ! m)" "owns l (gs' ! j)" for m j l
    using one [OF m, of l] one [OF i m(2), of l] one [OF m(1) i, of l] k(3) [of l] own m i
    by (auto simp: gs' nth_list_update split: if_splits)
  moreover have "m = j" if m: "m < length gs" "j < length gs" and own: "(l, True) \<in> set (held (gs' ! m))" "reads l (gs' ! j)" for m j l
    using excl [OF m, of l] excl [OF i m(2), of l] excl [OF m(1) i, of l] k(4) [of l] k(5) [of l] w_owns [of l "gs ! m"] nth_mem [OF m(1)] own m i
    by (auto simp: gs' nth_list_update split: if_splits)
  ultimately show "orderly gs'" by (auto simp: orderly_def l)
qed

text \<open>
  A goroutine that waits for a lock no waiting goroutine waits above cannot be kept waiting: whoever holds that lock is not
  waiting itself.
\<close>

definition waits_for :: "goroutine \<Rightarrow> lock \<Rightarrow> bool" where
  "waits_for g l \<longleftrightarrow> (\<exists>rest. todo g = Lock l # rest \<or> todo g = RLock l # rest)"

lemma stuck_waits:
  assumes "on_track g" "goroutine_turn gs g = None" "todo g \<noteq> []"
  obtains l where "waits_for g l" "\<forall>(k, w) \<in> set (held g). k < l" "\<exists>h \<in> set gs. owns l h \<or> reads l h"
proof -
  obtain a rest where a: "todo g = a # rest" using assms(3) by (cases "todo g") auto
  show thesis using assms(1,2) that
    by (cases a) (auto simp: a goroutine_turn_def on_track_def waits_for_def list_ex_iff split: if_splits)
qed

lemma owner_blocked:
  assumes "h \<in> set gs" "on_track h" "goroutine_turn gs h = None" "owns l h"
  shows "\<exists>g \<in> set gs. \<exists>w. (l, w) \<in> set (held g)"
proof (cases "(l, True) \<in> set (held h)")
  case True
  then show ?thesis using assms(1) by blast
next
  case False
  then obtain rest where "announced h" "todo h = Lock l # rest" using assms(4) by (auto simp: owns_def split: list.splits lockAct.splits)
  then show ?thesis using assms(3) by (auto simp: goroutine_turn_def reads_def list_ex_iff split: if_splits)
qed

lemma somebody_moves:
  assumes ord: "orderly gs" and g: "g \<in> set gs" "todo g \<noteq> []"
  shows "\<exists>i. lock_turn gs i \<noteq> None"
proof (rule ccontr)
  assume "\<nexists>i. lock_turn gs i \<noteq> None"
  then have "\<forall>i < length gs. goroutine_turn gs (gs ! i) = None"
    by (auto simp: lock_turn_def not_le split: if_splits option.splits)
  then have stuck: "goroutine_turn gs h = None" if "h \<in> set gs" for h using that by (metis in_set_conv_nth)
  have track: "on_track h" if "h \<in> set gs" for h using ord that by (simp add: orderly_def)
  define W where "W = {l. \<exists>h \<in> set gs. waits_for h l}"
  have "W \<subseteq> (\<lambda>h. case todo h of Lock l # r \<Rightarrow> l | RLock l # r \<Rightarrow> l | _ \<Rightarrow> SubsMu) ` set gs"
    by (force simp: W_def waits_for_def image_iff)
  then have fin: "finite W" by (rule finite_subset) simp
  obtain l where "waits_for g l" using stuck_waits [OF track [OF g(1)] stuck [OF g(1)] g(2)] by blast
  then have "W \<noteq> {}" using g(1) by (auto simp: W_def)
  from finite_has_maximal [OF fin this] obtain l where l: "l \<in> W" "\<And>m. m \<in> W \<Longrightarrow> l \<le> m \<Longrightarrow> l = m" by blast
  from l(1) obtain h where h: "h \<in> set gs" "waits_for h l" by (auto simp: W_def)
  then have "todo h \<noteq> []" by (auto simp: waits_for_def)
  from stuck_waits [OF track [OF h(1)] stuck [OF h(1)] this] obtain l' where
    l': "waits_for h l'" "\<exists>h \<in> set gs. owns l' h \<or> reads l' h" by metis
  moreover from l'(1) h(2) have "l' = l" by (auto simp: waits_for_def)
  ultimately obtain k where k: "k \<in> set gs" "owns l k \<or> reads l k" by metis
  then obtain m w where m: "m \<in> set gs" "(l, w) \<in> set (held m)"
    using owner_blocked [OF k(1) track [OF k(1)] stuck [OF k(1)], of l] by (auto simp: reads_def)
  then have "todo m \<noteq> []" using track [OF m(1)] by (auto simp: on_track_def)
  from stuck_waits [OF track [OF m(1)] stuck [OF m(1)] this] obtain l'' where
    "waits_for m l''" "\<forall>(k, w) \<in> set (held m). k < l''" by metis
  then have "l'' \<in> W" "l < l''" using m by (auto simp: W_def)
  then show False using l(2) [of l''] by (simp add: less_eq_lock_def)
qed

lemma orderly_start: "orderly (serving s callers)"
proof -
  have "balanced (concat (map (call_locks s) calls))" for calls by (rule balanced_concat) (auto simp: balanced_call)
  then have "on_track g" if "g \<in> set (serving s callers)" for g
    using that by (auto simp: serving_def starting_def on_track_def balanced_def)
  then show ?thesis by (auto simp: orderly_def serving_def starting_def owns_def reads_def)
qed

lemma orderly_run:
  assumes "orderly gs" "run_turns gs sched = Some gs'"
  shows "orderly gs' \<and> length gs' = length gs \<and> sum_list (map left gs') + length sched \<le> sum_list (map left gs)"
  using assms
proof (induction sched arbitrary: gs)
  case (Cons i sched)
  then obtain u where u: "lock_turn gs i = Some u" "run_turns u sched = Some gs'" by (auto split: option.splits)
  note k = orderly_turn [OF Cons.prems(1) u(1)]
  show ?case using Cons.IH [OF k(1) u(2)] k(2,3) by auto
qed simp

lemma runs_out:
  assumes "orderly gs"
  shows "\<exists>sched gs'. run_turns gs sched = Some gs' \<and> (\<forall>g \<in> set gs'. todo g = [] \<and> held g = [])"
  using assms
proof (induction "sum_list (map left gs)" arbitrary: gs rule: less_induct)
  case less
  show ?case
  proof (cases "\<forall>g \<in> set gs. todo g = []")
    case True
    then have "held g = []" if "g \<in> set gs" for g
      using less.prems that by (auto simp: orderly_def on_track_def)
    then have "run_turns gs [] = Some gs \<and> (\<forall>g \<in> set gs. todo g = [] \<and> held g = [])" using True by simp
    then show ?thesis by blast
  next
    case False
    then obtain i u where u: "lock_turn gs i = Some u" using somebody_moves [OF less.prems] by fast
    note k = orderly_turn [OF less.prems u]
    from less.hyps [OF k(2,1)] obtain sched gs' where
      "run_turns u sched = Some gs'" "\<forall>g \<in> set gs'. todo g = [] \<and> held g = []" by blast
    then show ?thesis using u by (intro exI [of _ "i # sched"]) auto
  qed
qed

lemma run_turns_append:
  "run_turns gs (is @ js) = (case run_turns gs is of None \<Rightarrow> None | Some u \<Rightarrow> run_turns u js)"
  by (induction "is" arbitrary: gs) (auto split: option.split)

section \<open>No deadlock\<close>

text \<open>What every schedule leaves, by the invariant \<open>orderly\<close> and the measure \<open>left\<close>.\<close>

lemma locks_run:
  assumes run: "run_turns (serving s callers) sched = Some gs"
  shows "\<forall>i < length gs. \<forall>j < length gs. \<forall>l w. (l, True) \<in> set (held (gs ! i)) \<and> (l, w) \<in> set (held (gs ! j)) \<longrightarrow> i = j"
    and "(\<forall>g \<in> set gs. todo g = [] \<and> held g = []) \<or> (\<exists>i. lock_turn gs i \<noteq> None)"
    and "\<exists>more gs'. run_turns (serving s callers) (sched @ more) = Some gs' \<and> (\<forall>g \<in> set gs'. todo g = [] \<and> held g = [])"
    and "length sched \<le> 2 * (\<Sum>calls \<leftarrow> callers. length (concat (map (call_locks s) calls)))"
proof -
  have o: "orderly gs" and n: "sum_list (map left gs) + length sched \<le> sum_list (map left (serving s callers))"
    using orderly_run [OF orderly_start run] by auto
  show "\<forall>i < length gs. \<forall>j < length gs. \<forall>l w. (l, True) \<in> set (held (gs ! i)) \<and> (l, w) \<in> set (held (gs ! j)) \<longrightarrow> i = j"
  proof (intro allI impI, elim conjE)
    fix i j l w
    assume "i < length gs" "j < length gs" "(l, True) \<in> set (held (gs ! i))" "(l, w) \<in> set (held (gs ! j))"
    then show "i = j" using o by (cases w) (auto simp: orderly_def owns_def reads_def)
  qed
  show "(\<forall>g \<in> set gs. todo g = [] \<and> held g = []) \<or> (\<exists>i. lock_turn gs i \<noteq> None)"
  proof (cases "\<forall>g \<in> set gs. todo g = []")
    case True
    then show ?thesis using o by (auto simp: orderly_def on_track_def)
  qed (use somebody_moves [OF o] in blast)
  show "\<exists>more gs'. run_turns (serving s callers) (sched @ more) = Some gs' \<and> (\<forall>g \<in> set gs'. todo g = [] \<and> held g = [])"
    using runs_out [OF o] by (auto simp: run_turns_append run)
  have "sum_list (map left (serving s callers)) = 2 * (\<Sum>calls \<leftarrow> callers. length (concat (map (call_locks s) calls)))"
    by (induction callers) (simp_all add: serving_def starting_def left_def)
  then show "length sched \<le> 2 * (\<Sum>calls \<leftarrow> callers. length (concat (map (call_locks s) calls)))" using n by linarith
qed

text \<open>C9: The cache cannot deadlock. Any number of goroutines run any sequences of cache operations, under any schedule, whatever the
  operations meet on their way. After every schedule: a lock that a goroutine holds for writing is held by no other; unless all calls have
  returned, some goroutine can take a turn; all calls can be run to their return, and then no lock is held. No schedule is longer than
  twice the lock actions of the calls, so whoever keeps taking turns gets there.\<close>

theorem calls_never_deadlock:
  assumes "run_turns (serving s callers) sched = Some gs"
  shows "(\<forall>i < length gs. \<forall>j < length gs. \<forall>l w. (l, True) \<in> set (held (gs ! i)) \<and> (l, w) \<in> set (held (gs ! j)) \<longrightarrow> i = j) \<and>
    ((\<forall>g \<in> set gs. todo g = [] \<and> held g = []) \<or> (\<exists>i. lock_turn gs i \<noteq> None)) \<and>
    (\<exists>more gs'. run_turns (serving s callers) (sched @ more) = Some gs' \<and> (\<forall>g \<in> set gs'. todo g = [] \<and> held g = [])) \<and>
    length sched \<le> 2 * (\<Sum>calls \<leftarrow> callers. length (concat (map (call_locks s) calls)))"
  by (intro conjI locks_run [OF assms])

text \<open>A warm and a delete of one of its scopes: the delete waits for the shard, and the two still come to an end.\<close>

theorem calls_never_deadlock_witness:
  "let callers = [[CallWarm [(''posts'', 2, True), (''abc'', 3, False)] True None], [CallDeleteScope ''posts'' (Some 2) None]]
   in \<exists>gs. run_turns (serving sampleStore callers) [0, 0, 0, 0] = Some gs \<and> lock_turn gs 1 = None \<and>
     (\<exists>i. lock_turn gs i \<noteq> None) \<and>
     (\<exists>more gs'. run_turns (serving sampleStore callers) ([0, 0, 0, 0] @ more) = Some gs' \<and> (\<forall>g \<in> set gs'. todo g = [] \<and> held g = []))"
proof -
  let ?callers = "[[CallWarm [(''posts'', 2, True), (''abc'', 3, False)] True None], [CallDeleteScope ''posts'' (Some 2) None]]"
  have ready: "(case run_turns (serving sampleStore ?callers) [0, 0, 0, 0] of
      Some gs \<Rightarrow> lock_turn gs 1 = None \<and> todo (gs ! 0) \<noteq> [] \<and> length gs = 2 | None \<Rightarrow> False)"
    by code_simp
  then obtain gs where gs: "run_turns (serving sampleStore ?callers) [0, 0, 0, 0] = Some gs" "lock_turn gs 1 = None"
    and "todo (gs ! 0) \<noteq> []" "length gs = 2"
    by (auto split: option.splits)
  then have "\<not> (\<forall>g \<in> set gs. todo g = [] \<and> held g = [])" by (metis nth_mem zero_less_numeral)
  then show ?thesis using gs calls_never_deadlock [OF gs(1)] by auto
qed

end
