(* ===== verification/Props_Bulk.thy ===== *)
theory Props_Bulk
  imports Sample Refine Locks
begin

text \<open>
  The properties of the operations on whole scopes and on many scopes, of the wake-up channels, and of
  the statistics and listings.
\<close>

section \<open>Whole scopes\<close>

lemma reachable_inv_Suc:
  assumes "reachable J c N s" "cfgMaxStoreBytes c \<le> MaxInt64" "Suc N < 2 ^ 64"
  shows "store_inv s" "seqs_below N s" "0 < N"
  using reachable_inv(1-3) [OF assms(1,2)] assms(3) by simp_all

lemma int_sum_pairs: "(\<Sum>(n, p)\<leftarrow>xs. int (f p)) = int (\<Sum>(n, p)\<leftarrow>xs. f p)"
  by (induction xs) auto

text \<open>C29: \<^verbatim>\<open>/wipe\<close> on any reachable state reports the number of scopes, of items and of bytes it released, and
  leaves exactly the two reserved scopes, both empty: the byte total is their overhead, the item total zero, every
  sequence counter starts again, and the store's last write is not earlier than it was. The configuration,
  the subscriptions and the drop counter survive.\<close>

theorem wipe_resets:
  assumes "reachable J c N s" "cfgMaxStoreBytes c \<le> MaxInt64" "N < 2 ^ 64" "wipe now now' s = (r, s')"
  shows "r = (length (scopes s), nat (totalItems (acct s)), totalBytes (acct s)) \<and>
    view s' = [EventsScopeName \<mapsto> [], InboxScopeName \<mapsto> []] \<and> totalBytes (acct s') = reservedScopesOverhead \<and>
    totalItems (acct s') = 0 \<and> scopeCount s' = 2 \<and> seqs_below 1 s' \<and> lastWriteTS (acct s') = max (lastWriteTS (acct s)) now \<and>
    conf_same s s' \<and> subscribers s' = subscribers s \<and> eventsDropsTotal s' = eventsDropsTotal s"
proof -
  note i = reachable_inv(1) [OF assms(1-3)]
  note w = wipe_facts [OF i assms(4)]
  have t: "totals_ok s" "totals_ok s'" using i w(1) by (simp_all add: store_inv_def store_ok_def)
  have "nat (totalItems (acct s)) = (\<Sum>(n, p)\<leftarrow>scopes s. length (items (bufs s ! p)))"
    using t(1) by (simp add: totals_ok_def int_sum_pairs)
  moreover have "scopeCount s' = 2"
  proof -
    have sh: "shards_ok s'" using w(1) by (simp add: store_inv_def store_ok_def)
    have "n \<in> fst ` set (scopes s') \<longleftrightarrow> n = EventsScopeName \<or> n = InboxScopeName" for n
      using getScope_None [OF sh, of n] w(3) view_getScope_None [of s' n] by (cases "n = EventsScopeName"; cases "n = InboxScopeName") simp_all
    then have "fst ` set (scopes s') = {EventsScopeName, InboxScopeName}" by blast
    moreover have "distinct (map fst (scopes s'))"
      using scopes_distinct [OF sh] scopes_distinct_fst [OF sh] by (auto simp: distinct_map inj_on_def)
    ultimately have "length (scopes s') = 2" using distinct_card [of "map fst (scopes s')"] by simp
    then show ?thesis using t(2) by (simp add: totals_ok_def)
  qed
  ultimately show ?thesis using w by simp
qed

theorem wipe_resets_witness:
  "case wipe 70 71 sampleStore of (r, s') \<Rightarrow> fst r = 3 \<and> totalBytes (acct s') = reservedScopesOverhead \<and> view s' ''posts'' = None"
proof -
  obtain r s' where d: "wipe 70 71 sampleStore = (r, s')" by fastforce
  have "length (scopes sampleStore) = 3" by code_simp
  moreover have "''posts'' \<noteq> EventsScopeName" "''posts'' \<noteq> InboxScopeName" by (simp_all add: EventsScopeName_def InboxScopeName_def)
  ultimately show ?thesis using wipe_resets [OF sample_reachable sample_conf _ d] unfolding d by simp
qed

text \<open>Deleting a scope on any reachable state reports exactly whether it existed and how many items it held. It
  disappears, every other scope but the event log keeps its items, and, with events off, the byte total falls by exactly the
  scope's bytes and its overhead. A writer that still holds the buffer finds it detached.\<close>

theorem delete_scope_exact:
  assumes "reachable J c N s" "cfgMaxStoreBytes c \<le> MaxInt64" "Suc N < 2 ^ 64" "deleteScope J inp i n s = (Inr (h, found), s')"
  shows "found = (view s n \<noteq> None) \<and> h = (case view s n of None \<Rightarrow> 0 | Some xs \<Rightarrow> length xs) \<and> view s' n = None \<and>
    (\<forall>m. m \<noteq> n \<longrightarrow> m \<noteq> EventsScopeName \<longrightarrow> view s' m = view s m) \<and>
    (\<forall>p. getScope s n = Some p \<longrightarrow> eventsMode s = EventsModeOff \<longrightarrow>
       totalBytes (acct s') = totalBytes (acct s) - (bytes (bufs s ! p) + scopeBufferOverhead) \<and> detached (bufs s' ! p))"
  using reachable_inv_Suc [OF assms(1-3)] assms(3,4)
proof (cases rule: deleteScope_cases)
  case none
  then show ?thesis by (auto simp: view_def)
next
  case (found p s1)
  note i = reachable_inv_Suc(1) [OF assms(1-3)]
  note k = removeScope_ok [OF i found(2,1), where now = "fst (inp i)"]
  have ne: "n \<noteq> EventsScopeName" using found(1) by (auto simp: isReservedScope_iff)
  have "s' = s1" if "eventsMode s = EventsModeOff"
    using found(7) that k(2) unfolding found(4) by (simp add: logged_def eventsEnabled_def conf_same_def)
  then have "\<forall>q. getScope s n = Some q \<longrightarrow> eventsMode s = EventsModeOff \<longrightarrow>
       totalBytes (acct s') = totalBytes (acct s) - (bytes (bufs s ! q) + scopeBufferOverhead) \<and> detached (bufs s' ! q)"
    using k(5,6) found(2,4) by simp
  moreover have "view s' m = ((view s)(n := None)) m" if "m \<noteq> EventsScopeName" for m
    using that fun_cong [OF found(6), of m] by simp
  ultimately show ?thesis using found(2,3) ne by (simp add: view_def bufItems_def)
qed

theorem delete_scope_exact_witness:
  "case deleteScope sampleJson sampleInp 7 ''posts'' sampleStore of (r, s') \<Rightarrow> r = Inr (1, True) \<and> view s' ''posts'' = None"
proof -
  obtain r s' where d: "deleteScope sampleJson sampleInp 7 ''posts'' sampleStore = (r, s')" by fastforce
  have "fst (deleteScope sampleJson sampleInp 7 ''posts'' sampleStore) = Inr (1, True)" by code_simp
  then have r: "r = Inr (1, True)" using d by simp
  show ?thesis using delete_scope_exact [OF sample_reachable sample_conf _ d [unfolded r]] unfolding d by (simp add: r)
qed

section \<open>Batches\<close>

lemma batch_lookup:
  assumes "distinct (map fst grouped)" "(n, its) \<in> set grouped"
  shows "map_of (map (batchItems J bi) grouped) n = Some (replacementItems J (biNow bi n) (biMint bi n) its True)"
proof (rule map_of_is_SomeI)
  show "distinct (map fst (map (batchItems J bi) grouped))" using assms(1) by (simp add: comp_def)
  have "batchItems J bi (n, its) \<in> set (map (batchItems J bi) grouped)" using assms(2) by simp
  then show "(n, replacementItems J (biNow bi n) (biMint bi n) its True) \<in> set (map (batchItems J bi) grouped)"
    by (simp only: batchItems_def prod.case)
qed

lemma replacement_fields:
  "map Seq (replacementItems J now mints its mu) = [1..<Suc (length its)]"
  "map ID (replacementItems J now mints its mu) = map ID its"
  "map Payload (replacementItems J now mints its mu) = map Payload its"
  unfolding list_eq_iff_nth_eq by (simp_all del: upt_Suc)

text \<open>C21: \<^verbatim>\<open>/warm\<close> is all or nothing. On any reachable state a refused batch leaves the store exactly as it was. An
  accepted one replaces precisely the scopes it names: their items are the batch's, in order, numbered from one; every
  other scope but the event log is untouched; no reserved scope is named; and the invariants hold afterwards.\<close>

theorem warm_all_or_nothing:
  assumes "reachable J c N s" "cfgMaxStoreBytes c \<le> MaxInt64" "N + batchLen grouped + 2 < 2 ^ 64" "distinct (map fst grouped)"
    "replaceScopes J inp i bi grouped s = (r, s')"
  shows "case r of
      Inl e \<Rightarrow> s' = s
    | Inr h \<Rightarrow> h = length grouped \<and> store_inv s' \<and>
        (\<forall>n its. (n, its) \<in> set grouped \<longrightarrow> \<not> isReservedScope n \<and>
           (\<exists>xs. view s' n = Some xs \<and> map Seq xs = [1..<Suc (length its)] \<and> map ID xs = map ID its \<and> map Payload xs = map Payload its)) \<and>
        (\<forall>n. n \<notin> fst ` set grouped \<longrightarrow> n \<noteq> EventsScopeName \<longrightarrow> view s' n = view s n)"
proof -
  have "N < 2 ^ 64" using assms(3) by simp
  note s = reachable_inv(1-3) [OF assms(1,2) this]
  have b: "batchLen grouped < N + batchLen grouped" "Suc (N + batchLen grouped) < 2 ^ 64" using s(3) assms(3) by simp_all
  have q: "seqs_below (N + batchLen grouped) s" by (rule seqs_below_mono [OF s(2)]) simp
  from s(1) assms(4) q b assms(5) show ?thesis
  proof (cases rule: replaceScopes_cases)
    case (okay s1)
    have v: "view s' n = (view s ++ map_of (map (batchItems J bi) grouped)) n" if "n \<noteq> EventsScopeName" for n
      using okay(3,5) logged_facts(4) [OF okay(2)] that by (cases "grouped = []") auto
    have named: "\<not> isReservedScope n \<and> (\<exists>xs. view s' n = Some xs \<and> map Seq xs = [1..<Suc (length its)] \<and>
        map ID xs = map ID its \<and> map Payload xs = map Payload its)" if m: "(n, its) \<in> set grouped" for n its
    proof -
      have r: "\<not> isReservedScope n" using okay(4) m by force
      let ?xs = "replacementItems J (biNow bi n) (biMint bi n) its True"
      have "map_of (map (batchItems J bi) grouped) n = Some ?xs" by (rule batch_lookup [OF assms(4) m])
      then have "view s' n = Some ?xs" using v [of n] r by (auto simp: isReservedScope_iff)
      then show ?thesis using r replacement_fields by blast
    qed
    have "view s' n = view s n" if "n \<notin> fst ` set grouped" "n \<noteq> EventsScopeName" for n
    proof -
      have "map_of (map (batchItems J bi) grouped) n = None" using that(1) by (simp add: map_of_eq_None_iff image_image)
      then show ?thesis using v [OF that(2)] by (simp add: map_add_def)
    qed
    then show ?thesis using okay(1,6) named by (simp add: good_def)
  qed simp
qed

theorem warm_all_or_nothing_witness:
  "case replaceScopes sampleJson sampleInp 7 sampleBatch [(''posts'', [sampleItem ''b'' ''5'', sampleItem ''c'' ''6''])] sampleStore of
     (r, s') \<Rightarrow> r = Inr 1 \<and> map_option (map Seq) (view s' ''posts'') = Some [1, 2]"
proof -
  let ?g = "[(''posts'', [sampleItem ''b'' ''5'', sampleItem ''c'' ''6''])]"
  obtain r s' where d: "replaceScopes sampleJson sampleInp 7 sampleBatch ?g sampleStore = (r, s')" by fastforce
  have "fst (replaceScopes sampleJson sampleInp 7 sampleBatch ?g sampleStore) = Inr 1" by code_simp
  then have r: "r = Inr 1" using d by simp
  have N: "3 + batchLen ?g + 2 < 2 ^ 64" by (simp add: batchLen_def)
  note k = warm_all_or_nothing [OF sample_reachable sample_conf N _ d, unfolded r sum.case,
      THEN conjunct2, THEN conjunct2, THEN conjunct1, THEN spec, THEN spec, THEN mp, of "''posts''" "[sampleItem ''b'' ''5'', sampleItem ''c'' ''6'']"]
  have "\<exists>xs. view s' ''posts'' = Some xs \<and> map Seq xs = [1, 2]" using k by (auto simp: numeral_2_eq_2)
  then show ?thesis unfolding d by (auto simp: r)
qed

text \<open>C22: \<^verbatim>\<open>/rebuild\<close> is all or nothing. On any reachable state a refused batch leaves the store exactly as it was. An
  accepted one leaves the batch's scopes and the two empty reserved scopes and nothing else: each has the batch's items, in
  order, numbered from one. The reported and recorded item counts are the batch's, and the invariants hold afterwards.\<close>

theorem rebuild_all_or_nothing:
  assumes "reachable J c N s" "cfgMaxStoreBytes c \<le> MaxInt64" "N < 2 ^ 64" "batchLen grouped < 2 ^ 64" "distinct (map fst grouped)"
    "rebuildAll J now now' bi grouped s = (r, s')"
  shows "case r of
      Inl e \<Rightarrow> s' = s
    | Inr (h, k) \<Rightarrow> h = length grouped \<and> k = batchLen grouped \<and> totalItems (acct s') = int k \<and> store_inv s' \<and>
        (\<forall>n its. (n, its) \<in> set grouped \<longrightarrow> \<not> isReservedScope n \<longrightarrow>
           (\<exists>xs. view s' n = Some xs \<and> map Seq xs = [1..<Suc (length its)] \<and> map ID xs = map ID its \<and> map Payload xs = map Payload its)) \<and>
        (\<forall>n. n \<notin> fst ` set grouped \<longrightarrow> view s' n = (if isReservedScope n then Some [] else None))"
proof -
  note s = reachable_inv(1-3) [OF assms(1-3)]
  from s(1) assms(5,4,6) show ?thesis
  proof (cases rule: rebuildAll_cases)
    case okay
    have named: "\<exists>xs. view s' n = Some xs \<and> map Seq xs = [1..<Suc (length its)] \<and> map ID xs = map ID its \<and>
        map Payload xs = map Payload its" if m: "(n, its) \<in> set grouped" "\<not> isReservedScope n" for n its
      using okay(4) batch_lookup [OF assms(5) m(1), of J bi] m(2) replacement_fields by (auto simp: isReservedScope_iff)
    have "view s' n = (if isReservedScope n then Some [] else None)" if "n \<notin> fst ` set grouped" for n
    proof -
      have "map_of (map (batchItems J bi) grouped) n = None" using that by (simp add: map_of_eq_None_iff image_image)
      then show ?thesis using okay(4) by (simp add: isReservedScope_iff)
    qed
    then show ?thesis using okay(1,2,6) named by simp
  qed simp
qed

theorem rebuild_all_or_nothing_witness:
  "case rebuildAll sampleJson 70 71 sampleBatch [(''news'', [sampleItem ''b'' ''5''\<lparr>Scope := ''news''\<rparr>])] sampleStore of
     (r, s') \<Rightarrow> r = Inr (1, 1) \<and> view s' ''posts'' = None \<and> map_option (map Payload) (view s' ''news'') = Some [''5'']"
proof -
  let ?g = "[(''news'', [sampleItem ''b'' ''5''\<lparr>Scope := ''news''\<rparr>])]"
  obtain r s' where d: "rebuildAll sampleJson 70 71 sampleBatch ?g sampleStore = (r, s')" by fastforce
  have "fst (rebuildAll sampleJson 70 71 sampleBatch ?g sampleStore) = Inr (1, 1)" by code_simp
  then have r: "r = Inr (1, 1)" using d by simp
  have N: "batchLen ?g < 2 ^ 64" by (simp add: batchLen_def)
  have nr: "\<not> isReservedScope ''posts''" "\<not> isReservedScope ''news''"
    by (simp_all add: isReservedScope_iff EventsScopeName_def InboxScopeName_def)
  note k = rebuild_all_or_nothing [OF sample_reachable sample_conf _ N _ d, unfolded r sum.case prod.case]
  have "\<exists>xs. view s' ''news'' = Some xs \<and> map Payload xs = [''5'']" "view s' ''posts'' = None"
    using k nr by (fastforce simp: sampleItem_def)+
  then show ?thesis unfolding d by (auto simp: r)
qed

lemma index_sizes:
  assumes "buf_ok b"
  shows "length (byID b) = card (ID ` set (bufItems b) - {[]})" and "length (bySeq b) = card (Seq ` set (bufItems b))"
proof -
  have i: "byID_ok b" "bySeq_ok b" using assms by (simp_all add: buf_ok_def idx_ok_def)
  have k: "k \<in> fst ` set m \<longleftrightarrow> (\<exists>p. map_of m k = Some p)" for k and m :: "('k \<times> nat) list"
    using map_of_eq_None_iff [of m k] by auto
  have "fst ` set (byID b) = ID ` set (bufItems b) - {[]}"
    by (rule set_eqI, unfold k) (use i(1) in \<open>auto simp: byID_ok_def bufItems_def\<close>)
  moreover have "fst ` set (bySeq b) = Seq ` set (bufItems b)"
    by (rule set_eqI, unfold k) (use i(2) in \<open>auto simp: bySeq_ok_def bufItems_def\<close>)
  ultimately show "length (byID b) = card (ID ` set (bufItems b) - {[]})" "length (bySeq b) = card (Seq ` set (bufItems b))"
    using distinct_card [of "map fst (byID b)"] distinct_card [of "map fst (bySeq b)"] i
    by (simp_all add: byID_ok_def bySeq_ok_def)
qed

text \<open>The size a consistent scope reports is a function of its items, but for the running total of id bytes.\<close>

lemma reported_size:
  assumes "buf_ok b" "buf_ok b'" "bufItems b = bufItems b'"
  shows "approxSizeBytesLocked b - idKeyBytes b = approxSizeBytesLocked b' - idKeyBytes b'"
proof -
  have "length (items b) = length (items b')" using arg_cong [OF assms(3), of length] by simp
  then show ?thesis using index_sizes [OF assms(1)] index_sizes [OF assms(2)] assms
    by (simp add: approxSizeBytesLocked_def buf_ok_def)
qed

text \<open>C40: \<^verbatim>\<open>/rebuild\<close> loses the running total of id bytes that \<^verbatim>\<open>/warm\<close> keeps. Let the same batch be accepted by a
  \<^verbatim>\<open>/rebuild\<close> on one reachable state and by a \<^verbatim>\<open>/warm\<close> on another. Then every scope of the batch holds the same items after
  either; after the \<^verbatim>\<open>/warm\<close> its total of id bytes is the sum of the lengths of its ids, after the \<^verbatim>\<open>/rebuild\<close> it is zero; and the size
  that the statistics of the scope report after the \<^verbatim>\<open>/rebuild\<close> is smaller by exactly that sum.\<close>

theorem rebuild_forgets_id_bytes:
  assumes "reachable J c N s" "cfgMaxStoreBytes c \<le> MaxInt64" "N < 2 ^ 64" "rebuildAll J now now' bi grouped s = (Inr h, s')"
    "reachable J c' M t" "cfgMaxStoreBytes c' \<le> MaxInt64" "M + batchLen grouped + 2 < 2 ^ 64"
    "replaceScopes J inp i bi grouped t = (Inr k, t')" "distinct (map fst grouped)" "n \<in> fst ` set grouped"
  shows "\<exists>p q. getScope s' n = Some p \<and> getScope t' n = Some q \<and> bufItems (bufs s' ! p) = bufItems (bufs t' ! q) \<and>
    idKeyBytes (bufs t' ! q) = idLenSum (bufItems (bufs t' ! q)) \<and> idKeyBytes (bufs s' ! p) = 0 \<and>
    ssApproxScopeMB (stats (bufs s' ! p)) = ssApproxScopeMB (stats (bufs t' ! q)) - idLenSum (bufItems (bufs t' ! q))"
proof -
  have len: "batchLen grouped < 2 ^ 64" and M: "M < 2 ^ 64" using assms(7) by simp_all
  note i = reachable_inv(1) [OF assms(1-3)] and j = reachable_inv(1-3) [OF assms(5,6) M]
  have b: "batchLen grouped < M + batchLen grouped" "Suc (M + batchLen grouped) < 2 ^ 64" using j(3) assms(7) by simp_all
  have sb: "seqs_below (M + batchLen grouped) t" by (rule seqs_below_mono [OF j(2)]) simp
  have dk: "distinct (map fst (map (batchItems J bi) grouped))" using assms(9) by (simp add: comp_def)
  have "\<exists>p. getScope s' n = Some p \<and> idKeyBytes (bufs s' ! p) = 0 \<and> buf_ok (bufs s' ! p) \<and>
      (\<forall>xs. map_of (map (batchItems J bi) grouped) n = Some xs \<longrightarrow> \<not> isReservedScope n \<longrightarrow> bufItems (bufs s' ! p) = xs)"
    using i assms(9) len assms(4)
  proof (cases rule: rebuildAll_cases)
    case okay
    obtain p where p: "getScope s' n = Some p" "idKeyBytes (bufs s' ! p) = 0" using okay(8) [OF assms(10)] by blast
    have "buf_ok (bufs s' ! p)" by (rule scope_buf_ok [OF okay(2) p(1)])
    then show ?thesis using p okay(4) view_of_scope [OF p(1)] by (auto simp: isReservedScope_iff)
  qed simp
  then obtain p where p: "getScope s' n = Some p" "idKeyBytes (bufs s' ! p) = 0" "buf_ok (bufs s' ! p)"
    "\<And>xs. map_of (map (batchItems J bi) grouped) n = Some xs \<Longrightarrow> \<not> isReservedScope n \<Longrightarrow> bufItems (bufs s' ! p) = xs" by blast
  have "\<exists>q xs. getScope t' n = Some q \<and> idkey_ok (bufs t' ! q) \<and> buf_ok (bufs t' ! q) \<and> \<not> isReservedScope n \<and>
      map_of (map (batchItems J bi) grouped) n = Some xs \<and> bufItems (bufs t' ! q) = xs"
    using j(1) assms(9) sb b assms(8)
  proof (cases rule: replaceScopes_cases)
    case (okay t1)
    obtain q where q: "getScope t' n = Some q" "idkey_ok (bufs t' ! q)" using okay(9) assms(10) by blast
    have nr: "\<not> isReservedScope n" using okay(4) assms(10) by blast
    obtain xs where xs: "map_of (map (batchItems J bi) grouped) n = Some xs"
      using assms(10) map_of_eq_None_iff [of "map (batchItems J bi) grouped" n] by (force simp: image_image)
    have "n \<noteq> EventsScopeName" using nr by (auto simp: isReservedScope_iff)
    then have "view t' n = view t1 n" using okay(5) logged_facts(4) [OF okay(2)] by (cases "grouped = []") auto
    then have "bufItems (bufs t' ! q) = xs" using okay(3) xs view_of_scope [OF q(1)] by (simp add: map_add_Some_iff)
    moreover have "store_inv t'" using okay(6) by (simp add: good_def)
    ultimately show ?thesis using q nr xs scope_buf_ok by blast
  qed simp
  then obtain q xs where q: "getScope t' n = Some q" "idkey_ok (bufs t' ! q)" "buf_ok (bufs t' ! q)" "\<not> isReservedScope n"
    "map_of (map (batchItems J bi) grouped) n = Some xs" "bufItems (bufs t' ! q) = xs" by blast
  have same: "bufItems (bufs s' ! p) = bufItems (bufs t' ! q)" using p(4) [OF q(5,4)] q(6) by simp
  have "approxSizeBytesLocked (bufs s' ! p) = approxSizeBytesLocked (bufs t' ! q) - idLenSum (bufItems (bufs t' ! q))"
    using reported_size [OF p(3) q(3) same] p(2) q(2) by (simp add: idkey_ok_def)
  then show ?thesis using p q same by (intro exI [of _ p] exI [of _ q]) (simp add: idkey_ok_def stats_def)
qed

theorem rebuild_forgets_id_bytes_witness:
  "let g = [(''posts'', [sampleItem ''b'' ''5''])];
       s' = snd (rebuildAll sampleJson 70 71 sampleBatch g sampleStore);
       t' = snd (replaceScopes sampleJson sampleInp 20 sampleBatch g sampleStore)
   in \<exists>p q. getScope s' ''posts'' = Some p \<and> getScope t' ''posts'' = Some q \<and>
        ssApproxScopeMB (stats (bufs s' ! p)) = ssApproxScopeMB (stats (bufs t' ! q)) - 1"
proof -
  let ?g = "[(''posts'', [sampleItem ''b'' ''5''])]"
  have e: "fst (rebuildAll sampleJson 70 71 sampleBatch ?g sampleStore) = Inr (1, 1)"
    "fst (replaceScopes sampleJson sampleInp 20 sampleBatch ?g sampleStore) = Inr 1"
    "map_option (map ID) (view (snd (replaceScopes sampleJson sampleInp 20 sampleBatch ?g sampleStore)) ''posts'') = Some [''b'']"
    by code_simp+
  obtain s' t' where d: "rebuildAll sampleJson 70 71 sampleBatch ?g sampleStore = (Inr (1, 1), s')"
    "replaceScopes sampleJson sampleInp 20 sampleBatch ?g sampleStore = (Inr 1, t')" using e(1,2) by (metis prod.collapse)
  have N: "3 + batchLen ?g + 2 < 2 ^ 64" by (simp add: batchLen_def)
  obtain p q where pq: "getScope s' ''posts'' = Some p" "getScope t' ''posts'' = Some q"
    "ssApproxScopeMB (stats (bufs s' ! p)) = ssApproxScopeMB (stats (bufs t' ! q)) - idLenSum (bufItems (bufs t' ! q))"
    using rebuild_forgets_id_bytes [OF sample_reachable sample_conf _ d(1) sample_reachable sample_conf N d(2), of "''posts''"] by auto
  have "map ID (bufItems (bufs t' ! q)) = [''b'']" using e(3) pq(2) by (simp add: d view_def)
  then have "idLenSum (bufItems (bufs t' ! q)) = 1" by (auto simp: idLenSum_def map_eq_Cons_conv)
  then show ?thesis using pq by (simp add: Let_def d)
qed

text \<open>Committing a batch corrects for drift. If, between the snapshot of a scope's bytes and its commit, a writer
  holding the buffer changed the scope by any amount, so that the store's total is the other scopes' bytes plus the
  reservation plus the scope's current bytes, then after the commit the total is exactly the other scopes' bytes
  plus the new content, the item total has moved by exactly the difference in items, and the buffer holds the new items.\<close>

theorem warm_commit_drift:
  assumes "attached b" "others + (newBytes - old) + bytes b = totalBytes a"
    "0 \<le> others + newBytes" "others + newBytes \<le> MaxInt64" "MinInt64 \<le> totalBytes a" "totalBytes a \<le> MaxInt64"
    "0 \<le> totalItems a - int (length (items b))" "totalItems a + int (length (rItems r)) \<le> MaxInt64"
    "commitReplacementPreReserved now r newBytes old a b = (a', b')"
  shows "totalBytes a' = others + newBytes \<and> totalItems a' = totalItems a - int (length (items b)) + int (length (rItems r)) \<and>
    bytes b' = newBytes \<and> items b' = rItems r"
  using commitPreReserved_exact [OF assms] by blast

text \<open>The scope was snapshot at 100 bytes and 250 were reserved for its new content; meanwhile it grew by 40.\<close>

theorem warm_commit_drift_witness:
  "case commitReplacementPreReserved 5 \<lparr>rHeap = [], rItems = [], rByID = [], rBySeq = [], rByUUID = [], rLastSeq = 0,
       rFirstUUID = zeroUUID, rLastUUID = zeroUUID, rIdKeyBytes = 0\<rparr> 250 100
       (sampleAcct0\<lparr>totalBytes := 3072 + (250 - 100) + 140\<rparr>) (sampleBuf0\<lparr>bytes := 140\<rparr>) of
     (a', b') \<Rightarrow> totalBytes a' = 3072 + 250"
proof -
  let ?r = "\<lparr>rHeap = [], rItems = [], rByID = [], rBySeq = [], rByUUID = [], rLastSeq = 0,
       rFirstUUID = zeroUUID, rLastUUID = zeroUUID, rIdKeyBytes = 0\<rparr>"
  obtain a' b' where d: "commitReplacementPreReserved 5 ?r 250 100 (sampleAcct0\<lparr>totalBytes := 3072 + (250 - 100) + 140\<rparr>)
      (sampleBuf0\<lparr>bytes := 140\<rparr>) = (a', b')" by fastforce
  have "totalBytes a' = 3072 + 250 \<and> totalItems a' = totalItems (sampleAcct0\<lparr>totalBytes := 3072 + (250 - 100) + 140\<rparr>) -
      int (length (items (sampleBuf0\<lparr>bytes := 140\<rparr>))) + int (length (rItems ?r)) \<and> bytes b' = 250 \<and> items b' = rItems ?r"
    by (rule warm_commit_drift [OF _ _ _ _ _ _ _ _ d])
      (simp_all add: sampleBuf0_def sampleAcct0_def newscopeBuffer_def MaxInt64_def MinInt64_def)
  then show ?thesis unfolding d by simp
qed

section \<open>Locking order\<close>

theorem shards_ascending_and_exact_witness: "shardsForScopes sampleStore [''posts'', ''abc'', ''news''] = [3, 4, 5]"
proof -
  have s: "shardIdxFor sampleStore ''posts'' = 5" "shardIdxFor sampleStore ''abc'' = 3" "shardIdxFor sampleStore ''news'' = 4"
    by code_simp+
  note k = shards_ascending_and_exact [of sampleStore "[''posts'', ''abc'', ''news'']"]
  show ?thesis
    by (rule strict_sorted_equal) (use k s in \<open>simp_all add: insert_commute\<close>)
qed

end
