(* ===== verification/Props_Observe.thy ===== *)
theory Props_Observe
  imports Sample Refine
begin

text \<open>
  The properties of what an observer sees: wake-up channels, statistics and listings; and those of the
  uuid codec and of configuration.
\<close>

section \<open>Wake-ups\<close>

text \<open>C28: There is at most one subscriber per reserved scope. On any reachable state, subscribing to another scope, or to a
  scope that has a subscriber, is refused and changes nothing; otherwise the caller gets a new channel, open and empty,
  that no other subscription uses, and only the subscription table changes. Unsubscribing closes that channel and
  makes the scope free again. The function that unsubscribes holds the scope, not the channel: called a second time, after another
  caller has subscribed to the scope, it closes the channel of that caller.\<close>

theorem subscription_exclusive:
  assumes "reachable J c N s" "cfgMaxStoreBytes c \<le> MaxInt64" "N < 2 ^ 64" "Subscribe n s = (r, s')"
  shows "case r of
      Inl e \<Rightarrow> s' = s \<and> (\<not> isReservedScope n \<or> map_of (subscribers s) n \<noteq> None)
    | Inr q \<Rightarrow> isReservedScope n \<and> map_of (subscribers s) n = None \<and> q \<notin> snd ` set (subscribers s) \<and>
        subs s' ! q = \<lparr>slotFull = False, chClosed = False\<rparr> \<and> map_of (subscribers s') = (map_of (subscribers s))(n \<mapsto> q) \<and>
        view s' = view s \<and> acct s' = acct s \<and>
        chClosed (subs (unsubscribe n s') ! q) \<and> map_of (subscribers (unsubscribe n s')) n = None \<and>
        (\<forall>q2 s2. Subscribe n (unsubscribe n s') = (Inr q2, s2) \<longrightarrow>
           q2 \<noteq> q \<and> \<not> chClosed (subs s2 ! q2) \<and> chClosed (subs (unsubscribe n s2) ! q2))"
proof (cases "isReservedScope n \<and> map_of (subscribers s) n = None")
  case False
  then show ?thesis using assms(4) by (auto simp: Subscribe_def split: if_splits option.splits)
next
  case True
  have so: "subs_ok s" using reachable_inv(1) [OF assms(1-3)] by (simp add: store_inv_def)
  let ?q = "length (subs s)"
  have e: "r = Inr ?q" "s' = s\<lparr>subs := subs s @ [\<lparr>slotFull = False, chClosed = False\<rparr>],
      subscribers := AList.update n ?q (subscribers s)\<rparr>"
    using assms(4) True by (auto simp: Subscribe_def Let_def)
  have "?q \<notin> snd ` set (subscribers s)" using so by (auto simp: subs_ok_def)
  moreover have "view s' = view s" by (simp add: e(2) fun_eq_iff view_def getScope_def shardFor_def shardIdxFor_def)
  moreover have "map_of (subscribers s') = (map_of (subscribers s))(n \<mapsto> ?q)" by (simp add: e(2) update_conv')
  moreover have "chClosed (subs (unsubscribe n s') ! ?q)" "map_of (subscribers (unsubscribe n s')) n = None"
    by (simp_all add: e(2) unsubscribe_def update_conv' delete_conv')
  moreover have "q2 \<noteq> ?q \<and> \<not> chClosed (subs s2 ! q2) \<and> chClosed (subs (unsubscribe n s2) ! q2)"
    if "Subscribe n (unsubscribe n s') = (Inr q2, s2)" for q2 s2
    using that by (auto simp: e(2) Subscribe_def unsubscribe_def update_conv' delete_conv' nth_append Let_def split: if_splits option.splits)
  ultimately show ?thesis using True by (simp add: e)
qed

theorem subscription_exclusive_witness:
  "case Subscribe InboxScopeName sampleStore of (r, s') \<Rightarrow> \<exists>q. r = Inr q \<and> map_of (subscribers s') InboxScopeName = Some q"
proof -
  obtain r s' where d: "Subscribe InboxScopeName sampleStore = (r, s')" by fastforce
  have "\<not> isl (fst (Subscribe InboxScopeName sampleStore))" by code_simp
  then obtain q where r: "r = Inr q" using d by (cases r) auto
  show ?thesis using subscription_exclusive [OF sample_reachable sample_conf _ d] unfolding d by (simp add: r)
qed

text \<open>C27: No wake-up is lost. On any reachable state in which a reserved scope has a subscriber, an item accepted into
  that scope leaves a wake-up pending in the subscriber's channel, and that channel is open: for the inbox after every
  successful append, for the event log after every emission that does not count a drop.\<close>

theorem no_lost_wakeup:
  assumes "reachable J c N s" "cfgMaxStoreBytes c \<le> MaxInt64" "Suc N < 2 ^ 64"
  shows "(\<forall>q st s'. map_of (subscribers s) InboxScopeName = Some q \<longrightarrow> Scope it = InboxScopeName \<longrightarrow>
      appendOne J inp i it s = (Inr st, s') \<longrightarrow> slotFull (subs s' ! q) \<and> \<not> chClosed (subs s' ! q)) \<and>
    (\<forall>q. map_of (subscribers s) EventsScopeName = Some q \<longrightarrow>
      (let s' = emitEvent J inp i evt s
       in slotFull (subs s' ! q) \<and> \<not> chClosed (subs s' ! q) \<or> eventsDropsTotal s' = i64 (eventsDropsTotal s + 1)))"
proof (intro conjI allI impI)
  have N: "N < 2 ^ 64" using assms(3) by simp
  note s = reachable_inv(1-3) [OF assms(1,2) N]
  {
    fix q st s'
    assume sub: "map_of (subscribers s) InboxScopeName = Some q" and sc: "Scope it = InboxScopeName"
      and r: "appendOne J inp i it s = (Inr st, s')"
    obtain it' where v: "validateWriteItem J it ''/append'' (maxItemBytesFor (acct s) (Scope it)) = Inr it'"
      and t: "appendOneTrusted J inp i it' s = (Inr st, s')"
      using r by (auto simp: appendOne_def split: sum.splits)
    have sc': "Scope it' = InboxScopeName" using validateWriteItem_Inr(4) [OF v] sc by simp
    have "slotFull (subs s' ! q) \<and> \<not> chClosed (subs s' ! q)" using s assms(3) t
    proof (cases rule: appendOneTrusted_cases)
      case (okay st' s1 s2)
      have s2: "subs_ok s2" "subscribers s2 = subscribers s"
        using logged_facts(1,3) [OF okay(3,9)] okay(15) by (simp_all add: store_inv_def)
      have e: "s' = notifySubscriber InboxScopeName s2" using okay(14) sc' by (simp add: isReservedScope_iff)
      have "subs_ok s'" "subscribers s' = subscribers s" using notifySubscriber_ok [OF s2(1)] s2(2) by (simp_all add: e)
      then have "\<not> chClosed (subs s' ! q)" using subs_entry(3) [of s' InboxScopeName q] sub by simp
      then show ?thesis using notifySubscriber_pending(1) [OF s2(1)] s2(2) sub by (simp add: e)
    qed simp
    then show "slotFull (subs s' ! q)" "\<not> chClosed (subs s' ! q)" by blast+
  }
  fix q assume sub: "map_of (subscribers s) EventsScopeName = Some q"
  let ?s' = "emitEvent J inp i evt s"
  have em: "emitted J evt s ?s'" by (rule emitEvent_ok(1) [OF s N])
  have "\<not> chClosed (subs ?s' ! q)"
    using em sub subs_entry(3) [of ?s' EventsScopeName q] by (simp add: emitted_def store_inv_def)
  then show "let s' = ?s' in slotFull (subs s' ! q) \<and> \<not> chClosed (subs s' ! q) \<or> eventsDropsTotal s' = i64 (eventsDropsTotal s + 1)"
    using em sub by (auto simp: emitted_def Let_def)
qed

text \<open>A subscriber of the inbox, and an item for it.\<close>

theorem no_lost_wakeup_witness:
  "let s = snd (Subscribe InboxScopeName sampleStore) in
   case appendOne sampleJson sampleInp 7 (sampleItem [] ''1''\<lparr>Scope := InboxScopeName\<rparr>) s of
     (r, s') \<Rightarrow> \<not> isl r \<and> slotFull (subs s' ! 0)"
proof -
  define s where "s = snd (Subscribe InboxScopeName sampleStore)"
  let ?it = "sampleItem [] ''1''\<lparr>Scope := InboxScopeName\<rparr>"
  have "Subscribe InboxScopeName sampleStore = (fst (Subscribe InboxScopeName sampleStore), s)" by (simp add: s_def)
  then have re: "reachable sampleJson sampleConf (3 + 2) s" by (rule reachable.step [OF sample_reachable store_step.subscribe])
  obtain r s' where d: "appendOne sampleJson sampleInp 7 ?it s = (r, s')" by fastforce
  have "\<not> isl (fst (appendOne sampleJson sampleInp 7 ?it (snd (Subscribe InboxScopeName sampleStore))))"
    "map_of (subscribers (snd (Subscribe InboxScopeName sampleStore))) InboxScopeName = Some 0" by code_simp+
  then obtain st where r: "r = Inr st" and sub: "map_of (subscribers s) InboxScopeName = Some 0"
    using d by (cases r) (auto simp: s_def)
  have "slotFull (subs s' ! 0)"
    using no_lost_wakeup [OF re sample_conf, THEN conjunct1, of ?it sampleInp 7] sub d r by simp
  then show ?thesis unfolding Let_def s_def [symmetric] d by (simp add: r)
qed

section \<open>Listings\<close>

lemma scope_names:
  assumes "shards_ok s"
  shows "distinct (map fst (scopes s))" "fst ` set (scopes s) = dom (view s)"
proof -
  show "distinct (map fst (scopes s))"
    using scopes_distinct [OF assms] scopes_distinct_fst [OF assms] by (auto simp: distinct_map inj_on_def)
  show "fst ` set (scopes s) = dom (view s)"
    using getScope_None [OF assms] view_getScope_None [of s] by (auto simp: dom_def)
qed

lemma sorted_names:
  assumes "distinct (map fst xs)"
  shows "map fst (sort_key fst (filter (\<lambda>(n, p). P n) xs)) = sorted_list_of_set {n \<in> fst ` set xs. P n}"
proof (rule sorted_list_of_set_unique [THEN iffD1, symmetric])
  have f: "filter (\<lambda>(n, p). P n) xs = filter (P \<circ> fst) xs" by (intro filter_cong) auto
  have m: "map fst (filter (P \<circ> fst) xs) = filter P (map fst xs)" by (simp add: filter_map)
  let ?ys = "map fst (sort_key fst (filter (\<lambda>(n, p). P n) xs))"
  show "finite {n \<in> fst ` set xs. P n}" by simp
  have "mset ?ys = mset (filter P (map fst xs))" by (simp add: f m [symmetric] mset_map del: filter_map)
  then have d: "distinct ?ys" using assms by (metis distinct_filter mset_eq_imp_distinct_iff)
  have "sorted ?ys" by simp
  moreover have "set ?ys = {n \<in> fst ` set xs. P n}" by auto
  ultimately show "sorted_wrt (<) ?ys \<and> set ?ys = {n \<in> fst ` set xs. P n} \<and> length ?ys = card {n \<in> fst ` set xs. P n}"
    using d distinct_card [OF d] by (simp add: strict_sorted_iff)
qed

text \<open>C34: A page of \<^verbatim>\<open>/scopelist\<close> is what the specification says: of the existing scopes whose name has the prefix
  and lies strictly after the cursor, in ascending order of their names, the first ones up to the limit, each with its own
  statistics; and the truncation flag is set exactly when the limit cut something off. A limit that is not positive gives
  the empty page. Every name appears once, whatever shard holds it.\<close>

theorem scope_list_page:
  assumes "reachable J c N s" "cfgMaxStoreBytes c \<le> MaxInt64" "N < 2 ^ 64"
  shows "let names = sorted_list_of_set {n \<in> dom (view s). is_prefix pfx n \<and> (after = [] \<or> after < n)};
             (page, truncated) = scopeList pfx after limit s
         in map slScope page = take (nat limit) names \<and> truncated = (0 < limit \<and> int (length names) > limit) \<and>
            (\<forall>e \<in> set page. \<exists>p. getScope s (slScope e) = Some p \<and> slStats e = stats (bufs s ! p))"
proof (cases "0 < limit")
  case False
  then show ?thesis by (simp add: scopeList_def)
next
  case True
  have sh: "shards_ok s" using reachable_inv(1) [OF assms] by (simp add: store_inv_def store_ok_def)
  let ?P = "\<lambda>n. is_prefix pfx n \<and> (after = [] \<or> after < n)"
  let ?names = "sorted_list_of_set {n \<in> dom (view s). ?P n}"
  define refs1 where "refs1 = sort_key fst (filter (\<lambda>(n, p). ?P n) (scopes s))"
  have n: "map fst refs1 = ?names" unfolding refs1_def sorted_names [OF scope_names(1) [OF sh]] by (simp add: scope_names(2) [OF sh])
  then have len: "length refs1 = length ?names" by (metis length_map)
  have px: "is_prefix [] n" for n by simp
  have "filter (\<lambda>(n, p). \<not> (pfx \<noteq> [] \<and> \<not> is_prefix pfx n) \<and> \<not> (after \<noteq> [] \<and> n \<le> after)) (concat (shards s))
      = filter (\<lambda>(n, p). ?P n) (scopes s)"
    by (intro filter_cong) (use px in \<open>auto simp: scopes_def not_le\<close>)
  then have e: "scopeList pfx after limit s =
      (map (\<lambda>(name, p). \<lparr>slScope = name, slStats = stats (bufs s ! p)\<rparr>) (take (nat limit) refs1), int (length refs1) > limit)"
    using True by (auto simp: scopeList_def Let_def refs1_def)
  have "\<exists>p. getScope s m = Some p \<and> st = stats (bufs s ! p)"
    if "(m, q) \<in> set (take (nat limit) refs1)" "st = stats (bufs s ! q)" for m q st
    using that getScope_iff [OF sh, of m q] by (auto simp: refs1_def dest: in_set_takeD)
  then have st: "\<forall>x \<in> set (map (\<lambda>(name, p). \<lparr>slScope = name, slStats = stats (bufs s ! p)\<rparr>) (take (nat limit) refs1)).
      \<exists>p. getScope s (slScope x) = Some p \<and> slStats x = stats (bufs s ! p)" by fastforce
  have "map slScope (map (\<lambda>(name, p). \<lparr>slScope = name, slStats = stats (bufs s ! p)\<rparr>) (take (nat limit) refs1)) =
      take (nat limit) (map fst refs1)" by (auto simp: take_map)
  then show ?thesis unfolding e Let_def prod.case n using True st len by (intro conjI) simp_all
qed

theorem scope_list_page_witness:
  "case scopeList [] InboxScopeName 1 sampleStore of (page, truncated) \<Rightarrow> map slScope page = [''posts''] \<and> \<not> truncated"
proof -
  obtain page tr where d: "scopeList [] InboxScopeName 1 sampleStore = (page, tr)" by fastforce
  have v: "view sampleStore ''posts'' \<noteq> None" using sample_view by auto
  have sh: "shards_ok sampleStore" using sample_store_ok(1) by (simp add: store_inv_def store_ok_def)
  have "map fst (scopes sampleStore) = [''posts'', InboxScopeName, EventsScopeName]" by code_simp
  then have "dom (view sampleStore) = {''posts'', InboxScopeName, EventsScopeName}"
    using scope_names(2) [OF sh] by (metis list.set(1,2) set_map)
  moreover have "InboxScopeName < ''posts''" "\<not> InboxScopeName < EventsScopeName" "InboxScopeName \<noteq> []" by code_simp+
  ultimately have names: "{n \<in> dom (view sampleStore). is_prefix [] n \<and> (InboxScopeName = [] \<or> InboxScopeName < n)} = {''posts''}"
    by (simp only: is_prefix.simps) blast
  show ?thesis
    using scope_list_page [OF sample_reachable sample_conf, of "[]" InboxScopeName 1, unfolded names d Let_def prod.case]
    unfolding d by simp
qed

section \<open>Statistics\<close>

text \<open>C35: The statistics of any reachable state are exact although they are read off running counters: the scope count
  is the number of existing scopes, the item count the total number of items in them, the byte count the sum of the
  items' sizes and of the scopes' overhead, and the reserved scopes are listed in their order, each with its own item count.\<close>

theorem stats_exact:
  assumes "reachable J c N s" "cfgMaxStoreBytes c \<le> MaxInt64" "N < 2 ^ 64"
  shows "stScopes (store_stats s) = int (card (dom (view s))) \<and>
    stItems (store_stats s) = (\<Sum>n \<in> dom (view s). int (length (the (view s n)))) \<and>
    stApproxStoreMB (store_stats s) = (\<Sum>n \<in> dom (view s). sizeSum (the (view s n)) + scopeBufferOverhead) \<and>
    map reScope (stReservedScopes (store_stats s)) = reservedScopeNames \<and>
    map reItemCount (stReservedScopes (store_stats s)) = map (\<lambda>n. length (the (view s n))) reservedScopeNames"
proof -
  note i = reachable_inv(1) [OF assms]
  have sh: "shards_ok s" and t: "totals_ok s" and ok: "store_ok s" and res: "reserved_ok s"
    using i by (simp_all add: store_inv_def store_ok_def)
  have sum: "(\<Sum>(n, p)\<leftarrow>scopes s. f p) = (\<Sum>n \<in> dom (view s). g n)"
    if "\<And>n p. (n, p) \<in> set (scopes s) \<Longrightarrow> f p = g n" for f :: "nat \<Rightarrow> int" and g
  proof -
    have "(\<Sum>(n, p)\<leftarrow>scopes s. f p) = (\<Sum>n\<leftarrow>map fst (scopes s). g n)"
      by (simp add: comp_def) (intro arg_cong [where f = sum_list] map_cong, use that in auto)
    also have "\<dots> = (\<Sum>n \<in> dom (view s). g n)"
      using scope_names [OF sh] by (simp add: sum_list_distinct_conv_sum_set del: map_map)
    finally show ?thesis .
  qed
  have v: "view s n = Some (bufItems (bufs s ! p))" if "(n, p) \<in> set (scopes s)" for n p
    using getScope_iff [OF sh, of n p] that by (simp add: view_def)
  have b: "bytes (bufs s ! p) = sizeSum (bufItems (bufs s ! p))" if "(n, p) \<in> set (scopes s)" for n p
    using store_scope_ok [OF ok that] by (simp add: scope_ok_def buf_ok_def)
  have "int (length (scopes s)) = int (card (dom (view s)))"
    using scope_names [OF sh] distinct_card [of "map fst (scopes s)"] by simp
  moreover have "totalItems (acct s) = (\<Sum>n \<in> dom (view s). int (length (the (view s n))))"
    using t sum [of "\<lambda>p. int (length (items (bufs s ! p)))" "\<lambda>n. int (length (the (view s n)))"] v
    by (simp add: totals_ok_def bufItems_def)
  moreover have "totalBytes (acct s) = (\<Sum>n \<in> dom (view s). sizeSum (the (view s n)) + scopeBufferOverhead)"
    using t sum [of "\<lambda>p. bytes (bufs s ! p) + scopeBufferOverhead" "\<lambda>n. sizeSum (the (view s n)) + scopeBufferOverhead"] v b
    by (simp add: totals_ok_def)
  moreover obtain p q where "getScope s EventsScopeName = Some p" "getScope s InboxScopeName = Some q"
    using res by (auto simp: reserved_ok_def reservedScopeNames_def)
  ultimately show ?thesis
    using t by (simp add: store_stats_def reservedScopeStats_def reservedScopeNames_def totals_ok_def stats_def view_def bufItems_def)
qed

theorem stats_exact_witness:
  "stScopes (store_stats sampleStore) = 3 \<and> map reItemCount (stReservedScopes (store_stats sampleStore)) = [1, 0]"
proof -
  have "stScopes (store_stats sampleStore) = int (card (dom (view sampleStore)))"
    "map reItemCount (stReservedScopes (store_stats sampleStore)) = map (\<lambda>n. length (the (view sampleStore n))) reservedScopeNames"
    using stats_exact [OF sample_reachable sample_conf] by simp_all
  moreover have "map (\<lambda>n. length (the (view sampleStore n))) reservedScopeNames = [1, 0]" "stScopes (store_stats sampleStore) = 3"
    by code_simp+
  ultimately show ?thesis by simp
qed

section \<open>Uuids\<close>

text \<open>C39: Parsing and formatting uuids are inverse: a text parses to a value exactly when the value is a well-formed v7 uuid
  of sixteen bytes and the text is its canonical form. So the parser accepts no other spelling, and nothing is lost.\<close>

theorem uuid_codec: "parseUUIDv7 s = Some u \<longleftrightarrow> length u = 16 \<and> isValidV7 u \<and> formatUUID u = s"
  using format_parse [of s u] parse_format [of u] by auto

text \<open>Every minted uuid is well formed, of full length and not the zero value, reads back from its text form, and
  determines the 48 bits of the clock it was minted from.\<close>

theorem uuid_minted:
  "length (newUUIDv7 ms ra rb) = 16 \<and> isValidV7 (newUUIDv7 ms ra rb) \<and> \<not> IsZero (newUUIDv7 ms ra rb) \<and>
   parseUUIDv7 (formatUUID (newUUIDv7 ms ra rb)) = Some (newUUIDv7 ms ra rb) \<and>
   (newUUIDv7 ms ra rb = newUUIDv7 ms' ra' rb' \<longrightarrow> take_bit 48 ms = take_bit 48 ms')"
  using newUUIDv7_valid [of ms ra rb] isValidV7_nonzero [OF newUUIDv7_valid] parse_format [of "newUUIDv7 ms ra rb"]
    newUUIDv7_timestamp [of ms ra rb ms' ra' rb'] by simp

theorem uuid_minted_witness: "newUUIDv7 1 5 6 \<noteq> newUUIDv7 2 5 6"
  using uuid_minted [of 1 5 6 2 5 6] by (auto simp: take_bit_eq_mask mask_eq_exp_minus_1)

section \<open>Configuration\<close>

text \<open>Defaulting yields a usable configuration from any input: every cap is positive, the store can hold its reserved
  scopes, and the event mode is one of the three. It is idempotent, and it keeps every setting that was already in range.\<close>

theorem config_defaults:
  "0 < cfgScopeMaxItems (WithDefaults c) \<and> 0 < cfgMaxItemBytes (WithDefaults c) \<and> 0 < cfgInboxMaxItems (WithDefaults c) \<and>
   0 < cfgInboxMaxItemBytes (WithDefaults c) \<and> reservedScopesOverhead \<le> cfgMaxStoreBytes (WithDefaults c) \<and>
   cfgEventsMode (WithDefaults c) \<in> {EventsModeOff, EventsModeNotify, EventsModeFull} \<and>
   WithDefaults (WithDefaults c) = WithDefaults c \<and>
   (0 < cfgScopeMaxItems c \<and> 0 < cfgMaxItemBytes c \<and> 0 < cfgInboxMaxItems c \<and> 0 < cfgInboxMaxItemBytes c \<and>
    reservedScopesOverhead \<le> cfgMaxStoreBytes c \<and> cfgEventsMode c \<in> {EventsModeOff, EventsModeNotify, EventsModeFull}
      \<longrightarrow> WithDefaults c = c)"
  using WithDefaults_bounds [of c] WithDefaults_mode [of c] WithDefaults_keep [of c] by simp

theorem config_defaults_witness: "WithDefaults (WithDefaults sampleConf) = WithDefaults sampleConf"
  using config_defaults [of sampleConf] by blast

section \<open>Batches on the wire\<close>

text \<open>Grouping a batch by scope is a stable partition: each scope named by an item appears exactly once, with exactly the
  items that name it in the order they were sent, and no other scope appears.\<close>

theorem group_partition:
  "distinct (map fst (groupItemsByScope its)) \<and>
   map_of (groupItemsByScope its) = (\<lambda>n. if \<exists>it \<in> set its. Scope it = n then Some (filter (\<lambda>it. Scope it = n) its) else None)"
  using groupItemsByScope_spec [of its] by (auto simp: fun_eq_iff Let_def filter_empty_conv)

end
