(* ===== verification/Wire.thy ===== *)
theory Wire
  imports StoreOps
begin

text \<open>
  The wire format of the reads (\<^verbatim>\<open>wire.go\<close>, \<^verbatim>\<open>Item.MarshalJSON\<close> and \<^verbatim>\<open>MB.MarshalJSON\<close> of
  \<^verbatim>\<open>types.go\<close>): the byte builders that append an item, a list of items or a page of scopes to a buffer.

  A byte slice is a \<^typ>\<open>string\<close>, \<^verbatim>\<open>append\<close> is concatenation. \<open>raw\<close> stands for Go's back-quoted
  literals: in its argument a back-quote is written for the double quote of the source. The JSON
  library is only asked to encode a string with a byte that needs escaping.
\<close>

section \<open>Numbers in MiB\<close>

definition raw :: "string \<Rightarrow> string" where
  "raw s = map (\<lambda>c. if c = CHR 0x60 then CHR 0x22 else c) s"

text \<open>
  \<^verbatim>\<open>float64(n)\<close>: an integer of at most 53 bits is exact, a longer one is rounded to the nearest, ties to even.
  Its quotient by \<^verbatim>\<open>1048576.0\<close>, a power of two, is exact.
\<close>

definition round_half_even :: "int \<Rightarrow> int \<Rightarrow> int" where
  "round_half_even a d =
     (let q = a div d; r = a mod d in if 2 * r > d \<or> 2 * r = d \<and> odd q then q + 1 else q)"

function bits :: "int \<Rightarrow> nat" where
  "bits n = (if n \<le> 0 then 0 else Suc (bits (n div 2)))"
  by auto
termination by (relation "measure nat") auto

declare bits.simps [simp del]

definition float64_abs :: "int \<Rightarrow> int" where
  "float64_abs n =
     (let m = \<bar>n\<bar> in if m < 2 ^ 53 then m else let u = 2 ^ (bits m - 53) in round_half_even m u * u)"

text \<open>\<^verbatim>\<open>strconv.AppendFloat(_, float64(n)/1048576.0, 'f', 4, 64)\<close>: four decimals, correctly rounded, ties to even.\<close>

definition pad4 :: "int \<Rightarrow> string" where
  "pad4 n = map (\<lambda>d. char_of (nat (48 + n div d mod 10))) [1000, 100, 10, 1]"

definition appendMB :: "int \<Rightarrow> string" where
  "appendMB n =
     (let t = round_half_even (float64_abs n * 10000) 1048576
      in (if n < 0 then ''-'' else []) @ appendUint (nat (t div 10000)) @ ''.'' @ pad4 (t mod 10000))"

text \<open>\<^verbatim>\<open>MB.MarshalJSON\<close>.\<close>

definition MB_MarshalJSON :: "int \<Rightarrow> string" where
  "MB_MarshalJSON m = appendMB m"

section \<open>Items\<close>

definition needsEscape :: "char \<Rightarrow> bool" where
  "needsEscape c \<longleftrightarrow> byte c < 0x20 \<or> c \<in> {CHR 0x22, CHR 0x5C, CHR ''<'', CHR ''>'', CHR ''&''}"

fun scan_plain :: "string \<Rightarrow> bool" where
  "scan_plain [] = True"
| "scan_plain (c # cs) = (if needsEscape c then False else scan_plain cs)"

definition AppendJSONString :: "jsonLib \<Rightarrow> string \<Rightarrow> string \<Rightarrow> string" where
  "AppendJSONString J dst s =
     (if \<not> scan_plain s then dst @ marshalString J s else dst @ [CHR 0x22] @ s @ [CHR 0x22])"

definition AppendItemJSON :: "jsonLib \<Rightarrow> string \<Rightarrow> item \<Rightarrow> string" where
  "AppendItemJSON J buf0 it =
     (let (payloadKey, uuidKey) = (if Scope it = EventsScopeName then (''event'', ''event_uuid'') else (''payload'', ''uuid''));
          buf1 = AppendJSONString J (buf0 @ raw ''{`scope`:'') (Scope it) @ raw '',`id`:'';
          buf2 = (if ID it = [] then buf1 @ ''null'' else AppendJSONString J buf1 (ID it));
          buf3 = buf2 @ raw '',`seq`:'' @ appendUint (Seq it) @ raw '',`ts`:'' @ appendInt (Ts it) @
                 raw '',`'' @ uuidKey @ raw ''`:'';
          buf4 = appendUUIDJSON buf3 (UUID it) @ raw '',`'' @ payloadKey @ raw ''`:'';
          buf5 = (if length (Payload it) = 0 then buf4 @ ''null'' else buf4 @ Payload it)
      in buf5 @ ''}'')"

text \<open>\<^verbatim>\<open>Item.MarshalJSON\<close>, which carries the separators inside its keys.\<close>

definition Item_MarshalJSON :: "jsonLib \<Rightarrow> item \<Rightarrow> string" where
  "Item_MarshalJSON J it =
     (let (payloadKey, uuidKey) =
            (if Scope it = EventsScopeName then (raw ''`event`:'', raw '',`event_uuid`:'')
             else (raw ''`payload`:'', raw '',`uuid`:''));
          buf1 = AppendJSONString J (raw ''{`scope`:'') (Scope it) @ raw '',`id`:'';
          buf2 = (if ID it = [] then buf1 @ ''null'' else AppendJSONString J buf1 (ID it));
          buf3 = buf2 @ raw '',`seq`:'' @ appendUint (Seq it) @ raw '',`ts`:'' @ appendInt (Ts it) @ uuidKey;
          buf4 = appendUUIDJSON buf3 (UUID it) @ '','' @ payloadKey;
          buf5 = (if length (Payload it) = 0 then buf4 @ ''null'' else buf4 @ Payload it)
      in buf5 @ ''}'')"

section \<open>Envelopes\<close>

text \<open>The size field and the end of an envelope, given the bytes written so far.\<close>

definition appendSize :: "nat \<Rightarrow> string" where
  "appendSize written = raw '',`approx_response_mb`:'' @ appendMB (int written + 30) @ [CHR ''}'', CHR 0x0A]"

definition appendBool :: "bool \<Rightarrow> string" where
  "appendBool b = (if b then ''true'' else ''false'')"

text \<open>The loop \<^verbatim>\<open>for i := range items\<close> with its separator.\<close>

fun appendEach :: "(string \<Rightarrow> 'a \<Rightarrow> string) \<Rightarrow> string \<Rightarrow> nat \<Rightarrow> 'a list \<Rightarrow> string" where
  "appendEach f buf i [] = buf"
| "appendEach f buf i (x # xs) = appendEach f (f (if i > 0 then buf @ '','' else buf) x) (Suc i) xs"

definition AppendGetResponseJSON :: "jsonLib \<Rightarrow> string \<Rightarrow> item option \<Rightarrow> string" where
  "AppendGetResponseJSON J buf0 itm =
     (let startLen = length buf0;
          buf = (case itm of
             None \<Rightarrow> buf0 @ raw ''{`ok`:true,`hit`:false,`count`:0,`item`:null''
           | Some it \<Rightarrow> AppendItemJSON J (buf0 @ raw ''{`ok`:true,`hit`:true,`count`:1,`item`:'') it)
      in buf @ appendSize (length buf - startLen))"

text \<open>\<^verbatim>\<open>offset\<close> is \<^const>\<open>None\<close> for \<^verbatim>\<open>/head\<close>.\<close>

definition appendItemsEnvelopeJSON :: "jsonLib \<Rightarrow> string \<Rightarrow> item list \<Rightarrow> bool \<Rightarrow> int option \<Rightarrow> string" where
  "appendItemsEnvelopeJSON J buf0 its truncated offset =
     (let startLen = length buf0;
          buf1 = buf0 @ raw ''{`ok`:true,`hit`:'' @ appendBool (length its > 0) @
                 raw '',`count`:'' @ appendInt (int (length its));
          buf2 = (case offset of None \<Rightarrow> buf1 | Some off \<Rightarrow> buf1 @ raw '',`offset`:'' @ appendInt off);
          buf3 = buf2 @ raw '',`truncated`:'' @ appendBool truncated @ raw '',`items`:['';
          buf = appendEach (AppendItemJSON J) buf3 0 its @ '']''
      in buf @ appendSize (length buf - startLen))"

definition AppendHeadResponseJSON :: "jsonLib \<Rightarrow> string \<Rightarrow> item list \<Rightarrow> bool \<Rightarrow> string" where
  "AppendHeadResponseJSON J buf its truncated = appendItemsEnvelopeJSON J buf its truncated None"

definition AppendTailResponseJSON :: "jsonLib \<Rightarrow> string \<Rightarrow> item list \<Rightarrow> bool \<Rightarrow> int \<Rightarrow> string" where
  "AppendTailResponseJSON J buf its truncated offset = appendItemsEnvelopeJSON J buf its truncated (Some offset)"

definition appendScopeListEntryJSON :: "jsonLib \<Rightarrow> string \<Rightarrow> scopeListEntry \<Rightarrow> string" where
  "appendScopeListEntryJSON J buf0 e =
     (let st = slStats e;
          buf1 = AppendJSONString J (buf0 @ raw ''{`scope`:'') (slScope e) @
                 raw '',`item_count`:'' @ appendInt (int (ssItemCount st)) @ raw '',`last_seq`:'' @ appendUint (ssLastSeq st) @
                 raw '',`first_uuid`:'';
          buf2 = appendUUIDJSON buf1 (ssFirstUUID st) @ raw '',`last_uuid`:'';
          buf3 = appendUUIDJSON buf2 (ssLastUUID st) @ raw '',`approx_scope_mb`:'' @ appendMB (ssApproxScopeMB st) @
                 raw '',`created_ts`:'' @ appendInt (ssCreatedTS st) @ raw '',`last_write_ts`:'' @ appendInt (ssLastWriteTS st) @
                 raw '',`last_access_ts`:'' @ appendInt (ssLastAccessTS st) @
                 raw '',`read_count_total`:'' @ appendUint (ssReadCountTotal st)
      in buf3 @ ''}'')"

definition AppendScopeListResponseJSON :: "jsonLib \<Rightarrow> string \<Rightarrow> scopeListEntry list \<Rightarrow> bool \<Rightarrow> string" where
  "AppendScopeListResponseJSON J buf0 entries truncated =
     (let startLen = length buf0;
          buf1 = buf0 @ raw ''{`ok`:true,`hit`:'' @ appendBool (length entries > 0) @
                 raw '',`count`:'' @ appendInt (int (length entries)) @
                 raw '',`truncated`:'' @ appendBool truncated @ raw '',`scopes`:['';
          buf = appendEach (appendScopeListEntryJSON J) buf1 0 entries @ '']''
      in buf @ appendSize (length buf - startLen))"

text \<open>The acknowledgement of a write; \<^const>\<open>None\<close> is the nil \<^verbatim>\<open>id\<close>.\<close>

record writeAck =
  waScope :: string
  waID :: "string option"
  waSeq :: nat
  waTs :: int
  waUUID :: string

definition newWriteAck :: "item \<Rightarrow> writeAck" where
  "newWriteAck it = \<lparr>waScope = Scope it, waID = (if ID it \<noteq> [] then Some (ID it) else None), waSeq = Seq it,
     waTs = Ts it, waUUID = wireUUID (UUID it)\<rparr>"

end
