(* ===== verification/Http.thy ===== *)
theory Http
  imports Wire Machine
begin

text \<open>
  The HTTP layer (\<^verbatim>\<open>api.go\<close>, \<^verbatim>\<open>handlers*.go\<close>, \<^verbatim>\<open>response_types.go\<close>): request parsing, one handler per
  endpoint, the mapping of errors to status codes, and the envelopes.

  What comes from \<^verbatim>\<open>net/http\<close> and the JSON library is an argument: the method, the decoded query (an
  association list, the first value of a key first), and, for a body read under a cap, the outcome of
  decoding it. A response is its status, the headers the handlers set, and its body; \<open>M\<close> marshals an envelope.
\<close>

section \<open>Requests\<close>

datatype 'a decoding =
    ExceedsCap int
  | InvalidUuid
  | NotDecodable
  | Decodes 'a bool

text \<open>The flag of \<open>Decodes\<close> says whether the body ends after the value.\<close>

record 'a httpRequest =
  reqMethod :: string
  reqQuery :: "(string \<times> string) list"
  reqBody :: "int \<Rightarrow> 'a decoding"

definition queryGet :: "(string \<times> string) list \<Rightarrow> string \<Rightarrow> string" where
  "queryGet q k = (case map_of q k of None \<Rightarrow> [] | Some v \<Rightarrow> v)"

definition queryHas :: "(string \<times> string) list \<Rightarrow> string \<Rightarrow> bool" where
  "queryHas q k \<longleftrightarrow> map_of q k \<noteq> None"

text \<open>The text of an error response: a literal of the handler, or the text of an error value.\<close>

datatype message = Text string | Reason reason | Failure goError

definition decodeBody :: "int \<Rightarrow> 'a httpRequest \<Rightarrow> message + 'a" where
  "decodeBody cap r =
     (case reqBody r cap of
        ExceedsCap limit \<Rightarrow> Inl (Text (''the request body exceeds the maximum allowed size of '' @ appendInt limit @ '' bytes''))
      | InvalidUuid \<Rightarrow> Inl (Text ''the 'uuid' field must be a canonical lowercase UUIDv7 string'')
      | NotDecodable \<Rightarrow> Inl (Text ''the request body must contain valid JSON'')
      | Decodes v atEnd \<Rightarrow> if \<not> atEnd then Inl (Text ''the request body must contain exactly one JSON value'') else Inr v)"

record lookup_target =
  ltScope :: string
  ltID :: string
  ltSeq :: nat
  ltUUID :: string

definition parseLookupTarget :: "(string \<times> string) list \<Rightarrow> string \<Rightarrow> message + lookup_target" where
  "parseLookupTarget query endpoint =
     (let scope = queryGet query ''scope''; k = queryGet query ''id''; seqStr = queryGet query ''seq''; uuid = queryGet query ''uuid'';
          hasID = (k \<noteq> []); hasSeq = (seqStr \<noteq> []); hasUUID = (uuid \<noteq> []);
          n = length (filter (\<lambda>h. h) [hasID, hasSeq, hasUUID])
      in case validateScope scope endpoint of
           Some e \<Rightarrow> Inl (Reason e)
         | None \<Rightarrow>
             if n \<noteq> 1 then Inl (Text ''exactly one of 'id', 'seq' or 'uuid' must be provided'')
             else if hasID then
               (case validateID k of
                  Some e \<Rightarrow> Inl (Reason e)
                | None \<Rightarrow> Inr \<lparr>ltScope = scope, ltID = k, ltSeq = 0, ltUUID = []\<rparr>)
             else if hasUUID then
               (if \<not> isValidUUIDv7 uuid then Inl (Text ''the 'uuid' parameter must be a valid UUIDv7'')
                else Inr \<lparr>ltScope = scope, ltID = [], ltSeq = 0, ltUUID = uuid\<rparr>)
             else
               (case parseUint seqStr of
                  None \<Rightarrow> Inl (Text ''the 'seq' parameter must be a valid unsigned integer'')
                | Some seq \<Rightarrow>
                    if seq = 0 then Inl (Text ''the 'seq' parameter must be a positive integer'')
                    else Inr \<lparr>ltScope = scope, ltID = [], ltSeq = seq, ltUUID = []\<rparr>))"

definition parseScopeLimit :: "(string \<times> string) list \<Rightarrow> string \<Rightarrow> message + string \<times> int" where
  "parseScopeLimit query endpoint =
     (let scope = queryGet query ''scope''
      in case validateScope scope endpoint of
           Some e \<Rightarrow> Inl (Reason e)
         | None \<Rightarrow>
             (case normalizeLimit (queryGet query ''limit'') of
                Inl e \<Rightarrow> Inl (Reason e)
              | Inr limit \<Rightarrow> Inr (scope, limit)))"

section \<open>Responses\<close>

datatype envelope =
    AppendResponse bool writeAck
  | UpsertResponse bool writeAck
  | UpdateResponse bool nat
  | CounterAddResponse bool int
  | DeleteResponse bool nat
  | DeleteScopeResponse bool nat
  | WipeResponse nat nat int
  | WarmResponse nat
  | RebuildResponse nat nat
  | StatsResponse storeStats
  | ErrorResponse message
  | ScopeCapacityErrorResponse string "(string \<times> int \<times> int) list"
  | StoreCapacityErrorResponse int int int
  | ResponseTooLargeErrorResponse int int

record httpResponse =
  status :: nat
  allowHeader :: "string option"
  missHeader :: bool
  contentType :: string
  respBody :: string

type_synonym marshaller = "envelope \<Rightarrow> string option"

definition jsonType :: string where "jsonType = ''application/json; charset=utf-8''"
definition octetType :: string where "octetType = ''application/octet-stream''"
definition plainType :: string where "plainType = ''text/plain; charset=utf-8''"

text \<open>The response writer before anything is written.\<close>

definition newWriter :: httpResponse where
  "newWriter = \<lparr>status = 0, allowHeader = None, missHeader = False, contentType = [], respBody = []\<rparr>"

definition writeJSONResponse :: "marshaller \<Rightarrow> httpResponse \<Rightarrow> nat \<Rightarrow> envelope \<Rightarrow> httpResponse" where
  "writeJSONResponse M w code resp =
     (case M resp of
        None \<Rightarrow> w\<lparr>contentType := jsonType, status := 500,
                   respBody := raw ''{`ok`:false,`error`:`internal: response marshal failed`}'' @ [CHR 0x0A]\<rparr>
      | Some body \<Rightarrow> w\<lparr>contentType := jsonType, status := code, respBody := body @ [CHR 0x0A]\<rparr>)"

definition badRequest :: "marshaller \<Rightarrow> httpResponse \<Rightarrow> message \<Rightarrow> httpResponse" where
  "badRequest M w msg = writeJSONResponse M w 400 (ErrorResponse msg)"

definition conflict :: "marshaller \<Rightarrow> httpResponse \<Rightarrow> message \<Rightarrow> httpResponse" where
  "conflict M w msg = writeJSONResponse M w 409 (ErrorResponse msg)"

definition scopeFull :: "marshaller \<Rightarrow> httpResponse \<Rightarrow> (string \<times> int \<times> int) list \<Rightarrow> httpResponse" where
  "scopeFull M w offenders =
     (let msg = (if length offenders > 1 then ''multiple scopes are at capacity'' else ''scope is at capacity'')
      in writeJSONResponse M w 507 (ScopeCapacityErrorResponse msg offenders))"

definition storeFull :: "marshaller \<Rightarrow> httpResponse \<Rightarrow> int \<Rightarrow> int \<Rightarrow> int \<Rightarrow> httpResponse" where
  "storeFull M w storeBytes added cap = writeJSONResponse M w 507 (StoreCapacityErrorResponse storeBytes added cap)"

definition responseTooLarge :: "marshaller \<Rightarrow> httpResponse \<Rightarrow> int \<Rightarrow> int \<Rightarrow> httpResponse" where
  "responseTooLarge M w written cap = writeJSONResponse M w 507 (ResponseTooLargeErrorResponse written cap)"

definition methodNotAllowed :: "marshaller \<Rightarrow> httpResponse \<Rightarrow> string \<Rightarrow> httpResponse" where
  "methodNotAllowed M w allowed =
     writeJSONResponse M (w\<lparr>allowHeader := Some allowed\<rparr>) 405
       (ErrorResponse (Text ''the HTTP method is not allowed for this endpoint''))"

text \<open>\<^const>\<open>None\<close> is the result \<^verbatim>\<open>false\<close>: not a capacity error, nothing written.\<close>

definition writeStoreCapacityError :: "marshaller \<Rightarrow> httpResponse \<Rightarrow> goError \<Rightarrow> string \<Rightarrow> httpResponse option" where
  "writeStoreCapacityError M w err scopeForSFE =
     (case err of
        ScopeFullError cnt cap \<Rightarrow> Some (scopeFull M w [(scopeForSFE, cnt, cap)])
      | ScopeCapacityError offenders \<Rightarrow> Some (scopeFull M w offenders)
      | StoreFullError storeBytes added cap \<Rightarrow> Some (storeFull M w storeBytes added cap)
      | _ \<Rightarrow> None)"

fun isInvalidInput :: "goError \<Rightarrow> bool" where
  "isInvalidInput (InvalidInput r) = True"
| "isInvalidInput _ = False"

definition writeMutationError :: "marshaller \<Rightarrow> httpResponse \<Rightarrow> goError \<Rightarrow> string \<Rightarrow> httpResponse" where
  "writeMutationError M w err scopeForSFE =
     (if isInvalidInput err then badRequest M w (Failure err)
      else case writeStoreCapacityError M w err scopeForSFE of
        Some resp \<Rightarrow> resp
      | None \<Rightarrow> conflict M w (Failure err))"

section \<open>The API\<close>

record API =
  apiMaxBulkBytes :: int
  apiMaxSingleBytes :: int
  apiMaxResponseBytes :: int

definition NewAPI :: "store \<Rightarrow> API" where
  "NewAPI s = \<lparr>apiMaxBulkBytes = bulkRequestBytesFor (maxStoreBytes (acct s)),
     apiMaxSingleBytes = singleRequestBytesFor (maxItemBytesAnyScope (acct s)),
     apiMaxResponseBytes = maxStoreBytes (acct s)\<rparr>"

end
