(* ===== verification/Handlers.thy ===== *)
theory Handlers
  imports Http
begin

text \<open>
  One definition per endpoint handler (\<^verbatim>\<open>handlers_write.go\<close>, \<^verbatim>\<open>handlers_read.go\<close>,
  \<^verbatim>\<open>handlers_delete.go\<close>, \<^verbatim>\<open>handlers_bulk.go\<close>, \<^verbatim>\<open>handlers_observe.go\<close>), in their order: method check,
  decoding, the call of the store, the mapping of its result.
\<close>

section \<open>Writes\<close>

definition handleAppend ::
    "marshaller \<Rightarrow> jsonLib \<Rightarrow> inputs \<Rightarrow> nat \<Rightarrow> API \<Rightarrow> item httpRequest \<Rightarrow> store \<Rightarrow> httpResponse \<times> store" where
  "handleAppend M J inp i api r s =
     (if reqMethod r \<noteq> ''POST'' then (methodNotAllowed M newWriter ''POST'', s)
      else case decodeBody (apiMaxSingleBytes api) r of
        Inl e \<Rightarrow> (badRequest M newWriter e, s)
      | Inr item \<Rightarrow>
          (let origScope = Scope item
           in case appendOne J inp i item s of
                (Inl err, s1) \<Rightarrow> (writeMutationError M newWriter err origScope, s1)
              | (Inr result, s1) \<Rightarrow> (writeJSONResponse M newWriter 200 (AppendResponse True (newWriteAck result)), s1)))"

definition handleUpsert ::
    "marshaller \<Rightarrow> jsonLib \<Rightarrow> inputs \<Rightarrow> nat \<Rightarrow> API \<Rightarrow> item httpRequest \<Rightarrow> store \<Rightarrow> httpResponse \<times> store" where
  "handleUpsert M J inp i api r s =
     (if reqMethod r \<noteq> ''POST'' then (methodNotAllowed M newWriter ''POST'', s)
      else case decodeBody (apiMaxSingleBytes api) r of
        Inl e \<Rightarrow> (badRequest M newWriter e, s)
      | Inr item \<Rightarrow>
          (let origScope = Scope item
           in case upsertOne J inp i item s of
                (Inl err, s1) \<Rightarrow> (writeMutationError M newWriter err origScope, s1)
              | (Inr (result, created), s1) \<Rightarrow>
                  (writeJSONResponse M newWriter 200 (UpsertResponse created (newWriteAck result)), s1)))"

text \<open>\<^const>\<open>None\<close> is a missing \<^verbatim>\<open>by\<close>.\<close>

record counterAddRequest =
  carScope :: string
  carID :: string
  carBy :: "int option"

definition counterError :: "marshaller \<Rightarrow> goError \<Rightarrow> string \<Rightarrow> httpResponse" where
  "counterError M err origScope =
     (if isInvalidInput err then badRequest M newWriter (Failure err)
      else case writeStoreCapacityError M newWriter err origScope of
        Some resp \<Rightarrow> resp
      | None \<Rightarrow>
          (case err of
             CounterPayloadError _ \<Rightarrow> conflict M newWriter (Failure err)
           | CounterOverflowError _ _ \<Rightarrow> badRequest M newWriter (Failure err)
           | _ \<Rightarrow> conflict M newWriter (Failure err)))"

definition handleCounterAdd ::
    "marshaller \<Rightarrow> jsonLib \<Rightarrow> inputs \<Rightarrow> nat \<Rightarrow> API \<Rightarrow> counterAddRequest httpRequest \<Rightarrow> store \<Rightarrow> httpResponse \<times> store" where
  "handleCounterAdd M J inp i api r s =
     (if reqMethod r \<noteq> ''POST'' then (methodNotAllowed M newWriter ''POST'', s)
      else case decodeBody (apiMaxSingleBytes api) r of
        Inl e \<Rightarrow> (badRequest M newWriter e, s)
      | Inr req \<Rightarrow>
          (case carBy req of
             None \<Rightarrow> (badRequest M newWriter (Text ''the 'by' field is required for the '/counter_add' endpoint''), s)
           | Some inc \<Rightarrow>
               (case counterAddOne J inp i (carScope req) (carID req) inc s of
                  (Inl err, s1) \<Rightarrow> (counterError M err (carScope req), s1)
                | (Inr (v, created), s1) \<Rightarrow> (writeJSONResponse M newWriter 200 (CounterAddResponse created v), s1))))"

definition handleUpdate ::
    "marshaller \<Rightarrow> jsonLib \<Rightarrow> inputs \<Rightarrow> nat \<Rightarrow> API \<Rightarrow> item httpRequest \<Rightarrow> store \<Rightarrow> httpResponse \<times> store" where
  "handleUpdate M J inp i api r s =
     (if reqMethod r \<noteq> ''POST'' then (methodNotAllowed M newWriter ''POST'', s)
      else case decodeBody (apiMaxSingleBytes api) r of
        Inl e \<Rightarrow> (badRequest M newWriter e, s)
      | Inr item \<Rightarrow>
          (case updateOne J inp i item s of
             (Inl err, s1) \<Rightarrow> (writeMutationError M newWriter err [], s1)
           | (Inr updated, s1) \<Rightarrow>
               (writeJSONResponse M (if updated = 0 then newWriter\<lparr>missHeader := True\<rparr> else newWriter) 200
                  (UpdateResponse False updated), s1)))"

section \<open>Deletes\<close>

record deleteRequest =
  drScope :: string
  drID :: string
  drSeq :: nat
  drUUID :: string

definition deleteError :: "marshaller \<Rightarrow> goError \<Rightarrow> httpResponse" where
  "deleteError M err = (if isInvalidInput err then badRequest M newWriter (Failure err) else conflict M newWriter (Failure err))"

definition handleDelete ::
    "marshaller \<Rightarrow> jsonLib \<Rightarrow> inputs \<Rightarrow> nat \<Rightarrow> nat \<Rightarrow> API \<Rightarrow> deleteRequest httpRequest \<Rightarrow> store \<Rightarrow> httpResponse \<times> store" where
  "handleDelete M J inp i capq api r s =
     (if reqMethod r \<noteq> ''POST'' then (methodNotAllowed M newWriter ''POST'', s)
      else case decodeBody (apiMaxSingleBytes api) r of
        Inl e \<Rightarrow> (badRequest M newWriter e, s)
      | Inr req \<Rightarrow>
          (case deleteOne J inp i capq (drScope req) (drID req) (drSeq req) (drUUID req) s of
             (Inl err, s1) \<Rightarrow> (deleteError M err, s1)
           | (Inr deleted, s1) \<Rightarrow>
               (writeJSONResponse M (if deleted = 0 then newWriter\<lparr>missHeader := True\<rparr> else newWriter) 200
                  (DeleteResponse (deleted > 0) deleted), s1)))"

record deleteUpToRequest =
  dutScope :: string
  dutMaxSeq :: nat
  dutUUID :: string

definition handleDeleteUpTo ::
    "marshaller \<Rightarrow> jsonLib \<Rightarrow> inputs \<Rightarrow> nat \<Rightarrow> API \<Rightarrow> deleteUpToRequest httpRequest \<Rightarrow> store \<Rightarrow> httpResponse \<times> store" where
  "handleDeleteUpTo M J inp i api r s =
     (if reqMethod r \<noteq> ''POST'' then (methodNotAllowed M newWriter ''POST'', s)
      else case decodeBody (apiMaxSingleBytes api) r of
        Inl e \<Rightarrow> (badRequest M newWriter e, s)
      | Inr req \<Rightarrow>
          (case deleteUpTo J inp i (dutScope req) (dutMaxSeq req) (dutUUID req) s of
             (Inl err, s1) \<Rightarrow> (deleteError M err, s1)
           | (Inr deleted, s1) \<Rightarrow> (writeJSONResponse M newWriter 200 (DeleteResponse (deleted > 0) deleted), s1)))"

text \<open>The body of \<^verbatim>\<open>/delete_scope\<close> is the scope's name.\<close>

definition handleDeleteScope ::
    "marshaller \<Rightarrow> jsonLib \<Rightarrow> inputs \<Rightarrow> nat \<Rightarrow> API \<Rightarrow> string httpRequest \<Rightarrow> store \<Rightarrow> httpResponse \<times> store" where
  "handleDeleteScope M J inp i api r s =
     (if reqMethod r \<noteq> ''POST'' then (methodNotAllowed M newWriter ''POST'', s)
      else case decodeBody (apiMaxSingleBytes api) r of
        Inl e \<Rightarrow> (badRequest M newWriter e, s)
      | Inr scope \<Rightarrow>
          (case deleteScope J inp i scope s of
             (Inl err, s1) \<Rightarrow> (deleteError M err, s1)
           | (Inr (deletedItems, deleted), s1) \<Rightarrow>
               (writeJSONResponse M newWriter 200 (DeleteScopeResponse deleted deletedItems), s1)))"

definition handleWipe :: "marshaller \<Rightarrow> int \<Rightarrow> int \<Rightarrow> 'a httpRequest \<Rightarrow> store \<Rightarrow> httpResponse \<times> store" where
  "handleWipe M now now' r s =
     (if reqMethod r \<noteq> ''POST'' then (methodNotAllowed M newWriter ''POST'', s)
      else case wipe now now' s of ((deletedScopes, deletedItems, freedBytes), s1) \<Rightarrow>
        (writeJSONResponse M newWriter 200 (WipeResponse deletedScopes deletedItems freedBytes), s1))"

section \<open>Batches\<close>

text \<open>\<open>ord\<close> puts the grouped map into the order in which Go happens to iterate over it.\<close>

type_synonym iteration = "(string \<times> item list) list \<Rightarrow> (string \<times> item list) list"

definition handleWarm ::
    "marshaller \<Rightarrow> jsonLib \<Rightarrow> inputs \<Rightarrow> nat \<Rightarrow> bulkInputs \<Rightarrow> iteration \<Rightarrow> API \<Rightarrow> item list httpRequest \<Rightarrow> store \<Rightarrow> httpResponse \<times> store" where
  "handleWarm M J inp i bi ord api r s =
     (if reqMethod r \<noteq> ''POST'' then (methodNotAllowed M newWriter ''POST'', s)
      else case decodeBody (apiMaxBulkBytes api) r of
        Inl e \<Rightarrow> (badRequest M newWriter e, s)
      | Inr its \<Rightarrow>
          (case replaceScopes J inp i bi (ord (groupItemsByScope its)) s of
             (Inl err, s1) \<Rightarrow> (writeMutationError M newWriter err [], s1)
           | (Inr replacedScopes, s1) \<Rightarrow> (writeJSONResponse M newWriter 200 (WarmResponse replacedScopes), s1)))"

definition handleRebuild ::
    "marshaller \<Rightarrow> jsonLib \<Rightarrow> int \<Rightarrow> int \<Rightarrow> bulkInputs \<Rightarrow> iteration \<Rightarrow> API \<Rightarrow> item list httpRequest \<Rightarrow> store \<Rightarrow> httpResponse \<times> store" where
  "handleRebuild M J now now' bi ord api r s =
     (if reqMethod r \<noteq> ''POST'' then (methodNotAllowed M newWriter ''POST'', s)
      else case decodeBody (apiMaxBulkBytes api) r of
        Inl e \<Rightarrow> (badRequest M newWriter e, s)
      | Inr its \<Rightarrow>
          if length its = 0
          then (badRequest M newWriter (Text ''the 'items' array must not be empty for the '/rebuild' endpoint''), s)
          else (case rebuildAll J now now' bi (ord (groupItemsByScope its)) s of
                  (Inl err, s1) \<Rightarrow> (writeMutationError M newWriter err [], s1)
                | (Inr (rebuiltScopes, rebuiltItems), s1) \<Rightarrow>
                    (writeJSONResponse M newWriter 200 (RebuildResponse rebuiltScopes rebuiltItems), s1)))"

section \<open>Reads\<close>

text \<open>
  \<^verbatim>\<open>writeItemsResponse\<close> builds the body in one buffer, from the pool, that starts empty; the cap is checked
  on the bytes built. \<^const>\<open>None\<close> is the nil \<^verbatim>\<open>offset\<close> of \<^verbatim>\<open>/head\<close>.
\<close>

definition itemsBody :: "jsonLib \<Rightarrow> item list \<Rightarrow> bool \<Rightarrow> int option \<Rightarrow> string" where
  "itemsBody J its truncated offset =
     (let buf1 = raw ''{`ok`:true,`hit`:'' @ appendBool (length its > 0) @ raw '',`count`:'' @ appendInt (int (length its));
          buf2 = (case offset of None \<Rightarrow> buf1 | Some off \<Rightarrow> buf1 @ raw '',`offset`:'' @ appendInt off);
          buf3 = buf2 @ raw '',`truncated`:'' @ appendBool truncated @ raw '',`items`:['';
          buf4 = appendEach (AppendItemJSON J) buf3 0 its @ '']'';
          estTotal = int (length buf4) + 30
      in buf4 @ raw '',`approx_response_mb`:'' @ appendMB estTotal @ [CHR ''}'', CHR 0x0A])"

definition writeItemsResponse ::
    "marshaller \<Rightarrow> jsonLib \<Rightarrow> API \<Rightarrow> item list \<Rightarrow> bool \<Rightarrow> int option \<Rightarrow> httpResponse" where
  "writeItemsResponse M J api its truncated offset =
     (let buf = itemsBody J its truncated offset
      in if int (length buf) > apiMaxResponseBytes api
         then responseTooLarge M newWriter (int (length buf)) (apiMaxResponseBytes api)
         else newWriter\<lparr>missHeader := (length its = 0), contentType := jsonType, status := 200, respBody := buf\<rparr>)"

definition writeHeadResponse :: "marshaller \<Rightarrow> jsonLib \<Rightarrow> API \<Rightarrow> item list \<Rightarrow> bool \<Rightarrow> httpResponse" where
  "writeHeadResponse M J api its truncated =
     (let estimated = estimateMultiItemResponseBytes its
      in if length its > 0 \<and> estimated > apiMaxResponseBytes api
         then responseTooLarge M newWriter estimated (apiMaxResponseBytes api)
         else writeItemsResponse M J api its truncated None)"

definition writeTailResponse :: "marshaller \<Rightarrow> jsonLib \<Rightarrow> API \<Rightarrow> item list \<Rightarrow> bool \<Rightarrow> int \<Rightarrow> httpResponse" where
  "writeTailResponse M J api its truncated offset =
     (let estimated = estimateMultiItemResponseBytes its
      in if length its > 0 \<and> estimated > apiMaxResponseBytes api
         then responseTooLarge M newWriter estimated (apiMaxResponseBytes api)
         else writeItemsResponse M J api its truncated (Some offset))"

definition handleHead ::
    "marshaller \<Rightarrow> jsonLib \<Rightarrow> int \<Rightarrow> API \<Rightarrow> 'a httpRequest \<Rightarrow> store \<Rightarrow> httpResponse \<times> store" where
  "handleHead M J now api r s =
     (if reqMethod r \<noteq> ''GET'' then (methodNotAllowed M newWriter ''GET'', s)
      else case parseScopeLimit (reqQuery r) ''/head'' of
        Inl e \<Rightarrow> (badRequest M newWriter e, s)
      | Inr (scope, limit) \<Rightarrow>
          if queryHas (reqQuery r) ''offset''
          then (badRequest M newWriter (Text ''the 'offset' parameter is not supported on /head; use 'after_seq' instead, or call /tail for position-based paging''), s)
          else
            (let rawSeq = queryGet (reqQuery r) ''after_seq''
             in case (if rawSeq \<noteq> [] then parseUint rawSeq else Some 0) of
                  None \<Rightarrow> (badRequest M newWriter (Text ''the 'after_seq' parameter must be a valid unsigned integer''), s)
                | Some afterSeq \<Rightarrow>
                    (case head now scope afterSeq limit s of
                       (None, s1) \<Rightarrow> (writeHeadResponse M J api [] False, s1)
                     | (Some (its, truncated), s1) \<Rightarrow> (writeHeadResponse M J api its truncated, s1))))"

definition handleTail ::
    "marshaller \<Rightarrow> jsonLib \<Rightarrow> int \<Rightarrow> API \<Rightarrow> 'a httpRequest \<Rightarrow> store \<Rightarrow> httpResponse \<times> store" where
  "handleTail M J now api r s =
     (if reqMethod r \<noteq> ''GET'' then (methodNotAllowed M newWriter ''GET'', s)
      else case parseScopeLimit (reqQuery r) ''/tail'' of
        Inl e \<Rightarrow> (badRequest M newWriter e, s)
      | Inr (scope, limit) \<Rightarrow>
          (case normalizeOffset (queryGet (reqQuery r) ''offset'') of
             Inl e \<Rightarrow> (badRequest M newWriter (Reason e), s)
           | Inr offset \<Rightarrow>
               (case tail now scope limit offset s of
                  (None, s1) \<Rightarrow> (writeTailResponse M J api [] False offset, s1)
                | (Some (its, truncated), s1) \<Rightarrow> (writeTailResponse M J api its truncated offset, s1))))"

text \<open>
  \<^verbatim>\<open>writeGetResponse\<close> writes three pieces, prefix, payload and suffix; its size estimate counts the payload,
  not the literal \<^verbatim>\<open>null\<close> that stands for an empty one.
\<close>

definition getPrefix :: "jsonLib \<Rightarrow> item option \<Rightarrow> string" where
  "getPrefix J itm =
     (case itm of
        None \<Rightarrow> raw ''{`ok`:true,`hit`:false,`count`:0,`item`:null''
      | Some it \<Rightarrow>
          (let (payloadKey, uuidKey) = (if Scope it = EventsScopeName then (''event'', ''event_uuid'') else (''payload'', ''uuid''));
               p1 = AppendJSONString J (raw ''{`ok`:true,`hit`:true,`count`:1,`item`:{`scope`:'') (Scope it) @ raw '',`id`:'';
               p2 = (if ID it = [] then p1 @ ''null'' else AppendJSONString J p1 (ID it));
               p3 = p2 @ raw '',`seq`:'' @ appendUint (Seq it) @ raw '',`ts`:'' @ appendInt (Ts it) @ raw '',`'' @ uuidKey @ raw ''`:''
           in appendUUIDJSON p3 (UUID it) @ raw '',`'' @ payloadKey @ raw ''`:''))"

definition getBody :: "jsonLib \<Rightarrow> item option \<Rightarrow> string" where
  "getBody J itm =
     (let prefix = getPrefix J itm;
          payload = (case itm of None \<Rightarrow> [] | Some it \<Rightarrow> Payload it);
          suffix0 = (if itm \<noteq> None then ''}'' else []);
          estTotal = int (length prefix) + int (length payload) + int (length suffix0) + 30;
          suffix = suffix0 @ raw '',`approx_response_mb`:'' @ appendMB estTotal @ [CHR ''}'', CHR 0x0A]
      in prefix @ (if itm = None then [] else if length payload = 0 then ''null'' else payload) @ suffix)"

definition writeGetResponse :: "jsonLib \<Rightarrow> item option \<Rightarrow> httpResponse" where
  "writeGetResponse J itm =
     newWriter\<lparr>missHeader := (itm = None), contentType := jsonType, status := 200, respBody := getBody J itm\<rparr>"

definition handleGet ::
    "marshaller \<Rightarrow> jsonLib \<Rightarrow> int \<Rightarrow> 'a httpRequest \<Rightarrow> store \<Rightarrow> httpResponse \<times> store" where
  "handleGet M J now r s =
     (if reqMethod r \<noteq> ''GET'' then (methodNotAllowed M newWriter ''GET'', s)
      else case parseLookupTarget (reqQuery r) ''/get'' of
        Inl e \<Rightarrow> (badRequest M newWriter e, s)
      | Inr t \<Rightarrow>
          (case (if ltID t \<noteq> [] then store_get now (ltScope t) (ltID t) 0 [] s
                 else if ltUUID t \<noteq> [] then store_get now (ltScope t) [] 0 (ltUUID t) s
                 else store_get now (ltScope t) [] (ltSeq t) [] s) of
             (itm, s1) \<Rightarrow> (writeGetResponse J itm, s1)))"

definition handleRender ::
    "marshaller \<Rightarrow> int \<Rightarrow> 'a httpRequest \<Rightarrow> store \<Rightarrow> httpResponse \<times> store" where
  "handleRender M now r s =
     (if reqMethod r \<noteq> ''GET'' then (methodNotAllowed M newWriter ''GET'', s)
      else case parseLookupTarget (reqQuery r) ''/render'' of
        Inl e \<Rightarrow> (badRequest M newWriter e, s)
      | Inr t \<Rightarrow>
          (case (if ltID t \<noteq> [] then render now (ltScope t) (ltID t) 0 [] s
                 else if ltUUID t \<noteq> [] then render now (ltScope t) [] 0 (ltUUID t) s
                 else render now (ltScope t) [] (ltSeq t) [] s) of
             (None, s1) \<Rightarrow> (newWriter\<lparr>missHeader := True, contentType := octetType, status := 404\<rparr>, s1)
           | (Some body, s1) \<Rightarrow> (newWriter\<lparr>contentType := octetType, status := 200, respBody := body\<rparr>, s1)))"

section \<open>Observation\<close>

definition handleStats :: "marshaller \<Rightarrow> 'a httpRequest \<Rightarrow> store \<Rightarrow> httpResponse \<times> store" where
  "handleStats M r s =
     (if reqMethod r \<noteq> ''GET'' then (methodNotAllowed M newWriter ''GET'', s)
      else (writeJSONResponse M newWriter 200 (StatsResponse (store_stats s)), s))"

definition scopeListBody :: "jsonLib \<Rightarrow> scopeListEntry list \<Rightarrow> bool \<Rightarrow> string" where
  "scopeListBody J entries truncated =
     (let buf1 = raw ''{`ok`:true,`hit`:'' @ appendBool (length entries > 0) @ raw '',`count`:'' @ appendInt (int (length entries)) @
                 raw '',`truncated`:'' @ appendBool truncated @ raw '',`scopes`:['';
          buf2 = appendEach (appendScopeListEntryJSON J) buf1 0 entries @ '']'';
          estTotal = int (length buf2) + 30
      in buf2 @ raw '',`approx_response_mb`:'' @ appendMB estTotal @ [CHR ''}'', CHR 0x0A])"

definition writeScopeListResponse :: "marshaller \<Rightarrow> jsonLib \<Rightarrow> API \<Rightarrow> scopeListEntry list \<Rightarrow> bool \<Rightarrow> httpResponse" where
  "writeScopeListResponse M J api entries truncated =
     (let buf = scopeListBody J entries truncated
      in if int (length buf) > apiMaxResponseBytes api
         then responseTooLarge M newWriter (int (length buf)) (apiMaxResponseBytes api)
         else newWriter\<lparr>contentType := jsonType, status := 200, respBody := buf\<rparr>)"

definition handleScopeList ::
    "marshaller \<Rightarrow> jsonLib \<Rightarrow> API \<Rightarrow> 'a httpRequest \<Rightarrow> store \<Rightarrow> httpResponse \<times> store" where
  "handleScopeList M J api r s =
     (if reqMethod r \<noteq> ''GET'' then (methodNotAllowed M newWriter ''GET'', s)
      else
        (let pfx = queryGet (reqQuery r) ''prefix''; after = queryGet (reqQuery r) ''after''
         in case firstErr [if pfx \<noteq> [] then checkKeyField ''prefix'' pfx MaxScopeBytes else None,
                           if after \<noteq> [] then checkKeyField ''after'' after MaxScopeBytes else None] of
              Some e \<Rightarrow> (badRequest M newWriter (Reason e), s)
            | None \<Rightarrow>
                (case normalizeLimit (queryGet (reqQuery r) ''limit'') of
                   Inl e \<Rightarrow> (badRequest M newWriter (Reason e), s)
                 | Inr limit \<Rightarrow>
                     (case scopeList pfx after limit s of
                        (entries, truncated) \<Rightarrow> (writeScopeListResponse M J api entries truncated, s)))))"

definition helpText :: string where
  "helpText = ''scopecache '' @ [CHR 0xE2, CHR 0x80, CHR 0x94] @
     '' see instructions at https://github.com/VeloxCoding/scopecache/blob/main/docs/scopecache-core-rfc.md'' @ [CHR 0x0A]"

definition handleHelp :: "'a httpRequest \<Rightarrow> store \<Rightarrow> httpResponse \<times> store" where
  "handleHelp r s =
     (if reqMethod r \<noteq> ''GET''
      then (newWriter\<lparr>allowHeader := Some ''GET'', contentType := plainType, status := 405,
              respBody := ''method not allowed'' @ [CHR 0x0A]\<rparr>, s)
      else (newWriter\<lparr>contentType := plainType, status := 200, respBody := helpText\<rparr>, s))"

section \<open>Routes\<close>

text \<open>A request to one of the registered paths, with the readings its handler may use.\<close>

datatype httpCall =
    PathAppend "item httpRequest"
  | PathUpdate "item httpRequest"
  | PathUpsert "item httpRequest"
  | PathCounterAdd "counterAddRequest httpRequest"
  | PathDelete nat "deleteRequest httpRequest"
  | PathDeleteUpTo "deleteUpToRequest httpRequest"
  | PathHead "unit httpRequest"
  | PathTail "unit httpRequest"
  | PathGet "unit httpRequest"
  | PathRender "unit httpRequest"
  | PathWipe "unit httpRequest"
  | PathWarm bulkInputs iteration "item list httpRequest"
  | PathRebuild bulkInputs iteration "item list httpRequest"
  | PathDeleteScope "string httpRequest"
  | PathStats "unit httpRequest"
  | PathScopeList "unit httpRequest"
  | PathHelp "unit httpRequest"

fun RegisterRoutes :: "marshaller \<Rightarrow> jsonLib \<Rightarrow> inputs \<Rightarrow> nat \<Rightarrow> API \<Rightarrow> httpCall \<Rightarrow> store \<Rightarrow> httpResponse \<times> store" where
  "RegisterRoutes M J inp i api (PathAppend r) s = handleAppend M J inp i api r s"
| "RegisterRoutes M J inp i api (PathUpdate r) s = handleUpdate M J inp i api r s"
| "RegisterRoutes M J inp i api (PathUpsert r) s = handleUpsert M J inp i api r s"
| "RegisterRoutes M J inp i api (PathCounterAdd r) s = handleCounterAdd M J inp i api r s"
| "RegisterRoutes M J inp i api (PathDelete capq r) s = handleDelete M J inp i capq api r s"
| "RegisterRoutes M J inp i api (PathDeleteUpTo r) s = handleDeleteUpTo M J inp i api r s"
| "RegisterRoutes M J inp i api (PathHead r) s = handleHead M J (fst (inp i)) api r s"
| "RegisterRoutes M J inp i api (PathTail r) s = handleTail M J (fst (inp i)) api r s"
| "RegisterRoutes M J inp i api (PathGet r) s = handleGet M J (fst (inp i)) r s"
| "RegisterRoutes M J inp i api (PathRender r) s = handleRender M (fst (inp i)) r s"
| "RegisterRoutes M J inp i api (PathWipe r) s = handleWipe M (fst (inp i)) (fst (inp (i + 1))) r s"
| "RegisterRoutes M J inp i api (PathWarm bi ord r) s = handleWarm M J inp i bi ord api r s"
| "RegisterRoutes M J inp i api (PathRebuild bi ord r) s = handleRebuild M J (fst (inp i)) (fst (inp (i + 1))) bi ord api r s"
| "RegisterRoutes M J inp i api (PathDeleteScope r) s = handleDeleteScope M J inp i api r s"
| "RegisterRoutes M J inp i api (PathStats r) s = handleStats M r s"
| "RegisterRoutes M J inp i api (PathScopeList r) s = handleScopeList M J api r s"
| "RegisterRoutes M J inp i api (PathHelp r) s = handleHelp r s"

end
