(* ===== verification/Http_Laws.thy ===== *)
theory Http_Laws
  imports Handlers Refine
begin

text \<open>
  Facts about the HTTP layer: every handler's store call is a step of the cache or no call at all, and
  the status of a response says whether anything changed; the byte builders append; the pre-flight size
  estimate is a lower bound.
\<close>

section \<open>Status codes\<close>

lemma status_write [simp]:
  "M e \<noteq> None \<Longrightarrow> status (writeJSONResponse M w c e) = c"
  "allowHeader (writeJSONResponse M w c e) = allowHeader w" "missHeader (writeJSONResponse M w c e) = missHeader w"
  by (auto simp: writeJSONResponse_def split: option.splits)

lemma newWriter_simps [simp]: "allowHeader newWriter = None" "missHeader newWriter = False"
  by (simp_all add: newWriter_def)

text \<open>A response of the given statuses, with the headers that belong to its status.\<close>

definition answers :: "nat set \<Rightarrow> httpResponse \<Rightarrow> bool" where
  "answers C p \<longleftrightarrow> status p \<in> C \<and> (allowHeader p \<noteq> None \<longleftrightarrow> status p = 405) \<and> (missHeader p \<longrightarrow> status p \<in> {200, 404})"

lemma answers_mono: "answers C p \<Longrightarrow> C \<subseteq> D \<Longrightarrow> answers D p"
  by (auto simp: answers_def)

lemma answers_status: "answers C p \<Longrightarrow> status p \<in> C"
  by (simp add: answers_def)



lemma answers_simple:
  assumes "\<forall>e. M e \<noteq> None"
  shows "answers {400} (badRequest M newWriter m)" "answers {409} (conflict M newWriter m)"
    "answers {405} (methodNotAllowed M newWriter a)" "answers {507} (responseTooLarge M newWriter x y)"
    "answers {507} (scopeFull M newWriter offs)" "answers {507} (storeFull M newWriter x y z)"
    "answers {200} (writeJSONResponse M newWriter 200 e)"
    "answers {200} (writeJSONResponse M (newWriter\<lparr>missHeader := True\<rparr>) 200 e)"
  using assms by (simp_all add: answers_def badRequest_def conflict_def methodNotAllowed_def responseTooLarge_def
      scopeFull_def storeFull_def Let_def)

lemma answers_errors:
  assumes M: "\<forall>e. M e \<noteq> None"
  shows "answers {400, 409, 507} (writeMutationError M newWriter err sc)" "answers {400, 409, 507} (counterError M err sc)"
    "answers {400, 409} (deleteError M err)"
proof -
  note a = answers_simple [OF M, THEN answers_mono]
  show "answers {400, 409, 507} (writeMutationError M newWriter err sc)"
    by (cases err) (simp_all add: writeMutationError_def writeStoreCapacityError_def a)
  show "answers {400, 409, 507} (counterError M err sc)"
    by (cases err) (simp_all add: counterError_def writeStoreCapacityError_def a)
  show "answers {400, 409} (deleteError M err)" by (cases err) (simp_all add: deleteError_def a)
qed

lemma answers_reads:
  assumes M: "\<forall>e. M e \<noteq> None"
  shows "answers {200, 507} (writeHeadResponse M J api its tr)" "answers {200, 507} (writeTailResponse M J api its tr off)"
    "answers {200} (writeGetResponse J itm)" "answers {200, 507} (writeScopeListResponse M J api es tr)"
proof -
  have big: "answers {200, 507} (responseTooLarge M newWriter x y)" for x y
    by (rule answers_mono [OF answers_simple(4) [OF M]]) simp
  have "answers {200, 507} (writeItemsResponse M J api its tr o1)" for o1
    by (simp add: writeItemsResponse_def Let_def big) (simp add: answers_def)
  then show "answers {200, 507} (writeHeadResponse M J api its tr)" "answers {200, 507} (writeTailResponse M J api its tr off)"
    by (simp_all add: writeHeadResponse_def writeTailResponse_def Let_def big)
  show "answers {200} (writeGetResponse J itm)" by (simp add: writeGetResponse_def answers_def)
  show "answers {200, 507} (writeScopeListResponse M J api es tr)"
    by (simp add: writeScopeListResponse_def Let_def big) (simp add: answers_def)
qed

section \<open>One store call per request\<close>

text \<open>
  A write handler either refuses before it touches the store, or makes one call; the status is 200 exactly when
  the call succeeded.
\<close>

definition relayed :: "httpResponse \<Rightarrow> 'e + 'a \<Rightarrow> bool" where
  "relayed p r \<longleftrightarrow> (case r of Inl e \<Rightarrow> answers {400, 409, 507} p | Inr v \<Rightarrow> answers {200} p)"

lemma relayed_simps [simp]:
  "relayed p (Inl e) = answers {400, 409, 507} p" "relayed p (Inr v) = answers {200} p"
  by (simp_all add: relayed_def)

lemmas handler_defs = handleAppend_def handleUpsert_def handleCounterAdd_def handleUpdate_def handleDelete_def
  handleDeleteUpTo_def handleDeleteScope_def handleWarm_def handleRebuild_def

lemma write_handlers:
  assumes M: "\<forall>e. M e \<noteq> None"
  shows "handleAppend M J inp i api ra s = (p, s') \<Longrightarrow>
      s' = s \<and> answers {400, 405} p \<or> (\<exists>it x. appendOne J inp i it s = (x, s') \<and> relayed p x)"
    and "handleUpsert M J inp i api ra s = (p, s') \<Longrightarrow>
      s' = s \<and> answers {400, 405} p \<or> (\<exists>it x. upsertOne J inp i it s = (x, s') \<and> relayed p x)"
    and "handleUpdate M J inp i api ra s = (p, s') \<Longrightarrow>
      s' = s \<and> answers {400, 405} p \<or> (\<exists>it x. updateOne J inp i it s = (x, s') \<and> relayed p x)"
    and "handleCounterAdd M J inp i api rc s = (p, s') \<Longrightarrow>
      s' = s \<and> answers {400, 405} p \<or> (\<exists>n k d x. counterAddOne J inp i n k d s = (x, s') \<and> relayed p x)"
    and "handleDelete M J inp i capq api rd s = (p, s') \<Longrightarrow>
      s' = s \<and> answers {400, 405} p \<or> (\<exists>n k q u x. deleteOne J inp i capq n k q u s = (x, s') \<and> relayed p x)"
    and "handleDeleteUpTo M J inp i api ru s = (p, s') \<Longrightarrow>
      s' = s \<and> answers {400, 405} p \<or> (\<exists>n m u x. deleteUpTo J inp i n m u s = (x, s') \<and> relayed p x)"
    and "handleDeleteScope M J inp i api rs s = (p, s') \<Longrightarrow>
      s' = s \<and> answers {400, 405} p \<or> (\<exists>n x. deleteScope J inp i n s = (x, s') \<and> relayed p x)"
    and "handleWarm M J inp i bi ord api rb s = (p, s') \<Longrightarrow>
      s' = s \<and> answers {400, 405} p \<or>
      (\<exists>its b x. reqBody rb (apiMaxBulkBytes api) = Decodes its b \<and> replaceScopes J inp i bi (ord (groupItemsByScope its)) s = (x, s') \<and> relayed p x)"
    and "handleRebuild M J now now' bi ord api rb s = (p, s') \<Longrightarrow>
      s' = s \<and> answers {400, 405} p \<or>
      (\<exists>its b x. reqBody rb (apiMaxBulkBytes api) = Decodes its b \<and> rebuildAll J now now' bi (ord (groupItemsByScope its)) s = (x, s') \<and> relayed p x)"
proof -
  note a = answers_simple [OF M, THEN answers_mono] answers_errors [OF M, THEN answers_mono]
  show "handleAppend M J inp i api ra s = (p, s') \<Longrightarrow>
      s' = s \<and> answers {400, 405} p \<or> (\<exists>it x. appendOne J inp i it s = (x, s') \<and> relayed p x)"
    by (fastforce simp: handler_defs a split: if_splits sum.splits prod.splits)
  show "handleUpsert M J inp i api ra s = (p, s') \<Longrightarrow>
      s' = s \<and> answers {400, 405} p \<or> (\<exists>it x. upsertOne J inp i it s = (x, s') \<and> relayed p x)"
    by (fastforce simp: handler_defs a split: if_splits sum.splits prod.splits)
  show "handleUpdate M J inp i api ra s = (p, s') \<Longrightarrow>
      s' = s \<and> answers {400, 405} p \<or> (\<exists>it x. updateOne J inp i it s = (x, s') \<and> relayed p x)"
    by (fastforce simp: handler_defs a split: if_splits sum.splits prod.splits)
  show "handleCounterAdd M J inp i api rc s = (p, s') \<Longrightarrow>
      s' = s \<and> answers {400, 405} p \<or> (\<exists>n k d x. counterAddOne J inp i n k d s = (x, s') \<and> relayed p x)"
    by (fastforce simp: handler_defs a split: if_splits sum.splits prod.splits option.splits)
  show "handleDelete M J inp i capq api rd s = (p, s') \<Longrightarrow>
      s' = s \<and> answers {400, 405} p \<or> (\<exists>n k q u x. deleteOne J inp i capq n k q u s = (x, s') \<and> relayed p x)"
    by (fastforce simp: handler_defs a split: if_splits sum.splits prod.splits)
  show "handleDeleteUpTo M J inp i api ru s = (p, s') \<Longrightarrow>
      s' = s \<and> answers {400, 405} p \<or> (\<exists>n m u x. deleteUpTo J inp i n m u s = (x, s') \<and> relayed p x)"
    by (fastforce simp: handler_defs a split: if_splits sum.splits prod.splits)
  show "handleDeleteScope M J inp i api rs s = (p, s') \<Longrightarrow>
      s' = s \<and> answers {400, 405} p \<or> (\<exists>n x. deleteScope J inp i n s = (x, s') \<and> relayed p x)"
    by (fastforce simp: handler_defs a split: if_splits sum.splits prod.splits)
  show "handleWarm M J inp i bi ord api rb s = (p, s') \<Longrightarrow>
      s' = s \<and> answers {400, 405} p \<or>
      (\<exists>its b x. reqBody rb (apiMaxBulkBytes api) = Decodes its b \<and> replaceScopes J inp i bi (ord (groupItemsByScope its)) s = (x, s') \<and> relayed p x)"
    by (fastforce simp: handler_defs a decodeBody_def split: if_splits sum.splits prod.splits decoding.splits)
  show "handleRebuild M J now now' bi ord api rb s = (p, s') \<Longrightarrow>
      s' = s \<and> answers {400, 405} p \<or>
      (\<exists>its b x. reqBody rb (apiMaxBulkBytes api) = Decodes its b \<and> rebuildAll J now now' bi (ord (groupItemsByScope its)) s = (x, s') \<and> relayed p x)"
    by (fastforce simp: handler_defs a decodeBody_def split: if_splits sum.splits prod.splits decoding.splits)
qed

text \<open>A read handler leaves every scope's items and the totals as they are.\<close>

definition data_kept :: "store \<Rightarrow> store \<Rightarrow> bool" where
  "data_kept s s' \<longleftrightarrow> view s' = view s \<and> acct s' = acct s \<and> scopeCount s' = scopeCount s \<and> shards s' = shards s \<and>
     eventsDropsTotal s' = eventsDropsTotal s \<and> subscribers s' = subscribers s"

lemma data_kept_refl [simp]: "data_kept s s" by (simp add: data_kept_def)

lemma readBuf_kept:
  assumes "store_inv s" "getScope s n = Some p" shows "data_kept s (readBuf now p s)"
  using readBuf_facts [OF assms] by (simp add: data_kept_def) (simp add: readBuf_def)

lemma reads_kept:
  assumes "store_inv s"
  shows "head now n m l s = (r, s') \<Longrightarrow> data_kept s s'" "tail now n l off s = (r', s') \<Longrightarrow> data_kept s s'"
    "store_get now n k q u s = (x, s') \<Longrightarrow> data_kept s s'" "render now n k q u s = (y, s') \<Longrightarrow> data_kept s s'"
  using readBuf_kept [OF assms]
  by (auto simp: head_def tail_def store_get_def render_def split: option.splits prod.splits if_splits)

lemma read_handlers:
  assumes M: "\<forall>e. M e \<noteq> None" and s: "store_inv s"
  shows "handleHead M J now api r s = (p, s') \<Longrightarrow> answers {200, 400, 405, 507} p \<and> data_kept s s' \<and>
      (s' = s \<or> (\<exists>n m l x. head now n m l s = (x, s')))"
    and "handleTail M J now api r s = (p, s') \<Longrightarrow> answers {200, 400, 405, 507} p \<and> data_kept s s' \<and>
      (s' = s \<or> (\<exists>n l off x. tail now n l off s = (x, s')))"
    and "handleGet M J now r s = (p, s') \<Longrightarrow> answers {200, 400, 405} p \<and> data_kept s s' \<and>
      (s' = s \<or> (\<exists>n k q u x. store_get now n k q u s = (x, s')))"
    and "handleRender M now r s = (p, s') \<Longrightarrow> answers {200, 400, 404, 405} p \<and> data_kept s s' \<and>
      (s' = s \<or> (\<exists>n k q u x. render now n k q u s = (x, s')))"
    and "handleStats M r s = (p, s') \<Longrightarrow> answers {200, 405} p \<and> s' = s"
    and "handleScopeList M J api r s = (p, s') \<Longrightarrow> answers {200, 400, 405, 507} p \<and> s' = s"
    and "handleHelp r s = (p, s') \<Longrightarrow> answers {200, 405} p \<and> s' = s"
proof -
  note a = answers_simple [OF M, THEN answers_mono] answers_reads [OF M, THEN answers_mono]
  note k = reads_kept [OF s]
  show "handleHead M J now api r s = (p, s') \<Longrightarrow> answers {200, 400, 405, 507} p \<and> data_kept s s' \<and>
      (s' = s \<or> (\<exists>n m l x. head now n m l s = (x, s')))"
    using k(1) by (fastforce simp: handleHead_def a Let_def split: if_splits sum.splits prod.splits option.splits)
  show "handleTail M J now api r s = (p, s') \<Longrightarrow> answers {200, 400, 405, 507} p \<and> data_kept s s' \<and>
      (s' = s \<or> (\<exists>n l off x. tail now n l off s = (x, s')))"
    using k(2) by (fastforce simp: handleTail_def a split: if_splits sum.splits prod.splits option.splits)
  show "handleGet M J now r s = (p, s') \<Longrightarrow> answers {200, 400, 405} p \<and> data_kept s s' \<and>
      (s' = s \<or> (\<exists>n k q u x. store_get now n k q u s = (x, s')))"
    using k(3) by (fastforce simp: handleGet_def a split: if_splits sum.splits prod.splits option.splits)
  have octet: "answers {200, 400, 404, 405} (newWriter\<lparr>contentType := octetType, status := 200, respBody := b\<rparr>)"
    "answers {200, 400, 404, 405} (newWriter\<lparr>missHeader := True, contentType := octetType, status := 404\<rparr>)" for b
    by (simp_all add: answers_def)
  show "handleRender M now r s = (p, s') \<Longrightarrow> answers {200, 400, 404, 405} p \<and> data_kept s s' \<and>
      (s' = s \<or> (\<exists>n k q u x. render now n k q u s = (x, s')))"
    using k(4) octet by (fastforce simp: handleRender_def a split: if_splits sum.splits prod.splits option.splits)
  show "handleStats M r s = (p, s') \<Longrightarrow> answers {200, 405} p \<and> s' = s"
    by (auto simp: handleStats_def a split: if_splits)
  show "handleScopeList M J api r s = (p, s') \<Longrightarrow> answers {200, 400, 405, 507} p \<and> s' = s"
    by (auto simp: handleScopeList_def a Let_def split: if_splits sum.splits prod.splits option.splits)
  show "handleHelp r s = (p, s') \<Longrightarrow> answers {200, 405} p \<and> s' = s"
    by (auto simp: handleHelp_def answers_def split: if_splits)
qed

section \<open>A failed call keeps the data\<close>

lemma unchanged_kept: "store_inv s \<Longrightarrow> unchanged s s' \<Longrightarrow> data_kept s s'"
  using unchanged_facts(2,4,5,8,10,12) by (simp add: data_kept_def store_inv_def)

lemma appendOne_failed:
  assumes s: "store_inv s" "seqs_below N s" "0 < N" "Suc N < 2 ^ 64" and r: "appendOne J inp i it s = (Inl e, s')"
  shows "unchanged s s'"
proof (cases "validateWriteItem J it ''/append'' (maxItemBytesFor (acct s) (Scope it))")
  case (Inl e')
  then show ?thesis using r by (simp add: appendOne_def unchanged_def)
next
  case (Inr it')
  then have "appendOneTrusted J inp i it' s = (Inl e, s')" using r by (simp add: appendOne_def)
  with s show ?thesis by (cases rule: appendOneTrusted_cases) simp_all
qed

lemma onBuf_err_kept:
  assumes "err_clean m" "buf_ok (bufs s ! p)" "onBuf p m s = (Inl e, s1)"
  shows "s1 = s"
proof -
  obtain a' b' where m: "m (acct s) (bufs s ! p) = (Inl e, a', b')" and s1: "s1 = s\<lparr>acct := a', bufs := (bufs s)[p := b']\<rparr>"
    using assms(3) by (auto simp: onBuf_def split: prod.splits)
  show ?thesis using err_cleanD [OF assms(1,2) m] by (simp add: s1)
qed

lemma linked_buf_ok:
  assumes "store_inv s" "getScope s n = Some p" shows "buf_ok (bufs s ! p)" "\<not> detached (bufs s ! p)"
proof -
  have "shards_ok s" using assms(1) by (simp add: store_inv_def store_ok_def)
  then have "scope_ok s n (bufs s ! p)" using store_scope_ok getScope_iff assms by (simp add: store_inv_def)
  then show "buf_ok (bufs s ! p)" "\<not> detached (bufs s ! p)" by (simp_all add: scope_ok_def)
qed

lemma linked_err_kept:
  "store_inv s \<Longrightarrow> getScope s n = Some p \<Longrightarrow> err_clean m \<Longrightarrow> onBuf p m s = (Inl e, s1) \<Longrightarrow> s1 = s"
  using linked_buf_ok(1) onBuf_err_kept by blast

lemma updateOne_failed:
  assumes s: "store_inv s" and r: "updateOne J inp i it s = (Inl e, s')"
  shows "s' = s"
  using r by (auto simp: updateOne_def split: sum.splits option.splits prod.splits dest: linked_err_kept [OF s _ updateMethod_err])

lemma deleteMethod_err: "err_clean (deleteMethod capq now k q u)" "err_clean (drainMethod now m u)"
  by (auto simp: err_clean_def deleteMethod_def drainMethod_def deleteByID_def deleteBySeq_def deleteByUUID_def deleteFound_def
      deleteUpToSeq_def deleteUpToUUID_def split: if_splits option.splits prod.splits)

lemma deletes_failed:
  assumes s: "store_inv s"
  shows "deleteOne J inp i capq n k q u s = (Inl e, s') \<Longrightarrow> s' = s" "deleteUpTo J inp i n m u s = (Inl e, s') \<Longrightarrow> s' = s"
    "deleteScope J inp i n s = (Inl e, s') \<Longrightarrow> s' = s"
  by (auto simp: deleteOne_def deleteUpTo_def deleteScope_def split: sum.splits option.splits prod.splits
      dest: linked_err_kept [OF s _ deleteMethod_err(1)] linked_err_kept [OF s _ deleteMethod_err(2)])

lemma batches_failed:
  "replaceScopes J inp i bi g s = (Inl e, s') \<Longrightarrow> s' = s" "rebuildAll J now now' bi g s = (Inl e, s') \<Longrightarrow> s' = s"
proof -
  have l: "s' = s" if "replaceLocked bi plans s = (Inl e, s')" for plans
    using that reserveBytes_False(1) by (auto simp: replaceLocked_def Let_def split: prod.splits if_splits)
  show "replaceScopes J inp i bi g s = (Inl e, s') \<Longrightarrow> s' = s"
    using l by (auto simp: replaceScopes_def split: sum.splits prod.splits if_splits)
  show "rebuildAll J now now' bi g s = (Inl e, s') \<Longrightarrow> s' = s"
    by (auto simp: rebuildAll_def Let_def split: sum.splits prod.splits if_splits)
qed

lemma failed_kept:
  assumes s: "store_inv s" "seqs_below N s" "0 < N" "Suc N < 2 ^ 64"
  shows "appendOne J inp i it s = (Inl e, s') \<Longrightarrow> data_kept s s'" "upsertOne J inp i it s = (Inl e, s') \<Longrightarrow> data_kept s s'"
    "counterAddOne J inp i n k d s = (Inl e, s') \<Longrightarrow> data_kept s s'" "updateOne J inp i it s = (Inl e, s') \<Longrightarrow> data_kept s s'"
    "deleteOne J inp i capq n k q u s = (Inl e, s') \<Longrightarrow> data_kept s s'" "deleteUpTo J inp i n m u s = (Inl e, s') \<Longrightarrow> data_kept s s'"
    "deleteScope J inp i n s = (Inl e, s') \<Longrightarrow> data_kept s s'" "replaceScopes J inp i bi g s = (Inl e, s') \<Longrightarrow> data_kept s s'"
    "rebuildAll J now now' bi g s = (Inl e, s') \<Longrightarrow> data_kept s s'"
proof -
  show "appendOne J inp i it s = (Inl e, s') \<Longrightarrow> data_kept s s'" by (rule unchanged_kept [OF s(1) appendOne_failed [OF s]])
  show "upsertOne J inp i it s = (Inl e, s') \<Longrightarrow> data_kept s s'"
    using s by (elim upsertOne_cases [rotated 4]) (simp_all add: unchanged_kept)
  show "counterAddOne J inp i n k d s = (Inl e, s') \<Longrightarrow> data_kept s s'"
    using s by (elim counterAddOne_cases [rotated 4]) (simp_all add: unchanged_kept)
  show "updateOne J inp i it s = (Inl e, s') \<Longrightarrow> data_kept s s'" using updateOne_failed [OF s(1)] by fastforce
  show "deleteOne J inp i capq n k q u s = (Inl e, s') \<Longrightarrow> data_kept s s'" using deletes_failed(1) [OF s(1)] by fastforce
  show "deleteUpTo J inp i n m u s = (Inl e, s') \<Longrightarrow> data_kept s s'" using deletes_failed(2) [OF s(1)] by fastforce
  show "deleteScope J inp i n s = (Inl e, s') \<Longrightarrow> data_kept s s'" using deletes_failed(3) [OF s(1)] by fastforce
  show "replaceScopes J inp i bi g s = (Inl e, s') \<Longrightarrow> data_kept s s'" using batches_failed(1) by fastforce
  show "rebuildAll J now now' bi g s = (Inl e, s') \<Longrightarrow> data_kept s s'" using batches_failed(2) by fastforce
qed

section \<open>A request is a step of the cache\<close>

text \<open>Grouping keeps the number of items.\<close>

lemma batchLen_update:
  "distinct (map fst g) \<Longrightarrow>
   batchLen (AList.update n ((case map_of g n of None \<Rightarrow> [] | Some xs \<Rightarrow> xs) @ [x]) g) = Suc (batchLen g)"
proof (induction g)
  case (Cons a g)
  obtain m xs where a: "a = (m, xs)" by fastforce
  show ?case
  proof (cases "m = n")
    case True
    then show ?thesis by (simp add: a batchLen_def)
  next
    case False
    then show ?thesis using Cons by (simp add: a batchLen_def)
  qed
qed (simp add: batchLen_def)

lemma batchLen_group: "batchLen (groupItemsByScope its) = length its"
proof -
  let ?f = "\<lambda>it grouped. AList.update (Scope it)
      ((case map_of grouped (Scope it) of None \<Rightarrow> [] | Some xs \<Rightarrow> xs) @ [it]) grouped"
  have "distinct (map fst g) \<Longrightarrow> batchLen (fold ?f its g) = batchLen g + length its" for g
    by (induction its arbitrary: g) (simp_all add: batchLen_update distinct_update)
  from this [of "[]"] show ?thesis by (simp add: groupItemsByScope_def batchLen_def)
qed

definition iterates :: "iteration \<Rightarrow> bool" where
  "iterates ord \<longleftrightarrow> (\<forall>g. mset (ord g) = mset g)"

lemma iterated_group:
  assumes "iterates ord"
  shows "distinct (map fst (ord (groupItemsByScope its)))" "batchLen (ord (groupItemsByScope its)) = length its"
proof -
  have m: "mset (ord (groupItemsByScope its)) = mset (groupItemsByScope its)" using assms by (simp add: iterates_def)
  show "distinct (map fst (ord (groupItemsByScope its)))"
    using groupItemsByScope_spec(1) [of its] m by (metis mset_eq_imp_distinct_iff mset_map)
  show "batchLen (ord (groupItemsByScope its)) = length its"
    using batchLen_group [of its] m unfolding batchLen_def by (metis mset_map sum_mset_sum_list)
qed

fun callIterates :: "httpCall \<Rightarrow> bool" where
  "callIterates (PathWarm bi ord r) = iterates ord"
| "callIterates (PathRebuild bi ord r) = iterates ord"
| "callIterates q = True"

text \<open>How far a request can advance a sequence counter.\<close>

definition bodyWeight :: "API \<Rightarrow> item list httpRequest \<Rightarrow> nat" where
  "bodyWeight api r = (case reqBody r (apiMaxBulkBytes api) of Decodes its b \<Rightarrow> length its + 2 | _ \<Rightarrow> 2)"

fun callWeight :: "API \<Rightarrow> httpCall \<Rightarrow> nat" where
  "callWeight api (PathWarm bi ord r) = bodyWeight api r"
| "callWeight api (PathRebuild bi ord r) = bodyWeight api r"
| "callWeight api q = 2"

definition served :: "jsonLib \<Rightarrow> nat \<Rightarrow> store \<Rightarrow> httpResponse \<Rightarrow> store \<Rightarrow> bool" where
  "served J w s p s' \<longleftrightarrow> answers {200, 400, 404, 405, 409, 507} p \<and> (status p \<noteq> 200 \<longrightarrow> data_kept s s') \<and>
     (s' = s \<or> store_step J w s s')"

lemma served_early: "s' = s \<Longrightarrow> answers {400, 405} p \<Longrightarrow> served J w s p s'"
  by (auto simp: served_def elim: answers_mono)

lemma served_call:
  assumes "relayed p x" "\<And>e. x = Inl e \<Longrightarrow> data_kept s s'" "store_step J w s s'"
  shows "served J w s p s'"
  using assms by (cases x) (auto simp: served_def elim: answers_mono dest: answers_status)

lemma served_read:
  "answers {200, 400, 404, 405, 507} p \<Longrightarrow> data_kept s s' \<Longrightarrow> s' = s \<or> store_step J w s s' \<Longrightarrow> served J w s p s'"
  by (auto simp: served_def elim: answers_mono)

lemma route_outcome:
  assumes M: "\<forall>e. M e \<noteq> None" and s: "store_inv s" "seqs_below N s" "0 < N" "Suc N < 2 ^ 64"
    and q: "callIterates q" and r: "RegisterRoutes M J inp i api q s = (p, s')"
  shows "served J (callWeight api q) s p s'"
proof -
  note w = write_handlers [OF M]
  note f = failed_kept [OF s]
  note g = read_handlers [OF M s(1)]
  show ?thesis
  proof (cases q)
    case (PathAppend x)
    with w(1) [of J inp i api x s p s'] r show ?thesis by (auto intro: served_early served_call store_step.append f)
  next
    case (PathUpdate x)
    with w(3) [of J inp i api x s p s'] r show ?thesis by (auto intro: served_early served_call store_step.update f)
  next
    case (PathUpsert x)
    with w(2) [of J inp i api x s p s'] r show ?thesis by (auto intro: served_early served_call store_step.upsert f)
  next
    case (PathCounterAdd x)
    with w(4) [of J inp i api x s p s'] r show ?thesis by (auto intro: served_early served_call store_step.counter_add f)
  next
    case (PathDelete c x)
    with w(5) [of J inp i c api x s p s'] r show ?thesis by (auto intro: served_early served_call store_step.delete f)
  next
    case (PathDeleteUpTo x)
    with w(6) [of J inp i api x s p s'] r show ?thesis by (auto intro: served_early served_call store_step.delete_up_to f)
  next
    case (PathDeleteScope x)
    with w(7) [of J inp i api x s p s'] r show ?thesis by (auto intro: served_early served_call store_step.delete_scope f)
  next
    case (PathWarm bi ord x)
    with q have o1: "iterates ord" by simp
    from r [unfolded PathWarm RegisterRoutes.simps, THEN w(8)] show ?thesis
    proof (elim disjE exE conjE)
      fix its b y
      assume y: "reqBody x (apiMaxBulkBytes api) = Decodes its b" "replaceScopes J inp i bi (ord (groupItemsByScope its)) s = (y, s')" "relayed p y"
      have "store_step J (length its + 2) s s'"
        using store_step.warm [OF y(2) iterated_group(1) [OF o1]] by (simp add: iterated_group(2) [OF o1])
      then have "served J (length its + 2) s p s'" using y(2) by (intro served_call [OF y(3)] f(8)) auto
      then show ?thesis by (simp add: PathWarm bodyWeight_def y(1))
    qed (auto intro: served_early)
  next
    case (PathRebuild bi ord x)
    with q have o1: "iterates ord" by simp
    from r [unfolded PathRebuild RegisterRoutes.simps, THEN w(9)] show ?thesis
    proof (elim disjE exE conjE)
      fix its b y
      assume y: "reqBody x (apiMaxBulkBytes api) = Decodes its b"
        "rebuildAll J (fst (inp i)) (fst (inp (i + 1))) bi (ord (groupItemsByScope its)) s = (y, s')" "relayed p y"
      have "store_step J (length its + 2) s s'"
        using store_step.rebuild [OF y(2) iterated_group(1) [OF o1]] by (simp add: iterated_group(2) [OF o1])
      then have "served J (length its + 2) s p s'" using y(2) by (intro served_call [OF y(3)] f(9)) auto
      then show ?thesis by (simp add: PathRebuild bodyWeight_def y(1))
    qed (auto intro: served_early)
  next
    case (PathWipe x)
    have "answers {200} p \<and> store_step J 2 s s' \<or> answers {405} p \<and> s' = s"
      using r PathWipe answers_simple(3,7) [OF M]
      by (auto simp: handleWipe_def split: if_splits prod.splits intro: store_step.wipe)
    then show ?thesis using PathWipe by (auto simp: served_def elim: answers_mono dest: answers_status)
  next
    case (PathHead x)
    with g(1) [of J "fst (inp i)" api x p s'] r show ?thesis
      by (auto intro!: served_read elim: answers_mono intro: store_step.head)
  next
    case (PathTail x)
    with g(2) [of J "fst (inp i)" api x p s'] r show ?thesis
      by (auto intro!: served_read elim: answers_mono intro: store_step.tail)
  next
    case (PathGet x)
    with g(3) [of J "fst (inp i)" x p s'] r show ?thesis
      by (auto intro!: served_read elim: answers_mono intro: store_step.get)
  next
    case (PathRender x)
    with g(4) [of "fst (inp i)" x p s'] r show ?thesis
      by (auto intro!: served_read elim: answers_mono intro: store_step.render)
  next
    case (PathStats x)
    with g(5) [of x p s'] r show ?thesis by (auto intro!: served_read elim: answers_mono)
  next
    case (PathScopeList x)
    with g(6) [of J api x p s'] r show ?thesis by (auto intro!: served_read elim: answers_mono)
  next
    case (PathHelp x)
    with g(7) [of x p s'] r show ?thesis by (auto intro!: served_read elim: answers_mono)
  qed
qed

end
