(* ===== verification/Wire_Laws.thy ===== *)
theory Wire_Laws
  imports Handlers
begin

text \<open>
  The byte builders append to their buffer, so the public builders of \<^verbatim>\<open>wire.go\<close> and the private writers
  of the handlers can be compared; and a lower bound on what they write.
\<close>

section \<open>Appending\<close>

named_theorems appends

lemma length_raw [simp]: "length (raw s) = length s"
  by (simp add: raw_def)

lemma appendJSONString_app [appends]: "NO_MATCH [] b \<Longrightarrow> AppendJSONString J b s = b @ AppendJSONString J [] s"
  by (simp add: AppendJSONString_def)

lemma appendUUIDJSON_app [appends]: "NO_MATCH [] b \<Longrightarrow> appendUUIDJSON b u = b @ appendUUIDJSON [] u"
  by (simp add: appendUUIDJSON_def appendUUIDHex_def)

lemma appendItemJSON_app [appends]: "NO_MATCH [] b \<Longrightarrow> AppendItemJSON J b it = b @ AppendItemJSON J [] it"
  by (simp add: AppendItemJSON_def Let_def appends split: prod.split)

lemma appendScopeListEntry_app [appends]:
  "NO_MATCH [] b \<Longrightarrow> appendScopeListEntryJSON J b e = b @ appendScopeListEntryJSON J [] e"
  by (simp add: appendScopeListEntryJSON_def Let_def appends)

lemma appendEach_app:
  assumes "\<And>b x. f b x = b @ f [] x"
  shows "appendEach f b i xs = b @ appendEach f [] i xs"
proof (induction xs arbitrary: b i)
  case (Cons x xs)
  let ?c = "if i > 0 then '','' else []"
  have e: "(if i > 0 then z @ '','' else z) = z @ ?c" for z :: string by simp
  have "appendEach f z i (x # xs) = z @ ?c @ f [] x @ appendEach f [] (Suc i) xs" for z
    unfolding appendEach.simps e by (subst Cons, subst assms) simp
  from this [of b] this [of "[]"] show ?case by simp
qed simp

lemma item_at_end: "AppendItemJSON J b it = b @ AppendItemJSON J [] it"
  by (cases "b = []") (simp_all add: appendItemJSON_app)

lemma entry_at_end: "appendScopeListEntryJSON J b e = b @ appendScopeListEntryJSON J [] e"
  by (cases "b = []") (simp_all add: appendScopeListEntry_app)

lemma items_app: "NO_MATCH [] b \<Longrightarrow> appendEach (AppendItemJSON J) b i its = b @ appendEach (AppendItemJSON J) [] i its"
  by (rule appendEach_app) (rule item_at_end)

lemma entries_app:
  "NO_MATCH [] b \<Longrightarrow> appendEach (appendScopeListEntryJSON J) b i es = b @ appendEach (appendScopeListEntryJSON J) [] i es"
  by (rule appendEach_app) (rule entry_at_end)

section \<open>The handlers' bodies are the public builders'\<close>

lemma bodies_same:
  "itemsBody J its tr None = AppendHeadResponseJSON J [] its tr"
  "itemsBody J its tr (Some off) = AppendTailResponseJSON J [] its tr off"
  "scopeListBody J es tr = AppendScopeListResponseJSON J [] es tr"
  by (simp_all add: itemsBody_def AppendHeadResponseJSON_def AppendTailResponseJSON_def appendItemsEnvelopeJSON_def appendSize_def
      scopeListBody_def AppendScopeListResponseJSON_def Let_def)

lemma get_body_same:
  assumes "\<forall>it. itm = Some it \<longrightarrow> Payload it \<noteq> []"
  shows "getBody J itm = AppendGetResponseJSON J [] itm"
  using assms by (cases itm) (simp_all add: getBody_def getPrefix_def AppendGetResponseJSON_def appendSize_def AppendItemJSON_def
      appends raw_def add.assoc Let_def)

section \<open>Lower bounds\<close>

definition long_strings :: "jsonLib \<Rightarrow> bool" where
  "long_strings J \<longleftrightarrow> (\<forall>s. length s \<le> length (marshalString J s))"

lemma appendUint_pos: "1 \<le> length (appendUint n)"
  using appendUint_nonempty [of n] by (cases "appendUint n") auto

lemma appendInt_pos: "1 \<le> length (appendInt v)"
  using appendUint_pos by (auto simp: appendInt_def)

lemma JSONString_long: "long_strings J \<Longrightarrow> length s \<le> length (AppendJSONString J [] s)"
  by (auto simp: AppendJSONString_def long_strings_def intro: order_trans)

lemma item_long:
  assumes "long_strings J"
  shows "int (length (Scope it)) + int (length (ID it)) + int (length (Payload it)) + multiItemPerItemMinBytes
    \<le> int (length (AppendItemJSON J [] it))"
proof -
  note l = JSONString_long [OF assms, of "Scope it"] JSONString_long [OF assms, of "ID it"] appendUint_pos [of "Seq it"] appendInt_pos [of "Ts it"]
  show ?thesis
    using l by (cases "Scope it = EventsScopeName"; cases "ID it = []"; cases "Payload it = []")
      (simp_all add: AppendItemJSON_def appends multiItemPerItemMinBytes_def)
qed

lemma items_long:
  assumes "long_strings J"
  shows "(\<Sum>it\<leftarrow>its. int (length (Scope it)) + int (length (ID it)) + int (length (Payload it)) + multiItemPerItemMinBytes)
    \<le> int (length (appendEach (AppendItemJSON J) [] i its))"
proof (induction its arbitrary: i)
  case (Cons it its)
  have "appendEach (AppendItemJSON J) [] i (it # its) =
      (if i > 0 then '','' else []) @ AppendItemJSON J [] it @ appendEach (AppendItemJSON J) [] (Suc i) its"
    by (simp add: item_at_end [of J "'',''"] items_app)
  then show ?case using item_long [OF assms, of it] Cons [of "Suc i"] by simp
qed simp

lemma appendMB_long: "6 \<le> length (appendMB n)"
  using appendUint_pos [of "nat (round_half_even (float64_abs n * 10000) 1048576 div 10000)"]
  by (simp add: appendMB_def pad4_def Let_def)

lemma estimate_sum:
  "estimateMultiItemResponseBytes its = multiItemEnvelopeMinBytes +
     (\<Sum>it\<leftarrow>its. int (length (Scope it)) + int (length (ID it)) + int (length (Payload it)) + multiItemPerItemMinBytes)"
proof -
  have "fold (\<lambda>it n. n + int (length (Scope it)) + int (length (ID it)) + int (length (Payload it))) its z =
      z + (\<Sum>it\<leftarrow>its. int (length (Scope it)) + int (length (ID it)) + int (length (Payload it)))" for z
    by (induction its arbitrary: z) simp_all
  then show ?thesis by (simp add: estimateMultiItemResponseBytes_def sum_list_addf sum_list_triv)
qed

lemma itemsBody_long:
  assumes "long_strings J"
  shows "estimateMultiItemResponseBytes its \<le> int (length (itemsBody J its tr offset))"
proof -
  note l = items_long [OF assms, of its 0] appendInt_pos [of "int (length its)"] appendMB_long
  have "length (appendBool b) \<ge> 4" for b by (simp add: appendBool_def)
  from this [of "length its > 0"] this [of tr] show ?thesis
    using l unfolding estimate_sum
    by (cases offset) (simp_all add: itemsBody_def items_app multiItemEnvelopeMinBytes_def Let_def add_increasing)
qed

section \<open>The wire and the charge\<close>

text \<open>An item that is neither a counter nor carries rendered bytes is written in more bytes than the store charges for it.\<close>

definition plain_item :: "item \<Rightarrow> bool" where
  "plain_item it \<longleftrightarrow> renderBytes it = None \<and> counter it = None \<and> length (UUID it) = 16"

lemma uuid_written: "length u = 16 \<Longrightarrow> length (appendUUIDJSON [] u) = (if IsZero u then 2 else 38)"
  by (auto simp: appendUUIDJSON_def length16 appendUUIDHex_def hexPair_def)

lemma item_over_charge:
  assumes "long_strings J" "plain_item it"
  shows "approxItemSize it + 4 \<le> int (length (AppendItemJSON J [] it))"
proof -
  note l = JSONString_long [OF assms(1), of "Scope it"] JSONString_long [OF assms(1), of "ID it"] appendUint_pos [of "Seq it"] appendInt_pos [of "Ts it"]
  show ?thesis
    using l assms(2) by (cases "Scope it = EventsScopeName"; cases "ID it = []"; cases "Payload it = []")
      (simp_all add: AppendItemJSON_def appends approxItemSize_def plain_item_def renderLen_def uuid_written uuidStringLen_def Let_def)
qed

lemma page_over_charge:
  assumes "long_strings J" "\<forall>it \<in> set its. plain_item it"
  shows "(\<Sum>it\<leftarrow>its. approxItemSize it) + 4 * int (length its) < int (length (itemsBody J its tr offset))"
proof -
  have "(\<Sum>it\<leftarrow>its. approxItemSize it) + 4 * int (length its) \<le> int (length (appendEach (AppendItemJSON J) [] i its))" for i
    using assms(2)
  proof (induction its arbitrary: i)
    case (Cons it its)
    have "appendEach (AppendItemJSON J) [] i (it # its) =
        (if i > 0 then '','' else []) @ AppendItemJSON J [] it @ appendEach (AppendItemJSON J) [] (Suc i) its"
      by (simp add: item_at_end [of J "'',''"] items_app)
    then show ?case using item_over_charge [OF assms(1), of it] Cons.IH [of "Suc i"] Cons.prems by simp
  qed simp
  from this [of 0] show ?thesis by (cases offset) (simp_all add: itemsBody_def items_app Let_def)
qed

end
