(* ===== verification/Props_Http.thy ===== *)
theory Props_Http
  imports Sample Http_Laws Wire_Laws
begin

text \<open>
  The properties of the HTTP layer: what every request leaves behind, a write read back through the
  handlers, the wire format of the two builders, and the size estimate.
\<close>

section \<open>Requests on reachable states\<close>

text \<open>C4: Whatever request arrives on whatever path in a reachable state, it is answered with one of six status codes, the
  \<^verbatim>\<open>Allow\<close> header is set exactly for a refused method, a miss is flagged only with 200 or 404; a request that
  is not answered with 200 leaves every scope's items, the totals, the scope map, the drop counter and the
  subscriptions as they were; and the state it leaves is reachable again.\<close>

theorem http_request:
  assumes "\<forall>e. M e \<noteq> None" "reachable J c N s" "cfgMaxStoreBytes c \<le> MaxInt64" "Suc N < 2 ^ 64" "callIterates q"
    "RegisterRoutes M J inp i api q s = (p, s')"
  shows "status p \<in> {200, 400, 404, 405, 409, 507} \<and> (allowHeader p \<noteq> None \<longleftrightarrow> status p = 405) \<and>
    (missHeader p \<longrightarrow> status p \<in> {200, 404}) \<and>
    (status p \<noteq> 200 \<longrightarrow> view s' = view s \<and> acct s' = acct s \<and> scopeCount s' = scopeCount s \<and> shards s' = shards s \<and>
       eventsDropsTotal s' = eventsDropsTotal s \<and> subscribers s' = subscribers s) \<and>
    (\<exists>N' \<le> N + callWeight api q. reachable J c N' s')"
proof -
  have "N < 2 ^ 64" using assms(4) by simp
  note s = reachable_inv [OF assms(2,3) this]
  have v: "served J (callWeight api q) s p s'" by (rule route_outcome [OF assms(1) s(1-3) assms(4-6)])
  then have "s' = s \<or> store_step J (callWeight api q) s s'" by (simp add: served_def)
  then have "\<exists>N' \<le> N + callWeight api q. reachable J c N' s'"
    using assms(2) reachable.step [OF assms(2)] by (meson le_add1 order_refl)
  with v show ?thesis unfolding served_def answers_def data_kept_def by blast
qed

definition sampleMarshal :: marshaller where
  "sampleMarshal e = Some (case e of ErrorResponse m \<Rightarrow> ''error'' | AppendResponse c a \<Rightarrow> waScope a | _ \<Rightarrow> ''ok'')"

definition sampleRequest :: "string \<Rightarrow> (string \<times> string) list \<Rightarrow> 'a \<Rightarrow> 'a httpRequest" where
  "sampleRequest m q v = \<lparr>reqMethod = m, reqQuery = q, reqBody = (\<lambda>_. Decodes v True)\<rparr>"

lemma sample_marshal: "\<forall>e. sampleMarshal e \<noteq> None" by (simp add: sampleMarshal_def)

text \<open>A second append of the same id is answered with 409 and leaves the store's items alone.\<close>

theorem http_request_witness:
  "let q = PathAppend (sampleRequest ''POST'' [] (sampleItem ''a'' ''2''));
       (p, s') = RegisterRoutes sampleMarshal sampleJson sampleInp 20 (NewAPI sampleStore) q sampleStore
   in status p = 409 \<and> view s' = view sampleStore \<and> (\<exists>N' \<le> 5. reachable sampleJson sampleConf N' s')"
proof -
  let ?q = "PathAppend (sampleRequest ''POST'' [] (sampleItem ''a'' ''2''))"
  let ?r = "RegisterRoutes sampleMarshal sampleJson sampleInp 20 (NewAPI sampleStore) ?q sampleStore"
  have e: "status (fst ?r) = 409" by code_simp
  obtain p s' where d: "?r = (p, s')" by fastforce
  show ?thesis
    using http_request [OF sample_marshal sample_reachable sample_conf _ _ d] e unfolding d Let_def prod.case by simp
qed

section \<open>A write read back\<close>

lemma appendItem_plain: "appendItem J now u it a b = (Inr st, a', b') \<Longrightarrow> counter st = None"
  by (auto simp: appendItem_def insertNewItemLocked_def installItemLocked_def preparedItem_def Let_def
      split: if_splits prod.splits)

lemma commitAppend_plain: "commitAppend J inp i it s = (Inr st, s') \<Longrightarrow> counter st = None"
  by (auto simp: commitAppend_def withScope_def onBuf_def Let_def dest: appendItem_plain split: sum.splits prod.splits)

lemma view_get:
  assumes "store_inv s" "view s n = Some xs" "x \<in> set xs" "counter x = None" "ID x \<noteq> []"
  shows "fst (store_get now n (ID x) 0 [] s) = Some x"
proof -
  from assms(2) obtain p where p: "getScope s n = Some p" "xs = bufItems (bufs s ! p)" by (auto simp: view_def)
  have ok: "buf_ok (bufs s ! p)" 
    using assms(1) p(1) store_scope_ok [of s n p] by (auto simp: store_inv_def store_ok_def scope_ok_def getScope_iff)
  have "materialiseCounter x = x" using assms(4) by (simp add: materialiseCounter_def)
  then have "x \<in> set (shown (bufs s ! p))" using assms(3) p(2) by (force simp: shown_def)
  then have "getByID (ID x) (bufs s ! p) = Some x" using byId.lookup_iff [OF ok assms(5)] by simp
  then show ?thesis using p(1) assms(5) by (simp add: store_get_def lookupTarget_def)
qed

text \<open>The item an append acknowledges is in its scope afterwards, without a counter cell.\<close>

lemma append_visible:
  assumes s: "store_inv s" "seqs_below N s" "0 < N" "Suc N < 2 ^ 64" and r: "appendOne J inp i it s = (Inr st, s')"
  shows "store_inv s'" "Scope st = Scope it" "ID st = ID it" "Payload st = Payload it" "counter st = None"
    "\<exists>xs. view s' (Scope it) = Some (xs @ [st])" "validateScope (Scope it) ''/get'' = None" "validateID (ID it) = None"
proof -
  obtain it' where v: "validateWriteItem J it ''/append'' (maxItemBytesFor (acct s) (Scope it)) = Inr it'"
    and t: "appendOneTrusted J inp i it' s = (Inr st, s')"
    using r by (auto simp: appendOne_def split: sum.splits)
  note w = validateWriteItem_Inr [OF v]
  from v show "validateScope (Scope it) ''/get'' = None" "validateID (ID it) = None"
    by (auto simp: validateWriteItem_def sized_Inr firstErr_None validateScope_def split: if_splits)
  have "store_inv s' \<and> Scope st = Scope it \<and> ID st = ID it \<and> Payload st = Payload it \<and> counter st = None \<and>
      (\<exists>xs. view s' (Scope it) = Some (xs @ [st]))"
    using s t
  proof (cases rule: appendOneTrusted_cases)
    case (okay x s1 s2)
    have "view s' (Scope it) = view s1 (Scope it)"
      using data_eq_facts(2) [OF okay(10)] logged_facts(4) [OF okay(3,9)] w(11) by simp
    then show ?thesis using okay w commitAppend_plain [OF okay(2)] by simp
  qed simp
  then show "store_inv s'" "Scope st = Scope it" "ID st = ID it" "Payload st = Payload it" "counter st = None"
    "\<exists>xs. view s' (Scope it) = Some (xs @ [st])" by blast+
qed

text \<open>C5: An item with an id that \<^verbatim>\<open>POST /append\<close> accepts comes back from \<^verbatim>\<open>GET /get\<close> under its scope and id: 200, no miss, and
  the body holds an item with the payload that was sent and exactly the sequence number, time and uuid that the
  acknowledgement of the append reported.\<close>

theorem append_then_get:
  assumes M: "\<forall>e. M e \<noteq> None" and s: "reachable J c N s" "cfgMaxStoreBytes c \<le> MaxInt64" "Suc N < 2 ^ 64"
    and a: "handleAppend M J inp i api r s = (p, s')" "status p = 200" "reqBody r (apiMaxSingleBytes api) = Decodes it e" "ID it \<noteq> []"
    and g: "reqMethod g = ''GET''" "reqQuery g = [(''scope'', Scope it), (''id'', ID it)]" "handleGet M J now g s' = (p', s'')"
  shows "\<exists>x. status p' = 200 \<and> \<not> missHeader p' \<and> respBody p' = getBody J (Some x) \<and>
    Scope x = Scope it \<and> ID x = ID it \<and> Payload x = Payload it \<and>
    respBody p = the (M (AppendResponse True (newWriteAck x))) @ [CHR 0x0A]"
proof -
  have "N < 2 ^ 64" using s(3) by simp
  note i = reachable_inv [OF s(1,2) this]
  have bad: "status (badRequest M newWriter m) \<noteq> 200" "status (methodNotAllowed M newWriter q) \<noteq> 200" for m q
    using M by (auto simp: badRequest_def methodNotAllowed_def writeJSONResponse_def split: option.split)
  have err: "status (writeMutationError M newWriter e n) \<noteq> 200" for e n
    using answers_errors(1) [OF M, of e n] by (auto simp: answers_def)
  obtain st where st: "appendOne J inp i it s = (Inr st, s')" "p = writeJSONResponse M newWriter 200 (AppendResponse True (newWriteAck st))"
    using a(1-3) bad err
    by (auto simp: handleAppend_def decodeBody_def Let_def split: if_splits sum.splits prod.splits)
  note v = append_visible [OF i(1-3) s(3) st(1)]
  obtain xs where xs: "view s' (Scope it) = Some (xs @ [st])" using v(6) by blast
  have "parseLookupTarget (reqQuery g) ''/get'' = Inr \<lparr>ltScope = Scope it, ltID = ID it, ltSeq = 0, ltUUID = []\<rparr>"
    using a(4) v(7,8) by (simp add: g(2) parseLookupTarget_def queryGet_def)
  moreover have "fst (store_get now (Scope it) (ID it) 0 [] s') = Some st"
    using view_get [OF v(1) xs, of st now] v(3,5) a(4) by simp
  ultimately have "p' = writeGetResponse J (Some st)"
    using g(1,3) a(4) by (simp add: handleGet_def split: prod.splits)
  then have "status p' = 200 \<and> \<not> missHeader p' \<and> respBody p' = getBody J (Some st)"
    by (simp add: writeGetResponse_def newWriter_def)
  moreover obtain body where "M (AppendResponse True (newWriteAck st)) = Some body" using M by blast
  then have "respBody p = the (M (AppendResponse True (newWriteAck st))) @ [CHR 0x0A]"
    unfolding st(2) by (simp add: writeJSONResponse_def)
  ultimately show ?thesis using v(2-4) by blast
qed

theorem append_then_get_witness:
  "let (p, s') = handleAppend sampleMarshal sampleJson sampleInp 20 (NewAPI sampleStore)
         (sampleRequest ''POST'' [] (sampleItem ''b'' ''[7]'')) sampleStore;
       (p', s'') = handleGet sampleMarshal sampleJson 500 (sampleRequest ''GET'' [(''scope'', ''posts''), (''id'', ''b'')] ()) s'
   in status p = 200 \<and> (\<exists>x. respBody p' = getBody sampleJson (Some x) \<and> Payload x = ''[7]'')"
proof -
  let ?r = "sampleRequest ''POST'' [] (sampleItem ''b'' ''[7]'')"
  let ?g = "sampleRequest ''GET'' [(''scope'', ''posts''), (''id'', ''b'')] ()"
  obtain p s' where a: "handleAppend sampleMarshal sampleJson sampleInp 20 (NewAPI sampleStore) ?r sampleStore = (p, s')" by fastforce
  obtain p' s'' where g: "handleGet sampleMarshal sampleJson 500 ?g s' = (p', s'')" by fastforce
  have "status (fst (handleAppend sampleMarshal sampleJson sampleInp 20 (NewAPI sampleStore) ?r sampleStore)) = 200" by code_simp
  then have ok: "status p = 200" by (simp add: a)
  have "\<exists>x. status p' = 200 \<and> \<not> missHeader p' \<and> respBody p' = getBody sampleJson (Some x) \<and> Scope x = ''posts'' \<and>
      ID x = ''b'' \<and> Payload x = ''[7]'' \<and> respBody p = the (sampleMarshal (AppendResponse True (newWriteAck x))) @ [CHR 0x0A]"
    using append_then_get [OF sample_marshal sample_reachable sample_conf _ a ok, of "sampleItem ''b'' ''[7]''" True ?g 500 p' s''] g
    by (simp add: sampleRequest_def sampleItem_def)
  then show ?thesis using a g ok unfolding Let_def by auto
qed

section \<open>The wire format\<close>

text \<open>C31: The public builders of \<^verbatim>\<open>wire.go\<close> and the private writers of the handlers produce the same bytes: the bodies of
  \<^verbatim>\<open>/head\<close>, \<^verbatim>\<open>/tail\<close> and \<^verbatim>\<open>/scopelist\<close> always, that of \<^verbatim>\<open>/get\<close> for a miss and for an item with a payload, and an item alone
  as \<^verbatim>\<open>MarshalJSON\<close> writes it. A builder that is given a buffer keeps its content in front and writes the same bytes
  after it, the size field included.\<close>

theorem wire_identity:
  "itemsBody J its tr None = AppendHeadResponseJSON J [] its tr \<and>
   itemsBody J its tr (Some off) = AppendTailResponseJSON J [] its tr off \<and>
   scopeListBody J es tr = AppendScopeListResponseJSON J [] es tr \<and>
   getBody J None = AppendGetResponseJSON J [] None \<and>
   (Payload it = [] \<or> getBody J (Some it) = AppendGetResponseJSON J [] (Some it)) \<and>
   Item_MarshalJSON J it = AppendItemJSON J [] it \<and>
   AppendItemJSON J b it = b @ AppendItemJSON J [] it \<and>
   AppendHeadResponseJSON J b its tr = b @ AppendHeadResponseJSON J [] its tr \<and>
   AppendTailResponseJSON J b its tr off = b @ AppendTailResponseJSON J [] its tr off \<and>
   AppendScopeListResponseJSON J b es tr = b @ AppendScopeListResponseJSON J [] es tr \<and>
   AppendGetResponseJSON J b itm = b @ AppendGetResponseJSON J [] itm"
proof (intro conjI)
  note d = AppendHeadResponseJSON_def AppendTailResponseJSON_def appendItemsEnvelopeJSON_def appendSize_def Let_def
    AppendScopeListResponseJSON_def AppendGetResponseJSON_def
  show "itemsBody J its tr None = AppendHeadResponseJSON J [] its tr"
    "itemsBody J its tr (Some off) = AppendTailResponseJSON J [] its tr off"
    "scopeListBody J es tr = AppendScopeListResponseJSON J [] es tr"
    "getBody J None = AppendGetResponseJSON J [] None" by (simp_all add: bodies_same get_body_same)
  show "Item_MarshalJSON J it = AppendItemJSON J [] it"
    by (simp add: Item_MarshalJSON_def AppendItemJSON_def raw_def Let_def)
  show "Payload it = [] \<or> getBody J (Some it) = AppendGetResponseJSON J [] (Some it)"
    by (cases "Payload it = []") (simp_all add: get_body_same)
  show "AppendItemJSON J b it = b @ AppendItemJSON J [] it" by (rule item_at_end)
  show "AppendHeadResponseJSON J b its tr = b @ AppendHeadResponseJSON J [] its tr"
    "AppendTailResponseJSON J b its tr off = b @ AppendTailResponseJSON J [] its tr off"
    "AppendScopeListResponseJSON J b es tr = b @ AppendScopeListResponseJSON J [] es tr"
    by (simp_all add: d items_app entries_app)
  show "AppendGetResponseJSON J b itm = b @ AppendGetResponseJSON J [] itm"
    by (cases itm) (simp_all add: d appends)
qed

section \<open>The size estimate\<close>

text \<open>C33: The estimate that refuses a \<^verbatim>\<open>/head\<close> or \<^verbatim>\<open>/tail\<close> before its body is built never refuses one that would fit: it is at
  most the length of the body, for every list of items, provided that the JSON library writes a string in at least
  as many bytes as it has. But a page of items that are not counters and carry no rendered bytes is longer than what the store charges
  for them, by at least four bytes an item; so a scope that fits under the cap of the store need not fit into a response under the
  same cap.\<close>

theorem preflight_conservative:
  assumes "\<forall>t. length t \<le> length (marshalString J t)"
  shows "estimateMultiItemResponseBytes its \<le> int (length (itemsBody J its tr off)) \<and>
    ((\<forall>it \<in> set its. renderBytes it = None \<and> counter it = None \<and> length (UUID it) = 16) \<longrightarrow>
       (\<Sum>it\<leftarrow>its. approxItemSize it) + 4 * int (length its) < int (length (itemsBody J its tr off)))"
proof -
  have l: "long_strings J" using assms by (simp add: long_strings_def)
  from itemsBody_long [OF l] page_over_charge [OF l, of its tr off] show ?thesis by (simp add: plain_item_def)
qed

theorem preflight_conservative_witness:
  "estimateMultiItemResponseBytes [sampleItem ''a'' ''1''] = 112 \<and>
   112 \<le> int (length (itemsBody sampleJson [sampleItem ''a'' ''1''] False (Some 0))) \<and>
   approxItemSize (sampleItem ''a'' ''1'') + 4 < int (length (itemsBody sampleJson [sampleItem ''a'' ''1''] False (Some 0)))"
proof -
  have "\<forall>t. length t \<le> length (marshalString sampleJson t)" by (simp add: sampleJson_def)
  moreover have "estimateMultiItemResponseBytes [sampleItem ''a'' ''1''] = 112" by code_simp
  ultimately show ?thesis using preflight_conservative [of sampleJson "[sampleItem ''a'' ''1'']" False "Some 0"]
    by (simp add: sampleItem_def zeroItem_def zeroUUID_def)
qed

text \<open>The example of the comment on \<^verbatim>\<open>MB\<close>.\<close>

lemma mb_example: "MB_MarshalJSON 79845 = ''0.0761''" by code_simp

end
