(* ===== verification/Gateway.thy ===== *)
theory Gateway
  imports Machine
begin

text \<open>
  The public Go API (\<^verbatim>\<open>gateway.go\<close>, \<^verbatim>\<open>gateway_clone.go\<close>): each method clones the items that cross the boundary
  and calls the store. At this level a byte slice is its content; which backing arrays the two sides
  share is the subject of the theory \<^verbatim>\<open>Clone\<close>.
\<close>

section \<open>Cloning\<close>

text \<open>Go's \<^verbatim>\<open>copy\<close>, which copies as many bytes as both slices have.\<close>

definition copy_bytes :: "string \<Rightarrow> string \<Rightarrow> string" where
  "copy_bytes dst src = take (length dst) src @ drop (length src) dst"

text \<open>\<^verbatim>\<open>make\<close> and \<^verbatim>\<open>copy\<close>; the nil slice and the empty one have the same content.\<close>

definition clonePayload :: "string \<Rightarrow> string" where
  "clonePayload p = (if p = [] then [] else copy_bytes (replicate (length p) (CHR 0x00)) p)"

definition cloneItemPayload :: "item \<Rightarrow> item" where
  "cloneItemPayload it = it\<lparr>Payload := clonePayload (Payload it), renderBytes := None, counter := None\<rparr>"

definition cloneGroupedItemPayloads :: "(string \<times> item list) list \<Rightarrow> (string \<times> item list) list" where
  "cloneGroupedItemPayloads grouped = map (\<lambda>(scope, its). (scope, map cloneItemPayload its)) grouped"

definition cloneItemsPayloads :: "item list \<Rightarrow> item list" where
  "cloneItemsPayloads its = map (\<lambda>it. it\<lparr>Payload := clonePayload (Payload it), renderBytes := None, counter := None\<rparr>) its"

lemma clonePayload_id [simp]: "clonePayload p = p"
  by (simp add: clonePayload_def copy_bytes_def)

lemma cloneItem_fields [simp]:
  "Scope (cloneItemPayload it) = Scope it" "ID (cloneItemPayload it) = ID it" "Seq (cloneItemPayload it) = Seq it"
  "Ts (cloneItemPayload it) = Ts it" "UUID (cloneItemPayload it) = UUID it" "Payload (cloneItemPayload it) = Payload it"
  "renderBytes (cloneItemPayload it) = None" "counter (cloneItemPayload it) = None"
  by (simp_all add: cloneItemPayload_def)

lemma cloneItems_map: "cloneItemsPayloads = map cloneItemPayload"
  by (rule ext) (simp add: cloneItemsPayloads_def cloneItemPayload_def)

lemma cloneItem_idem [simp]: "cloneItemPayload (cloneItemPayload it) = cloneItemPayload it"
  by (simp add: cloneItemPayload_def)

lemma cloneGrouped_fst [simp]: "map fst (cloneGroupedItemPayloads grouped) = map fst grouped"
  by (simp add: cloneGroupedItemPayloads_def case_prod_beta)

section \<open>The methods\<close>

text \<open>
  On an error the Go methods return the zero item beside it; the sum type drops it. The readings of a write
  are those of the store method it calls.
\<close>

definition NewGateway :: "(string \<Rightarrow> nat) \<Rightarrow> int \<Rightarrow> Config \<Rightarrow> store" where
  "NewGateway seed now c = newStore seed now c"

definition Gateway_Subscribe :: "string \<Rightarrow> store \<Rightarrow> (goError + nat) \<times> store" where
  "Gateway_Subscribe scope s = Subscribe scope s"

definition Gateway_Append :: "jsonLib \<Rightarrow> inputs \<Rightarrow> nat \<Rightarrow> item \<Rightarrow> store \<Rightarrow> (goError + item) \<times> store" where
  "Gateway_Append J inp i it s =
     (case appendOne J inp i (cloneItemPayload it) s of
        (Inl e, s1) \<Rightarrow> (Inl e, s1)
      | (Inr result, s1) \<Rightarrow> (Inr (cloneItemPayload result), s1))"

definition Gateway_Upsert :: "jsonLib \<Rightarrow> inputs \<Rightarrow> nat \<Rightarrow> item \<Rightarrow> store \<Rightarrow> (goError + item \<times> bool) \<times> store" where
  "Gateway_Upsert J inp i it s =
     (case upsertOne J inp i (cloneItemPayload it) s of
        (Inl e, s1) \<Rightarrow> (Inl e, s1)
      | (Inr (result, created), s1) \<Rightarrow> (Inr (cloneItemPayload result, created), s1))"

definition Gateway_Update :: "jsonLib \<Rightarrow> inputs \<Rightarrow> nat \<Rightarrow> item \<Rightarrow> store \<Rightarrow> (goError + nat) \<times> store" where
  "Gateway_Update J inp i it s = updateOne J inp i (cloneItemPayload it) s"

definition Gateway_CounterAdd :: "jsonLib \<Rightarrow> inputs \<Rightarrow> nat \<Rightarrow> string \<Rightarrow> string \<Rightarrow> int \<Rightarrow> store \<Rightarrow> (goError + int \<times> bool) \<times> store" where
  "Gateway_CounterAdd J inp i scope k inc s = counterAddOne J inp i scope k inc s"

definition Gateway_Delete ::
    "jsonLib \<Rightarrow> inputs \<Rightarrow> nat \<Rightarrow> nat \<Rightarrow> string \<Rightarrow> string \<Rightarrow> nat \<Rightarrow> string \<Rightarrow> store \<Rightarrow> (goError + nat) \<times> store" where
  "Gateway_Delete J inp i capq scope k seq uuid s = deleteOne J inp i capq scope k seq uuid s"

definition Gateway_DeleteUpTo ::
    "jsonLib \<Rightarrow> inputs \<Rightarrow> nat \<Rightarrow> string \<Rightarrow> nat \<Rightarrow> string \<Rightarrow> store \<Rightarrow> (goError + nat) \<times> store" where
  "Gateway_DeleteUpTo J inp i scope maxSeq uuid s = deleteUpTo J inp i scope maxSeq uuid s"

definition Gateway_DeleteScope :: "jsonLib \<Rightarrow> inputs \<Rightarrow> nat \<Rightarrow> string \<Rightarrow> store \<Rightarrow> (goError + nat \<times> bool) \<times> store" where
  "Gateway_DeleteScope J inp i scope s = deleteScope J inp i scope s"

definition Gateway_Wipe :: "int \<Rightarrow> int \<Rightarrow> store \<Rightarrow> (nat \<times> nat \<times> int) \<times> store" where
  "Gateway_Wipe now now' s = wipe now now' s"

definition Gateway_Warm ::
    "jsonLib \<Rightarrow> inputs \<Rightarrow> nat \<Rightarrow> bulkInputs \<Rightarrow> (string \<times> item list) list \<Rightarrow> store \<Rightarrow> (goError + nat) \<times> store" where
  "Gateway_Warm J inp i bi grouped s = replaceScopes J inp i bi (cloneGroupedItemPayloads grouped) s"

definition Gateway_Rebuild ::
    "jsonLib \<Rightarrow> int \<Rightarrow> int \<Rightarrow> bulkInputs \<Rightarrow> (string \<times> item list) list \<Rightarrow> store \<Rightarrow> (goError + nat \<times> nat) \<times> store" where
  "Gateway_Rebuild J now now' bi grouped s = rebuildAll J now now' bi (cloneGroupedItemPayloads grouped) s"

text \<open>A read returns \<^const>\<open>None\<close> where the Go method reports that the scope was not found.\<close>

definition Gateway_Head :: "int \<Rightarrow> string \<Rightarrow> nat \<Rightarrow> int \<Rightarrow> store \<Rightarrow> (item list \<times> bool) option \<times> store" where
  "Gateway_Head now scope afterSeq limit s =
     (case head now scope afterSeq limit s of
        (None, s1) \<Rightarrow> (None, s1)
      | (Some (its, truncated), s1) \<Rightarrow> (Some (cloneItemsPayloads its, truncated), s1))"

definition Gateway_Tail :: "int \<Rightarrow> string \<Rightarrow> int \<Rightarrow> int \<Rightarrow> store \<Rightarrow> (item list \<times> bool) option \<times> store" where
  "Gateway_Tail now scope limit offset s =
     (case tail now scope limit offset s of
        (None, s1) \<Rightarrow> (None, s1)
      | (Some (its, hasMore), s1) \<Rightarrow> (Some (cloneItemsPayloads its, hasMore), s1))"

definition Gateway_GetByID :: "int \<Rightarrow> string \<Rightarrow> string \<Rightarrow> store \<Rightarrow> item option \<times> store" where
  "Gateway_GetByID now scope k s = (case store_get now scope k 0 [] s of (itm, s1) \<Rightarrow> (map_option cloneItemPayload itm, s1))"

definition Gateway_GetBySeq :: "int \<Rightarrow> string \<Rightarrow> nat \<Rightarrow> store \<Rightarrow> item option \<times> store" where
  "Gateway_GetBySeq now scope seq s = (case store_get now scope [] seq [] s of (itm, s1) \<Rightarrow> (map_option cloneItemPayload itm, s1))"

definition Gateway_GetByUUID :: "int \<Rightarrow> string \<Rightarrow> string \<Rightarrow> store \<Rightarrow> item option \<times> store" where
  "Gateway_GetByUUID now scope uuid s = (case store_get now scope [] 0 uuid s of (itm, s1) \<Rightarrow> (map_option cloneItemPayload itm, s1))"

definition Gateway_RenderByID :: "int \<Rightarrow> string \<Rightarrow> string \<Rightarrow> store \<Rightarrow> string option \<times> store" where
  "Gateway_RenderByID now scope k s = (case render now scope k 0 [] s of (body, s1) \<Rightarrow> (map_option clonePayload body, s1))"

definition Gateway_RenderBySeq :: "int \<Rightarrow> string \<Rightarrow> nat \<Rightarrow> store \<Rightarrow> string option \<times> store" where
  "Gateway_RenderBySeq now scope seq s = (case render now scope [] seq [] s of (body, s1) \<Rightarrow> (map_option clonePayload body, s1))"

definition Gateway_RenderByUUID :: "int \<Rightarrow> string \<Rightarrow> string \<Rightarrow> store \<Rightarrow> string option \<times> store" where
  "Gateway_RenderByUUID now scope uuid s = (case render now scope [] 0 uuid s of (body, s1) \<Rightarrow> (map_option clonePayload body, s1))"

definition Gateway_Stats :: "store \<Rightarrow> storeStats" where
  "Gateway_Stats s = store_stats s"

definition Gateway_ScopeList :: "string \<Rightarrow> string \<Rightarrow> int \<Rightarrow> store \<Rightarrow> scopeListEntry list \<times> bool" where
  "Gateway_ScopeList pfx after limit s = scopeList pfx after limit s"

end
