(* ===== verification/Clone.thy ===== *)
theory Clone
  imports Gateway
begin

text \<open>
  Which backing arrays the cache and its Go callers share (\<^verbatim>\<open>gateway_clone.go\<close>). A slice is a base address, an
  offset and a length in a heap of arrays; a counter cell is an address of its own. The boundary machine lets
  callers do whatever Go lets them do with the references they hold and lets the store keep and return
  any reference it has been given or has allocated; only the Gateway's cloning stands between the two.
\<close>

section \<open>Slices\<close>

datatype slice = NilSlice | Slice nat nat nat

type_synonym arrays = "string list"

fun bytesAt :: "arrays \<Rightarrow> slice \<Rightarrow> string" where
  "bytesAt h NilSlice = []"
| "bytesAt h (Slice a off n) = take n (drop off (h ! a))"

fun sliceBase :: "slice \<Rightarrow> nat set" where
  "sliceBase NilSlice = {}"
| "sliceBase (Slice a off n) = {a}"

fun lenSlice :: "slice \<Rightarrow> nat" where
  "lenSlice NilSlice = 0"
| "lenSlice (Slice a off n) = n"

definition makeSlice :: "nat \<Rightarrow> arrays \<Rightarrow> slice \<times> arrays" where
  "makeSlice n h = (Slice (length h) 0 n, h @ [replicate n (CHR 0x00)])"

fun copyInto :: "slice \<Rightarrow> slice \<Rightarrow> arrays \<Rightarrow> arrays" where
  "copyInto NilSlice src h = h"
| "copyInto (Slice a off n) src h =
     h[a := take off (h ! a) @ copy_bytes (bytesAt h (Slice a off n)) (bytesAt h src) @ drop (off + n) (h ! a)]"

text \<open>Go keeps every slice within its array.\<close>

fun slice_ok :: "arrays \<Rightarrow> slice \<Rightarrow> bool" where
  "slice_ok h NilSlice \<longleftrightarrow> True"
| "slice_ok h (Slice a off n) \<longleftrightarrow> a < length h \<and> off + n \<le> length (h ! a)"

section \<open>Cloning by address\<close>

definition clonePayloadAt :: "slice \<Rightarrow> arrays \<Rightarrow> slice \<times> arrays" where
  "clonePayloadAt p h =
     (if p = NilSlice then (NilSlice, h)
      else case makeSlice (lenSlice p) h of (out, h1) \<Rightarrow> (out, copyInto out p h1))"

text \<open>The references an item carries; its other fields are values.\<close>

record sharedItem =
  shPayload :: slice
  shRender :: slice
  shCounter :: "nat option"

definition cloneItemAt :: "sharedItem \<Rightarrow> arrays \<Rightarrow> sharedItem \<times> arrays" where
  "cloneItemAt it h =
     (case clonePayloadAt (shPayload it) h of (p, h1) \<Rightarrow>
        (it\<lparr>shPayload := p, shRender := NilSlice, shCounter := None\<rparr>, h1))"

fun cloneItemsAt :: "sharedItem list \<Rightarrow> arrays \<Rightarrow> sharedItem list \<times> arrays" where
  "cloneItemsAt [] h = ([], h)"
| "cloneItemsAt (it # its) h =
     (case cloneItemAt it h of (x, h1) \<Rightarrow> case cloneItemsAt its h1 of (xs, h2) \<Rightarrow> (x # xs, h2))"

section \<open>The boundary\<close>

definition itemBases :: "sharedItem \<Rightarrow> nat set" where
  "itemBases it = sliceBase (shPayload it) \<union> sliceBase (shRender it)"

definition item_ok :: "arrays \<Rightarrow> sharedItem \<Rightarrow> bool" where
  "item_ok h it \<longleftrightarrow> slice_ok h (shPayload it) \<and> slice_ok h (shRender it)"

record boundary =
  bArrays :: arrays
  kept :: "sharedItem list"
  held :: "sharedItem list"
  heldBytes :: "slice list"

definition keptBases :: "boundary \<Rightarrow> nat set" where
  "keptBases b = \<Union> (itemBases ` set (kept b))"

definition heldBases :: "boundary \<Rightarrow> nat set" where
  "heldBases b = \<Union> (itemBases ` set (held b)) \<union> \<Union> (sliceBase ` set (heldBytes b))"

definition writeByte :: "slice \<Rightarrow> nat \<Rightarrow> char \<Rightarrow> arrays \<Rightarrow> arrays" where
  "writeByte p i c h = (case p of NilSlice \<Rightarrow> h | Slice a off n \<Rightarrow> if i < n then h[a := (h ! a)[off + i := c]] else h)"

text \<open>
  \<open>call\<close> is a Gateway method: its argument items are cloned, the store may keep and return references from the
  clones, from what it already kept and from arrays it allocates itself, and what it returns is cloned.
  \<open>rendered\<close> is a method that returns bytes.
\<close>

inductive crossing :: "boundary \<Rightarrow> boundary \<Rightarrow> bool" where
  alloc: "crossing b (b\<lparr>bArrays := bArrays b @ [bs], heldBytes := Slice (length (bArrays b)) 0 (length bs) # heldBytes b\<rparr>)"
| take_payload: "it \<in> set (held b) \<Longrightarrow> crossing b (b\<lparr>heldBytes := shPayload it # heldBytes b\<rparr>)"
| reslice: "Slice a off n \<in> set (heldBytes b) \<Longrightarrow> slice_ok (bArrays b) (Slice a off' n') \<Longrightarrow> crossing b (b\<lparr>heldBytes := Slice a off' n' # heldBytes b\<rparr>)"
| assemble: "p \<in> set (heldBytes b) \<union> {NilSlice} \<Longrightarrow>
    it \<in> set (held b) \<union> {\<lparr>shPayload = NilSlice, shRender = NilSlice, shCounter = None\<rparr>} \<Longrightarrow>
    crossing b (b\<lparr>held := it\<lparr>shPayload := p\<rparr> # held b\<rparr>)"
| mutate: "p \<in> set (heldBytes b) \<Longrightarrow> crossing b (b\<lparr>bArrays := writeByte p i c (bArrays b)\<rparr>)"
| call: "set xs \<subseteq> set (held b) \<Longrightarrow> cloneItemsAt xs (bArrays b) = (ys, h1) \<Longrightarrow>
    \<Union> (itemBases ` set ks) \<union> \<Union> (itemBases ` set rs) \<subseteq>
      keptBases b \<union> \<Union> (itemBases ` set ys) \<union> {length h1 ..< length (h1 @ own)} \<Longrightarrow>
    \<forall>it \<in> set ks \<union> set rs. item_ok (h1 @ own) it \<Longrightarrow>
    cloneItemsAt rs (h1 @ own) = (zs, h2) \<Longrightarrow>
    crossing b (b\<lparr>bArrays := h2, kept := ks, held := zs @ held b\<rparr>)"
| rendered: "sliceBase p \<subseteq> keptBases b \<union> {length (bArrays b) ..< length (bArrays b @ own)} \<Longrightarrow>
    slice_ok (bArrays b @ own) p \<Longrightarrow>
    clonePayloadAt p (bArrays b @ own) = (q, h2) \<Longrightarrow>
    crossing b (b\<lparr>bArrays := h2, heldBytes := q # heldBytes b\<rparr>)"

inductive_cases crossingE: "crossing b b'"

inductive at_boundary :: "boundary \<Rightarrow> bool" where
  start: "at_boundary \<lparr>bArrays = [], kept = [], held = [], heldBytes = []\<rparr>"
| cross: "at_boundary b \<Longrightarrow> crossing b b' \<Longrightarrow> at_boundary b'"

section \<open>The two sides share nothing\<close>

definition isolated :: "boundary \<Rightarrow> bool" where
  "isolated b \<longleftrightarrow> keptBases b \<inter> heldBases b = {} \<and> keptBases b \<union> heldBases b \<subseteq> {..< length (bArrays b)} \<and>
     (\<forall>it \<in> set (held b). shRender it = NilSlice \<and> shCounter it = None)"

lemma clonePayloadAt_fresh:
  assumes "clonePayloadAt p h = (q, h')"
  shows "length h \<le> length h'" "sliceBase q \<subseteq> {length h ..< length h'}" "\<And>a. a < length h \<Longrightarrow> h' ! a = h ! a"
  using assms by (auto simp: clonePayloadAt_def makeSlice_def nth_append split: if_splits)

lemma cloneItemAt_fresh:
  assumes "cloneItemAt it h = (x, h')"
  shows "length h \<le> length h'" "itemBases x \<subseteq> {length h ..< length h'}" "\<And>a. a < length h \<Longrightarrow> h' ! a = h ! a"
    "shRender x = NilSlice" "shCounter x = None"
proof -
  obtain p where p: "clonePayloadAt (shPayload it) h = (p, h')" "x = it\<lparr>shPayload := p, shRender := NilSlice, shCounter := None\<rparr>"
    using assms by (auto simp: cloneItemAt_def split: prod.splits)
  note f = clonePayloadAt_fresh [OF p(1)]
  show "length h \<le> length h'" "\<And>a. a < length h \<Longrightarrow> h' ! a = h ! a" by (rule f, rule f)
  show "itemBases x \<subseteq> {length h ..< length h'}" "shRender x = NilSlice" "shCounter x = None"
    using f(2) by (simp_all add: p(2) itemBases_def)
qed

lemma cloneItemsAt_fresh:
  assumes "cloneItemsAt its h = (xs, h')"
  shows "length h \<le> length h' \<and> \<Union> (itemBases ` set xs) \<subseteq> {length h ..< length h'} \<and>
    (\<forall>a < length h. h' ! a = h ! a) \<and> (\<forall>x \<in> set xs. shRender x = NilSlice \<and> shCounter x = None)"
  using assms
proof (induction its arbitrary: h xs h')
  case (Cons it its)
  obtain x h1 ys where x: "cloneItemAt it h = (x, h1)" and ys: "cloneItemsAt its h1 = (ys, h')" "xs = x # ys"
    using Cons.prems by (auto split: prod.splits)
  note f = cloneItemAt_fresh [OF x]
  from Cons.IH [OF ys(1)] show ?case using f unfolding ys(2) by fastforce
qed simp

lemma isolated_sub:
  assumes "isolated b" "kept b' = kept b" "bArrays b' = bArrays b" "heldBases b' \<subseteq> heldBases b"
    "\<forall>it \<in> set (held b'). shRender it = NilSlice \<and> shCounter it = None"
  shows "isolated b'"
  using assms by (auto simp: isolated_def keptBases_def)

lemma crossing_isolated:
  assumes "crossing b b'" "isolated b"
  shows "isolated b'"
  using assms
proof (cases rule: crossing.cases)
  case (mutate p i c)
  then show ?thesis using assms(2)
    by (simp add: isolated_def keptBases_def heldBases_def writeByte_def split: slice.split)
next
  case (call xs ys h1 ks rs own zs h2)
  let ?n = "length (bArrays b)"
  have y: "?n \<le> length h1" "\<Union> (itemBases ` set ys) \<subseteq> {?n ..< length h1}" using cloneItemsAt_fresh [OF call(3)] by simp_all
  have z: "length h1 + length own \<le> length h2" "\<Union> (itemBases ` set zs) \<subseteq> {length h1 + length own ..< length h2}"
    "\<forall>x \<in> set zs. shRender x = NilSlice \<and> shCounter x = None" using cloneItemsAt_fresh [OF call(6)] by simp_all
  have b: "keptBases b \<inter> heldBases b = {}" "keptBases b \<subseteq> {..< ?n}" "heldBases b \<subseteq> {..< ?n}"
    "\<forall>it \<in> set (held b). shRender it = NilSlice \<and> shCounter it = None" using assms(2) by (auto simp: isolated_def)
  have k: "\<Union> (itemBases ` set ks) \<subseteq> keptBases b \<union> {?n ..< length h1 + length own}" using call(4) y by fastforce
  have h: "heldBases b' = \<Union> (itemBases ` set zs) \<union> heldBases b" by (auto simp: call(1) heldBases_def)
  have k': "keptBases b' = \<Union> (itemBases ` set ks)" by (simp add: call(1) keptBases_def)
  have zn: "x \<in> \<Union> (itemBases ` set zs) \<Longrightarrow> length h1 + length own \<le> x \<and> x < length h2" for x using z(2) by auto
  have kn: "x \<in> keptBases b' \<Longrightarrow> x \<in> keptBases b \<or> ?n \<le> x \<and> x < length h1 + length own" for x using k unfolding k' by auto
  have hn: "x \<in> heldBases b \<Longrightarrow> x < ?n \<and> x \<notin> keptBases b" "x \<in> keptBases b \<Longrightarrow> x < ?n" for x using b(1-3) by auto
  have "keptBases b' \<inter> heldBases b' = {}"
  proof (rule equals0I, elim IntE)
    fix x assume "x \<in> keptBases b'" "x \<in> heldBases b'"
    then consider "x \<in> keptBases b'" "x \<in> \<Union> (itemBases ` set zs)" | "x \<in> keptBases b'" "x \<in> heldBases b" unfolding h by blast
    then show False using kn [of x] hn [of x] zn [of x] y(1) by cases linarith+
  qed
  moreover have "x < length h2" if "x \<in> keptBases b' \<union> heldBases b'" for x
    using that unfolding h using kn [of x] hn [of x] zn [of x] y(1) z(1) by fastforce
  then have "keptBases b' \<union> heldBases b' \<subseteq> {..< length h2}" by blast
  ultimately show ?thesis using z(3) b(4) by (auto simp: isolated_def call(1))
next
  case (rendered p own q h2)
  have "length (bArrays b @ own) \<le> length h2" "sliceBase q \<subseteq> {length (bArrays b @ own) ..< length h2}"
    by (rule clonePayloadAt_fresh [OF rendered(4)])+
  then show ?thesis using assms(2) by (fastforce simp: rendered(1) isolated_def keptBases_def heldBases_def)
next
  case (take_payload it)
  then have "sliceBase (shPayload it) \<subseteq> heldBases b" by (auto simp: heldBases_def itemBases_def)
  then have sub: "heldBases b' \<subseteq> heldBases b" by (auto simp: take_payload(1) heldBases_def)
  show ?thesis by (rule isolated_sub [OF assms(2) _ _ sub]) (use assms(2) in \<open>simp_all add: take_payload(1) isolated_def\<close>)
next
  case (reslice a off n off' n')
  then have "a \<in> heldBases b" by (force simp: heldBases_def)
  then have sub: "heldBases b' \<subseteq> heldBases b" by (auto simp: reslice(1) heldBases_def)
  show ?thesis by (rule isolated_sub [OF assms(2) _ _ sub]) (use assms(2) in \<open>simp_all add: reslice(1) isolated_def\<close>)
next
  case (assemble p it)
  have it: "shRender it = NilSlice" "shCounter it = None" using assemble(3) assms(2) by (auto simp: isolated_def)
  have "sliceBase p \<subseteq> heldBases b" using assemble(2) by (auto simp: heldBases_def)
  then have sub: "heldBases b' \<subseteq> heldBases b" by (auto simp: assemble(1) heldBases_def itemBases_def it)
  show ?thesis by (rule isolated_sub [OF assms(2) _ _ sub]) (use assms(2) it in \<open>simp_all add: assemble(1) isolated_def\<close>)
next
  case (alloc bs)
  then show ?thesis using assms(2) by (fastforce simp: isolated_def keptBases_def heldBases_def)
qed

lemma boundary_isolated: "at_boundary b \<Longrightarrow> isolated b"
proof (induction rule: at_boundary.induct)
  case start
  show ?case by (simp add: isolated_def keptBases_def heldBases_def)
qed (rule crossing_isolated)

lemma writeByte_other: "a \<notin> sliceBase p \<Longrightarrow> writeByte p i c h ! a = h ! a"
  by (cases p) (simp_all add: writeByte_def)

lemma bytesAt_cong: "(\<And>a. a \<in> sliceBase p \<Longrightarrow> h' ! a = h ! a) \<Longrightarrow> bytesAt h' p = bytesAt h p"
  by (cases p) simp_all

section \<open>Every slice stays within its array\<close>

definition slices_ok :: "boundary \<Rightarrow> bool" where
  "slices_ok b \<longleftrightarrow> (\<forall>it \<in> set (kept b) \<union> set (held b). item_ok (bArrays b) it) \<and> (\<forall>p \<in> set (heldBytes b). slice_ok (bArrays b) p)"

lemma slice_ok_mono:
  assumes "slice_ok h p" "length h \<le> length h'" "\<And>a. a < length h \<Longrightarrow> length (h' ! a) = length (h ! a)"
  shows "slice_ok h' p"
  using assms by (cases p) (auto intro: less_le_trans)

lemma item_ok_mono:
  "item_ok h it \<Longrightarrow> length h \<le> length h' \<Longrightarrow> (\<And>a. a < length h \<Longrightarrow> length (h' ! a) = length (h ! a)) \<Longrightarrow> item_ok h' it"
  unfolding item_ok_def by (blast intro: slice_ok_mono)

lemma clonePayloadAt_same:
  assumes "slice_ok h p" "clonePayloadAt p h = (q, h')"
  shows "slice_ok h' q" "bytesAt h' q = bytesAt h p"
proof -
  have "slice_ok h' q \<and> bytesAt h' q = bytesAt h p"
  proof (cases p)
    case NilSlice
    then show ?thesis using assms(2) by (simp add: clonePayloadAt_def)
  next
    case (Slice a off n)
    have n: "length (bytesAt h p) = n" using assms(1) Slice by (simp add: min_def) linarith
    then have "bytesAt (h @ [replicate n (CHR 0x00)]) p = bytesAt h p" using assms(1) Slice by (simp add: nth_append)
    moreover have "h' = h @ [copy_bytes (replicate n (CHR 0x00)) (bytesAt (h @ [replicate n (CHR 0x00)]) p)]" "q = Slice (length h) 0 n"
      using assms(2) Slice by (auto simp: clonePayloadAt_def makeSlice_def simp del: bytesAt.simps(2)) simp_all
    moreover have "copy_bytes (replicate n (CHR 0x00)) (bytesAt h p) = bytesAt h p" using n by (simp add: copy_bytes_def)
    ultimately have "h' = h @ [bytesAt h p]" "q = Slice (length h) 0 n" by simp_all
    then show ?thesis using n by simp
  qed
  then show "slice_ok h' q" "bytesAt h' q = bytesAt h p" by simp_all
qed

lemma cloneItemsAt_same:
  assumes "\<forall>it \<in> set its. item_ok h it" "cloneItemsAt its h = (xs, h')"
  shows "(\<forall>x \<in> set xs. item_ok h' x) \<and> map (\<lambda>x. bytesAt h' (shPayload x)) xs = map (\<lambda>x. bytesAt h (shPayload x)) its"
  using assms
proof (induction its arbitrary: h xs h')
  case (Cons it its)
  obtain x h1 ys where x: "cloneItemAt it h = (x, h1)" and ys: "cloneItemsAt its h1 = (ys, h')" "xs = x # ys"
    using Cons.prems(2) by (auto split: prod.splits)
  note f = cloneItemAt_fresh [OF x] and g = cloneItemsAt_fresh [OF ys(1)]
  have ok1: "item_ok h1 y" if "item_ok h y" for y using item_ok_mono [OF that f(1)] f(3) by simp
  obtain p where p: "clonePayloadAt (shPayload it) h = (p, h1)" "x = it\<lparr>shPayload := p, shRender := NilSlice, shCounter := None\<rparr>"
    using x by (auto simp: cloneItemAt_def split: prod.splits)
  have it: "slice_ok h (shPayload it)" using Cons.prems(1) by (simp add: item_ok_def)
  note c = clonePayloadAt_same [OF it p(1)]
  have "item_ok h1 x" using c(1) by (simp add: item_ok_def p(2))
  then have xo: "item_ok h' x" by (rule item_ok_mono) (use g in simp_all)
  have "sliceBase (shPayload x) \<subseteq> {..< length h1}" using f(2) by (auto simp: itemBases_def)
  then have "bytesAt h' (shPayload x) = bytesAt h1 (shPayload x)" using g by (intro bytesAt_cong) auto
  then have px: "bytesAt h' (shPayload x) = bytesAt h (shPayload it)" using c(2) by (simp add: p(2))
  have old: "map (\<lambda>y. bytesAt h1 (shPayload y)) its = map (\<lambda>y. bytesAt h (shPayload y)) its"
  proof (rule map_cong [OF refl])
    fix y assume "y \<in> set its"
    then have "slice_ok h (shPayload y)" using Cons.prems(1) by (simp add: item_ok_def)
    then have "sliceBase (shPayload y) \<subseteq> {..< length h}" by (cases "shPayload y") simp_all
    then show "bytesAt h1 (shPayload y) = bytesAt h (shPayload y)" using f(3) by (intro bytesAt_cong) auto
  qed
  have "\<forall>y \<in> set its. item_ok h1 y" using Cons.prems(1) ok1 by simp
  from Cons.IH [OF this ys(1)] show ?case using xo px old by (simp add: ys(2))
qed simp

lemma writeByte_ok: "slice_ok h p \<Longrightarrow> slice_ok (writeByte q i c h) p"
proof -
  have "length (writeByte q i c h) = length h \<and> (\<forall>a < length h. length (writeByte q i c h ! a) = length (h ! a))"
  proof (cases q)
    case (Slice b off n)
    then show ?thesis by (cases "b < length h") (auto simp: writeByte_def nth_list_update)
  qed (simp add: writeByte_def)
  then show "slice_ok h p \<Longrightarrow> slice_ok (writeByte q i c h) p" by (auto intro: slice_ok_mono)
qed

lemma slices_ok_grow:
  assumes "slices_ok b" "length (bArrays b) \<le> length h" "\<And>a. a < length (bArrays b) \<Longrightarrow> h ! a = bArrays b ! a"
  shows "it \<in> set (kept b) \<union> set (held b) \<Longrightarrow> item_ok h it" "p \<in> set (heldBytes b) \<Longrightarrow> slice_ok h p"
  using assms slice_ok_mono [of "bArrays b" p h] item_ok_mono [of "bArrays b" it h] unfolding slices_ok_def by auto

lemma crossing_slices_ok:
  assumes "crossing b b'" "slices_ok b"
  shows "slices_ok b'"
  using assms
proof (cases rule: crossing.cases)
  case (alloc bs)
  show ?thesis using slices_ok_grow [OF assms(2), of "bArrays b @ [bs]"] by (auto simp: alloc slices_ok_def nth_append)
next
  case (mutate p i c)
  then show ?thesis using assms(2) writeByte_ok by (auto simp: slices_ok_def item_ok_def)
next
  case (call xs ys h1 ks rs own zs h2)
  have y: "length (bArrays b) \<le> length h1" "\<And>a. a < length (bArrays b) \<Longrightarrow> h1 ! a = bArrays b ! a"
    using cloneItemsAt_fresh [OF call(3)] by simp_all
  have z: "length (h1 @ own) \<le> length h2" "\<And>a. a < length (h1 @ own) \<Longrightarrow> h2 ! a = (h1 @ own) ! a"
    using cloneItemsAt_fresh [OF call(6)] by blast+
  have "length (bArrays b) \<le> length h2" using y(1) z(1) by simp
  moreover have "h2 ! a = bArrays b ! a" if "a < length (bArrays b)" for a
  proof -
    have "a < length h1" using that y(1) by simp
    then show ?thesis using y(2) [OF that] z(2) [of a] by (simp add: nth_append)
  qed
  ultimately have old: "it \<in> set (held b) \<Longrightarrow> item_ok h2 it" "p \<in> set (heldBytes b) \<Longrightarrow> slice_ok h2 p" for it p
    using slices_ok_grow [OF assms(2)] by blast+
  have "\<forall>it \<in> set zs. item_ok h2 it" using cloneItemsAt_same [OF _ call(6)] call(5) by blast
  moreover have "\<forall>it \<in> set ks. item_ok h2 it" using call(5) z item_ok_mono [of "h1 @ own" _ h2] by simp
  ultimately show ?thesis using old by (auto simp: call(1) slices_ok_def)
next
  case (rendered p own q h2)
  have g: "length (bArrays b @ own) \<le> length h2" "\<And>a. a < length (bArrays b @ own) \<Longrightarrow> h2 ! a = (bArrays b @ own) ! a"
    using clonePayloadAt_fresh [OF rendered(4)] by blast+
  have "length (bArrays b) \<le> length h2" "\<And>a. a < length (bArrays b) \<Longrightarrow> h2 ! a = bArrays b ! a"
    using g by (simp_all add: nth_append)
  from slices_ok_grow [OF assms(2) this] clonePayloadAt_same(1) [OF rendered(3,4)]
  show ?thesis by (auto simp: rendered(1) slices_ok_def)
qed (auto simp: slices_ok_def item_ok_def)

lemma boundary_slices_ok: "at_boundary b \<Longrightarrow> slices_ok b"
proof (induction rule: at_boundary.induct)
  case start
  show ?case by (simp add: slices_ok_def)
qed (rule crossing_slices_ok)

end
