(* ===== verification/Registry.thy ===== *)
theory Registry
  imports Prelude
begin

text \<open>
  The process-wide registry of named gateways (\<^verbatim>\<open>gateway_registry.go\<close>). A slot is an atomic pointer, modelled by
  its position in \<open>slotValues\<close>; the map from names to slots only grows. A gateway is an
  address; \<^const>\<open>None\<close> is the nil pointer. Every operation is one atomic access of its slot.
\<close>

record registry =
  registrySlots :: "(string \<times> nat) list"
  slotValues :: "nat option list"

definition slotForName :: "string \<Rightarrow> registry \<Rightarrow> nat \<times> registry" where
  "slotForName name r =
     (case map_of (registrySlots r) name of
        Some slot \<Rightarrow> (slot, r)
      | None \<Rightarrow>
          (let slot = length (slotValues r)
           in (slot, r\<lparr>registrySlots := (name, slot) # registrySlots r, slotValues := slotValues r @ [None]\<rparr>)))"

definition loadSlot :: "nat \<Rightarrow> registry \<Rightarrow> nat option" where
  "loadSlot slot r = slotValues r ! slot"

definition storeSlot :: "nat \<Rightarrow> nat option \<Rightarrow> registry \<Rightarrow> registry" where
  "storeSlot slot v r = r\<lparr>slotValues := (slotValues r)[slot := v]\<rparr>"

definition compareAndSwap :: "nat \<Rightarrow> nat option \<Rightarrow> nat option \<Rightarrow> registry \<Rightarrow> registry" where
  "compareAndSwap slot old new r = (if loadSlot slot r = old then storeSlot slot new r else r)"

definition RegisterGateway :: "string \<Rightarrow> nat option \<Rightarrow> registry \<Rightarrow> registry" where
  "RegisterGateway name gw r = (case slotForName name r of (slot, r1) \<Rightarrow> storeSlot slot gw r1)"

definition LookupGateway :: "string \<Rightarrow> registry \<Rightarrow> nat option \<times> registry" where
  "LookupGateway name r = (case slotForName name r of (slot, r1) \<Rightarrow> (loadSlot slot r1, r1))"

definition LookupGatewaySlot :: "string \<Rightarrow> registry \<Rightarrow> nat \<times> registry" where
  "LookupGatewaySlot name r = slotForName name r"

definition DeregisterGatewayIf :: "string \<Rightarrow> nat option \<Rightarrow> registry \<Rightarrow> registry" where
  "DeregisterGatewayIf name gw r = (case slotForName name r of (slot, r1) \<Rightarrow> compareAndSwap slot gw None r1)"

definition emptyRegistry :: registry where
  "emptyRegistry = \<lparr>registrySlots = [], slotValues = []\<rparr>"

section \<open>Calls and their specification\<close>

datatype regCall =
    Register string "nat option"
  | Deregister string "nat option"
  | Lookup string

fun regStep :: "regCall \<Rightarrow> registry \<Rightarrow> registry" where
  "regStep (Register name gw) r = RegisterGateway name gw r"
| "regStep (Deregister name gw) r = DeregisterGatewayIf name gw r"
| "regStep (Lookup name) r = snd (LookupGateway name r)"

definition regRun :: "regCall list \<Rightarrow> registry \<Rightarrow> registry" where
  "regRun cs r = fold regStep cs r"

text \<open>What the registry promises: a map from names to gateways, with a conditional removal.\<close>

fun specStep :: "regCall \<Rightarrow> (string \<Rightarrow> nat option) \<Rightarrow> string \<Rightarrow> nat option" where
  "specStep (Register name gw) m = m(name := gw)"
| "specStep (Deregister name gw) m = (if m name = gw then m(name := None) else m)"
| "specStep (Lookup name) m = m"

definition registered :: "registry \<Rightarrow> string \<Rightarrow> nat option" where
  "registered r name = (case map_of (registrySlots r) name of None \<Rightarrow> None | Some slot \<Rightarrow> loadSlot slot r)"

definition reg_ok :: "registry \<Rightarrow> bool" where
  "reg_ok r \<longleftrightarrow> distinct (map snd (registrySlots r)) \<and> (\<forall>(n, p) \<in> set (registrySlots r). p < length (slotValues r))"

section \<open>Laws\<close>

lemma empty_ok [simp]: "reg_ok emptyRegistry" by (simp add: reg_ok_def emptyRegistry_def)

lemma slotForName_ok:
  assumes "reg_ok r" "slotForName name r = (slot, r1)"
  shows "reg_ok r1" "map_of (registrySlots r1) name = Some slot" "slot < length (slotValues r1)"
    "registered r1 = registered r" "\<And>n p. map_of (registrySlots r) n = Some p \<Longrightarrow> map_of (registrySlots r1) n = Some p"
proof -
  have old: "p < length (slotValues r)" if "map_of (registrySlots r) n = Some p" for n p
    using assms(1) map_of_SomeD [OF that] by (auto simp: reg_ok_def)
  have "reg_ok r1 \<and> map_of (registrySlots r1) name = Some slot \<and> slot < length (slotValues r1) \<and> registered r1 = registered r \<and>
      (\<forall>n p. map_of (registrySlots r) n = Some p \<longrightarrow> map_of (registrySlots r1) n = Some p)"
  proof (cases "map_of (registrySlots r) name")
    case (Some q)
    then show ?thesis using assms old by (simp add: slotForName_def)
  next
    case None
    then have r1: "slot = length (slotValues r)"
      "r1 = r\<lparr>registrySlots := (name, length (slotValues r)) # registrySlots r, slotValues := slotValues r @ [None]\<rparr>"
      using assms(2) by (auto simp: slotForName_def Let_def)
    have new: "length (slotValues r) \<notin> snd ` set (registrySlots r)" using assms(1) by (force simp: reg_ok_def)
    have "reg_ok r1" using assms(1) new by (auto simp: r1 reg_ok_def less_Suc_eq)
    moreover have "registered r1 n = registered r n" for n
      using None old [of n] by (simp add: r1 registered_def loadSlot_def nth_append split: option.split)
    moreover have "map_of (registrySlots r1) n = Some p" if "map_of (registrySlots r) n = Some p" for n p
      using that None by (auto simp: r1)
    ultimately show ?thesis by (simp add: r1 fun_eq_iff)
  qed
  then show "reg_ok r1" "map_of (registrySlots r1) name = Some slot" "slot < length (slotValues r1)"
    "registered r1 = registered r" "\<And>n p. map_of (registrySlots r) n = Some p \<Longrightarrow> map_of (registrySlots r1) n = Some p" by blast+
qed

lemma slot_reads_name: "map_of (registrySlots r) name = Some slot \<Longrightarrow> loadSlot slot r = registered r name"
  by (simp add: registered_def)

lemma storeSlot_registered:
  assumes "reg_ok r" "map_of (registrySlots r) name = Some slot"
  shows "reg_ok (storeSlot slot v r)" "registered (storeSlot slot v r) = (registered r)(name := v)"
proof -
  have b: "slot < length (slotValues r)" using assms map_of_SomeD [OF assms(2)] by (auto simp: reg_ok_def)
  have inj: "n = name" if "map_of (registrySlots r) n = Some slot" for n
  proof -
    have "inj_on snd (set (registrySlots r))" using assms(1) by (simp add: reg_ok_def distinct_map)
    from inj_onD [OF this, of "(n, slot)" "(name, slot)"] show ?thesis
      using map_of_SomeD [OF that] map_of_SomeD [OF assms(2)] by simp
  qed
  show "reg_ok (storeSlot slot v r)" using assms(1) by (simp add: reg_ok_def storeSlot_def)
  show "registered (storeSlot slot v r) = (registered r)(name := v)"
  proof
    fix n
    show "registered (storeSlot slot v r) n = ((registered r)(name := v)) n"
    proof (cases "map_of (registrySlots r) n")
      case None
      then show ?thesis using assms(2) by (auto simp: registered_def storeSlot_def)
    next
      case (Some p)
      have p: "p = slot \<longleftrightarrow> n = name" using Some inj [of n] assms(2) by auto
      have "registered (storeSlot slot v r) n = (slotValues r)[slot := v] ! p"
        using Some by (simp add: registered_def storeSlot_def loadSlot_def)
      moreover have "registered r n = slotValues r ! p" using Some by (simp add: registered_def loadSlot_def)
      ultimately show ?thesis using p b by (cases "p = slot") simp_all
    qed
  qed
qed

lemma regStep_refines:
  assumes "reg_ok r"
  shows "reg_ok (regStep c r)" "registered (regStep c r) = specStep c (registered r)"
    "map_of (registrySlots r) n = Some p \<Longrightarrow> map_of (registrySlots (regStep c r)) n = Some p"
proof -
  define name where "name = (case c of Register m _ \<Rightarrow> m | Deregister m _ \<Rightarrow> m | Lookup m \<Rightarrow> m)"
  obtain slot r1 where f: "slotForName name r = (slot, r1)" by fastforce
  note s = slotForName_ok [OF assms f]
  note w = storeSlot_registered [OF s(1,2)]
  have l: "registered r name = loadSlot slot r1" using slot_reads_name [OF s(2)] s(4) by simp
  have same: "registrySlots (storeSlot slot v r1) = registrySlots r1" for v by (simp add: storeSlot_def)
  show "reg_ok (regStep c r)" using f s w
    by (cases c) (auto simp: name_def RegisterGateway_def DeregisterGatewayIf_def LookupGateway_def compareAndSwap_def)
  show "registered (regStep c r) = specStep c (registered r)" using f s w l
    by (cases c) (auto simp: name_def RegisterGateway_def DeregisterGatewayIf_def LookupGateway_def compareAndSwap_def)
  show "map_of (registrySlots r) n = Some p \<Longrightarrow> map_of (registrySlots (regStep c r)) n = Some p" using f s(5) same
    by (cases c) (auto simp: name_def RegisterGateway_def DeregisterGatewayIf_def LookupGateway_def compareAndSwap_def)
qed

lemma regRun_refines:
  assumes "reg_ok r"
  shows "reg_ok (regRun cs r) \<and> registered (regRun cs r) = fold specStep cs (registered r) \<and>
    (\<forall>n p. map_of (registrySlots r) n = Some p \<longrightarrow> map_of (registrySlots (regRun cs r)) n = Some p)"
  using assms
proof (induction cs arbitrary: r)
  case (Cons c cs)
  note s = regStep_refines [OF Cons.prems]
  from Cons.IH [OF s(1)] s(2,3) show ?case by (simp add: regRun_def)
qed (simp add: regRun_def)

end
