(* ===== verification/Guarded.thy ===== *)
theory Guarded
  imports Http Gateway Sha256
begin

text \<open>
  The guarded addon (\<^verbatim>\<open>addons/guarded/guarded.go\<close>): \<^verbatim>\<open>GET /guarded-tail\<close>, a tail confined to the scopes under the capability of a
  bearer token. The addon sees the cache only through the Gateway.
\<close>

section \<open>The addon\<close>

definition tokensScope :: string where "tokensScope = ''_tokens''"

definition capID :: "string \<Rightarrow> string" where
  "capID token = rawURLEncode (Sum256 token)"

text \<open>\<^verbatim>\<open>strings.EqualFold\<close> against a text whose letters fold within ASCII only.\<close>

definition lower :: "char \<Rightarrow> char" where
  "lower c = (if 0x41 \<le> byte c \<and> byte c \<le> 0x5A then char_of (byte c + 0x20) else c)"

definition equalFold :: "string \<Rightarrow> string \<Rightarrow> bool" where
  "equalFold a b \<longleftrightarrow> map lower a = map lower b"

definition extractBearer :: "string \<Rightarrow> string" where
  "extractBearer h =
     (let pfx = ''Bearer ''
      in if length h \<le> length pfx \<or> \<not> equalFold (take (length pfx) h) pfx then [] else trimSpace (drop (length pfx) h))"

definition parseTailQuery :: "(string \<times> string) list \<Rightarrow> string + string \<times> int \<times> int" where
  "parseTailQuery q =
     (let scope = queryGet q ''scope'' in
      if scope = [] then Inl ''the 'scope' query parameter is required''
      else
        let rawLimit = queryGet q ''limit'';
            limit = (if rawLimit = [] then Some (DefaultLimit)
                     else case parseInt rawLimit of
                       None \<Rightarrow> None
                     | Some n \<Rightarrow> if n \<le> 0 then None else Some (if n > MaxLimit then MaxLimit else n))
        in case limit of
             None \<Rightarrow> Inl ''the 'limit' parameter must be a positive integer''
           | Some lim \<Rightarrow>
               (let rawOffset = queryGet q ''offset'';
                    offset = (if rawOffset = [] then Some 0
                              else case parseInt rawOffset of None \<Rightarrow> None | Some n \<Rightarrow> if n < 0 then None else Some n)
                in case offset of
                     None \<Rightarrow> Inl ''the 'offset' parameter must be a non-negative integer''
                   | Some off \<Rightarrow> Inr (scope, lim, off)))"

text \<open>The JSON objects the addon answers with; \<open>M\<close> marshals them.\<close>

datatype guardedBody =
    GuardedError string
  | GuardedTail bool nat int bool "item list"

definition writeJSON :: "(guardedBody \<Rightarrow> string option) \<Rightarrow> httpResponse \<Rightarrow> nat \<Rightarrow> guardedBody \<Rightarrow> httpResponse" where
  "writeJSON M w code body =
     (case M body of
        None \<Rightarrow> w\<lparr>contentType := jsonType, status := 500,
                   respBody := raw ''{`ok`:false,`error`:`the response failed to marshal`}'' @ [CHR 0x0A]\<rparr>
      | Some out \<Rightarrow> w\<lparr>contentType := jsonType, status := code, respBody := out @ [CHR 0x0A]\<rparr>)"

definition errorJSON :: "(guardedBody \<Rightarrow> string option) \<Rightarrow> httpResponse \<Rightarrow> nat \<Rightarrow> string \<Rightarrow> httpResponse" where
  "errorJSON M w code msg = writeJSON M w code (GuardedError msg)"

definition stripScope :: "string \<Rightarrow> item \<Rightarrow> item" where
  "stripScope pfx it = (if is_prefix pfx (Scope it) then it\<lparr>Scope := drop (length pfx) (Scope it)\<rparr> else it)"

text \<open>\<open>authorization\<close> is the header of the request; \<open>now\<close> and \<open>now'\<close> are the clock readings of the two reads.\<close>

definition guardedHandleTail ::
    "(guardedBody \<Rightarrow> string option) \<Rightarrow> int \<Rightarrow> int \<Rightarrow> string \<Rightarrow> 'a httpRequest \<Rightarrow> store \<Rightarrow> httpResponse \<times> store" where
  "guardedHandleTail M now now' authorization r s =
     (if reqMethod r \<noteq> ''GET''
      then (errorJSON M (newWriter\<lparr>allowHeader := Some ''GET''\<rparr>) 405 ''the HTTP method is not allowed for this endpoint'', s)
      else
        let token = extractBearer authorization in
        if token = [] then (errorJSON M newWriter 401 ''missing or malformed Authorization header'', s)
        else
          let cid = capID token in
          case Gateway_GetByID now tokensScope cid s of
            (None, s1) \<Rightarrow> (errorJSON M newWriter 401 ''invalid or unknown token'', s1)
          | (Some tok, s1) \<Rightarrow>
              (case parseTailQuery (reqQuery r) of
                 Inl err \<Rightarrow> (errorJSON M newWriter 400 err, s1)
               | Inr (scope, limit, offset) \<Rightarrow>
                   (let pfx = cid @ '':'';
                        (res, s2) = Gateway_Tail now' (pfx @ scope) limit offset s1;
                        (its, hasMore, found) = (case res of None \<Rightarrow> ([], False, False) | Some (ts, tr) \<Rightarrow> (ts, tr, True));
                        page = map (stripScope pfx) its
                    in (writeJSON M newWriter 200 (GuardedTail (found \<and> length page > 0) (length page) offset hasMore page), s2))))"

section \<open>Capabilities\<close>

lemma capID_shape: "length (capID t) = 43" "CHR '':'' \<notin> set (capID t)"
proof -
  show "length (capID t) = 43" by (simp add: capID_def rawURLEncode_length Sum256_length)
  have "CHR '':'' \<notin> set b64_alphabet" by (simp add: b64_alphabet_def)
  then show "CHR '':'' \<notin> set (capID t)" using rawURLEncode_set unfolding capID_def by blast
qed

lemma capabilities_apart: "capID t @ '':'' @ n = capID t' @ '':'' @ n' \<Longrightarrow> capID t = capID t' \<and> n = n'"
  by (auto simp: capID_shape append_eq_append_conv)

end
