(* ===== verification/Sha256_Vector.thy ===== *)
theory Sha256_Vector
  imports Guarded
begin

text \<open>
  The capability of the token \<^verbatim>\<open>tok-A\<close>, evaluated in the kernel. The message schedule and the rounds are evaluated in four
  pieces each.
\<close>

lemma sha_extend_add: "sha_extend (m + n) ws = sha_extend n (sha_extend m ws)"
  by (induction m arbitrary: ws) (simp_all add: Let_def)

definition tokW0 :: "32 word list" where
  "tokW0 =
   [0x28, 0x0, 0x0, 0x0, 0x0, 0x0, 0x0, 0x0, 0x0, 0x0, 0x0, 0x0, 0x0, 0x0, 0x41800000, 0x746f6b2d]"

definition tokW1 :: "32 word list" where
  "tokW1 =
   [0x26518e0a, 0x1bcc8c68, 0x2e899a31, 0x9698c696, 0xbd26c61a, 0xb1208846, 0x2fe20019, 0x27fc7d17, 0xa0104cba,
   0x72a859ab, 0x41910000, 0x7d227b8d, 0x28, 0x0, 0x0, 0x0, 0x0, 0x0, 0x0, 0x0, 0x0, 0x0, 0x0, 0x0, 0x0, 0x0, 0x41800000,
   0x746f6b2d]"

definition tokW2 :: "32 word list" where
  "tokW2 =
   [0x5a13fa2c, 0xfc439194, 0xa09266c4, 0x107441f6, 0xdeb1be50, 0xc74941d0, 0xf4d57ef, 0xefec657, 0xf08f824, 0xce82917a,
   0xa7ee4bc7, 0x7a1fdd5, 0x26518e0a, 0x1bcc8c68, 0x2e899a31, 0x9698c696, 0xbd26c61a, 0xb1208846, 0x2fe20019, 0x27fc7d17,
   0xa0104cba, 0x72a859ab, 0x41910000, 0x7d227b8d, 0x28, 0x0, 0x0, 0x0, 0x0, 0x0, 0x0, 0x0, 0x0, 0x0, 0x0, 0x0, 0x0, 0x0,
   0x41800000, 0x746f6b2d]"

definition tokW3 :: "32 word list" where
  "tokW3 =
   [0x9ed1b042, 0xd0ee87, 0xddb6cd9c, 0x4bd4b31a, 0xe60c084c, 0x3540ba29, 0x8e6ddb67, 0x2817474, 0x938bafe1, 0x603f7d7d,
   0x686c0d1c, 0x61ae7ba2, 0x5a13fa2c, 0xfc439194, 0xa09266c4, 0x107441f6, 0xdeb1be50, 0xc74941d0, 0xf4d57ef, 0xefec657,
   0xf08f824, 0xce82917a, 0xa7ee4bc7, 0x7a1fdd5, 0x26518e0a, 0x1bcc8c68, 0x2e899a31, 0x9698c696, 0xbd26c61a, 0xb1208846,
   0x2fe20019, 0x27fc7d17, 0xa0104cba, 0x72a859ab, 0x41910000, 0x7d227b8d, 0x28, 0x0, 0x0, 0x0, 0x0, 0x0, 0x0, 0x0, 0x0,
   0x0, 0x0, 0x0, 0x0, 0x0, 0x41800000, 0x746f6b2d]"

definition tokW4 :: "32 word list" where
  "tokW4 =
   [0xea34ad8, 0xc3be73f9, 0x1443ee8a, 0x20b8b3dc, 0x3c95e1af, 0x934e5579, 0x1769a24c, 0x8cda3c4a, 0xb7c15ecf,
   0xbe9fdb22, 0x95f793cc, 0xe57b1d7, 0x9ed1b042, 0xd0ee87, 0xddb6cd9c, 0x4bd4b31a, 0xe60c084c, 0x3540ba29, 0x8e6ddb67,
   0x2817474, 0x938bafe1, 0x603f7d7d, 0x686c0d1c, 0x61ae7ba2, 0x5a13fa2c, 0xfc439194, 0xa09266c4, 0x107441f6, 0xdeb1be50,
   0xc74941d0, 0xf4d57ef, 0xefec657, 0xf08f824, 0xce82917a, 0xa7ee4bc7, 0x7a1fdd5, 0x26518e0a, 0x1bcc8c68, 0x2e899a31,
   0x9698c696, 0xbd26c61a, 0xb1208846, 0x2fe20019, 0x27fc7d17, 0xa0104cba, 0x72a859ab, 0x41910000, 0x7d227b8d, 0x28, 0x0,
   0x0, 0x0, 0x0, 0x0, 0x0, 0x0, 0x0, 0x0, 0x0, 0x0, 0x0, 0x0, 0x41800000, 0x746f6b2d]"

definition tokH0 :: "32 word list" where
  "tokH0 = [0x6a09e667, 0xbb67ae85, 0x3c6ef372, 0xa54ff53a, 0x510e527f, 0x9b05688c, 0x1f83d9ab, 0x5be0cd19]"

definition tokH1 :: "32 word list" where
  "tokH1 = [0xe09cdd40, 0x77571327, 0xfd782f01, 0xbffaff5f, 0xbb08fb5b, 0xcdaedf9e, 0x15366b68, 0xbad26d23]"

definition tokH2 :: "32 word list" where
  "tokH2 = [0x6140568d, 0xb5c39e08, 0x628d9805, 0x7c79ac05, 0xa91523f2, 0x2b6aaea2, 0xfd081a87, 0x142aa43e]"

definition tokH3 :: "32 word list" where
  "tokH3 = [0xf375e62e, 0xef1937d8, 0x4ace976e, 0x25828da1, 0x15535e5e, 0x2af7aee1, 0x59bf67d5, 0xe4d10987]"

definition tokH4 :: "32 word list" where
  "tokH4 = [0x76e904d, 0xe16966d7, 0xf32eced5, 0x21f395d1, 0x57121427, 0x4f6c45ce, 0xe71b76c0, 0x594bb275]"

lemma tok_pad: "be_words (sha_pad ''tok-A'') = rev tokW0" by code_simp

lemma tok_extend0: "sha_extend 12 tokW0 = tokW1" by code_simp

lemma tok_extend1: "sha_extend 12 tokW1 = tokW2" by code_simp

lemma tok_extend2: "sha_extend 12 tokW2 = tokW3" by code_simp

lemma tok_extend3: "sha_extend 12 tokW3 = tokW4" by code_simp

lemma tok_rounds0: "fold sha_round (take 16 (drop 0 (zip sha_k (rev tokW4)))) tokH0 = tokH1" by code_simp

lemma tok_rounds1: "fold sha_round (take 16 (drop 16 (zip sha_k (rev tokW4)))) tokH1 = tokH2" by code_simp

lemma tok_rounds2: "fold sha_round (take 16 (drop 32 (zip sha_k (rev tokW4)))) tokH2 = tokH3" by code_simp

lemma tok_rounds3: "fold sha_round (take 16 (drop 48 (zip sha_k (rev tokW4)))) tokH3 = tokH4" by code_simp

lemma tok_schedule: "sha_extend 48 tokW0 = tokW4"
proof -
  have "sha_extend 48 tokW0 = sha_extend (12 + (12 + (12 + 12))) tokW0" by simp
  then show ?thesis unfolding sha_extend_add tok_extend0 tok_extend1 tok_extend2 tok_extend3 .
qed

lemma tok_block: "sha_block sha_init (rev tokW0) = map2 (+) tokH0 tokH4"
proof -
  let ?kw = "zip sha_k (rev tokW4)"
  have l: "length ?kw = 64" by (simp add: sha_k_def tokW4_def)
  have "?kw = take 16 (drop 0 ?kw) @ take 16 (drop 16 ?kw) @ take 16 (drop 32 ?kw) @ take 16 (drop 48 ?kw)"
    using l by (simp flip: append_assoc take_add)
  then have "fold sha_round ?kw tokH0 = tokH4"
    by (metis fold_append comp_apply tok_rounds0 tok_rounds1 tok_rounds2 tok_rounds3)
  moreover have "sha_init = tokH0" by (simp add: sha_init_def tokH0_def)
  ultimately show ?thesis by (simp add: sha_block_def tok_schedule)
qed

lemma tok_capID: "capID ''tok-A'' = ''cXh2tJzRFVwvncJHx0OLC6ggZqbqca5aBp9Qa7Usf44''"
proof -
  have l: "length (rev tokW0) = 16" by (simp add: tokW0_def)
  have "sha_blocks sha_init (rev tokW0) = sha_block sha_init (rev tokW0)"
    using l by (subst sha_blocks.simps) (simp add: sha_blocks.simps)
  then have "Sum256 ''tok-A'' = concat (map be_bytes (map2 (+) tokH0 tokH4))"
    by (simp add: Sum256_def tok_pad tok_block)
  then show ?thesis unfolding capID_def by (elim ssubst) code_simp
qed

end
