(* ===== verification/Props_Gateway.thy ===== *)
theory Props_Gateway
  imports Props_Http Clone Registry Sha256_Vector
begin

text \<open>
  The properties of the Go API around the store: the cloning boundary, the registry of gateways, and the guarded addon.
\<close>

section \<open>The cloning boundary\<close>

text \<open>C17: Whatever Go callers and Gateway methods have done, the bytes the cache keeps are out of the callers' reach: no write
  through any slice a caller holds changes the payload or the rendered bytes of an item the cache keeps, and no item a caller holds
  carries rendered bytes or a counter cell; and a method that is given items receives exactly the payload bytes they have at the call.\<close>

theorem gateway_isolation:
  assumes "at_boundary b"
  shows "(\<forall>p \<in> set (heldBytes b). \<forall>i c. \<forall>it \<in> set (kept b).
      bytesAt (writeByte p i c (bArrays b)) (shPayload it) = bytesAt (bArrays b) (shPayload it) \<and>
      bytesAt (writeByte p i c (bArrays b)) (shRender it) = bytesAt (bArrays b) (shRender it)) \<and>
    (\<forall>it \<in> set (held b). shRender it = NilSlice \<and> shCounter it = None) \<and>
    (\<forall>xs. set xs \<subseteq> set (held b) \<longrightarrow> (case cloneItemsAt xs (bArrays b) of (ys, h) \<Rightarrow>
      map (\<lambda>y. bytesAt h (shPayload y)) ys = map (\<lambda>x. bytesAt (bArrays b) (shPayload x)) xs))"
proof (intro conjI ballI allI impI)
  note iso = boundary_isolated [OF assms] and ok = boundary_slices_ok [OF assms]
  show "bytesAt (writeByte p i c (bArrays b)) (shPayload it) = bytesAt (bArrays b) (shPayload it)"
    "bytesAt (writeByte p i c (bArrays b)) (shRender it) = bytesAt (bArrays b) (shRender it)"
    if "p \<in> set (heldBytes b)" "it \<in> set (kept b)" for p i c it
  proof -
    have "a \<notin> sliceBase p" if "a \<in> itemBases it" for a
      using iso \<open>p \<in> set (heldBytes b)\<close> \<open>it \<in> set (kept b)\<close> that by (fastforce simp: isolated_def keptBases_def heldBases_def)
    then show "bytesAt (writeByte p i c (bArrays b)) (shPayload it) = bytesAt (bArrays b) (shPayload it)"
      "bytesAt (writeByte p i c (bArrays b)) (shRender it) = bytesAt (bArrays b) (shRender it)"
      by (auto intro!: bytesAt_cong writeByte_other simp: itemBases_def)
  qed
  show "shRender it = NilSlice" "shCounter it = None" if "it \<in> set (held b)" for it
    using iso that by (simp_all add: isolated_def)
  fix xs assume "set xs \<subseteq> set (held b)"
  then have "\<forall>it \<in> set xs. item_ok (bArrays b) it" using ok by (auto simp: slices_ok_def)
  then show "case cloneItemsAt xs (bArrays b) of (ys, h) \<Rightarrow>
      map (\<lambda>y. bytesAt h (shPayload y)) ys = map (\<lambda>x. bytesAt (bArrays b) (shPayload x)) xs"
    using cloneItemsAt_same [of xs "bArrays b"] by (auto split: prod.split)
qed

text \<open>A caller makes a buffer, builds an item on it, has the cache keep the clone, and then scribbles over the buffer.\<close>

definition shItem :: "slice \<Rightarrow> sharedItem" where
  "shItem p = \<lparr>shPayload = p, shRender = NilSlice, shCounter = None\<rparr>"

definition sampleBoundary :: boundary where
  "sampleBoundary = \<lparr>bArrays = [''abc'', ''abc''], kept = [shItem (Slice 1 0 3)], held = [shItem (Slice 0 0 3)],
     heldBytes = [Slice 0 0 3]\<rparr>"

lemma sample_boundary: "at_boundary sampleBoundary"
proof -
  let ?b0 = "\<lparr>bArrays = [], kept = [], held = [], heldBytes = []\<rparr>"
  let ?b1 = "?b0\<lparr>bArrays := bArrays ?b0 @ [''abc''], heldBytes := Slice (length (bArrays ?b0)) 0 (length ''abc'') # heldBytes ?b0\<rparr>"
  let ?b2 = "?b1\<lparr>held := \<lparr>shPayload = NilSlice, shRender = NilSlice, shCounter = None\<rparr>\<lparr>shPayload := Slice 0 0 3\<rparr> # held ?b1\<rparr>"
  have "at_boundary ?b1" by (rule cross [OF start crossing.alloc])
  then have 2: "at_boundary ?b2" by (rule cross) (rule crossing.assemble; simp)
  have "crossing ?b2 (?b2\<lparr>bArrays := [''abc'', ''abc''], kept := [shItem (Slice 1 0 3)], held := [] @ held ?b2\<rparr>)"
    by (rule crossing.call [where xs = "held ?b2" and ys = "[shItem (Slice 1 0 3)]" and rs = "[]" and own = "[]"])
      (simp_all add: cloneItemAt_def clonePayloadAt_def makeSlice_def copy_bytes_def shItem_def itemBases_def item_ok_def)
  from cross [OF 2 this] show ?thesis by (simp add: sampleBoundary_def shItem_def numeral_3_eq_3)
qed

theorem gateway_isolation_witness:
  "bytesAt (writeByte (Slice 0 0 3) 1 (CHR ''X'') (bArrays sampleBoundary)) (Slice 0 0 3) = ''aXc'' \<and>
   bytesAt (writeByte (Slice 0 0 3) 1 (CHR ''X'') (bArrays sampleBoundary)) (Slice 1 0 3) = ''abc''"
proof -
  have k: "shItem (Slice 1 0 3) \<in> set (kept sampleBoundary)" "Slice 0 0 3 \<in> set (heldBytes sampleBoundary)"
    by (simp_all add: sampleBoundary_def)
  have "bytesAt (writeByte (Slice 0 0 3) 1 (CHR ''X'') (bArrays sampleBoundary)) (Slice 1 0 3) = bytesAt (bArrays sampleBoundary) (Slice 1 0 3)"
    using gateway_isolation [OF sample_boundary, THEN conjunct1, rule_format, OF k(2,1), of 1 "CHR ''X''"] by (simp add: shItem_def)
  then show ?thesis by (simp add: sampleBoundary_def writeByte_def)
qed

section \<open>The registry\<close>

text \<open>C19: The registry implements a map from names to gateways in which a deregistration removes an entry only when it still is the
  given gateway: for every sequence of calls, a slot that a consumer obtained and cached at any moment reads, at every later moment,
  what that map holds for its name. So when a configuration reload registers the new gateway before the old one is
  deregistered, the new one stays.\<close>

theorem registry_refines:
  assumes "map_of (registrySlots (regRun cs emptyRegistry)) name = Some slot"
  shows "loadSlot slot (regRun (cs @ ds) emptyRegistry) = fold specStep (cs @ ds) (\<lambda>_. None) name"
proof -
  have e: "regRun (cs @ ds) emptyRegistry = regRun ds (regRun cs emptyRegistry)" by (simp add: regRun_def)
  have r0: "registered emptyRegistry = (\<lambda>_. None)" by (simp add: fun_eq_iff registered_def emptyRegistry_def)
  have a: "reg_ok (regRun cs emptyRegistry)" using regRun_refines [OF empty_ok] by simp
  have "map_of (registrySlots (regRun (cs @ ds) emptyRegistry)) name = Some slot"
    using regRun_refines [OF a, of ds] assms unfolding e by blast
  then show ?thesis using slot_reads_name regRun_refines [OF empty_ok, of "cs @ ds"] by (simp add: r0)
qed

theorem registry_refines_witness:
  "loadSlot 0 (regRun [Lookup ''default'', Register ''default'' (Some 1), Register ''default'' (Some 2), Deregister ''default'' (Some 1)]
      emptyRegistry) = Some 2"
proof -
  have "map_of (registrySlots (regRun [Lookup ''default''] emptyRegistry)) ''default'' = Some 0" by code_simp
  from registry_refines [OF this, of "[Register ''default'' (Some 1), Register ''default'' (Some 2), Deregister ''default'' (Some 1)]"]
  show ?thesis by simp
qed

section \<open>The guarded addon\<close>


lemma is_prefix_append [simp]: "is_prefix p (p @ x)" by (induction p) simp_all












section \<open>Hidden fields\<close>

lemma appendItem_render:
  assumes "appendItem J now u it a b = (Inr st, a', b')" "renderBytes it = precomputeRenderBytes J (Payload it)"
  shows "renderBytes st = precomputeRenderBytes J (Payload it)"
  using assms
  by (auto simp: appendItem_def insertNewItemLocked_def installItemLocked_def preparedItem_def renderOr_def Let_def
      split: if_splits prod.splits option.splits)

lemma commitAppend_render:
  "commitAppend J inp i it s = (Inr st, s') \<Longrightarrow> renderBytes it = precomputeRenderBytes J (Payload it) \<Longrightarrow>
   renderBytes st = precomputeRenderBytes J (Payload it)"
  by (auto simp: commitAppend_def withScope_def onBuf_def Let_def dest: appendItem_render split: sum.splits prod.splits)

text \<open>C18: An item can be read through the Gateway, changed and written back. Whatever rendered bytes or counter cell the item
  that is given to \<^verbatim>\<open>Append\<close> carries, the stored item is no counter, has the payload that was sent and the rendered bytes computed from
  that payload, and what \<^verbatim>\<open>GetByID\<close> then returns is exactly what \<^verbatim>\<open>Append\<close> returned.\<close>

theorem gateway_append_fresh:
  assumes s: "reachable J c N s" "cfgMaxStoreBytes c \<le> MaxInt64" "Suc N < 2 ^ 64"
    and r: "Gateway_Append J inp i it s = (Inr x, s')"
  shows "\<exists>xs st. view s' (Scope it) = Some (xs @ [st]) \<and> counter st = None \<and> Payload st = Payload it \<and>
    renderBytes st = precomputeRenderBytes J (Payload it) \<and>
    (ID it \<noteq> [] \<longrightarrow> fst (Gateway_GetByID now (Scope it) (ID it) s') = Some x)"
proof -
  have "N < 2 ^ 64" using s(3) by simp
  note i = reachable_inv [OF s(1,2) this]
  let ?it = "cloneItemPayload it"
  obtain st where a: "appendOne J inp i ?it s = (Inr st, s')" "x = cloneItemPayload st"
    using r by (auto simp: Gateway_Append_def split: prod.splits sum.splits)
  note v = append_visible [OF i(1-3) s(3) a(1), simplified]
  obtain it' where w: "validateWriteItem J ?it ''/append'' (maxItemBytesFor (acct s) (Scope ?it)) = Inr it'"
    and t: "appendOneTrusted J inp i it' s = (Inr st, s')"
    using a(1) by (auto simp: appendOne_def split: sum.splits)
  have p: "Payload it' = Payload it" using validateWriteItem_Inr(6) [OF w] by simp
  have "checkItemSize J ?it (maxItemBytesFor (acct s) (Scope ?it)) = Inr it'"
    using w by (simp add: validateWriteItem_def sized_Inr)
  then have rb: "renderBytes it' = precomputeRenderBytes J (Payload it)" using checkItemSize_Inr(3) by fastforce
  have st: "renderBytes st = precomputeRenderBytes J (Payload it)"
    using i(1-3) s(3) t
  proof (cases rule: appendOneTrusted_cases)
    case (okay y s1 s2)
    then show ?thesis using commitAppend_render [OF okay(2)] rb p by simp
  qed simp
  obtain xs where xs: "view s' (Scope it) = Some (xs @ [st])" using v(6) by blast
  have "ID it \<noteq> [] \<longrightarrow> fst (Gateway_GetByID now (Scope it) (ID it) s') = Some x"
    using view_get [OF v(1) xs, of st now] v(3,5) a(2) by (auto simp: Gateway_GetByID_def split: prod.splits)
  then show ?thesis using xs v(4,5) st by blast
qed

text \<open>An item with a forged counter cell and stale rendered bytes.\<close>

theorem gateway_append_fresh_witness:
  "let it = (sampleItem ''b'' ''[7]'')\<lparr>renderBytes := Some ''stale'', counter := Some \<lparr>cellValue = 9, cellTs = 9\<rparr>\<rparr>;
       (r, s') = Gateway_Append sampleJson sampleInp 20 it sampleStore
   in \<not> isl r \<and> (\<exists>xs st. view s' ''posts'' = Some (xs @ [st]) \<and> renderBytes st = None \<and> Payload st = ''[7]'') \<and>
      fst (Gateway_GetByID 500 ''posts'' ''b'' s') = Some (projr r)"
proof -
  let ?it = "(sampleItem ''b'' ''[7]'')\<lparr>renderBytes := Some ''stale'', counter := Some \<lparr>cellValue = 9, cellTs = 9\<rparr>\<rparr>"
  let ?r = "Gateway_Append sampleJson sampleInp 20 ?it sampleStore"
  have e: "\<not> isl (fst ?r)" "precomputeRenderBytes sampleJson ''[7]'' = None" by code_simp+
  then obtain x s' where d: "?r = (Inr x, s')" by (cases ?r; cases "fst ?r") auto
  have f: "Scope ?it = ''posts''" "ID ?it = ''b''" "Payload ?it = ''[7]''" by (simp_all add: sampleItem_def)
  show ?thesis using gateway_append_fresh [OF sample_reachable sample_conf _ d, of 500] e(2) unfolding f Let_def d by auto
qed

end
