(* ===== verification/Cas.thy ===== *)
theory Cas
  imports Buffer_Counter
begin

text \<open>
  The compare-and-swap loops of the program under interference: \<^verbatim>\<open>reserveBytes\<close> and \<^verbatim>\<open>bumpLastWriteTS\<close> of
  \<^verbatim>\<open>store.go\<close>, \<^verbatim>\<open>atomicCounterAdd\<close> of \<^verbatim>\<open>buffer_counter.go\<close>. Any number of goroutines run on one atomic cell under
  any schedule, each load and each compare-and-swap one step. The rest of the development takes a call as one step; this
  theory shows that every schedule has the outcome of some order of such calls, and that the loops end.
\<close>

section \<open>Threads on one cell\<close>

text \<open>
  A routine is one atomic instruction, or a loop whose body decides from the loaded value to return, or to attempt a swap
  and return when it succeeds.
\<close>

datatype ('v, 'r) routine =
    Atomic "'v \<Rightarrow> 'r \<times> 'v"
  | CasLoop "'v \<Rightarrow> 'r + 'r \<times> 'v"

datatype ('v, 'r) thread = AtLoad | Loaded 'v | Returned 'r

type_synonym ('v, 'r) machine = "'v \<times> ('v, 'r) thread list"

definition thread_step :: "('v, 'r) routine \<Rightarrow> 'v \<Rightarrow> ('v, 'r) thread \<Rightarrow> 'v \<times> ('v, 'r) thread" where
  "thread_step prog cell th =
     (case th of
        Returned r \<Rightarrow> (cell, th)
      | AtLoad \<Rightarrow> (case prog of Atomic f \<Rightarrow> (case f cell of (r, new) \<Rightarrow> (new, Returned r)) | CasLoop body \<Rightarrow> (cell, Loaded cell))
      | Loaded cur \<Rightarrow>
          (case prog of
             Atomic f \<Rightarrow> (cell, th)
           | CasLoop body \<Rightarrow>
               (case body cur of
                  Inl r \<Rightarrow> (cell, Returned r)
                | Inr (r, new) \<Rightarrow> if cell = cur then (new, Returned r) else (cell, AtLoad))))"

definition machine_step :: "('v, 'r) routine list \<Rightarrow> nat \<Rightarrow> ('v, 'r) machine \<Rightarrow> ('v, 'r) machine" where
  "machine_step progs i m =
     (if i < length progs
      then case thread_step (progs ! i) (fst m) (snd m ! i) of (cell, th) \<Rightarrow> (cell, (snd m)[i := th])
      else m)"

definition run_schedule :: "('v, 'r) routine list \<Rightarrow> nat list \<Rightarrow> 'v \<Rightarrow> ('v, 'r) machine" where
  "run_schedule progs sched v = fold (machine_step progs) sched (v, replicate (length progs) AtLoad)"

text \<open>The same routines, one call at a time.\<close>

definition at_once :: "('v, 'r) routine \<Rightarrow> 'v \<Rightarrow> 'r \<times> 'v" where
  "at_once prog v =
     (case prog of
        Atomic f \<Rightarrow> f v
      | CasLoop body \<Rightarrow> (case body v of Inl r \<Rightarrow> (r, v) | Inr (r, new) \<Rightarrow> (r, new)))"

fun in_order :: "('v, 'r) routine list \<Rightarrow> nat list \<Rightarrow> 'v \<Rightarrow> (nat \<times> 'r) list \<times> 'v" where
  "in_order progs [] v = ([], v)"
| "in_order progs (i # is) v =
     (case at_once (progs ! i) v of (r, v1) \<Rightarrow> (case in_order progs is v1 of (rs, v2) \<Rightarrow> ((i, r) # rs, v2)))"

section \<open>The three loops\<close>

definition reserve_routine :: "int \<Rightarrow> int \<Rightarrow> (int, bool \<times> int \<times> int) routine" where
  "reserve_routine cap delta =
     (if delta \<le> 0 then Atomic (\<lambda>v. let n = i64 (v + delta) in ((True, n, cap), n))
      else CasLoop (\<lambda>current.
        if delta > i64 (cap - current) then Inl (False, current, cap)
        else let nxt = i64 (current + delta) in Inr ((True, nxt, cap), nxt)))"

definition counter_routine :: "int \<Rightarrow> (int, goError + int) routine" where
  "counter_routine inc = CasLoop (\<lambda>cur.
     let nxt = i64 (cur + inc)
     in if nxt > MaxCounterValue \<or> nxt < - MaxCounterValue then Inl (Inl (CounterOverflowError cur inc)) else Inr (Inr nxt, nxt))"

definition bump_routine :: "int \<Rightarrow> (int, unit) routine" where
  "bump_routine nowUs = CasLoop (\<lambda>cur. if nowUs \<le> cur then Inl () else Inr ((), nowUs))"

text \<open>One call of each is the single step of the other theories.\<close>

lemma reserve_at_once:
  "reserveBytes delta a =
     (case at_once (reserve_routine (maxStoreBytes a) delta) (totalBytes a) of ((ok, n, cap), v) \<Rightarrow> (ok, n, cap, a\<lparr>totalBytes := v\<rparr>))"
  by (simp add: reserveBytes_def reserve_routine_def at_once_def Let_def)

lemma counter_at_once:
  "atomicCounterAdd now inc cell =
     (case at_once (counter_routine inc) (cellValue cell) of
        (Inl e, v) \<Rightarrow> (Inl e, cell)
      | (Inr n, v) \<Rightarrow> (Inr n, \<lparr>cellValue = v, cellTs = snd (at_once (bump_routine now) (cellTs cell))\<rparr>))"
  by (simp add: atomicCounterAdd_def counter_routine_def bump_routine_def at_once_def Let_def)

lemma bump_at_once: "bumpLastWriteTS now a = a\<lparr>lastWriteTS := snd (at_once (bump_routine now) (lastWriteTS a))\<rparr>"
  by (simp add: bumpLastWriteTS_def bump_routine_def at_once_def)

section \<open>Every schedule has an order of calls\<close>

lemma in_order_snd: "snd (in_order progs (i # is) v) = snd (in_order progs is (snd (at_once (progs ! i) v)))"
  by (simp split: prod.split)

lemma in_order_append:
  "in_order progs (is @ js) v =
     (case in_order progs is v of (rs, v1) \<Rightarrow> (case in_order progs js v1 of (rs', v2) \<Rightarrow> (rs @ rs', v2)))"
  by (induction "is" arbitrary: v) (simp_all split: prod.split)

lemma in_order_snoc:
  assumes "in_order progs is v = (rs, v1)" "at_once (progs ! i) v1 = (r, v2)"
  shows "in_order progs (is @ [i]) v = (rs @ [(i, r)], v2)"
  using assms by (simp add: in_order_append)

lemma in_order_fst: "map fst (fst (in_order progs is v)) = is"
  by (induction "is" arbitrary: v) (simp_all split: prod.split, metis fst_conv)

text \<open>A thread whose call has taken effect: it has returned, or it will return what it decided from its load.\<close>

fun settled :: "('v, 'r) routine \<Rightarrow> ('v, 'r) thread \<Rightarrow> 'r option" where
  "settled prog (Returned r) = Some r"
| "settled (CasLoop body) (Loaded cur) = (case body cur of Inl r \<Rightarrow> Some r | Inr _ \<Rightarrow> None)"
| "settled prog th = None"

definition explains :: "('v, 'r) routine list \<Rightarrow> 'v \<Rightarrow> nat list \<Rightarrow> ('v, 'r) machine \<Rightarrow> bool" where
  "explains progs v0 ord m \<longleftrightarrow>
     length (snd m) = length progs \<and> distinct ord \<and> set ord \<subseteq> {..<length progs} \<and> snd (in_order progs ord v0) = fst m \<and>
     (\<forall>i < length progs. settled (progs ! i) (snd m ! i) = map_of (fst (in_order progs ord v0)) i) \<and>
     (\<forall>i < length progs. \<forall>cur f. snd m ! i = Loaded cur \<longrightarrow> progs ! i \<noteq> Atomic f)"

lemma explains_settles:
  assumes "explains progs v0 ord m" "i < length progs" "settled (progs ! i) (snd m ! i) = None"
    "at_once (progs ! i) (fst m) = (r, v)" "settled (progs ! i) th = Some r"
    "\<forall>cur f. th = Loaded cur \<longrightarrow> progs ! i \<noteq> Atomic f"
  shows "explains progs v0 (ord @ [i]) (v, (snd m)[i := th])"
proof -
  obtain rs v1 where d: "in_order progs ord v0 = (rs, v1)" by fastforce
  have f: "map fst rs = ord" using in_order_fst [of progs ord v0] by (simp add: d)
  have v: "v1 = fst m" and none: "map_of rs i = None" and l: "length (snd m) = length progs"
    using assms(1-3) by (auto simp: explains_def d)
  then have ni: "i \<notin> set ord" using f by (metis map_of_eq_None_iff list.set_map)
  have e: "in_order progs (ord @ [i]) v0 = (rs @ [(i, r)], v)"
    using in_order_snoc [OF d] assms(4) v by simp
  have "map_of (rs @ [(i, r)]) j = (if j = i then Some r else map_of rs j)" for j
    using none by (auto simp: map_add_def split: option.split)
  then show ?thesis using assms(1,2,5,6) ni l by (auto simp: explains_def e d nth_list_update)
qed

lemma explains_same:
  assumes "explains progs v0 ord m" "i < length progs" "settled (progs ! i) th = settled (progs ! i) (snd m ! i)"
    "\<forall>cur f. th = Loaded cur \<longrightarrow> progs ! i \<noteq> Atomic f"
  shows "explains progs v0 ord (fst m, (snd m)[i := th])"
  using assms by (auto simp: explains_def nth_list_update)

lemma machine_step_explained:
  assumes "explains progs v0 ord m"
  shows "\<exists>more. explains progs v0 (ord @ more) (machine_step progs i m)"
proof (cases "i < length progs")
  case False
  then show ?thesis using assms by (intro exI [of _ "[]"]) (simp add: machine_step_def)
next
  case True
  have same: "\<exists>more. explains progs v0 (ord @ more) (fst m, (snd m)[i := th])"
    if "settled (progs ! i) th = settled (progs ! i) (snd m ! i)" "\<forall>cur f. th = Loaded cur \<longrightarrow> progs ! i \<noteq> Atomic f" for th
    using explains_same [OF assms True that] by (intro exI [of _ "[]"]) simp
  have settles: "\<exists>more. explains progs v0 (ord @ more) (v, (snd m)[i := th])"
    if "settled (progs ! i) (snd m ! i) = None" "at_once (progs ! i) (fst m) = (r, v)" "settled (progs ! i) th = Some r"
      "\<forall>cur f. th = Loaded cur \<longrightarrow> progs ! i \<noteq> Atomic f" for r v th
    using explains_settles [OF assms True that] by blast
  show ?thesis
  proof (cases "snd m ! i")
    case (Returned r)
    then show ?thesis using True same [of "Returned r"] by (simp add: machine_step_def thread_step_def)
  next
    case AtLoad
    show ?thesis
    proof (cases "progs ! i")
      case (Atomic f)
      obtain r new where f: "f (fst m) = (r, new)" by fastforce
      show ?thesis using True AtLoad Atomic f settles [of r new "Returned r"]
        by (simp add: machine_step_def thread_step_def at_once_def)
    next
      case (CasLoop body)
      show ?thesis
      proof (cases "body (fst m)")
        case (Inl r)
        then show ?thesis using True AtLoad CasLoop settles [of r "fst m" "Loaded (fst m)"]
          by (simp add: machine_step_def thread_step_def at_once_def)
      next
        case (Inr p)
        then show ?thesis using True AtLoad CasLoop same [of "Loaded (fst m)"]
          by (simp add: machine_step_def thread_step_def)
      qed
    qed
  next
    case (Loaded cur)
    then obtain body where p: "progs ! i = CasLoop body"
      using assms True by (cases "progs ! i") (auto simp: explains_def)
    show ?thesis
    proof (cases "body cur")
      case (Inl r)
      then show ?thesis using True Loaded p same [of "Returned r"] by (simp add: machine_step_def thread_step_def)
    next
      case (Inr pr)
      then show ?thesis using True Loaded p same [of AtLoad] settles [of "fst pr" "snd pr" "Returned (fst pr)"]
        by (cases pr) (simp add: machine_step_def thread_step_def at_once_def)
    qed
  qed
qed

lemma schedule_explained: "\<exists>ord. explains progs v ord (run_schedule progs sched v)"
proof (induction sched rule: rev_induct)
  case Nil
  have "settled (progs ! i) AtLoad = None" for i by (cases "progs ! i") simp_all
  then show ?case by (intro exI [of _ "[]"]) (simp add: explains_def run_schedule_def)
next
  case (snoc i sched)
  then obtain ord where "explains progs v ord (run_schedule progs sched v)" by blast
  from machine_step_explained [OF this, of i] show ?case by (auto simp: run_schedule_def)
qed

section \<open>The loops end\<close>

text \<open>
  A swap fails only after another thread's has succeeded. The weight of a thread is the number of steps to its return if
  nobody interferes; a thread that returns pays for the loads it makes stale.
\<close>

definition weight :: "'v \<Rightarrow> ('v, 'r) thread \<Rightarrow> nat" where
  "weight cell th = (case th of Returned r \<Rightarrow> 0 | AtLoad \<Rightarrow> 2 | Loaded cur \<Rightarrow> if cur = cell then 1 else 3)"

definition running :: "('v, 'r) thread \<Rightarrow> bool" where
  "running th = (case th of Returned r \<Rightarrow> False | _ \<Rightarrow> True)"

definition work :: "('v, 'r) machine \<Rightarrow> nat" where
  "work m = sum_list (map (weight (fst m)) (snd m)) + 2 * length (snd m) * length (filter running (snd m))"

lemma weight_le: "weight v th \<le> weight cell th + 2"
  by (simp add: weight_def split: thread.split)

lemma weights_le: "sum_list (map (weight v) ths) \<le> sum_list (map (weight cell) ths) + 2 * length ths"
proof (induction ths)
  case (Cons th ths)
  then show ?case using weight_le [of v th cell] by simp
qed simp

lemma work_update:
  assumes "i < length ths" and d: "ths = us @ th0 # ws" "length us = i"
  shows "work (cell, ths[i := th]) = sum_list (map (weight cell) us) + weight cell th + sum_list (map (weight cell) ws) +
    2 * length ths * (length (filter running us) + (if running th then 1 else 0) + length (filter running ws))"
  using d by (simp add: work_def list_update_append)

text \<open>Every step of a running thread makes progress.\<close>

lemma step_works:
  assumes i: "i < length progs" and l: "length (snd m) = length progs" and run: "running (snd m ! i)"
    and wf: "\<forall>cur f. snd m ! i = Loaded cur \<longrightarrow> progs ! i \<noteq> Atomic f"
  shows "work (machine_step progs i m) < work m"
proof -
  obtain us ws where d: "snd m = us @ snd m ! i # ws" "length us = i"
    using i l id_take_nth_drop [of i "snd m"] by (metis length_take min.absorb4)
  define th where "th = snd m ! i"
  have up: "work (cell, (snd m)[i := th']) = sum_list (map (weight cell) us) + weight cell th' + sum_list (map (weight cell) ws) +
      2 * length progs * (length (filter running us) + (if running th' then 1 else 0) + length (filter running ws))" for cell th'
    using work_update [OF _ d, of cell th'] i l by simp
  have now: "work m = sum_list (map (weight (fst m)) us) + weight (fst m) th + sum_list (map (weight (fst m)) ws) +
      2 * length progs * (length (filter running us) + 1 + length (filter running ws))"
    using up [of "fst m" th] run by (simp add: th_def)
  have n: "length progs = length us + 1 + length ws" using arg_cong [OF d(1), of length] l by simp
  have fin: "work (v, (snd m)[i := Returned r]) < work m" if "0 < weight (fst m) th" for v r
    using weights_le [of v us "fst m"] weights_le [of v ws "fst m"] that n
    unfolding up now by (simp add: weight_def running_def algebra_simps)
  have retry: "work (fst m, (snd m)[i := th']) < work m" if "weight (fst m) th' < weight (fst m) th" "running th'" for th'
    using that unfolding up now by simp
  show ?thesis
  proof (cases th)
    case (Returned r)
    then show ?thesis using run by (simp add: th_def running_def)
  next
    case AtLoad
    then have "0 < weight (fst m) th" and "weight (fst m) (Loaded (fst m) :: ('a, 'b) thread) < weight (fst m) th"
      by (simp_all add: weight_def)
    moreover have "running (Loaded (fst m) :: ('a, 'b) thread)" by (simp add: running_def)
    ultimately show ?thesis using i AtLoad fin retry [of "Loaded (fst m)"]
      by (cases "progs ! i") (auto simp: machine_step_def thread_step_def th_def split: prod.split)
  next
    case (Loaded cur)
    then obtain body where p: "progs ! i = CasLoop body" using wf by (cases "progs ! i") (auto simp: th_def)
    have "0 < weight (fst m) th" using Loaded by (simp add: weight_def)
    moreover have "weight (fst m) (AtLoad :: ('a, 'b) thread) < weight (fst m) th" if "fst m \<noteq> cur"
      using Loaded that by (simp add: weight_def)
    moreover have "running (AtLoad :: ('a, 'b) thread)" by (simp add: running_def)
    ultimately show ?thesis using i Loaded p fin retry [of AtLoad]
      by (auto simp: machine_step_def thread_step_def th_def split: sum.split prod.split)
  qed
qed

lemma step_idle:
  assumes "\<not> running (snd m ! i)"
  shows "machine_step progs i m = m"
proof -
  obtain r where "snd m ! i = Returned r" using assms by (cases "snd m ! i") (auto simp: running_def)
  then show ?thesis using list_update_id [of "snd m" i] by (cases m) (simp add: machine_step_def thread_step_def)
qed

lemma step_keeps_wf:
  assumes "length (snd m) = length progs" "\<forall>i < length progs. \<forall>cur f. snd m ! i = Loaded cur \<longrightarrow> progs ! i \<noteq> Atomic f"
  shows "length (snd (machine_step progs j m)) = length progs"
    and "\<forall>i < length progs. \<forall>cur f. snd (machine_step progs j m) ! i = Loaded cur \<longrightarrow> progs ! i \<noteq> Atomic f"
  using assms
  by (auto simp: machine_step_def thread_step_def nth_list_update split: prod.splits thread.splits routine.splits sum.splits if_splits)

lemma schedule_works_all:
  assumes "length (snd m) = length progs" "\<forall>i < length progs. \<forall>cur f. snd m ! i = Loaded cur \<longrightarrow> progs ! i \<noteq> Atomic f"
  shows "work (fold (machine_step progs) sched m) \<le> work m \<and>
    ((\<exists>i \<in> set sched. i < length progs \<and> running (snd m ! i)) \<longrightarrow> work (fold (machine_step progs) sched m) < work m) \<and>
    length (snd (fold (machine_step progs) sched m)) = length progs \<and>
    (\<forall>i < length progs. \<forall>cur f. snd (fold (machine_step progs) sched m) ! i = Loaded cur \<longrightarrow> progs ! i \<noteq> Atomic f)"
  using assms
proof (induction sched arbitrary: m)
  case (Cons i sched)
  let ?m = "machine_step progs i m"
  have ih: "work (fold (machine_step progs) sched ?m) \<le> work ?m \<and>
    ((\<exists>i \<in> set sched. i < length progs \<and> running (snd ?m ! i)) \<longrightarrow> work (fold (machine_step progs) sched ?m) < work ?m) \<and>
    length (snd (fold (machine_step progs) sched ?m)) = length progs \<and>
    (\<forall>i < length progs. \<forall>cur f. snd (fold (machine_step progs) sched ?m) ! i = Loaded cur \<longrightarrow> progs ! i \<noteq> Atomic f)"
    by (rule Cons.IH [OF step_keeps_wf [OF Cons.prems, of i]])
  show ?case
  proof (cases "i < length progs \<and> running (snd m ! i)")
    case True
    then have "work ?m < work m" using step_works [of i progs m] Cons.prems by blast
    then show ?thesis using ih by auto
  next
    case False
    then have "?m = m" using step_idle [of m i progs] by (auto simp: machine_step_def)
    then show ?thesis using ih False by auto
  qed
qed simp

lemmas schedule_works = schedule_works_all [THEN conjunct1] schedule_works_all [THEN conjunct2, THEN conjunct1, THEN mp]
  schedule_works_all [THEN conjunct2, THEN conjunct2, THEN conjunct1]
  schedule_works_all [THEN conjunct2, THEN conjunct2, THEN conjunct2]

lemma rounds_work:
  assumes "length (snd m) = length progs" "\<forall>i < length progs. \<forall>cur f. snd m ! i = Loaded cur \<longrightarrow> progs ! i \<noteq> Atomic f"
    "\<forall>r \<in> set rounds. {..<length progs} \<subseteq> set r"
  shows "(\<forall>th \<in> set (snd (fold (machine_step progs) (concat rounds) m)). \<not> running th) \<or>
    work (fold (machine_step progs) (concat rounds) m) + length rounds \<le> work m"
  using assms
proof (induction rounds arbitrary: m)
  case (Cons r rounds)
  let ?m = "fold (machine_step progs) r m"
  note w = schedule_works [OF Cons.prems(1,2), where sched = r]
  have ih: "(\<forall>th \<in> set (snd (fold (machine_step progs) (concat rounds) ?m)). \<not> running th) \<or>
      work (fold (machine_step progs) (concat rounds) ?m) + length rounds \<le> work ?m"
    using Cons.IH [OF w(3,4)] Cons.prems(3) by simp
  show ?case
  proof (cases "\<exists>i < length progs. running (snd m ! i)")
    case True
    then have "work ?m < work m" using w(2) Cons.prems(3) by (meson lessThan_iff list.set_intros(1) subsetD)
    then show ?thesis using ih by auto
  next
    case False
    have "fold (machine_step progs) is m = m" for "is"
    proof (induction "is")
      case (Cons j js)
      have "machine_step progs j m = m" using False step_idle [of m j progs] by (cases "j < length progs") (auto simp: machine_step_def)
      then show ?case using Cons by simp
    qed simp
    then show ?thesis using False Cons.prems(1) by (auto simp: in_set_conv_nth)
  qed
qed simp

lemma all_return:
  assumes "\<forall>r \<in> set rounds. {..<length progs} \<subseteq> set r" "2 * length progs * (length progs + 1) < length rounds"
  shows "\<forall>i < length progs. \<exists>r. snd (run_schedule progs (concat rounds) v) ! i = Returned r"
proof -
  let ?m = "(v, replicate (length progs) AtLoad) :: ('a, 'b) machine"
  have "work ?m = 2 * length progs * (length progs + 1)"
    by (simp add: work_def weight_def running_def sum_list_replicate map_replicate_const)
  moreover have "length (snd ?m) = length progs"
    "\<forall>i < length progs. \<forall>cur f. snd ?m ! i = Loaded cur \<longrightarrow> progs ! i \<noteq> Atomic f" by simp_all
  note rounds_work [OF this assms(1)] schedule_works(3) [OF this]
  ultimately have d: "\<forall>th \<in> set (snd (run_schedule progs (concat rounds) v)). \<not> running th"
    "length (snd (run_schedule progs (concat rounds) v)) = length progs"
    using assms(2) by (auto simp: run_schedule_def)
  show ?thesis
  proof (intro allI impI)
    fix i assume "i < length progs"
    then have "\<not> running (snd (run_schedule progs (concat rounds) v) ! i)" using d by simp
    then show "\<exists>r. snd (run_schedule progs (concat rounds) v) ! i = Returned r"
      by (cases "snd (run_schedule progs (concat rounds) v) ! i") (simp_all add: running_def)
  qed
qed

section \<open>What the loops leave in the cell\<close>

lemma schedule_outcome:
  assumes "\<forall>r \<in> set rounds. {..<length progs} \<subseteq> set r" "2 * length progs * (length progs + 1) < length rounds"
  shows "\<exists>ord. distinct ord \<and> set ord = {..<length progs} \<and> snd (in_order progs ord v) = fst (run_schedule progs (concat rounds) v) \<and>
    (\<forall>i < length progs. \<exists>r. snd (run_schedule progs (concat rounds) v) ! i = Returned r \<and>
      map_of (fst (in_order progs ord v)) i = Some r)"
proof -
  obtain ord where e: "explains progs v ord (run_schedule progs (concat rounds) v)"
    using schedule_explained [of progs v "concat rounds"] by blast
  have r: "\<exists>r. snd (run_schedule progs (concat rounds) v) ! i = Returned r \<and> map_of (fst (in_order progs ord v)) i = Some r"
    if "i < length progs" for i
    using all_return [OF assms, of v] e that unfolding explains_def by (metis settled.simps(1))
  have "i \<in> set ord" if "i < length progs" for i
    using r [OF that] in_order_fst [of progs ord v] by (metis fst_conv image_eqI list.set_map map_of_SomeD)
  then have "set ord = {..<length progs}" using e by (auto simp: explains_def)
  then show ?thesis using e r unfolding explains_def by blast
qed

text \<open>A bound that every call keeps holds at every moment of every schedule.\<close>

lemma in_order_keeps:
  assumes "\<And>prog x. prog \<in> set progs \<Longrightarrow> P x \<Longrightarrow> P (snd (at_once prog x))" "P v" "set ord \<subseteq> {..<length progs}"
  shows "P (snd (in_order progs ord v))"
  using assms(2,3)
proof (induction ord arbitrary: v)
  case (Cons i ord)
  then show ?case using assms(1) [of "progs ! i" v] unfolding in_order_snd by simp
qed simp

lemma schedule_keeps:
  assumes "\<And>prog x. prog \<in> set progs \<Longrightarrow> P x \<Longrightarrow> P (snd (at_once prog x))" "P v"
  shows "P (fst (run_schedule progs sched v))"
proof -
  obtain ord where "explains progs v ord (run_schedule progs sched v)" using schedule_explained [of progs v sched] by blast
  then have "snd (in_order progs ord v) = fst (run_schedule progs sched v)" "set ord \<subseteq> {..<length progs}"
    by (simp_all add: explains_def)
  then show ?thesis using in_order_keeps [of progs P v ord] assms by metis
qed

lemma reserve_keeps:
  assumes "cap \<le> MaxInt64" "0 < delta" "0 \<le> x \<and> x \<le> cap"
  shows "0 \<le> snd (at_once (reserve_routine cap delta) x) \<and> snd (at_once (reserve_routine cap delta) x) \<le> cap"
proof -
  have i: "i64 (cap - x) = cap - x" using assms by (intro i64_id) (simp_all add: MaxInt64_def MinInt64_def)
  show ?thesis
  proof (cases "delta > cap - x")
    case False
    then have "i64 (x + delta) = x + delta" using assms by (intro i64_id) (simp_all add: MaxInt64_def MinInt64_def)
    then show ?thesis using False assms i by (simp add: reserve_routine_def at_once_def Let_def)
  qed (use assms i in \<open>simp add: reserve_routine_def at_once_def\<close>)
qed

lemma counter_keeps:
  assumes "\<bar>x\<bar> \<le> MaxCounterValue"
  shows "\<bar>snd (at_once (counter_routine inc) x)\<bar> \<le> MaxCounterValue"
  using assms by (auto simp: counter_routine_def at_once_def Let_def abs_le_iff)

lemma bumps_in_order: "snd (in_order (map bump_routine nows) ord v) = fold (\<lambda>i. max (nows ! i)) ord v"
  if "set ord \<subseteq> {..<length nows}"
  using that
proof (induction ord arbitrary: v)
  case (Cons i ord)
  have "snd (at_once (bump_routine (nows ! i)) v) = max (nows ! i) v" by (simp add: bump_routine_def at_once_def)
  then show ?case using Cons unfolding in_order_snd by simp
qed simp

lemma fold_max_Max:
  "fold (\<lambda>i. max (nows ! i)) ord v = Max (insert v ((\<lambda>i. nows ! i) ` set ord))" for v :: int
proof (induction ord arbitrary: v)
  case (Cons i ord)
  have "Max (insert (max (nows ! i) v) A) = Max (insert v (insert (nows ! i) A))" if "finite A" for A
    using that by (cases "A = {}") (auto simp: max.assoc max.left_commute max.commute)
  then show ?case using Cons [of "max (nows ! i) v"] by simp
qed simp

section \<open>The loops and the single steps\<close>

text \<open>Calls of the single-step operations, one after the other.\<close>

fun reserve_turns :: "int list \<Rightarrow> nat list \<Rightarrow> storeAcct \<Rightarrow> (nat \<times> bool \<times> int \<times> int) list \<times> storeAcct" where
  "reserve_turns deltas [] a = ([], a)"
| "reserve_turns deltas (i # is) a =
     (case reserveBytes (deltas ! i) a of
        (ok, n, cap, a1) \<Rightarrow> (case reserve_turns deltas is a1 of (rs, a2) \<Rightarrow> ((i, ok, n, cap) # rs, a2)))"

fun counter_turns :: "int list \<Rightarrow> int \<Rightarrow> nat list \<Rightarrow> counterCell \<Rightarrow> (nat \<times> (goError + int)) list \<times> counterCell" where
  "counter_turns incs now [] cell = ([], cell)"
| "counter_turns incs now (i # is) cell =
     (case atomicCounterAdd now (incs ! i) cell of
        (r, cell1) \<Rightarrow> (case counter_turns incs now is cell1 of (rs, cell2) \<Rightarrow> ((i, r) # rs, cell2)))"

lemma reserve_turns_in_order:
  assumes "set ord \<subseteq> {..<length deltas}" "maxStoreBytes a = cap"
  shows "in_order (map (reserve_routine cap) deltas) ord (totalBytes a) =
    (case reserve_turns deltas ord a of (rs, a1) \<Rightarrow> (rs, totalBytes a1))"
  using assms
proof (induction ord arbitrary: a)
  case (Cons i ord)
  obtain ok n k v where d: "at_once (reserve_routine cap (deltas ! i)) (totalBytes a) = ((ok, n, k), v)" by (metis surj_pair)
  then show ?case using Cons.IH [of "a\<lparr>totalBytes := v\<rparr>"] Cons.prems reserve_at_once [of "deltas ! i" a]
    by (simp split: prod.split)
qed simp

lemma counter_at_once_err: "at_once (counter_routine inc) v = (Inl e, v') \<Longrightarrow> v' = v"
  by (auto simp: counter_routine_def at_once_def Let_def split: if_splits)

lemma counter_turns_in_order:
  assumes "set ord \<subseteq> {..<length incs}"
  shows "in_order (map counter_routine incs) ord (cellValue cell) =
    (case counter_turns incs now ord cell of (rs, cell1) \<Rightarrow> (rs, cellValue cell1))"
  using assms
proof (induction ord arbitrary: cell)
  case (Cons i ord)
  obtain r v where d: "at_once (counter_routine (incs ! i)) (cellValue cell) = (r, v)" by fastforce
  show ?case
  proof (cases r)
    case (Inl e)
    then have "v = cellValue cell" using counter_at_once_err d by blast
    then show ?thesis using Cons.IH [of cell] Cons.prems d Inl by (simp add: counter_at_once split: prod.split)
  next
    case (Inr n)
    then show ?thesis
      using Cons.IH [of "\<lparr>cellValue = v, cellTs = snd (at_once (bump_routine now) (cellTs cell))\<rparr>"] Cons.prems d
      by (simp add: counter_at_once split: prod.split)
  qed
qed simp

text \<open>C8: The compare-and-swap loops end, and their outcome is that of single steps. When each of n goroutines gets a turn in more than
  2n(n+1) rounds, whatever else the schedule does, every call has returned; the cell and the results are those of the n calls made
  one after the other in some order, for byte reservations and for counter additions, and a timestamp ends at the maximum of what
  was there and what was offered. At no moment of any schedule do reservations exceed the cap of the store, or additions the
  range of a counter.\<close>

theorem cas_loops_end:
  assumes rounds: "\<forall>r \<in> set rounds. {..<n} \<subseteq> set r" and long: "2 * n * (n + 1) < length rounds"
    and n: "length deltas = n" "length incs = n" "length nows = n"
  shows "(\<exists>ord. distinct ord \<and> set ord = {..<n} \<and>
      (case (run_schedule (map (reserve_routine (maxStoreBytes a)) deltas) (concat rounds) (totalBytes a), reserve_turns deltas ord a) of
        ((cell, threads), rs, a1) \<Rightarrow> cell = totalBytes a1 \<and>
          (\<forall>i < n. \<exists>r. threads ! i = Returned r \<and> map_of rs i = Some r))) \<and>
    (\<exists>ord. distinct ord \<and> set ord = {..<n} \<and>
      (case (run_schedule (map counter_routine incs) (concat rounds) (cellValue c), counter_turns incs now ord c) of
        ((cell, threads), rs, c1) \<Rightarrow> cell = cellValue c1 \<and>
          (\<forall>i < n. \<exists>r. threads ! i = Returned r \<and> map_of rs i = Some r))) \<and>
    (case run_schedule (map bump_routine nows) (concat rounds) ts of
      (cell, threads) \<Rightarrow> cell = Max (insert ts (set nows)) \<and> (\<forall>i < n. threads ! i = Returned ())) \<and>
    (0 \<le> totalBytes a \<and> totalBytes a \<le> maxStoreBytes a \<and> maxStoreBytes a \<le> MaxInt64 \<and> (\<forall>d \<in> set deltas. 0 < d) \<longrightarrow>
      (\<forall>sched. fst (run_schedule (map (reserve_routine (maxStoreBytes a)) deltas) sched (totalBytes a)) \<le> maxStoreBytes a)) \<and>
    (\<bar>cellValue c\<bar> \<le> MaxCounterValue \<longrightarrow>
      (\<forall>sched. \<bar>fst (run_schedule (map counter_routine incs) sched (cellValue c))\<bar> \<le> MaxCounterValue))"
    (is "?reserve \<and> ?count \<and> ?bump \<and> ?cap \<and> ?range")
proof -
  have out: "\<exists>ord. distinct ord \<and> set ord = {..<n} \<and> snd (in_order progs ord v) = fst (run_schedule progs (concat rounds) v) \<and>
    (\<forall>i < n. \<exists>r. snd (run_schedule progs (concat rounds) v) ! i = Returned r \<and> map_of (fst (in_order progs ord v)) i = Some r)"
    if "length progs = n" for progs :: "(int, 'r) routine list" and v
    using schedule_outcome [of rounds progs v] rounds long that by simp
  have ?reserve
  proof -
    let ?progs = "map (reserve_routine (maxStoreBytes a)) deltas"
    obtain ord where o: "distinct ord" "set ord = {..<n}"
        "snd (in_order ?progs ord (totalBytes a)) = fst (run_schedule ?progs (concat rounds) (totalBytes a))"
        "\<forall>i < n. \<exists>r. snd (run_schedule ?progs (concat rounds) (totalBytes a)) ! i = Returned r \<and>
          map_of (fst (in_order ?progs ord (totalBytes a))) i = Some r"
      using out [of ?progs "totalBytes a"] n(1) by auto
    then show ?thesis using reserve_turns_in_order [of ord deltas a] n(1) by (intro exI [of _ ord]) (auto split: prod.splits)
  qed
  moreover have ?count
  proof -
    let ?progs = "map counter_routine incs"
    obtain ord where o: "distinct ord" "set ord = {..<n}"
        "snd (in_order ?progs ord (cellValue c)) = fst (run_schedule ?progs (concat rounds) (cellValue c))"
        "\<forall>i < n. \<exists>r. snd (run_schedule ?progs (concat rounds) (cellValue c)) ! i = Returned r \<and>
          map_of (fst (in_order ?progs ord (cellValue c))) i = Some r"
      using out [of ?progs "cellValue c"] n(2) by auto
    then show ?thesis using counter_turns_in_order [of ord incs c now] n(2) by (intro exI [of _ ord]) (auto split: prod.splits)
  qed
  moreover have ?bump
  proof -
    let ?progs = "map bump_routine nows"
    obtain ord where o: "set ord = {..<n}" "snd (in_order ?progs ord ts) = fst (run_schedule ?progs (concat rounds) ts)"
        "\<forall>i < n. \<exists>r. snd (run_schedule ?progs (concat rounds) ts) ! i = Returned r"
      using out [of ?progs ts] n(3) by auto
    moreover have "(\<lambda>i. nows ! i) ` {..<n} = set nows" using n(3) by (auto simp: set_conv_nth)
    ultimately show ?thesis using bumps_in_order [of ord nows ts] n(3) fold_max_Max [of nows ord ts]
      by (cases "run_schedule ?progs (concat rounds) ts") auto
  qed
  moreover have ?cap
  proof (intro impI allI)
    fix sched
    assume h: "0 \<le> totalBytes a \<and> totalBytes a \<le> maxStoreBytes a \<and> maxStoreBytes a \<le> MaxInt64 \<and> (\<forall>d \<in> set deltas. 0 < d)"
    then show "fst (run_schedule (map (reserve_routine (maxStoreBytes a)) deltas) sched (totalBytes a)) \<le> maxStoreBytes a"
      using schedule_keeps [of "map (reserve_routine (maxStoreBytes a)) deltas" "\<lambda>x. 0 \<le> x \<and> x \<le> maxStoreBytes a" "totalBytes a" sched]
        reserve_keeps [of "maxStoreBytes a"] by auto
  qed
  moreover have ?range
    using schedule_keeps [of "map counter_routine incs" "\<lambda>x. \<bar>x\<bar> \<le> MaxCounterValue" "cellValue c"] counter_keeps by auto
  ultimately show ?thesis by blast
qed

text \<open>Two reservations of 60 and 70 bytes under a cap of 100: one of them is refused.\<close>

theorem cas_loops_end_witness:
  "fst (run_schedule (map (reserve_routine 100) [60, 70]) (concat (replicate 13 [0, 1])) 0) = 60 \<and>
   (\<exists>ord. distinct ord \<and> set ord = {..<2} \<and>
     totalBytes (snd (reserve_turns [60, 70] ord
        \<lparr>maxStoreBytes = 100, maxItemBytes = 10, eventsMaxItemBytes = 10, inboxMaxItemBytes = 10,
         totalBytes = 0, totalItems = 0, lastWriteTS = 0\<rparr>)) = 60)"
proof
  show v: "fst (run_schedule (map (reserve_routine 100) [60, 70]) (concat (replicate 13 [0, 1])) 0) = 60" by code_simp
  let ?a = "\<lparr>maxStoreBytes = 100, maxItemBytes = 10, eventsMaxItemBytes = 10, inboxMaxItemBytes = 10,
         totalBytes = 0, totalItems = 0, lastWriteTS = 0\<rparr>"
  have r: "\<forall>r \<in> set (replicate 13 [0, 1 :: nat]). {..<2} \<subseteq> set r" by auto
  obtain ord where "distinct ord" "set ord = {..<2}"
    "fst (run_schedule (map (reserve_routine 100) [60, 70]) (concat (replicate 13 [0, 1])) 0) = totalBytes (snd (reserve_turns [60, 70] ord ?a))"
    using cas_loops_end [OF r, of "[60, 70]" "[1, 2]" "[3, 4]" ?a, THEN conjunct1] by (auto simp: case_prod_beta)
  then show "\<exists>ord. distinct ord \<and> set ord = {..<2} \<and> totalBytes (snd (reserve_turns [60, 70] ord ?a)) = 60"
    unfolding v by metis
qed
end
