(* ===== verification/Commands.thy ===== *)
theory Commands
  imports Gateway
begin

text \<open>
  The two bridges to operator-supplied executables: \<^verbatim>\<open>init_command.go\<close> and \<^verbatim>\<open>subscriber_command.go\<close>. What an
  executable does is an argument: it may send any traffic to the store before it exits with an error or without.
\<close>

section \<open>The init command\<close>

datatype logLine =
    LogRunning string
  | LogClearFailed string goError
  | LogInitFailed string string
  | LogInitCompleted string
  | LogSubscribeFailed string goError
  | LogStartFailed string string
  | LogActive nat string
  | LogSubscriberFailed string string string

text \<open>
  \<open>run\<close> is \<^verbatim>\<open>cmd.Run\<close>: the command and its extra environment, the store before, the error and the store after. All traffic of
  the command is part of it. What a process the command left behind sends to the private socket after the clearing of \<^verbatim>\<open>_events\<close>
  and before the caller shuts that socket is not represented.
\<close>

type_synonym runner = "string \<Rightarrow> string list \<Rightarrow> store \<Rightarrow> string option \<times> store"

definition MaxUint64 :: nat where "MaxUint64 = 2 ^ 64 - 1"

definition RunInitCommand ::
    "jsonLib \<Rightarrow> inputs \<Rightarrow> nat \<Rightarrow> runner \<Rightarrow> string \<Rightarrow> string list \<Rightarrow> store \<Rightarrow> (string \<times> string) option \<times> logLine list \<times> store" where
  "RunInitCommand J inp i run command extraEnv s =
     (if command = [] then (None, [], s)
      else case run command extraEnv s of
        (runErr, s1) \<Rightarrow>
          (case Gateway_DeleteUpTo J inp i EventsScopeName MaxUint64 [] s1 of
             (res, s2) \<Rightarrow>
               (let cleared = (case res of Inl delErr \<Rightarrow> [LogClearFailed EventsScopeName delErr] | Inr _ \<Rightarrow> [])
                in case runErr of
                     Some e \<Rightarrow> (Some (command, e), LogRunning command # cleared @ [LogInitFailed command e], s2)
                   | None \<Rightarrow> (None, LogRunning command # cleared @ [LogInitCompleted command], s2))))"

section \<open>The subscriber command\<close>

datatype startError =
    StartScopeRequired
  | StartCommandRequired
  | StartSubscribeFailed string goError

text \<open>The \<^verbatim>\<open>stop\<close> function is represented by what it closes over, the scope and its channel.\<close>

definition StartSubscriber :: "string \<Rightarrow> string \<Rightarrow> store \<Rightarrow> (startError + string \<times> nat) \<times> store" where
  "StartSubscriber scope command s =
     (if scope = [] then (Inl StartScopeRequired, s)
      else if command = [] then (Inl StartCommandRequired, s)
      else case Subscribe scope s of
        (Inl e, s1) \<Rightarrow> (Inl (StartSubscribeFailed scope e), s1)
      | (Inr q, s1) \<Rightarrow> (Inr (scope, q), s1))"

definition stopSubscriber :: "string \<times> nat \<Rightarrow> store \<Rightarrow> store" where
  "stopSubscriber h s = unsubscribe (fst h) s"

text \<open>One run of the command; whatever it exits with, the next wake-up runs it again.\<close>

definition runSubscriberCommand :: "runner \<Rightarrow> string \<Rightarrow> string \<Rightarrow> store \<Rightarrow> logLine list \<times> store" where
  "runSubscriberCommand run scope command s =
     (case run command [''SCOPECACHE_SCOPE='' @ scope] s of
        (Some err, s1) \<Rightarrow> ([LogSubscriberFailed command scope err], s1)
      | (None, s1) \<Rightarrow> ([], s1))"

text \<open>One turn of the goroutine's \<^verbatim>\<open>for range ch\<close>: a wake-up in the slot is taken, also from a closed channel.\<close>

datatype turn = Runs | Waits | Exits

definition bridgeTurn :: "nat \<Rightarrow> store \<Rightarrow> turn \<times> store" where
  "bridgeTurn q s =
     (let sub = subs s ! q
      in if slotFull sub then (Runs, s\<lparr>subs := (subs s)[q := sub\<lparr>slotFull := False\<rparr>]\<rparr>)
         else if chClosed sub then (Exits, s)
         else (Waits, s))"

text \<open>A turn with the run of the command it may end in.\<close>

definition bridgeStep :: "runner \<Rightarrow> string \<Rightarrow> string \<Rightarrow> nat \<Rightarrow> store \<Rightarrow> turn \<times> logLine list \<times> store" where
  "bridgeStep run scope command q s =
     (case bridgeTurn q s of
        (Runs, s1) \<Rightarrow> (Runs, runSubscriberCommand run scope command s1)
      | (t, s1) \<Rightarrow> (t, [], s1))"

fun start_loop :: "string \<Rightarrow> string list \<Rightarrow> (string \<times> nat) list \<Rightarrow> logLine list \<Rightarrow> store \<Rightarrow>
    (string \<times> nat) list \<times> logLine list \<times> store" where
  "start_loop command [] stops lg s = (stops, lg, s)"
| "start_loop command (scope # ns) stops lg s =
     (case StartSubscriber scope command s of
        (Inl (StartSubscribeFailed n e), s1) \<Rightarrow> start_loop command ns stops (lg @ [LogSubscribeFailed scope e]) s1
      | (Inl _, s1) \<Rightarrow> start_loop command ns stops (lg @ [LogStartFailed scope command]) s1
      | (Inr stop, s1) \<Rightarrow> start_loop command ns (stops @ [stop]) lg s1)"

definition StartReservedSubscribers :: "string \<Rightarrow> store \<Rightarrow> (string \<times> nat) list \<times> logLine list \<times> store" where
  "StartReservedSubscribers command s =
     (if command = [] then ([], [], s)
      else case start_loop command [EventsScopeName, InboxScopeName] [] [] s of
        (stops, lg, s1) \<Rightarrow> (stops, lg @ [LogActive (length stops) command], s1))"

definition stopReserved :: "(string \<times> nat) list \<Rightarrow> store \<Rightarrow> store" where
  "stopReserved stops s = fold stopSubscriber (rev stops) s"

end
