(* ===== verification/Standalone.thy ===== *)
theory Standalone
  imports Commands
begin

text \<open>
  The standalone binary (\<^verbatim>\<open>cmd/scopecache/main.go\<close>): its environment parsers, the listening socket, and the boot order. The
  operating system is an argument: \<open>env\<close> is \<^verbatim>\<open>os.Getenv\<close>, \<open>files\<close> the part of the file system the binary looks at, and the outcome of
  each system call that can fail is given.
\<close>

section \<open>Configuration from the environment\<close>

type_synonym environment = "string \<Rightarrow> string"

definition maxEnvConfigMB :: int where "maxEnvConfigMB = MaxInt64 div 2 ^ 20"
definition maxEnvConfigKB :: int where "maxEnvConfigKB = MaxInt64 div 2 ^ 10"
definition maxEnvConfigSec :: int where "maxEnvConfigSec = MaxInt64 div 1000000000"

text \<open>A 64-bit left shift.\<close>

definition shl64 :: "int \<Rightarrow> nat \<Rightarrow> int" where
  "shl64 x k = i64 (x * 2 ^ k)"

definition scopeMaxItemsFromEnv :: "environment \<Rightarrow> int" where
  "scopeMaxItemsFromEnv env =
     (let str = env ''SCOPECACHE_SCOPE_MAX_ITEMS''
      in if str = [] then ScopeMaxItems
         else case parseInt str of None \<Rightarrow> ScopeMaxItems | Some n \<Rightarrow> if n \<le> 0 then ScopeMaxItems else n)"

definition socketPathFromEnv :: "string \<Rightarrow> environment \<Rightarrow> string" where
  "socketPathFromEnv defaultSocketPath env =
     (let p = env ''SCOPECACHE_SOCKET_PATH'' in if p \<noteq> [] then p else defaultSocketPath)"

definition maxStoreBytesFromEnv :: "environment \<Rightarrow> int" where
  "maxStoreBytesFromEnv env =
     (let str = env ''SCOPECACHE_MAX_STORE_MB''
      in if str = [] then shl64 MaxStoreMiB 20
         else case parseInt str of
           None \<Rightarrow> shl64 MaxStoreMiB 20
         | Some n \<Rightarrow> if n \<le> 0 then shl64 MaxStoreMiB 20 else if n > maxEnvConfigMB then shl64 MaxStoreMiB 20 else shl64 n 20)"

definition maxItemBytesFromEnv :: "environment \<Rightarrow> int" where
  "maxItemBytesFromEnv env =
     (let str = env ''SCOPECACHE_MAX_ITEM_MB''
      in if str = [] then MaxItemBytes
         else case parseInt str of
           None \<Rightarrow> MaxItemBytes
         | Some n \<Rightarrow> if n \<le> 0 then MaxItemBytes else if n > maxEnvConfigMB then MaxItemBytes else shl64 n 20)"

definition inboxMaxItemsFromEnv :: "environment \<Rightarrow> int" where
  "inboxMaxItemsFromEnv env =
     (let str = env ''SCOPECACHE_INBOX_MAX_ITEMS''
      in if str = [] then 0 else case parseInt str of None \<Rightarrow> 0 | Some n \<Rightarrow> if n \<le> 0 then 0 else n)"

definition inboxMaxItemBytesFromEnv :: "environment \<Rightarrow> int" where
  "inboxMaxItemBytesFromEnv env =
     (let str = env ''SCOPECACHE_INBOX_MAX_ITEM_KB''
      in if str = [] then 0
         else case parseInt str of
           None \<Rightarrow> 0
         | Some n \<Rightarrow> if n \<le> 0 then 0 else if n > maxEnvConfigKB then 0 else shl64 n 10)"

definition subscriberCommandFromEnv :: "environment \<Rightarrow> string" where
  "subscriberCommandFromEnv env = env ''SCOPECACHE_SUBSCRIBER_COMMAND''"

definition initCommandFromEnv :: "environment \<Rightarrow> string" where
  "initCommandFromEnv env = env ''SCOPECACHE_INIT_COMMAND''"

text \<open>In nanoseconds.\<close>

definition initTimeoutFromEnv :: "environment \<Rightarrow> int" where
  "initTimeoutFromEnv env =
     (let str = env ''SCOPECACHE_INIT_TIMEOUT_SEC''
      in if str = [] then 0
         else case parseInt str of
           None \<Rightarrow> 0
         | Some n \<Rightarrow> if n < 0 then 0 else if n > maxEnvConfigSec then 0 else i64 (n * 1000000000))"

definition eventsModeFromEnv :: "environment \<Rightarrow> EventsMode" where
  "eventsModeFromEnv env =
     (case ParseEventsMode (env ''SCOPECACHE_EVENTS_MODE'') of (mode, err) \<Rightarrow> if err then EventsModeOff else mode)"

definition configFromEnv :: "environment \<Rightarrow> Config" where
  "configFromEnv env = WithDefaults
     \<lparr>cfgScopeMaxItems = scopeMaxItemsFromEnv env, cfgMaxStoreBytes = maxStoreBytesFromEnv env,
      cfgMaxItemBytes = maxItemBytesFromEnv env, cfgEventsMode = eventsModeFromEnv env,
      cfgInboxMaxItems = inboxMaxItemsFromEnv env, cfgInboxMaxItemBytes = inboxMaxItemBytesFromEnv env\<rparr>"

section \<open>The init phase\<close>

datatype bootError =
    TempDirFailed string
  | InitListenFailed string string
  | InitFailed string string

text \<open>\<open>mkTemp\<close> and \<open>listen\<close> are the outcomes of \<^verbatim>\<open>os.MkdirTemp\<close> and \<^verbatim>\<open>net.Listen\<close> on the private socket.\<close>

definition runInitWithPrivateSocket ::
    "jsonLib \<Rightarrow> inputs \<Rightarrow> nat \<Rightarrow> runner \<Rightarrow> string + string \<Rightarrow> (string \<Rightarrow> string option) \<Rightarrow> string \<Rightarrow> store \<Rightarrow>
     bootError option \<times> logLine list \<times> store" where
  "runInitWithPrivateSocket J inp i run mkTemp listen command s =
     (case mkTemp of
        Inl e \<Rightarrow> (Some (TempDirFailed e), [], s)
      | Inr dir \<Rightarrow>
          (let sockPath = dir @ ''/init.sock''
           in case listen sockPath of
                Some e \<Rightarrow> (Some (InitListenFailed sockPath e), [], s)
              | None \<Rightarrow>
                  (case RunInitCommand J inp i run command [''SCOPECACHE_SOCKET_PATH='' @ sockPath] s of
                     (None, lg, s1) \<Rightarrow> (None, lg, s1)
                   | (Some (c, e), lg, s1) \<Rightarrow> (Some (InitFailed c e), lg, s1))))"

section \<open>The listening socket\<close>

datatype fileKind = SocketFile | OtherFile string

record osCalls =
  mkdirErr :: "string option"
  lstatErr :: "string option"
  removeErr :: "string option"
  listenErr :: "string option"
  chmodErr :: "string option"

datatype listenError =
    SystemError string
  | RefusingToRemove string string

text \<open>The error of \<^verbatim>\<open>Lstat\<close> in \<open>lstatErr\<close> is one other than \<^verbatim>\<open>ErrNotExist\<close>; the final \<^verbatim>\<open>os.Remove\<close> ignores its error.\<close>

definition listenUnixSocket ::
    "osCalls \<Rightarrow> string \<Rightarrow> (string \<rightharpoonup> fileKind) \<Rightarrow> (listenError + string) \<times> (string \<rightharpoonup> fileKind)" where
  "listenUnixSocket os path files =
     (case mkdirErr os of
        Some e \<Rightarrow> (Inl (SystemError e), files)
      | None \<Rightarrow>
          (let bind_at = (\<lambda>files.
                 case listenErr os of
                   Some e \<Rightarrow> (Inl (SystemError e), files)
                 | None \<Rightarrow>
                     (case chmodErr os of
                        Some e \<Rightarrow> (Inl (SystemError e), files(path := None))
                      | None \<Rightarrow> (Inr path, files(path \<mapsto> SocketFile))))
           in case lstatErr os of
                Some e \<Rightarrow> (Inl (SystemError e), files)
              | None \<Rightarrow>
                  (case files path of
                     None \<Rightarrow> bind_at files
                   | Some (OtherFile t) \<Rightarrow> (Inl (RefusingToRemove path t), files)
                   | Some SocketFile \<Rightarrow>
                       (case removeErr os of
                          Some e \<Rightarrow> (Inl (SystemError e), files)
                        | None \<Rightarrow> bind_at (files(path := None))))))"

section \<open>Boot\<close>

text \<open>
  \<^verbatim>\<open>main\<close> up to the listener: the store is built, the init command runs behind the private socket, then the
  subscribers start. The result is the store that the public socket will serve, and the subscriptions to stop.
\<close>

definition main_boot ::
    "(string \<Rightarrow> nat) \<Rightarrow> int \<Rightarrow> jsonLib \<Rightarrow> inputs \<Rightarrow> nat \<Rightarrow> runner \<Rightarrow> string + string \<Rightarrow> (string \<Rightarrow> string option) \<Rightarrow> environment \<Rightarrow>
     (string \<times> nat) list \<times> store" where
  "main_boot seed now J inp i run mkTemp listen env =
     (let s0 = NewGateway seed now (configFromEnv env);
          cmd = initCommandFromEnv env;
          s1 = (if cmd \<noteq> [] then snd (snd (runInitWithPrivateSocket J inp i run mkTemp listen cmd s0)) else s0)
      in case StartReservedSubscribers (subscriberCommandFromEnv env) s1 of (stops, lg, s2) \<Rightarrow> (stops, s2))"

section \<open>Serving and shutdown\<close>

text \<open>
  The rest of \<^verbatim>\<open>main\<close>: a listener that cannot be had ends the process, \<^const>\<open>None\<close>, without the deferred calls. Otherwise the socket
  is served, the argument \<open>traffic\<close>, until a signal stops the subscribers and then the server, or the server fails by itself; the
  socket file is removed and the deferred stop runs again. \<open>draining\<close> is what the requests in flight at the signal still do before the
  process ends: all of it or any part, as \<^verbatim>\<open>main\<close> goes on when \<^verbatim>\<open>Serve\<close> returns and does not wait for \<^verbatim>\<open>Shutdown\<close>.
\<close>

definition main_serve ::
    "osCalls \<Rightarrow> string \<Rightarrow> (store \<Rightarrow> store) \<Rightarrow> (store \<Rightarrow> store) \<Rightarrow> bool \<Rightarrow> (string \<times> nat) list \<Rightarrow> store \<Rightarrow> (string \<rightharpoonup> fileKind) \<Rightarrow>
     (store \<times> (string \<rightharpoonup> fileKind)) option" where
  "main_serve os socketPath traffic draining signalled stops s files =
     (case listenUnixSocket os socketPath files of
        (Inl e, files1) \<Rightarrow> None
      | (Inr ln, files1) \<Rightarrow>
          (let s1 = traffic s;
               s2 = (if signalled then draining (stopReserved stops s1) else s1);
               files2 = files1(socketPath := None)
           in Some (stopReserved stops s2, files2)))"

end
