(* ===== verification/Boot.thy ===== *)
theory Boot
  imports Standalone
begin

text \<open>
  What the boot of an adapter does to a store: the traffic of the init command, the clearing of \<^verbatim>\<open>_events\<close>, and the
  subscriptions of the bridges.
\<close>

section \<open>The init command\<close>

text \<open>Any sequence of store operations that leaves the subscriptions alone, as all traffic over HTTP does.\<close>

inductive traffic :: "jsonLib \<Rightarrow> store \<Rightarrow> nat \<Rightarrow> store \<Rightarrow> bool" for J s where
  quiet: "traffic J s 0 s"
| busy: "traffic J s w s1 \<Longrightarrow> store_step J v s1 s2 \<Longrightarrow> subscribers s2 = subscribers s1 \<Longrightarrow> traffic J s (w + v) s2"

lemma traffic_reachable:
  assumes "traffic J s w s'" "reachable J c N s"
  shows "reachable J c (N + w) s' \<and> subscribers s' = subscribers s"
  using assms by (induction) (auto simp: add.assoc [symmetric] intro: reachable.step)

lemma clear_events:
  assumes s: "store_inv s" "seqs_below N s" "Suc N < 2 ^ 64"
    and r: "Gateway_DeleteUpTo J inp i EventsScopeName MaxUint64 [] s = (r, s')"
  shows "\<exists>h. r = Inr h" and "view s' = (view s)(EventsScopeName := Some [])" and "subs s' = subs s \<and> subscribers s' = subscribers s"
proof -
  have v: "validateDeleteUpToRequest EventsScopeName MaxUint64 [] = None"
  proof -
    have "validateDeleteUpToRequest EventsScopeName 1 [] = None" by code_simp
    then show ?thesis by (simp add: validateDeleteUpToRequest_def MaxUint64_def Let_def)
  qed
  have e: "\<not> eventsEnabled x EventsScopeName" for x by (simp add: eventsEnabled_def)
  have ex: "getScope s EventsScopeName \<noteq> None" using s(1) by (auto simp: store_inv_def reserved_ok_def reservedScopeNames_def)
  note r' = r [unfolded Gateway_DeleteUpTo_def]
  show "subs s' = subs s \<and> subscribers s' = subscribers s"
    using r' v e by (auto simp: deleteUpTo_def onBuf_def emitDeleteUpToEvent_def split: option.splits prod.splits sum.splits if_splits)
  obtain p where p: "getScope s EventsScopeName = Some p" using ex by blast
  then have "scope_ok s EventsScopeName (bufs s ! p)" "lastSeq (bufs s ! p) < N"
    using s(1,2) getScope_iff [of s EventsScopeName p] by (auto simp: seqs_below_def store_inv_def store_ok_def)
  then have b: "buf_ok (bufs s ! p)" "\<not> detached (bufs s ! p)" "lastSeq (bufs s ! p) < N" by (simp_all add: scope_ok_def)
  obtain h a1 b1 where l: "deleteUpToSeqLocked (fst (inp i)) MaxUint64 (acct s) (bufs s ! p) = (h, a1, b1)" using prod_cases3 by blast
  then have d: "drainMethod (fst (inp i)) MaxUint64 [] (acct s) (bufs s ! p) = (Inr h, a1, b1)"
    using b(2) by (simp add: drainMethod_def deleteUpToSeq_def)
  have h: "r = Inr h" using r' v p d by (simp add: deleteUpTo_def onBuf_def)
  have "\<forall>it \<in> set (bufItems (bufs s ! p)). Seq it \<le> MaxUint64"
    using b(1,3) s(3) by (auto simp: buf_ok_def idx_ok_def bySeq_ok_def slice_ok_def bufItems_def MaxUint64_def)
  then have e1: "bufItems b1 = []" using deleteUpToSeqLocked_view(1) [OF b(1) l] by (simp add: filter_empty_conv not_less)
  show "\<exists>h. r = Inr h" using h by blast
  show "view s' = (view s)(EventsScopeName := Some [])"
    using s r'
  proof (cases rule: deleteUpTo_cases)
    case none
    then show ?thesis using ex h by auto
  next
    case (found p' b' s1)
    then have "b' = b1" using p d by simp
    moreover have "s' = s1" using found(8,9) h e by (cases "h = 0") (auto simp: logged_def)
    ultimately show ?thesis using found(4) e1 by simp
  qed
qed

lemma RunInitCommand_outcome:
  assumes run: "run command extraEnv s = (e, s1)" and s1: "store_inv s1" "seqs_below N s1" "Suc N < 2 ^ 64" and c: "command \<noteq> []"
  shows "\<exists>s'. RunInitCommand J inp i run command extraEnv s =
      (map_option (Pair command) e,
       [LogRunning command, case e of None \<Rightarrow> LogInitCompleted command | Some x \<Rightarrow> LogInitFailed command x], s') \<and>
    view s' = (view s1)(EventsScopeName := Some []) \<and> subs s' = subs s1 \<and> subscribers s' = subscribers s1 \<and> store_step J 2 s1 s'"
proof -
  obtain r s' where d: "Gateway_DeleteUpTo J inp i EventsScopeName MaxUint64 [] s1 = (r, s')" by fastforce
  note f = clear_events [OF s1 d]
  have "store_step J 2 s1 s'" using d by (auto simp: Gateway_DeleteUpTo_def intro: store_step.delete_up_to)
  then show ?thesis using c run d f by (auto simp: RunInitCommand_def split: option.split)
qed

section \<open>The bridges\<close>

definition bridged :: "store \<Rightarrow> store" where
  "bridged s = s\<lparr>subs := subs s @ [\<lparr>slotFull = False, chClosed = False\<rparr>, \<lparr>slotFull = False, chClosed = False\<rparr>],
     subscribers := [(EventsScopeName, length (subs s)), (InboxScopeName, Suc (length (subs s)))]\<rparr>"

lemma StartReservedSubscribers_fresh:
  assumes "subscribers s = []" "command \<noteq> []"
  shows "StartReservedSubscribers command s =
    ([(EventsScopeName, length (subs s)), (InboxScopeName, Suc (length (subs s)))], [LogActive 2 command], bridged s)"
  using assms
  by (simp add: StartReservedSubscribers_def StartSubscriber_def Subscribe_def isReservedScope_def reservedScopeNames_def Let_def
      EventsScopeName_def InboxScopeName_def bridged_def)

lemma bridged_waits:
  assumes "(n, q) \<in> {(EventsScopeName, length (subs s)), (InboxScopeName, Suc (length (subs s)))}"
  shows "bridgeTurn q (bridged s) = (Waits, bridged s)" and "map_of (subscribers (bridged s)) n = Some q"
    and "fst (bridgeTurn q (stopReserved [(EventsScopeName, length (subs s)), (InboxScopeName, Suc (length (subs s)))] (bridged s))) = Exits"
  using assms by (auto simp: bridgeTurn_def bridged_def nth_append stopReserved_def stopSubscriber_def unsubscribe_def
      EventsScopeName_def InboxScopeName_def nth_list_update AList.delete_eq Let_def)

lemma bridged_data [simp]: "view (bridged s) = view s" "acct (bridged s) = acct s"
  by (simp_all add: bridged_def fun_eq_iff view_def getScope_def shardFor_def shardIdxFor_def)

lemma newStore_subscribers: "subscribers (newStore seed now c) = []"
  by (simp add: newStore_def Let_def initReservedScopes_def reservedScopeNames_def initOne_def addScopeCount_def
      linkScope_def split: option.split)

text \<open>Starting the bridges is two steps of the store.\<close>

lemma bridged_reachable:
  assumes "subscribers s = []" "reachable J c N s"
  shows "reachable J c (N + 4) (bridged s)"
proof -
  obtain s1 where s1: "Subscribe EventsScopeName s = (Inr (length (subs s)), s1)" "Subscribe InboxScopeName s1 = (Inr (Suc (length (subs s))), bridged s)"
    using assms(1) by (simp add: Subscribe_def isReservedScope_def reservedScopeNames_def Let_def EventsScopeName_def InboxScopeName_def bridged_def)
  have "reachable J c (N + 2 + 2) (bridged s)"
    by (rule reachable.step [OF reachable.step [OF assms(2) store_step.subscribe [OF s1(1)]] store_step.subscribe [OF s1(2)]])
  then show ?thesis by (simp add: numeral_eq_Suc)
qed
end
