(* ===== verification/CaddyModule.thy ===== *)
theory CaddyModule
  imports Standalone Registry Http
begin

text \<open>
  The Caddy module (\<^verbatim>\<open>caddymodule/module.go\<close>): its configuration from the Caddyfile, the checks on it, \<^verbatim>\<open>Provision\<close>,
  \<^verbatim>\<open>Cleanup\<close> and the miss-fallthrough of \<^verbatim>\<open>ServeHTTP\<close>. Caddy's dispenser is the list of the lines of a block, each the list of
  its words: the next word is the first of the rest, and an argument is a word on the same line.
\<close>

section \<open>Configuration\<close>

record Handler =
  hScopeMaxItems :: int
  hMaxStoreMB :: int
  hMaxItemMB :: int
  hInboxMaxItems :: int
  hInboxMaxItemKB :: int
  hEventsMode :: string
  hSubscriberCommand :: string
  hInitCommand :: string
  hInitTimeoutSec :: int
  hMissFallthrough :: bool

definition newHandler :: Handler where
  "newHandler = \<lparr>hScopeMaxItems = 0, hMaxStoreMB = 0, hMaxItemMB = 0, hInboxMaxItems = 0, hInboxMaxItemKB = 0,
     hEventsMode = [], hSubscriberCommand = [], hInitCommand = [], hInitTimeoutSec = 0, hMissFallthrough = False\<rparr>"

datatype caddyError =
    WrongArgCount
  | InvalidMode string
  | InvalidBool string
  | InvalidInt string string
  | UnrecognizedOption string
  | NegativeValue string int
  | ExceedsMaximum string int int

text \<open>\<^verbatim>\<open>strconv.ParseBool\<close>.\<close>

definition parseBool :: "string \<Rightarrow> bool option" where
  "parseBool s =
     (if s \<in> {''1'', ''t'', ''T'', ''TRUE'', ''true'', ''True''} then Some True
      else if s \<in> {''0'', ''f'', ''F'', ''FALSE'', ''false'', ''False''} then Some False else None)"

definition subdirective :: "string \<Rightarrow> string \<Rightarrow> Handler \<Rightarrow> caddyError + Handler" where
  "subdirective key v h =
     (if key = ''events_mode'' then (if snd (ParseEventsMode v) then Inl (InvalidMode v) else Inr (h\<lparr>hEventsMode := v\<rparr>))
      else if key = ''subscriber_command'' then Inr (h\<lparr>hSubscriberCommand := v\<rparr>)
      else if key = ''init_command'' then Inr (h\<lparr>hInitCommand := v\<rparr>)
      else if key = ''miss_fallthrough'' then
        (case parseBool v of None \<Rightarrow> Inl (InvalidBool v) | Some enabled \<Rightarrow> Inr (h\<lparr>hMissFallthrough := enabled\<rparr>))
      else case parseInt v of
        None \<Rightarrow> Inl (InvalidInt key v)
      | Some n \<Rightarrow>
          if key = ''scope_max_items'' then Inr (h\<lparr>hScopeMaxItems := n\<rparr>)
          else if key = ''max_store_mb'' then Inr (h\<lparr>hMaxStoreMB := n\<rparr>)
          else if key = ''max_item_mb'' then Inr (h\<lparr>hMaxItemMB := n\<rparr>)
          else if key = ''inbox_max_items'' then Inr (h\<lparr>hInboxMaxItems := n\<rparr>)
          else if key = ''inbox_max_item_kb'' then Inr (h\<lparr>hInboxMaxItemKB := n\<rparr>)
          else if key = ''init_timeout_sec'' then Inr (h\<lparr>hInitTimeoutSec := n\<rparr>)
          else Inl (UnrecognizedOption key))"

function block_loop :: "string list list \<Rightarrow> Handler \<Rightarrow> caddyError + Handler" where
  "block_loop [] h = Inr h"
| "block_loop ([] # ls) h = block_loop ls h"
| "block_loop ([key] # ls) h = Inl WrongArgCount"
| "block_loop ((key # v # rest) # ls) h =
     (case subdirective key v h of Inl e \<Rightarrow> Inl e | Inr h1 \<Rightarrow> block_loop (rest # ls) h1)"
  by pat_completeness auto
termination by (relation "measure (\<lambda>(ls, h). length ls + length (concat ls))") auto

text \<open>One occurrence of the directive: the arguments on its own line and the lines of its block.\<close>

fun UnmarshalCaddyfile :: "(string list \<times> string list list) list \<Rightarrow> Handler \<Rightarrow> caddyError + Handler" where
  "UnmarshalCaddyfile [] h = Inr h"
| "UnmarshalCaddyfile ((args, block) # ds) h =
     (if args \<noteq> [] then Inl WrongArgCount
      else case block_loop block h of Inl e \<Rightarrow> Inl e | Inr h1 \<Rightarrow> UnmarshalCaddyfile ds h1)"

definition parseCaddyfile :: "(string list \<times> string list list) list \<Rightarrow> caddyError + Handler" where
  "parseCaddyfile ds = UnmarshalCaddyfile ds newHandler"

definition maxConfigMB :: int where "maxConfigMB = MaxInt64 div 2 ^ 20"
definition maxConfigKB :: int where "maxConfigKB = MaxInt64 div 2 ^ 10"
definition maxConfigSec :: int where "maxConfigSec = MaxInt64 div 1000000000"

fun check_rows :: "(string \<times> int \<times> int) list \<Rightarrow> caddyError option" where
  "check_rows [] = None"
| "check_rows ((key, v, upper) # rows) =
     (if v < 0 then Some (NegativeValue key v)
      else if upper > 0 \<and> v > upper then Some (ExceedsMaximum key v upper)
      else check_rows rows)"

definition validateConfig :: "Handler \<Rightarrow> caddyError option" where
  "validateConfig h =
     (case check_rows
        [(''scope_max_items'', hScopeMaxItems h, 0), (''max_store_mb'', hMaxStoreMB h, maxConfigMB),
         (''max_item_mb'', hMaxItemMB h, maxConfigMB), (''inbox_max_items'', hInboxMaxItems h, 0),
         (''inbox_max_item_kb'', hInboxMaxItemKB h, maxConfigKB), (''init_timeout_sec'', hInitTimeoutSec h, maxConfigSec)] of
        Some e \<Rightarrow> Some e
      | None \<Rightarrow> if snd (ParseEventsMode (hEventsMode h)) then Some (InvalidMode (hEventsMode h)) else None)"

section \<open>Provision and Cleanup\<close>

definition handlerConfig :: "Handler \<Rightarrow> EventsMode \<Rightarrow> Config" where
  "handlerConfig h mode =
     \<lparr>cfgScopeMaxItems = hScopeMaxItems h, cfgMaxStoreBytes = shl64 (hMaxStoreMB h) 20, cfgMaxItemBytes = shl64 (hMaxItemMB h) 20,
      cfgEventsMode = mode, cfgInboxMaxItems = hInboxMaxItems h, cfgInboxMaxItemBytes = shl64 (hInboxMaxItemKB h) 10\<rparr>"

text \<open>What an instance keeps: the address of its gateway, while it has one, and its subscriptions, while they run.\<close>

record instance_state =
  instGateway :: "nat option"
  instStops :: "(string \<times> nat) list option"

text \<open>
  The method of the module that runs the init command; \<open>mkTemp\<close> and \<open>listen\<close> are the outcomes of \<^verbatim>\<open>os.MkdirTemp\<close> and \<^verbatim>\<open>net.Listen\<close>. The
  errors of the tear-down are logged and do not count.
\<close>

definition Handler_runInitWithPrivateSocket ::
    "jsonLib \<Rightarrow> inputs \<Rightarrow> nat \<Rightarrow> runner \<Rightarrow> string + string \<Rightarrow> (string \<Rightarrow> string option) \<Rightarrow> Handler \<Rightarrow> store \<Rightarrow>
     bootError option \<times> logLine list \<times> store" where
  "Handler_runInitWithPrivateSocket J inp i run mkTemp listen h s =
     (case mkTemp of
        Inl e \<Rightarrow> (Some (TempDirFailed e), [], s)
      | Inr dir \<Rightarrow>
          (let sockPath = dir @ ''/init.sock''
           in case listen sockPath of
                Some e \<Rightarrow> (Some (InitListenFailed sockPath e), [], s)
              | None \<Rightarrow>
                  (case RunInitCommand J inp i run (hInitCommand h) [''SCOPECACHE_SOCKET_PATH='' @ sockPath] s of
                     (runErr, lg, s1) \<Rightarrow> (map_option (\<lambda>(c, e). InitFailed c e) runErr, lg, s1))))"

text \<open>\<open>gw\<close> is the address of the new gateway; the result holds its store.\<close>

definition Provision ::
    "(string \<Rightarrow> nat) \<Rightarrow> int \<Rightarrow> jsonLib \<Rightarrow> inputs \<Rightarrow> nat \<Rightarrow> runner \<Rightarrow> string + string \<Rightarrow> (string \<Rightarrow> string option) \<Rightarrow> nat \<Rightarrow>
     Handler \<Rightarrow> registry \<Rightarrow> (caddyError + instance_state \<times> store) \<times> registry" where
  "Provision seed now J inp i run mkTemp listen gw h reg =
     (case validateConfig h of
        Some e \<Rightarrow> (Inl e, reg)
      | None \<Rightarrow>
          (case ParseEventsMode (hEventsMode h) of
             (mode, err) \<Rightarrow>
               if err then (Inl (InvalidMode (hEventsMode h)), reg)
               else
                 (let s0 = NewGateway seed now (handlerConfig h mode);
                      s1 = (if hInitCommand h \<noteq> []
                            then snd (snd (Handler_runInitWithPrivateSocket J inp i run mkTemp listen h s0)) else s0)
                  in case StartReservedSubscribers (hSubscriberCommand h) s1 of
                       (stops, lg, s2) \<Rightarrow>
                         (Inr (\<lparr>instGateway = Some gw, instStops = Some stops\<rparr>, s2), RegisterGateway ''default'' (Some gw) reg))))"

definition Cleanup :: "instance_state \<Rightarrow> store \<Rightarrow> registry \<Rightarrow> instance_state \<times> store \<times> registry" where
  "Cleanup inst s reg =
     (let s1 = (case instStops inst of None \<Rightarrow> s | Some stops \<Rightarrow> stopReserved stops s);
          reg1 = (case instGateway inst of None \<Rightarrow> reg | Some gw \<Rightarrow> DeregisterGatewayIf ''default'' (Some gw) reg)
      in (\<lparr>instGateway = None, instStops = None\<rparr>, s1, reg1))"

section \<open>Miss-fallthrough\<close>

text \<open>
  A request as the module receives it: \<^const>\<open>None\<close> is a nil body, \<open>bodyBroken\<close> a body that cannot be read to its end
  after these bytes.
\<close>

record rawRequest =
  rawMethod :: string
  rawPath :: string
  rawQuery :: "(string \<times> string) list"
  rawBody :: "string option"
  bodyBroken :: bool

definition maxFallthroughBodyBytes :: int where "maxFallthroughBodyBytes = 8 * 2 ^ 20"

text \<open>
  \<open>mux\<close> is the routing table: the core handler for a registered path. The next handler of the chain gets the request and the writer with
  the headers left on it; what it answers is the answer. A recorded miss is not written.
\<close>

definition ServeHTTP ::
    "bool \<Rightarrow> (string \<Rightarrow> (rawRequest \<Rightarrow> store \<Rightarrow> httpResponse \<times> store) option) \<Rightarrow> (httpResponse \<Rightarrow> rawRequest \<Rightarrow> httpResponse) \<Rightarrow>
     rawRequest \<Rightarrow> store \<Rightarrow> httpResponse \<times> store" where
  "ServeHTTP missFallthrough mux next r s =
     (case mux (rawPath r) of
        None \<Rightarrow> (next newWriter r, s)
      | Some handler \<Rightarrow>
          if \<not> missFallthrough then handler r s
          else if rawMethod r = ''POST'' \<and> rawBody r \<noteq> None \<and>
              (bodyBroken r \<or> int (length (the (rawBody r))) > maxFallthroughBodyBytes)
          then handler (r\<lparr>rawBody := Some (take (nat maxFallthroughBodyBytes) (the (rawBody r))), bodyBroken := False\<rparr>) s
          else (case handler r s of
            (resp, s1) \<Rightarrow>
              if \<not> missHeader resp then (resp, s1)
              else (next (newWriter\<lparr>allowHeader := allowHeader resp\<rparr>) r, s1)))"

end
