(* ===== verification/Props_Adapters.thy ===== *)
theory Props_Adapters
  imports Props_Gateway Cas Boot CaddyModule
begin

text \<open>
  The properties of the programs around the cache: the two ways to configure it, the boot of the standalone binary, the reload of the
  Caddy module and its miss-fallthrough, and the PHP extension.
\<close>

section \<open>Configuration\<close>

text \<open>A text that is empty or reads as the number.\<close>

definition reads_as :: "string \<Rightarrow> int \<Rightarrow> bool" where
  "reads_as t v \<longleftrightarrow> t = [] \<and> v = 0 \<or> parseInt t = Some v"

lemma reads_asD: "reads_as t v \<Longrightarrow> t = [] \<and> v = 0 \<or> t \<noteq> [] \<and> parseInt t = Some v"
  by (cases "t = []") (auto simp: reads_as_def parseInt_def parseUint_def)

lemma shl64_exact:
  "0 \<le> v \<Longrightarrow> v \<le> maxConfigMB \<Longrightarrow> shl64 v 20 = v * 2 ^ 20"
  "0 \<le> v \<Longrightarrow> v \<le> maxConfigKB \<Longrightarrow> shl64 v 10 = v * 2 ^ 10"
  unfolding shl64_def by (rule i64_id; simp add: MaxInt64_def MinInt64_def maxConfigMB_def maxConfigKB_def)+

lemma seconds_exact: "0 \<le> v \<Longrightarrow> v \<le> MaxInt64 div 1000000000 \<Longrightarrow> i64 (v * 1000000000) = v * 1000000000"
  by (rule i64_id) (simp_all add: MaxInt64_def MinInt64_def)

lemma validateConfig_None:
  "validateConfig h = None \<longleftrightarrow>
    0 \<le> hScopeMaxItems h \<and> 0 \<le> hMaxStoreMB h \<and> hMaxStoreMB h \<le> maxConfigMB \<and> 0 \<le> hMaxItemMB h \<and> hMaxItemMB h \<le> maxConfigMB \<and>
    0 \<le> hInboxMaxItems h \<and> 0 \<le> hInboxMaxItemKB h \<and> hInboxMaxItemKB h \<le> maxConfigKB \<and> 0 \<le> hInitTimeoutSec h \<and>
    hInitTimeoutSec h \<le> maxConfigSec \<and> \<not> snd (ParseEventsMode (hEventsMode h))"
proof -
  have "0 < maxConfigMB" "0 < maxConfigKB" "0 < maxConfigSec"
    by (simp_all add: maxConfigMB_def maxConfigKB_def maxConfigSec_def MaxInt64_def)
  then show ?thesis by (auto simp: validateConfig_def not_less)
qed

lemma default_size: "shl64 MaxStoreMiB 20 = MaxStoreMiB * 2 ^ 20"
  by (rule shl64_exact) (simp_all add: MaxStoreMiB_def MaxInt64_def maxConfigMB_def)

lemma same_bounds: "maxEnvConfigMB = maxConfigMB" "maxEnvConfigKB = maxConfigKB" "maxEnvConfigSec = maxConfigSec"
  by (simp_all add: maxEnvConfigMB_def maxConfigMB_def maxEnvConfigKB_def maxConfigKB_def maxEnvConfigSec_def maxConfigSec_def)

lemma sizes_read:
  "reads_as (env ''SCOPECACHE_MAX_STORE_MB'') v \<Longrightarrow> 0 \<le> v \<Longrightarrow> v \<le> maxConfigMB \<Longrightarrow>
     maxStoreBytesFromEnv env = (if v = 0 then MaxStoreMiB * 2 ^ 20 else v * 2 ^ 20)"
  "reads_as (env ''SCOPECACHE_MAX_ITEM_MB'') v \<Longrightarrow> 0 \<le> v \<Longrightarrow> v \<le> maxConfigMB \<Longrightarrow>
     maxItemBytesFromEnv env = (if v = 0 then MaxItemBytes else v * 2 ^ 20)"
  "reads_as (env ''SCOPECACHE_INBOX_MAX_ITEM_KB'') v \<Longrightarrow> 0 \<le> v \<Longrightarrow> v \<le> maxConfigKB \<Longrightarrow>
     inboxMaxItemBytesFromEnv env = v * 2 ^ 10"
  by (drule reads_asD, auto simp: maxStoreBytesFromEnv_def maxItemBytesFromEnv_def inboxMaxItemBytesFromEnv_def default_size
      shl64_exact same_bounds Let_def)+

lemma counts_read:
  "reads_as (env ''SCOPECACHE_SCOPE_MAX_ITEMS'') v \<Longrightarrow> 0 \<le> v \<Longrightarrow> scopeMaxItemsFromEnv env = (if v = 0 then ScopeMaxItems else v)"
  "reads_as (env ''SCOPECACHE_INBOX_MAX_ITEMS'') v \<Longrightarrow> 0 \<le> v \<Longrightarrow> inboxMaxItemsFromEnv env = v"
  by (drule reads_asD, auto simp: scopeMaxItemsFromEnv_def inboxMaxItemsFromEnv_def Let_def)+

lemma timeout_reads:
  "reads_as (env ''SCOPECACHE_INIT_TIMEOUT_SEC'') v \<Longrightarrow> 0 \<le> v \<Longrightarrow> v \<le> maxConfigSec \<Longrightarrow> initTimeoutFromEnv env = v * 1000000000"
  using seconds_exact [of v]
  by (drule_tac reads_asD) (auto simp: initTimeoutFromEnv_def Let_def same_bounds maxConfigSec_def)

text \<open>Writing a default out is the same as leaving it to \<^const>\<open>WithDefaults\<close>.\<close>

lemma WithDefaults_fields:
  "cfgScopeMaxItems (WithDefaults c) = (if cfgScopeMaxItems c \<le> 0 then ScopeMaxItems else cfgScopeMaxItems c)"
  "cfgMaxStoreBytes (WithDefaults c) =
     max reservedScopesOverhead (if cfgMaxStoreBytes c \<le> 0 then MaxStoreMiB * 2 ^ 20 else cfgMaxStoreBytes c)"
  "cfgMaxItemBytes (WithDefaults c) = (if cfgMaxItemBytes c \<le> 0 then MaxItemBytes else cfgMaxItemBytes c)"
  "cfgEventsMode (WithDefaults c) = cfgEventsMode c \<or> cfgEventsMode (WithDefaults c) = EventsModeOff \<and>
     cfgEventsMode c \<notin> {EventsModeOff, EventsModeNotify, EventsModeFull}"
  "cfgInboxMaxItems (WithDefaults c) = (if cfgInboxMaxItems c \<le> 0 then cfgScopeMaxItems (WithDefaults c) else cfgInboxMaxItems c)"
  "cfgInboxMaxItemBytes (WithDefaults c) = (if cfgInboxMaxItemBytes c \<le> 0 then InboxMaxItemBytes else cfgInboxMaxItemBytes c)"
  by (simp_all add: WithDefaults_def Let_def)

lemma defaults_written:
  "WithDefaults \<lparr>cfgScopeMaxItems = (if n = 0 then ScopeMaxItems else n), cfgMaxStoreBytes = (if s = 0 then MaxStoreMiB * 2 ^ 20 else s * 2 ^ 20),
     cfgMaxItemBytes = (if i = 0 then MaxItemBytes else i * 2 ^ 20), cfgEventsMode = m, cfgInboxMaxItems = x, cfgInboxMaxItemBytes = k\<rparr> =
   WithDefaults \<lparr>cfgScopeMaxItems = n, cfgMaxStoreBytes = s * 2 ^ 20, cfgMaxItemBytes = i * 2 ^ 20, cfgEventsMode = m,
     cfgInboxMaxItems = x, cfgInboxMaxItemBytes = k\<rparr>" (is "WithDefaults ?a = WithDefaults ?b")
proof (rule Config.equality)
  note f = WithDefaults_fields [of ?a] WithDefaults_fields [of ?b]
  show s: "cfgScopeMaxItems (WithDefaults ?a) = cfgScopeMaxItems (WithDefaults ?b)" unfolding f by (simp add: ScopeMaxItems_def)
  show "cfgInboxMaxItems (WithDefaults ?a) = cfgInboxMaxItems (WithDefaults ?b)" unfolding f(5,11) s by simp
  show "cfgEventsMode (WithDefaults ?a) = cfgEventsMode (WithDefaults ?b)" using f(4,10) WithDefaults_mode [of ?a] WithDefaults_mode [of ?b] by auto
qed (simp_all only: WithDefaults_fields Config.simps, simp_all add: MaxStoreMiB_def MaxItemBytes_def)

lemma same_init:
  "Handler_runInitWithPrivateSocket J inp i run mkTemp listen h s = runInitWithPrivateSocket J inp i run mkTemp listen (hInitCommand h) s"
  by (auto simp: Handler_runInitWithPrivateSocket_def runInitWithPrivateSocket_def Let_def split: sum.split option.split prod.split)

text \<open>C32: The environment of the standalone binary and the directives of the Caddy module are two notations for one configuration:
  where the variables and the directives give the same numbers and mode, and the module accepts them, both programs start from the
  same cache, the unit conversions are exact, and the time allowed to the init command is the same. With the same commands, the module is
  provisioned with exactly the cache and the subscriptions the binary boots with, and registers it under \<^verbatim>\<open>default\<close>.\<close>

theorem config_agrees:
  assumes valid: "validateConfig h = None"
    and env: "reads_as (env ''SCOPECACHE_SCOPE_MAX_ITEMS'') (hScopeMaxItems h)" "reads_as (env ''SCOPECACHE_MAX_STORE_MB'') (hMaxStoreMB h)"
      "reads_as (env ''SCOPECACHE_MAX_ITEM_MB'') (hMaxItemMB h)" "reads_as (env ''SCOPECACHE_INBOX_MAX_ITEMS'') (hInboxMaxItems h)"
      "reads_as (env ''SCOPECACHE_INBOX_MAX_ITEM_KB'') (hInboxMaxItemKB h)" "reads_as (env ''SCOPECACHE_INIT_TIMEOUT_SEC'') (hInitTimeoutSec h)"
      "env ''SCOPECACHE_EVENTS_MODE'' = hEventsMode h"
    and mode: "ParseEventsMode (hEventsMode h) = (mode, err)"
    and commands: "env ''SCOPECACHE_INIT_COMMAND'' = hInitCommand h" "env ''SCOPECACHE_SUBSCRIBER_COMMAND'' = hSubscriberCommand h"
  shows "configFromEnv env = WithDefaults (handlerConfig h mode) \<and>
    NewGateway seed now (configFromEnv env) = NewGateway seed now (handlerConfig h mode) \<and>
    cfgMaxStoreBytes (handlerConfig h mode) = hMaxStoreMB h * 2 ^ 20 \<and> cfgMaxItemBytes (handlerConfig h mode) = hMaxItemMB h * 2 ^ 20 \<and>
    cfgInboxMaxItemBytes (handlerConfig h mode) = hInboxMaxItemKB h * 2 ^ 10 \<and>
    initTimeoutFromEnv env = hInitTimeoutSec h * 1000000000 \<and>
    Provision seed now J inp i run mkTemp listen gw h reg =
      (case main_boot seed now J inp i run mkTemp listen env of
         (stops, s) \<Rightarrow> (Inr (\<lparr>instGateway = Some gw, instStops = Some stops\<rparr>, s), RegisterGateway ''default'' (Some gw) reg))"
proof -
  note v = valid [unfolded validateConfig_None]
  have e: "shl64 (hMaxStoreMB h) 20 = hMaxStoreMB h * 2 ^ 20" "shl64 (hMaxItemMB h) 20 = hMaxItemMB h * 2 ^ 20"
    "shl64 (hInboxMaxItemKB h) 10 = hInboxMaxItemKB h * 2 ^ 10"
    using v by (simp_all only: shl64_exact)
  have m: "eventsModeFromEnv env = mode" using v mode env(7) by (simp add: eventsModeFromEnv_def)
  have f: "scopeMaxItemsFromEnv env = (if hScopeMaxItems h = 0 then ScopeMaxItems else hScopeMaxItems h)"
    "inboxMaxItemsFromEnv env = hInboxMaxItems h"
    "maxStoreBytesFromEnv env = (if hMaxStoreMB h = 0 then MaxStoreMiB * 2 ^ 20 else hMaxStoreMB h * 2 ^ 20)"
    "maxItemBytesFromEnv env = (if hMaxItemMB h = 0 then MaxItemBytes else hMaxItemMB h * 2 ^ 20)"
    "inboxMaxItemBytesFromEnv env = hInboxMaxItemKB h * 2 ^ 10"
    using v counts_read(1) [of env, OF env(1)] counts_read(2) [of env, OF env(4)] sizes_read(1) [of env, OF env(2)]
      sizes_read(2) [of env, OF env(3)] sizes_read(3) [of env, OF env(5)] by (simp_all only:)
  have c: "configFromEnv env = WithDefaults (handlerConfig h mode)"
    unfolding configFromEnv_def handlerConfig_def e m f by (rule defaults_written)
  have g: "NewGateway seed now (configFromEnv env) = NewGateway seed now (handlerConfig h mode)" by (simp add: c NewGateway_def newStore_def)
  have b: "Provision seed now J inp i run mkTemp listen gw h reg =
      (case main_boot seed now J inp i run mkTemp listen env of
         (stops, s) \<Rightarrow> (Inr (\<lparr>instGateway = Some gw, instStops = Some stops\<rparr>, s), RegisterGateway ''default'' (Some gw) reg))"
    using valid mode v commands
    by (simp add: Provision_def main_boot_def g same_init initCommandFromEnv_def subscriberCommandFromEnv_def Let_def split: prod.split)
  show ?thesis using e timeout_reads [of env, OF env(6)] v c g b by (simp add: handlerConfig_def)
qed

definition sampleHandler :: Handler where
  "sampleHandler = newHandler\<lparr>hMaxStoreMB := 64, hInboxMaxItemKB := 32, hEventsMode := ''full'', hInitTimeoutSec := 30,
     hInitCommand := ''warmup'', hSubscriberCommand := ''drain''\<rparr>"

definition sampleEnv :: environment where
  "sampleEnv = (\<lambda>_. [])(''SCOPECACHE_MAX_STORE_MB'' := ''64'', ''SCOPECACHE_INBOX_MAX_ITEM_KB'' := ''32'',
     ''SCOPECACHE_EVENTS_MODE'' := ''full'', ''SCOPECACHE_INIT_TIMEOUT_SEC'' := ''30'', ''SCOPECACHE_INIT_COMMAND'' := ''warmup'',
     ''SCOPECACHE_SUBSCRIBER_COMMAND'' := ''drain'')"

lemma sample_reads: "reads_as ''64'' 64" "reads_as ''32'' 32" "reads_as ''30'' 30" "reads_as [] 0"
  by code_simp+

theorem config_agrees_witness:
  "configFromEnv sampleEnv = WithDefaults (handlerConfig sampleHandler EventsModeFull) \<and> initTimeoutFromEnv sampleEnv = 30000000000 \<and>
   (case Provision length 5 sampleJson sampleInp 7 (\<lambda>_ _ s. (None, s)) (Inr ''/tmp/x'') (\<lambda>_. None) 1 sampleHandler emptyRegistry of
      (Inr (inst, s), reg) \<Rightarrow>
        instStops inst = Some (fst (main_boot length 5 sampleJson sampleInp 7 (\<lambda>_ _ s. (None, s)) (Inr ''/tmp/x'') (\<lambda>_. None) sampleEnv))
    | _ \<Rightarrow> False)"
proof -
  have v: "validateConfig sampleHandler = None" by code_simp
  have m: "ParseEventsMode (hEventsMode sampleHandler) = (EventsModeFull, False)" by code_simp
  have e: "reads_as (sampleEnv ''SCOPECACHE_SCOPE_MAX_ITEMS'') (hScopeMaxItems sampleHandler)"
    "reads_as (sampleEnv ''SCOPECACHE_MAX_STORE_MB'') (hMaxStoreMB sampleHandler)"
    "reads_as (sampleEnv ''SCOPECACHE_MAX_ITEM_MB'') (hMaxItemMB sampleHandler)"
    "reads_as (sampleEnv ''SCOPECACHE_INBOX_MAX_ITEMS'') (hInboxMaxItems sampleHandler)"
    "reads_as (sampleEnv ''SCOPECACHE_INBOX_MAX_ITEM_KB'') (hInboxMaxItemKB sampleHandler)"
    "reads_as (sampleEnv ''SCOPECACHE_INIT_TIMEOUT_SEC'') (hInitTimeoutSec sampleHandler)"
    "sampleEnv ''SCOPECACHE_EVENTS_MODE'' = hEventsMode sampleHandler"
    by (simp_all add: sampleEnv_def sampleHandler_def newHandler_def sample_reads)
  have c: "sampleEnv ''SCOPECACHE_INIT_COMMAND'' = hInitCommand sampleHandler"
    "sampleEnv ''SCOPECACHE_SUBSCRIBER_COMMAND'' = hSubscriberCommand sampleHandler"
    by (simp_all add: sampleEnv_def sampleHandler_def)
  have t: "hInitTimeoutSec sampleHandler = 30" by (simp add: sampleHandler_def)
  show ?thesis
    using config_agrees [OF v e m c, of length 5 sampleJson sampleInp 7 "\<lambda>_ _ s. (None, s)" "Inr ''/tmp/x''" "\<lambda>_. None" 1 emptyRegistry]
    by (auto simp: t split: prod.splits)
qed

section \<open>Boot\<close>

lemma env_cap: "cfgMaxStoreBytes (configFromEnv env) \<le> MaxInt64"
proof -
  have "maxStoreBytesFromEnv env \<le> MaxInt64"
    using i64_range by (auto simp: maxStoreBytesFromEnv_def shl64_def Let_def split: option.split)
  then show ?thesis unfolding configFromEnv_def by (intro WithDefaults_le) simp
qed

lemma unsubscribe_names: "map fst (subscribers (unsubscribe n s)) = filter (\<lambda>m. m \<noteq> n) (map fst (subscribers s))"
proof (cases "map_of (subscribers s) n")
  case None
  then have "n \<notin> fst ` set (subscribers s)" by (simp add: map_of_eq_None_iff)
  then show ?thesis using None by (auto simp: unsubscribe_def intro!: filter_True [symmetric])
next
  case (Some q)
  have "(\<lambda>(m, x :: nat). n \<noteq> m) = (\<lambda>e. fst e \<noteq> n)" by auto
  then show ?thesis using Some by (simp add: unsubscribe_def AList.delete_eq filter_map comp_def)
qed

lemma stopped_names:
  "map fst (subscribers (stopReserved stops s)) = filter (\<lambda>m. m \<notin> fst ` set stops) (map fst (subscribers s))"
proof -
  have "map fst (subscribers (fold stopSubscriber hs t)) = filter (\<lambda>m. m \<notin> fst ` set hs) (map fst (subscribers t))" for hs t
    by (induction hs arbitrary: t) (auto simp: stopSubscriber_def unsubscribe_names intro!: filter_cong)
  then show ?thesis by (simp add: stopReserved_def)
qed

lemma served_clean:
  assumes names: "map fst (subscribers s) = map fst stops" and sv: "subscribers (sv s) = subscribers s" "\<forall>t. subscribers (draining t) = subscribers t"
    and run: "main_serve os path sv draining sig stops s files = Some (s3, files3)"
  shows "subscribers s3 = [] \<and> files3 path = None"
proof -
  obtain files1 where "s3 = stopReserved stops (if sig then draining (stopReserved stops (sv s)) else sv s)" "files3 = files1(path := None)"
    using run by (auto simp: main_serve_def Let_def split: prod.splits sum.splits)
  note f = this
  have gone: "subscribers (stopReserved stops t) = []" if "set (map fst (subscribers t)) \<subseteq> fst ` set stops" for t
  proof -
    have "filter (\<lambda>m. m \<notin> fst ` set stops) (map fst (subscribers t)) = []" using that by (auto simp: filter_empty_conv)
    then show ?thesis using stopped_names [of stops t] by simp
  qed
  have k: "set (map fst (subscribers (sv s))) \<subseteq> fst ` set stops" using arg_cong [OF names, of set] sv(1) by simp
  have "set (map fst (subscribers (draining (stopReserved stops (sv s))))) \<subseteq> fst ` set stops" using sv(2) gone [OF k] by simp
  then show ?thesis using f gone k by (cases sig) simp_all
qed

text \<open>C11: The standalone binary boots into a cache that is exactly what the init command left, with an empty \<^verbatim>\<open>_events\<close>, and
  with nobody subscribed during the init phase. When a subscriber command is configured, both reserved scopes have a bridge, each
  waiting on an empty channel that the store will signal, and stopping them makes both exit. Whatever is then served over HTTP,
  and whether a signal ends the program or the server fails, no subscription and no socket file is left.\<close>

theorem boot_ready:
  assumes cmd: "initCommandFromEnv env \<noteq> []" and sock: "listen (dir @ ''/init.sock'') = None"
    and run: "run (initCommandFromEnv env) [''SCOPECACHE_SOCKET_PATH='' @ dir @ ''/init.sock''] (NewGateway seed now (configFromEnv env)) = (e, s1)"
    and tr: "traffic J (NewGateway seed now (configFromEnv env)) w s1" "w + 7 < 2 ^ 64"
    and boot: "main_boot seed now J inp i run (Inr dir) listen env = (stops, s2)"
  shows "view s2 = (view s1)(EventsScopeName := Some []) \<and> store_inv s2 \<and>
    (if subscriberCommandFromEnv env = [] then stops = [] \<and> subscribers s2 = []
     else map fst stops = [EventsScopeName, InboxScopeName] \<and>
       (\<forall>(n, q) \<in> set stops. map_of (subscribers s2) n = Some q \<and> bridgeTurn q s2 = (Waits, s2) \<and>
          fst (bridgeTurn q (stopReserved stops s2)) = Exits)) \<and>
    (\<forall>os path sv draining sig files s3 files3. subscribers (sv s2) = subscribers s2 \<and> (\<forall>t. subscribers (draining t) = subscribers t) \<and>
       main_serve os path sv draining sig stops s2 files = Some (s3, files3) \<longrightarrow> subscribers s3 = [] \<and> files3 path = None)"
proof -
  let ?s0 = "NewGateway seed now (configFromEnv env)"
  note r0 = reachable.start [of J "configFromEnv env" seed now]
  have r1: "reachable J (configFromEnv env) (1 + w) s1" "subscribers s1 = []"
    using traffic_reachable [OF tr(1), of "configFromEnv env" 1] r0 newStore_subscribers by (simp_all add: NewGateway_def)
  have i1: "store_inv s1" "seqs_below (1 + w) s1" using reachable_inv [OF r1(1) env_cap] tr(2) by simp_all
  have n: "Suc (1 + w) < 2 ^ 64" using tr(2) by simp
  obtain t where t: "RunInitCommand J inp i run (initCommandFromEnv env) [''SCOPECACHE_SOCKET_PATH='' @ dir @ ''/init.sock''] ?s0 =
      (map_option (Pair (initCommandFromEnv env)) e,
       [LogRunning (initCommandFromEnv env),
        case e of None \<Rightarrow> LogInitCompleted (initCommandFromEnv env) | Some x \<Rightarrow> LogInitFailed (initCommandFromEnv env) x], t)"
    "view t = (view s1)(EventsScopeName := Some [])" "subscribers t = subscribers s1" "store_step J 2 s1 t"
    using RunInitCommand_outcome [where i = i and run = run and command = "initCommandFromEnv env" and
        extraEnv = "[''SCOPECACHE_SOCKET_PATH='' @ dir @ ''/init.sock'']", OF run i1 n cmd] by blast
  have m: "main_boot seed now J inp i run (Inr dir) listen env =
      (case StartReservedSubscribers (subscriberCommandFromEnv env) t of (stops, lg, s2) \<Rightarrow> (stops, s2))"
    using cmd sock t(1) by (simp add: main_boot_def runInitWithPrivateSocket_def Let_def split: option.split)
  have r2: "reachable J (configFromEnv env) (1 + w + 2) t" by (rule reachable.step [OF r1(1) t(4)])
  have s: "subscribers t = []" using t(3) r1(2) by simp
  have booted: "if subscriberCommandFromEnv env = [] then stops = [] \<and> s2 = t
      else stops = [(EventsScopeName, length (subs t)), (InboxScopeName, Suc (length (subs t)))] \<and> s2 = bridged t"
    using m boot StartReservedSubscribers_fresh [OF s] by (simp add: StartReservedSubscribers_def split: if_splits)
  have "view s2 = (view s1)(EventsScopeName := Some []) \<and> store_inv s2 \<and>
    (if subscriberCommandFromEnv env = [] then stops = [] \<and> subscribers s2 = []
     else map fst stops = [EventsScopeName, InboxScopeName] \<and>
       (\<forall>(n, q) \<in> set stops. map_of (subscribers s2) n = Some q \<and> bridgeTurn q s2 = (Waits, s2) \<and>
          fst (bridgeTurn q (stopReserved stops s2)) = Exits))"
  proof (cases "subscriberCommandFromEnv env = []")
    case True
    then show ?thesis using booted t s reachable_inv(1) [OF r2 env_cap] tr(2) by simp
  next
    case False
    have "store_inv (bridged t)" using reachable_inv(1) [OF bridged_reachable [OF s r2] env_cap] tr(2) by simp
    then show ?thesis using False t(2) booted bridged_waits [of _ _ t] by auto
  qed
  moreover have "map fst (subscribers s2) = map fst stops"
    using booted s by (cases "subscriberCommandFromEnv env = []") (simp_all add: bridged_def)
  ultimately show ?thesis using served_clean [of s2 stops] by blast
qed

text \<open>An init command that appends one item, and then fails.\<close>

definition sampleRun :: runner where
  "sampleRun = (\<lambda>command extraEnv s. (Some ''exit status 1'', snd (appendOne sampleJson sampleInp 1 (sampleItem ''a'' ''1'') s)))"

definition sampleOs :: osCalls where
  "sampleOs = \<lparr>mkdirErr = None, lstatErr = None, removeErr = None, listenErr = None, chmodErr = None\<rparr>"

theorem boot_ready_witness:
  "case main_boot length 5 sampleJson sampleInp 7 sampleRun (Inr ''/tmp/x'') (\<lambda>_. None) sampleEnv of
     (stops, s2) \<Rightarrow> view s2 EventsScopeName = Some [] \<and> map_option (map ID) (view s2 ''posts'') = Some [''a''] \<and>
       (\<forall>(n, q) \<in> set stops. bridgeTurn q s2 = (Waits, s2)) \<and>
       map_option (\<lambda>(s3, files3). (subscribers s3, files3 ''/run/s.sock''))
         (main_serve sampleOs ''/run/s.sock'' (\<lambda>s. s) (\<lambda>s. s) True stops s2 (\<lambda>_. None)) = Some ([], None)"
proof -
  let ?s0 = "NewGateway length 5 (configFromEnv sampleEnv)"
  obtain stops s2 where b: "main_boot length 5 sampleJson sampleInp 7 sampleRun (Inr ''/tmp/x'') (\<lambda>_. None) sampleEnv = (stops, s2)"
    by fastforce
  obtain r s1 where a: "appendOne sampleJson sampleInp 1 (sampleItem ''a'' ''1'') ?s0 = (r, s1)" by fastforce
  have f: "subscribers (snd (appendOne sampleJson sampleInp 1 (sampleItem ''a'' ''1'') ?s0)) = []"
    "map_option (map ID) (view (snd (appendOne sampleJson sampleInp 1 (sampleItem ''a'' ''1'') ?s0)) ''posts'') = Some [''a'']"
    "initCommandFromEnv sampleEnv \<noteq> []" "subscriberCommandFromEnv sampleEnv \<noteq> []"
    by code_simp+
  have run: "sampleRun (initCommandFromEnv sampleEnv) [''SCOPECACHE_SOCKET_PATH='' @ ''/tmp/x'' @ ''/init.sock''] ?s0 =
      (Some ''exit status 1'', s1)"
    using a by (simp add: sampleRun_def)
  have tr: "traffic sampleJson ?s0 (0 + 2) s1"
    by (rule traffic.busy [OF traffic.quiet store_step.append [OF a]]) (use f(1) a in \<open>simp add: NewGateway_def newStore_subscribers\<close>)
  have n: "(0 + 2 + 7 :: nat) < 2 ^ 64" by simp
  note k = boot_ready [OF f(3) refl run tr n b]
  have v: "view s2 = (view s1)(EventsScopeName := Some [])" "\<forall>(n, q) \<in> set stops. bridgeTurn q s2 = (Waits, s2)"
    using k f(4) by auto
  obtain s3 files3 where m: "main_serve sampleOs ''/run/s.sock'' (\<lambda>s. s) (\<lambda>s. s) True stops s2 (\<lambda>_. None) = Some (s3, files3)"
    by (simp add: main_serve_def listenUnixSocket_def sampleOs_def)
  have "subscribers s3 = [] \<and> files3 ''/run/s.sock'' = None"
    by (rule k [THEN conjunct2, THEN conjunct2, THEN conjunct2, rule_format, where sv = "\<lambda>s. s" and draining = "\<lambda>s. s" and
          sig = True and os = sampleOs and files = "\<lambda>_. None"]) (use m in simp)
  then show ?thesis using v m f(2) a b by (simp add: EventsScopeName_def)
qed

section \<open>Reload\<close>

lemma unsubscribe_gone:
  "map_of (subscribers (unsubscribe n s)) n = None"
  "map_of (subscribers s) m = None \<Longrightarrow> map_of (subscribers (unsubscribe n s)) m = None"
  by (auto simp: unsubscribe_def delete_conv split: option.split)

lemma stopReserved_gone:
  assumes "(n, q) \<in> set stops"
  shows "map_of (subscribers (stopReserved stops s)) n = None"
proof -
  have "map_of (subscribers (fold stopSubscriber hs t)) n = None"
    if "(n, q) \<in> set hs \<or> map_of (subscribers t) n = None" for hs t
    using that
  proof (induction hs arbitrary: t)
    case (Cons h hs)
    then have "(n, q) \<in> set hs \<or> map_of (subscribers (stopSubscriber h t)) n = None"
      using unsubscribe_gone(1) [of n t] unsubscribe_gone(2) [of t n "fst h"] by (cases "h = (n, q)") (auto simp: stopSubscriber_def)
    then show ?case using Cons.IH by simp
  qed simp
  then show ?thesis using assms by (simp add: stopReserved_def)
qed

lemma register_registered:
  "reg_ok r \<Longrightarrow> reg_ok (RegisterGateway n g r) \<and> registered (RegisterGateway n g r) = (registered r)(n := g)"
  using regStep_refines(1,2) [of r "Register n g"] by simp

lemma deregister_registered:
  "reg_ok r \<Longrightarrow> reg_ok (DeregisterGatewayIf n g r) \<and>
     registered (DeregisterGatewayIf n g r) = (if registered r n = g then (registered r)(n := None) else registered r)"
  using regStep_refines(1,2) [of r "Deregister n g"] by simp

text \<open>C12: A configuration reload hands the name \<^verbatim>\<open>default\<close> over. A module that refuses its configuration leaves the registry
  alone; one that is provisioned takes the name. The cleanup of the instance it replaces releases that instance's subscriptions, and does
  not touch the new registration; a second cleanup does nothing. But when the new instance is the one that is cleaned up, because the
  reload is abandoned, the name ends up empty, whatever instance it belonged to before and still serves.\<close>

theorem reload_handover:
  assumes reg: "reg_ok reg" and prov: "Provision seed now J inp i run mkTemp listen gw2 h reg = (res, reg1)"
    and old: "instGateway inst1 = Some gw1" "instStops inst1 = Some stops" "gw1 \<noteq> gw2"
  shows "case res of
      Inl e \<Rightarrow> validateConfig h = Some e \<and> reg1 = reg
    | Inr (inst2, s2) \<Rightarrow> validateConfig h = None \<and> registered reg1 = (registered reg)(''default'' := Some gw2) \<and>
        (case Cleanup inst1 s reg1 of (inst1', s', reg2) \<Rightarrow>
           registered reg2 = registered reg1 \<and> (\<forall>(n, q) \<in> set stops. map_of (subscribers s') n = None) \<and>
           Cleanup inst1' s' reg2 = (inst1', s', reg2)) \<and>
        (case Cleanup inst2 s2 reg1 of (inst2', s', reg2) \<Rightarrow> registered reg2 = (registered reg)(''default'' := None))"
proof (cases "validateConfig h")
  case (Some e)
  then show ?thesis using prov by (auto simp: Provision_def)
next
  case None
  obtain mode where m: "ParseEventsMode (hEventsMode h) = (mode, False)"
    using None by (cases "ParseEventsMode (hEventsMode h)") (simp add: validateConfig_None)
  obtain inst2 s2 where r: "res = Inr (inst2, s2)" "instGateway inst2 = Some gw2" "reg1 = RegisterGateway ''default'' (Some gw2) reg"
    using prov None m by (auto simp: Provision_def Let_def split: prod.splits)
  have g: "reg_ok reg1" "registered reg1 = (registered reg)(''default'' := Some gw2)"
    using register_registered [OF reg, of "''default''" "Some gw2"] r(3) by simp_all
  show ?thesis
    using None g old r(2) stopReserved_gone [of _ _ stops s] deregister_registered [OF g(1)]
    by (auto simp: r(1) Cleanup_def Let_def)
qed

definition sampleInst :: "nat \<Rightarrow> instance_state" where
  "sampleInst gw = \<lparr>instGateway = Some gw, instStops = Some [(EventsScopeName, 0), (InboxScopeName, 1)]\<rparr>"

theorem reload_handover_witness:
  "case Provision length 5 sampleJson sampleInp 7 sampleRun (Inr ''/tmp/x'') (\<lambda>_. None) 2 sampleHandler
      (RegisterGateway ''default'' (Some 1) emptyRegistry) of
     (Inl e, reg1) \<Rightarrow> False
   | (Inr (inst2, s2), reg1) \<Rightarrow>
       (case Cleanup (sampleInst 1) sampleStore reg1 of (_, _, reg2) \<Rightarrow> registered reg2 ''default'' = Some 2) \<and>
       (case Cleanup inst2 s2 reg1 of (_, _, reg2) \<Rightarrow> registered reg2 ''default'' = None)"
proof -
  have v: "validateConfig sampleHandler = None" by code_simp
  have k: "reg_ok (RegisterGateway ''default'' (Some 1) emptyRegistry)" using register_registered [OF empty_ok] by blast
  obtain res reg1 where p: "Provision length 5 sampleJson sampleInp 7 sampleRun (Inr ''/tmp/x'') (\<lambda>_. None) 2 sampleHandler
      (RegisterGateway ''default'' (Some 1) emptyRegistry) = (res, reg1)" by fastforce
  from reload_handover [OF k p, of "sampleInst 1" 1 _ sampleStore] v show ?thesis
    unfolding p by (auto simp: sampleInst_def split: sum.splits prod.splits)
qed

section \<open>Miss-fallthrough\<close>

lemma overwrites_one: "buf_ok b \<Longrightarrow> p \<in> set (items b) \<Longrightarrow> overwritePayloadLocked p payload rb now a b \<noteq> (Inr 0, a', b')"
  using overwrite_view(1) [where P = "\<lambda>x. Seq x = Seq (deref b p)"] by fastforce

lemma overwrites_live:
  "buf_ok b \<Longrightarrow> map_of (byID b) k = Some p \<Longrightarrow> overwritePayloadLocked p payload rb now a b = (Inr 0, a', b') \<Longrightarrow> False"
  "buf_ok b \<Longrightarrow> map_of (bySeq b) q = Some p \<Longrightarrow> overwritePayloadLocked p payload rb now a b = (Inr 0, a', b') \<Longrightarrow> False"
  "buf_ok b \<Longrightarrow> map_of (byUUID b) u = Some p \<Longrightarrow> overwritePayloadLocked p payload rb now a b = (Inr 0, a', b') \<Longrightarrow> False"
  using overwrites_one byID_live bySeq_live byUUID_live by blast+

lemma zero_updates: "buf_ok b \<Longrightarrow> updateMethod J now it a b = (Inr 0, a', b') \<Longrightarrow> a' = a \<and> b' = b"
  by (auto simp: updateMethod_def updateByID_def updateBySeq_def updateByUUID_def Let_def
      dest: overwrites_live split: if_splits option.splits)

lemma zero_deletes: "deleteMethod capq now k q u a b = (Inr 0, a', b') \<Longrightarrow> a' = a \<and> b' = b"
  by (auto simp: deleteMethod_def deleteByID_def deleteBySeq_def deleteByUUID_def deleteFound_def Let_def
      split: if_splits option.splits sum.splits prod.splits)

lemma onBuf_zero:
  assumes s: "store_inv s" "getScope s n = Some p" and r: "onBuf p m s = (Inr 0, s1)"
    and m: "\<And>a' b'. buf_ok (bufs s ! p) \<Longrightarrow> m (acct s) (bufs s ! p) = (Inr 0, a', b') \<Longrightarrow> a' = acct s \<and> b' = bufs s ! p"
  shows "s1 = s"
proof -
  obtain a' b' where d: "m (acct s) (bufs s ! p) = (Inr 0, a', b')" "s1 = s\<lparr>acct := a', bufs := (bufs s)[p := b']\<rparr>"
    using r by (auto simp: onBuf_def split: prod.splits)
  then show ?thesis using m [OF linked_buf_ok(1) [OF s] d(1)] by simp
qed

lemma nothing_hit:
  assumes s: "store_inv s"
  shows "updateOne J inp i it s = (Inr 0, s') \<Longrightarrow> s' = s" "deleteOne J inp i capq n k q u s = (Inr 0, s') \<Longrightarrow> s' = s"
  by (auto simp: updateOne_def deleteOne_def split: sum.splits option.splits prod.splits if_splits
      dest: onBuf_zero [OF s _ _ zero_updates] onBuf_zero [OF s _ _ zero_deletes])

lemma no_miss [simp]:
  "\<not> missHeader (badRequest M newWriter m)" "\<not> missHeader (methodNotAllowed M newWriter a)"
  "\<not> missHeader (writeMutationError M newWriter err sc)" "\<not> missHeader (counterError M err sc)" "\<not> missHeader (deleteError M err)"
  by (auto simp: badRequest_def conflict_def methodNotAllowed_def scopeFull_def storeFull_def writeMutationError_def counterError_def
      deleteError_def writeStoreCapacityError_def Let_def split: goError.split)

text \<open>A response that is flagged as a miss comes from a request that changed nothing but the read statistics.\<close>

lemma miss_kept:
  assumes M: "\<forall>e. M e \<noteq> None" and s: "store_inv s" and r: "RegisterRoutes M J inp i api q s = (p, s')" and m: "missHeader p"
  shows "data_kept s s'"
proof (cases q)
  case (PathUpdate x)
  then show ?thesis using r m
    by (auto simp: handleUpdate_def dest: nothing_hit(1) [OF s] split: if_splits sum.splits prod.splits)
next
  case (PathDelete c x)
  then show ?thesis using r m
    by (auto simp: handleDelete_def dest: nothing_hit(2) [OF s] split: if_splits sum.splits prod.splits)
next
  case (PathHead x)
  then show ?thesis using r read_handlers(1) [OF M s, of J "fst (inp i)" api x p s'] by simp
next
  case (PathTail x)
  then show ?thesis using r read_handlers(2) [OF M s, of J "fst (inp i)" api x p s'] by simp
next
  case (PathGet x)
  then show ?thesis using r read_handlers(3) [OF M s, of J "fst (inp i)" x p s'] by simp
next
  case (PathRender x)
  then show ?thesis using r read_handlers(4) [OF M s, of "fst (inp i)" x p s'] by simp
qed (use r m in \<open>auto simp: handler_defs handleWipe_def handleStats_def handleScopeList_def handleHelp_def Let_def
    split: if_splits sum.splits prod.splits option.splits\<close>)

definition oversize :: "rawRequest \<Rightarrow> bool" where
  "oversize r \<longleftrightarrow> rawMethod r = ''POST'' \<and> rawBody r \<noteq> None \<and> (bodyBroken r \<or> int (length (the (rawBody r))) > 8 * 2 ^ 20)"

text \<open>C10: With \<^verbatim>\<open>miss_fallthrough\<close>, a request whose body is at most 8 MiB gets exactly the answer of the core handler, or, when that
  answer is flagged as a miss, the answer of the next handler, which receives the unchanged request on a fresh writer; a miss has
  changed no item, no total, no scope and no subscription, so the next handler is never run after a write that took effect. A path
  that is not registered always goes to the next handler. But a longer body is cut: the core handler receives its first 8 MiB as if
  they were all of it, also where the core accepts longer bodies, and nothing falls through.\<close>

theorem fallthrough_exact:
  assumes M: "\<forall>e. M e \<noteq> None" and s: "reachable J c N s" "cfgMaxStoreBytes c \<le> MaxInt64" "Suc N < 2 ^ 64"
    and mux: "mux (rawPath r) = Some (\<lambda>r. RegisterRoutes M J inp i api (D r))" "\<forall>r. callIterates (D r)"
    and core: "RegisterRoutes M J inp i api (D r) s = (p, s1)" and none: "mux (rawPath u) = None"
  shows "ServeHTTP on mux next u s = (next newWriter u, s) \<and> ServeHTTP False mux next r s = (p, s1) \<and>
    (\<not> oversize r \<longrightarrow> ServeHTTP True mux next r s = (if missHeader p then (next newWriter r, s1) else (p, s1))) \<and>
    (missHeader p \<longrightarrow> view s1 = view s \<and> acct s1 = acct s \<and> shards s1 = shards s \<and> eventsDropsTotal s1 = eventsDropsTotal s \<and>
       subscribers s1 = subscribers s) \<and>
    (oversize r \<longrightarrow> ServeHTTP True mux next r s =
       ServeHTTP False mux next (r\<lparr>rawBody := map_option (take (8 * 2 ^ 20)) (rawBody r), bodyBroken := False\<rparr>) s)"
proof -
  have "N < 2 ^ 64" using s(3) by simp
  note i = reachable_inv [OF s(1,2) this]
  have "served J (callWeight api (D r)) s p s1" by (rule route_outcome [OF M i(1-3) s(3) _ core]) (use mux(2) in simp)
  then have "missHeader p \<Longrightarrow> allowHeader p = None" by (auto simp: served_def answers_def)
  then have w: "missHeader p \<Longrightarrow> newWriter\<lparr>allowHeader := allowHeader p\<rparr> = newWriter" by (simp add: newWriter_def)
  have "missHeader p \<Longrightarrow> data_kept s s1" by (rule miss_kept [OF M i(1) core])
  then show ?thesis using mux(1) none core w
    by (auto simp: ServeHTTP_def oversize_def maxFallthroughBodyBytes_def data_kept_def)
qed

definition sampleRaw :: "string \<Rightarrow> string \<Rightarrow> rawRequest" where
  "sampleRaw path k = \<lparr>rawMethod = ''GET'', rawPath = path, rawQuery = [(''scope'', ''posts''), (''id'', k)], rawBody = Some [], bodyBroken = False\<rparr>"

definition sampleDecode :: "rawRequest \<Rightarrow> httpCall" where
  "sampleDecode r = PathGet (sampleRequest (rawMethod r) (rawQuery r) ())"

definition sampleMux :: "string \<Rightarrow> (rawRequest \<Rightarrow> store \<Rightarrow> httpResponse \<times> store) option" where
  "sampleMux path = (if path = ''/get'' then Some (\<lambda>r. RegisterRoutes sampleMarshal sampleJson sampleInp 20 (NewAPI sampleStore) (sampleDecode r))
     else None)"

definition sampleNext :: "httpResponse \<Rightarrow> rawRequest \<Rightarrow> httpResponse" where
  "sampleNext w r = w\<lparr>status := 200, respBody := ''origin''\<rparr>"

theorem fallthrough_exact_witness:
  "respBody (fst (ServeHTTP True sampleMux sampleNext (sampleRaw ''/get'' ''b'') sampleStore)) = ''origin'' \<and>
   view (snd (ServeHTTP True sampleMux sampleNext (sampleRaw ''/get'' ''b'') sampleStore)) = view sampleStore"
proof -
  let ?r = "sampleRaw ''/get'' ''b''"
  let ?c = "RegisterRoutes sampleMarshal sampleJson sampleInp 20 (NewAPI sampleStore) (sampleDecode ?r) sampleStore"
  obtain p s1 where d: "?c = (p, s1)" by fastforce
  have m: "missHeader (fst ?c)" by code_simp
  have e: "sampleMux (rawPath ?r) = Some (\<lambda>r. RegisterRoutes sampleMarshal sampleJson sampleInp 20 (NewAPI sampleStore) (sampleDecode r))"
    "\<forall>r. callIterates (sampleDecode r)" "sampleMux (rawPath (sampleRaw ''/other'' [])) = None" "\<not> oversize ?r"
    by (simp_all add: sampleMux_def sampleRaw_def sampleDecode_def oversize_def)
  show ?thesis using fallthrough_exact [OF sample_marshal sample_reachable sample_conf _ e(1,2) d e(3), of False sampleNext] m d e(4)
    by (simp add: sampleNext_def)
qed
end
