(* ===== verification/Php.thy ===== *)
theory Php
  imports Gateway Http
begin

text \<open>
  The FrankenPHP extension (\<^verbatim>\<open>addons/frankenphp-ext/scopecache_ext.go\<close>): one function per export, over the gateway in
  the default slot; \<^const>\<open>None\<close> is an empty slot on the way in and PHP's \<^verbatim>\<open>null\<close> on the way out. A zend string is its bytes, a nil one
  the empty string; the copies at the cgo boundary are copies of values. \<open>M\<close> is \<^verbatim>\<open>MarshalEnvelope\<close>.
\<close>

section \<open>Crossing to PHP\<close>

definition phpStringFromBytes :: "string \<Rightarrow> string option" where
  "phpStringFromBytes b = (if length b = 0 then None else Some b)"

definition marshalFailed :: string where
  "marshalFailed = raw ''{`ok`:false,`error`:`internal: response marshal failed`}''"

definition errorEnvelope :: "marshaller \<Rightarrow> message \<Rightarrow> string option" where
  "errorEnvelope M msg =
     (case M (ErrorResponse msg) of None \<Rightarrow> phpStringFromBytes marshalFailed | Some body \<Rightarrow> phpStringFromBytes body)"

definition mustMarshal :: "marshaller \<Rightarrow> envelope \<Rightarrow> string" where
  "mustMarshal M v = (case M v of None \<Rightarrow> marshalFailed | Some body \<Rightarrow> body)"

text \<open>The success path of the writes, with its own fallback.\<close>

definition writeEnvelope :: "marshaller \<Rightarrow> envelope \<Rightarrow> string option" where
  "writeEnvelope M v =
     (case M v of None \<Rightarrow> errorEnvelope M (Text ''internal: response marshal failed'') | Some body \<Rightarrow> phpStringFromBytes body)"

text \<open>\<^verbatim>\<open>uint64\<close> of an \<^verbatim>\<open>int64\<close>.\<close>

definition toUint64 :: "int \<Rightarrow> nat" where
  "toUint64 v = nat (v mod 2 ^ 64)"

type_synonym php = "store option \<Rightarrow> string option \<times> store option"

definition onGateway :: "(store \<Rightarrow> string option \<times> store) \<Rightarrow> php" where
  "onGateway f slot = (case slot of None \<Rightarrow> (None, None) | Some s \<Rightarrow> (case f s of (r, s1) \<Rightarrow> (r, Some s1)))"

section \<open>Reads\<close>

definition scopecache_get :: "jsonLib \<Rightarrow> int \<Rightarrow> string \<Rightarrow> string \<Rightarrow> php" where
  "scopecache_get J now scope k = onGateway (\<lambda>s.
     case Gateway_GetByID now scope k s of (itm, s1) \<Rightarrow> (phpStringFromBytes (AppendGetResponseJSON J [] itm), s1))"

definition scopecache_get_by_seq :: "jsonLib \<Rightarrow> int \<Rightarrow> string \<Rightarrow> int \<Rightarrow> php" where
  "scopecache_get_by_seq J now scope seq = onGateway (\<lambda>s.
     case Gateway_GetBySeq now scope (toUint64 seq) s of (itm, s1) \<Rightarrow> (phpStringFromBytes (AppendGetResponseJSON J [] itm), s1))"

definition scopecache_get_payload :: "int \<Rightarrow> string \<Rightarrow> string \<Rightarrow> php" where
  "scopecache_get_payload now scope k = onGateway (\<lambda>s.
     case Gateway_RenderByID now scope k s of
       (None, s1) \<Rightarrow> (None, s1)
     | (Some body, s1) \<Rightarrow> (phpStringFromBytes body, s1))"

definition scopecache_get_payload_by_seq :: "int \<Rightarrow> string \<Rightarrow> int \<Rightarrow> php" where
  "scopecache_get_payload_by_seq now scope seq = onGateway (\<lambda>s.
     case Gateway_RenderBySeq now scope (toUint64 seq) s of
       (None, s1) \<Rightarrow> (None, s1)
     | (Some body, s1) \<Rightarrow> (phpStringFromBytes body, s1))"

definition scopecache_head :: "jsonLib \<Rightarrow> int \<Rightarrow> string \<Rightarrow> int \<Rightarrow> int \<Rightarrow> php" where
  "scopecache_head J now scope afterSeq limit = onGateway (\<lambda>s.
     case Gateway_Head now scope (toUint64 afterSeq) limit s of
       (None, s1) \<Rightarrow> (phpStringFromBytes (AppendHeadResponseJSON J [] [] False), s1)
     | (Some (its, truncated), s1) \<Rightarrow> (phpStringFromBytes (AppendHeadResponseJSON J [] its truncated), s1))"

definition scopecache_tail :: "jsonLib \<Rightarrow> int \<Rightarrow> string \<Rightarrow> int \<Rightarrow> php" where
  "scopecache_tail J now scope limit = onGateway (\<lambda>s.
     case Gateway_Tail now scope limit 0 s of
       (None, s1) \<Rightarrow> (phpStringFromBytes (AppendTailResponseJSON J [] [] False 0), s1)
     | (Some (its, truncated), s1) \<Rightarrow> (phpStringFromBytes (AppendTailResponseJSON J [] its truncated 0), s1))"

section \<open>Writes\<close>

definition phpItem :: "string \<Rightarrow> string \<Rightarrow> string \<Rightarrow> item" where
  "phpItem scope k payload = zeroItem\<lparr>Scope := scope, ID := k, Payload := payload\<rparr>"

definition scopecache_append :: "marshaller \<Rightarrow> jsonLib \<Rightarrow> inputs \<Rightarrow> nat \<Rightarrow> string \<Rightarrow> string \<Rightarrow> string \<Rightarrow> php" where
  "scopecache_append M J inp i scope k payload = onGateway (\<lambda>s.
     case Gateway_Append J inp i (phpItem scope k payload) s of
       (Inl err, s1) \<Rightarrow> (errorEnvelope M (Failure err), s1)
     | (Inr result, s1) \<Rightarrow> (writeEnvelope M (AppendResponse True (newWriteAck result)), s1))"

definition scopecache_upsert :: "marshaller \<Rightarrow> jsonLib \<Rightarrow> inputs \<Rightarrow> nat \<Rightarrow> string \<Rightarrow> string \<Rightarrow> string \<Rightarrow> php" where
  "scopecache_upsert M J inp i scope k payload = onGateway (\<lambda>s.
     case Gateway_Upsert J inp i (phpItem scope k payload) s of
       (Inl err, s1) \<Rightarrow> (errorEnvelope M (Failure err), s1)
     | (Inr (result, created), s1) \<Rightarrow> (writeEnvelope M (UpsertResponse created (newWriteAck result)), s1))"

definition scopecache_update :: "marshaller \<Rightarrow> jsonLib \<Rightarrow> inputs \<Rightarrow> nat \<Rightarrow> string \<Rightarrow> string \<Rightarrow> string \<Rightarrow> php" where
  "scopecache_update M J inp i scope k payload = onGateway (\<lambda>s.
     case Gateway_Update J inp i (phpItem scope k payload) s of
       (Inl err, s1) \<Rightarrow> (errorEnvelope M (Failure err), s1)
     | (Inr n, s1) \<Rightarrow> (writeEnvelope M (UpdateResponse False n), s1))"

definition scopecache_counter_add :: "marshaller \<Rightarrow> jsonLib \<Rightarrow> inputs \<Rightarrow> nat \<Rightarrow> string \<Rightarrow> string \<Rightarrow> int \<Rightarrow> php" where
  "scopecache_counter_add M J inp i scope k inc = onGateway (\<lambda>s.
     case Gateway_CounterAdd J inp i scope k inc s of
       (Inl err, s1) \<Rightarrow> (errorEnvelope M (Failure err), s1)
     | (Inr (v, created), s1) \<Rightarrow> (writeEnvelope M (CounterAddResponse created v), s1))"

section \<open>Deletes\<close>

definition scopecache_delete :: "marshaller \<Rightarrow> jsonLib \<Rightarrow> inputs \<Rightarrow> nat \<Rightarrow> nat \<Rightarrow> string \<Rightarrow> string \<Rightarrow> php" where
  "scopecache_delete M J inp i capq scope k = onGateway (\<lambda>s.
     case Gateway_Delete J inp i capq scope k 0 [] s of
       (Inl err, s1) \<Rightarrow> (errorEnvelope M (Failure err), s1)
     | (Inr n, s1) \<Rightarrow> (phpStringFromBytes (mustMarshal M (DeleteResponse (n > 0) n)), s1))"

definition scopecache_delete_by_seq :: "marshaller \<Rightarrow> jsonLib \<Rightarrow> inputs \<Rightarrow> nat \<Rightarrow> nat \<Rightarrow> string \<Rightarrow> int \<Rightarrow> php" where
  "scopecache_delete_by_seq M J inp i capq scope seq = onGateway (\<lambda>s.
     case Gateway_Delete J inp i capq scope [] (toUint64 seq) [] s of
       (Inl err, s1) \<Rightarrow> (errorEnvelope M (Failure err), s1)
     | (Inr n, s1) \<Rightarrow> (phpStringFromBytes (mustMarshal M (DeleteResponse (n > 0) n)), s1))"

definition scopecache_delete_up_to :: "marshaller \<Rightarrow> jsonLib \<Rightarrow> inputs \<Rightarrow> nat \<Rightarrow> string \<Rightarrow> int \<Rightarrow> php" where
  "scopecache_delete_up_to M J inp i scope maxSeq = onGateway (\<lambda>s.
     case Gateway_DeleteUpTo J inp i scope (toUint64 maxSeq) [] s of
       (Inl err, s1) \<Rightarrow> (errorEnvelope M (Failure err), s1)
     | (Inr n, s1) \<Rightarrow> (phpStringFromBytes (mustMarshal M (DeleteResponse (n > 0) n)), s1))"

definition scopecache_delete_scope :: "marshaller \<Rightarrow> jsonLib \<Rightarrow> inputs \<Rightarrow> nat \<Rightarrow> string \<Rightarrow> php" where
  "scopecache_delete_scope M J inp i scope = onGateway (\<lambda>s.
     case Gateway_DeleteScope J inp i scope s of
       (Inl err, s1) \<Rightarrow> (errorEnvelope M (Failure err), s1)
     | (Inr (n, hit), s1) \<Rightarrow> (phpStringFromBytes (mustMarshal M (DeleteScopeResponse hit n)), s1))"

definition scopecache_wipe :: "marshaller \<Rightarrow> int \<Rightarrow> int \<Rightarrow> php" where
  "scopecache_wipe M now now' = onGateway (\<lambda>s.
     case Gateway_Wipe now now' s of
       ((nScopes, nItems, freedBytes), s1) \<Rightarrow>
         (phpStringFromBytes (mustMarshal M (WipeResponse nScopes nItems freedBytes)), s1))"

section \<open>Observability\<close>

definition scopecache_stats :: "marshaller \<Rightarrow> php" where
  "scopecache_stats M = onGateway (\<lambda>s. (phpStringFromBytes (mustMarshal M (StatsResponse (Gateway_Stats s))), s))"

definition scopecache_scopelist :: "jsonLib \<Rightarrow> string \<Rightarrow> string \<Rightarrow> int \<Rightarrow> php" where
  "scopecache_scopelist J pfx after limit = onGateway (\<lambda>s.
     case Gateway_ScopeList pfx after limit s of
       (entries, truncated) \<Rightarrow> (phpStringFromBytes (AppendScopeListResponseJSON J [] entries truncated), s))"

section \<open>Bulk\<close>

text \<open>What \<^verbatim>\<open>frankenphp.GoMap\<close> makes of the nested PHP array.\<close>

datatype phpValue =
    PhpString string
  | PhpAssoc "(string \<times> phpValue) list"
  | PhpOther

datatype phpArrayError =
    NilArray
  | GoMapFailed string
  | NotAssociative string nat
  | MissingPayload string nat
  | PayloadNotString string nat

definition phpRow :: "string \<Rightarrow> nat \<Rightarrow> phpValue \<Rightarrow> phpArrayError + item" where
  "phpRow scope i v =
     (case v of
        PhpAssoc m \<Rightarrow>
          (case map_of m ''payload'' of
             None \<Rightarrow> Inl (MissingPayload scope i)
           | Some (PhpString payload) \<Rightarrow>
               Inr (phpItem scope (case map_of m ''id'' of Some (PhpString k) \<Rightarrow> k | _ \<Rightarrow> []) payload)
           | Some _ \<Rightarrow> Inl (PayloadNotString scope i))
      | _ \<Rightarrow> Inl (NotAssociative scope i))"

fun row_loop :: "string \<Rightarrow> nat \<Rightarrow> phpValue list \<Rightarrow> phpArrayError + item list" where
  "row_loop scope i [] = Inr []"
| "row_loop scope i (v # vs) =
     (case phpRow scope i v of
        Inl e \<Rightarrow> Inl e
      | Inr it \<Rightarrow> (case row_loop scope (Suc i) vs of Inl e \<Rightarrow> Inl e | Inr its \<Rightarrow> Inr (it # its)))"

fun scope_loop :: "(string \<times> phpValue list) list \<Rightarrow> phpArrayError + (string \<times> item list) list" where
  "scope_loop [] = Inr []"
| "scope_loop ((scope, vs) # rest) =
     (case row_loop scope 0 vs of
        Inl e \<Rightarrow> Inl e
      | Inr its \<Rightarrow> (case scope_loop rest of Inl e \<Rightarrow> Inl e | Inr out \<Rightarrow> Inr ((scope, its) # out)))"

text \<open>\<open>arr\<close> is nil, or the outcome of \<^verbatim>\<open>GoMap\<close>, in the order in which Go iterates over that map.\<close>

definition phpArrayToGroupedItems ::
    "(string + (string \<times> phpValue list) list) option \<Rightarrow> phpArrayError + (string \<times> item list) list" where
  "phpArrayToGroupedItems arr =
     (case arr of
        None \<Rightarrow> Inl NilArray
      | Some (Inl e) \<Rightarrow> Inl (GoMapFailed e)
      | Some (Inr m) \<Rightarrow> scope_loop m)"

text \<open>\<open>F\<close> formats the error of the conversion.\<close>

definition scopecache_warm ::
    "marshaller \<Rightarrow> (phpArrayError \<Rightarrow> string) \<Rightarrow> jsonLib \<Rightarrow> inputs \<Rightarrow> nat \<Rightarrow> bulkInputs \<Rightarrow>
     (string + (string \<times> phpValue list) list) option \<Rightarrow> php" where
  "scopecache_warm M F J inp i bi grouped = onGateway (\<lambda>s.
     case phpArrayToGroupedItems grouped of
       Inl e \<Rightarrow> (errorEnvelope M (Text (F e)), s)
     | Inr goGrouped \<Rightarrow>
         (case Gateway_Warm J inp i bi goGrouped s of
            (Inl err, s1) \<Rightarrow> (errorEnvelope M (Failure err), s1)
          | (Inr n, s1) \<Rightarrow> (phpStringFromBytes (mustMarshal M (WarmResponse n)), s1)))"

definition scopecache_rebuild ::
    "marshaller \<Rightarrow> (phpArrayError \<Rightarrow> string) \<Rightarrow> jsonLib \<Rightarrow> int \<Rightarrow> int \<Rightarrow> bulkInputs \<Rightarrow>
     (string + (string \<times> phpValue list) list) option \<Rightarrow> php" where
  "scopecache_rebuild M F J now now' bi grouped = onGateway (\<lambda>s.
     case phpArrayToGroupedItems grouped of
       Inl e \<Rightarrow> (errorEnvelope M (Text (F e)), s)
     | Inr goGrouped \<Rightarrow>
         (case Gateway_Rebuild J now now' bi goGrouped s of
            (Inl err, s1) \<Rightarrow> (errorEnvelope M (Failure err), s1)
          | (Inr (nScopes, nItems), s1) \<Rightarrow> (phpStringFromBytes (mustMarshal M (RebuildResponse nScopes nItems)), s1)))"

end
