(* ===== verification/Props_Php.thy ===== *)
theory Props_Php
  imports Props_Http Php
begin

text \<open>
  The PHP extension against the HTTP layer: the same calls of the store, and the same bytes up to the differences that are stated.
\<close>

section \<open>Clones on the wire\<close>

lemma clone_on_wire [simp]:
  "AppendItemJSON J b (cloneItemPayload it) = AppendItemJSON J b it"
  "appendEach (AppendItemJSON J) b i (cloneItemsPayloads its) = appendEach (AppendItemJSON J) b i its"
  "length (cloneItemsPayloads its) = length its"
proof -
  show e: "AppendItemJSON J b (cloneItemPayload it) = AppendItemJSON J b it" for b it
    unfolding AppendItemJSON_def cloneItem_fields ..
  show "appendEach (AppendItemJSON J) b i (cloneItemsPayloads its) = appendEach (AppendItemJSON J) b i its"
    unfolding cloneItems_map by (induction its arbitrary: b i) (simp_all add: e)
qed (simp add: cloneItems_map)

lemma clone_envelopes [simp]:
  "AppendGetResponseJSON J b (map_option cloneItemPayload itm) = AppendGetResponseJSON J b itm"
  "AppendHeadResponseJSON J b (cloneItemsPayloads its) tr = AppendHeadResponseJSON J b its tr"
  "AppendTailResponseJSON J b (cloneItemsPayloads its) tr off = AppendTailResponseJSON J b its tr off"
  by (cases itm) (simp_all add: AppendGetResponseJSON_def AppendHeadResponseJSON_def AppendTailResponseJSON_def appendItemsEnvelopeJSON_def)

lemma php_bytes [simp]: "phpStringFromBytes (b @ c # r) = Some (b @ c # r)"
  by (simp add: phpStringFromBytes_def)

lemma body_not_empty:
  "phpStringFromBytes (AppendGetResponseJSON J [] itm) = Some (AppendGetResponseJSON J [] itm)"
  "phpStringFromBytes (AppendHeadResponseJSON J [] its tr) = Some (AppendHeadResponseJSON J [] its tr)"
  "phpStringFromBytes (AppendTailResponseJSON J [] its tr off) = Some (AppendTailResponseJSON J [] its tr off)"
  "phpStringFromBytes (AppendScopeListResponseJSON J [] es tr) = Some (AppendScopeListResponseJSON J [] es tr)"
  by (simp_all add: phpStringFromBytes_def AppendGetResponseJSON_def AppendHeadResponseJSON_def AppendTailResponseJSON_def
      appendItemsEnvelopeJSON_def AppendScopeListResponseJSON_def appendSize_def Let_def)

lemma too_large_status [simp]: "status (responseTooLarge M w x y) \<noteq> 200"
  by (simp add: responseTooLarge_def writeJSONResponse_def split: option.split)

section \<open>Reads\<close>

text \<open>C14: A read from PHP is the read over HTTP. For the parameters a request decodes to, the extension calls the same read of the
  store and leaves the same state; its string is the body of the HTTP response, byte for byte, whenever that response is a 200: a
  single item (that has a payload, as every stored item does), a window, a page of scopes. Of a payload alone, PHP gets the body
  of \<^verbatim>\<open>/render\<close>, and null where that is empty or a 404. The response cap is enforced over HTTP only.\<close>

theorem php_reads_match:
  assumes get: "reqMethod g = ''GET''" "parseLookupTarget (reqQuery g) ep = Inr \<lparr>ltScope = n, ltID = k, ltSeq = toUint64 q, ltUUID = []\<rparr>"
      "ep = ''/get''" "(k = []) = (toUint64 q \<noteq> 0)"
    and ren: "reqMethod g' = ''GET''" "parseLookupTarget (reqQuery g') ep' = Inr \<lparr>ltScope = n, ltID = k, ltSeq = toUint64 q, ltUUID = []\<rparr>"
      "ep' = ''/render''"
    and win: "reqMethod w = ''GET''" "parseScopeLimit (reqQuery w) ''/head'' = Inr (n, l)" "\<not> queryHas (reqQuery w) ''offset''"
      "queryGet (reqQuery w) ''after_seq'' = appendUint (toUint64 a)"
    and tl: "reqMethod t = ''GET''" "parseScopeLimit (reqQuery t) ''/tail'' = Inr (n, l)" "queryGet (reqQuery t) ''offset'' = []"
    and li: "reqMethod y = ''GET''" "queryGet (reqQuery y) ''prefix'' = pfx" "queryGet (reqQuery y) ''after'' = after"
      "firstErr [if pfx \<noteq> [] then checkKeyField ''prefix'' pfx MaxScopeBytes else None,
         if after \<noteq> [] then checkKeyField ''after'' after MaxScopeBytes else None] = None"
      "normalizeLimit (queryGet (reqQuery y) ''limit'') = Inr l"
    and pl: "\<forall>x. fst (store_get now n k (toUint64 q) [] s) = Some x \<longrightarrow> Payload x \<noteq> []"
  shows "(case handleGet M J now g s of (p, s1) \<Rightarrow>
      (if k \<noteq> [] then scopecache_get J now n k (Some s) else scopecache_get_by_seq J now n q (Some s)) = (Some (respBody p), Some s1)) \<and>
    (case handleRender M now g' s of (p, s1) \<Rightarrow>
      (if k \<noteq> [] then scopecache_get_payload now n k (Some s) else scopecache_get_payload_by_seq now n q (Some s)) =
        (if status p = 200 \<and> respBody p \<noteq> [] then Some (respBody p) else None, Some s1)) \<and>
    (case handleHead M J now api w s of (p, s1) \<Rightarrow>
      (\<exists>b. scopecache_head J now n a l (Some s) = (Some b, Some s1) \<and> (status p = 200 \<longrightarrow> b = respBody p))) \<and>
    (case handleTail M J now api t s of (p, s1) \<Rightarrow>
      (\<exists>b. scopecache_tail J now n l (Some s) = (Some b, Some s1) \<and> (status p = 200 \<longrightarrow> b = respBody p))) \<and>
    (case handleScopeList M J api y s of (p, s1) \<Rightarrow>
      (\<exists>b. scopecache_scopelist J pfx after l (Some s) = (Some b, Some s1) \<and> (status p = 200 \<longrightarrow> b = respBody p)))"
    (is "?get \<and> ?render \<and> ?head \<and> ?tail \<and> ?list")
proof -
  have ?get
  proof (cases "k = []")
    case True
    obtain itm s1 where d: "store_get now n [] (toUint64 q) [] s = (itm, s1)" by fastforce
    then have "getBody J itm = AppendGetResponseJSON J [] itm" using pl True by (intro get_body_same) auto
    then show ?thesis using True get d
      by (simp add: handleGet_def scopecache_get_by_seq_def onGateway_def Gateway_GetBySeq_def writeGetResponse_def body_not_empty)
  next
    case False
    then have z: "toUint64 q = 0" using get(4) by auto
    obtain itm s1 where d: "store_get now n k 0 [] s = (itm, s1)" by fastforce
    then have "getBody J itm = AppendGetResponseJSON J [] itm" using pl z by (intro get_body_same) auto
    then show ?thesis using False get d z
      by (simp add: handleGet_def scopecache_get_def onGateway_def Gateway_GetByID_def writeGetResponse_def body_not_empty)
  qed
  moreover have ?render
    using ren get(4)
    by (auto simp: handleRender_def scopecache_get_payload_def scopecache_get_payload_by_seq_def onGateway_def Gateway_RenderByID_def
        Gateway_RenderBySeq_def phpStringFromBytes_def option.map_id0 split: prod.split option.split)
  moreover have ?head
  proof -
    have "(if queryGet (reqQuery w) ''after_seq'' \<noteq> [] then parseUint (queryGet (reqQuery w) ''after_seq'') else Some 0) = Some (toUint64 a)"
      unfolding win(4) by (simp add: parseUint_appendUint toUint64_def)
    then show ?thesis using win
      by (auto simp: handleHead_def scopecache_head_def onGateway_def Gateway_Head_def Let_def body_not_empty writeHeadResponse_def
          writeItemsResponse_def bodies_same split: prod.split option.split)
  qed
  moreover have ?tail
    using tl by (auto simp: handleTail_def scopecache_tail_def onGateway_def Gateway_Tail_def body_not_empty writeTailResponse_def
        writeItemsResponse_def bodies_same normalizeOffset_def Let_def split: prod.split option.split)
  moreover have ?list
    using li by (auto simp: handleScopeList_def scopecache_scopelist_def onGateway_def Gateway_ScopeList_def body_not_empty
        writeScopeListResponse_def bodies_same Let_def split: prod.split)
  ultimately show ?thesis by blast
qed

theorem php_reads_match_witness:
  "case handleGet sampleMarshal sampleJson 500 (sampleRequest ''GET'' [(''scope'', ''posts''), (''id'', ''a'')] ()) sampleStore of
     (p, s1) \<Rightarrow> scopecache_get sampleJson 500 ''posts'' ''a'' (Some sampleStore) = (Some (respBody p), Some s1)"
proof -
  let ?g = "sampleRequest ''GET'' [(''scope'', ''posts''), (''id'', ''a'')] ()"
  let ?w = "sampleRequest ''GET'' [(''scope'', ''posts''), (''limit'', ''10''), (''after_seq'', ''0'')] ()"
  have e: "reqMethod ?g = ''GET''" "reqMethod ?w = ''GET''" "queryGet (reqQuery ?w) ''offset'' = []" "\<not> queryHas (reqQuery ?w) ''offset''"
    "parseLookupTarget (reqQuery ?g) ''/get'' = Inr \<lparr>ltScope = ''posts'', ltID = ''a'', ltSeq = toUint64 0, ltUUID = []\<rparr>"
    "parseLookupTarget (reqQuery ?g) ''/render'' = Inr \<lparr>ltScope = ''posts'', ltID = ''a'', ltSeq = toUint64 0, ltUUID = []\<rparr>"
    "parseScopeLimit (reqQuery ?w) ''/head'' = Inr (''posts'', 10)" "parseScopeLimit (reqQuery ?w) ''/tail'' = Inr (''posts'', 10)"
    "queryGet (reqQuery ?w) ''after_seq'' = appendUint (toUint64 0)" "(''a'' = []) = (toUint64 0 \<noteq> 0)"
    "queryGet (reqQuery ?w) ''prefix'' = []" "queryGet (reqQuery ?w) ''after'' = []"
    "firstErr [if [] \<noteq> [] then checkKeyField ''prefix'' [] MaxScopeBytes else None,
       if [] \<noteq> [] then checkKeyField ''after'' [] MaxScopeBytes else None] = None"
    "normalizeLimit (queryGet (reqQuery ?w) ''limit'') = Inr 10"
    "map_option (\<lambda>x. Payload x \<noteq> []) (fst (store_get 500 ''posts'' ''a'' (toUint64 0) [] sampleStore)) = Some True"
    by code_simp+
  have p: "\<forall>x. fst (store_get 500 ''posts'' ''a'' (toUint64 0) [] sampleStore) = Some x \<longrightarrow> Payload x \<noteq> []" using e(15) by auto
  show ?thesis
    using php_reads_match [OF e(1,5) refl e(10) e(1,6) refl e(2,7,4,9) e(2,8,3) e(2,11,12,13,14) p, where M = sampleMarshal and J = sampleJson] by simp
qed

section \<open>Writes\<close>

text \<open>The same bytes but for the newline at the end of an HTTP body. On an exceeded cap HTTP answers with an envelope of its own.\<close>

fun capacityEnvelope :: "envelope \<Rightarrow> bool" where
  "capacityEnvelope (ScopeCapacityErrorResponse msg offs) = True"
| "capacityEnvelope (StoreCapacityErrorResponse storeBytes added cap) = True"
| "capacityEnvelope e = False"

definition php_like :: "marshaller \<Rightarrow> httpResponse \<Rightarrow> string option \<Rightarrow> bool" where
  "php_like M p out \<longleftrightarrow>
     (\<exists>e. out = phpStringFromBytes (the (M e)) \<and>
        (if status p = 507
         then (\<exists>err. e = ErrorResponse (Failure err)) \<and> (\<exists>e'. capacityEnvelope e' \<and> respBody p = the (M e') @ [CHR 0x0A])
         else respBody p = the (M e) @ [CHR 0x0A]))"

lemma written [simp]:
  assumes "\<forall>e. M e \<noteq> None"
  shows "respBody (writeJSONResponse M w c e) = the (M e) @ [CHR 0x0A]" "status (writeJSONResponse M w c e) = c"
    "errorEnvelope M m = phpStringFromBytes (the (M (ErrorResponse m)))" "mustMarshal M e = the (M e)"
    "writeEnvelope M e = phpStringFromBytes (the (M e))"
proof -
  have M: "\<exists>b. M e = Some b" for e using assms by simp
  from M [of e] M [of "ErrorResponse m"]
  show "respBody (writeJSONResponse M w c e) = the (M e) @ [CHR 0x0A]" "status (writeJSONResponse M w c e) = c"
    "errorEnvelope M m = phpStringFromBytes (the (M (ErrorResponse m)))" "mustMarshal M e = the (M e)"
    "writeEnvelope M e = phpStringFromBytes (the (M e))"
    by (auto simp: writeJSONResponse_def errorEnvelope_def mustMarshal_def writeEnvelope_def)
qed

lemma php_like_intros:
  assumes M: "\<forall>e. M e \<noteq> None"
  shows "php_like M (writeJSONResponse M w 200 e) (phpStringFromBytes (the (M e)))"
    "php_like M (writeMutationError M w err sc) (phpStringFromBytes (the (M (ErrorResponse (Failure err)))))"
    "php_like M (counterError M err sc) (phpStringFromBytes (the (M (ErrorResponse (Failure err)))))"
    "php_like M (deleteError M err) (phpStringFromBytes (the (M (ErrorResponse (Failure err)))))"
proof -
  have full: "php_like M p (phpStringFromBytes (the (M (ErrorResponse (Failure err)))))"
    if "status p = 507" "capacityEnvelope e" "respBody p = the (M e) @ [CHR 0x0A]" for p e err
    using that unfolding php_like_def by auto
  have same: "php_like M p (phpStringFromBytes (the (M e)))" if "status p \<noteq> 507" "respBody p = the (M e) @ [CHR 0x0A]" for p e
    using that unfolding php_like_def by auto
  note d = written [OF M] badRequest_def conflict_def writeStoreCapacityError_def scopeFull_def storeFull_def Let_def
  show "php_like M (writeJSONResponse M w 200 e) (phpStringFromBytes (the (M e)))" by (rule same) (simp_all add: d)
  have cap: "php_like M (writeJSONResponse M w 507 e) (phpStringFromBytes (the (M (ErrorResponse (Failure err)))))"
    if "capacityEnvelope e" for w e err by (rule full [OF _ that]) (simp_all add: d)
  have plain: "php_like M (writeJSONResponse M w c (ErrorResponse m)) (phpStringFromBytes (the (M (ErrorResponse m))))"
    if "c \<noteq> 507" for w c m by (rule same) (use that in \<open>simp_all add: d\<close>)
  show "php_like M (writeMutationError M w err sc) (phpStringFromBytes (the (M (ErrorResponse (Failure err)))))"
    by (cases err) (simp_all add: writeMutationError_def d cap plain)
  show "php_like M (counterError M err sc) (phpStringFromBytes (the (M (ErrorResponse (Failure err)))))"
    by (cases err) (simp_all add: counterError_def d cap plain)
  show "php_like M (deleteError M err) (phpStringFromBytes (the (M (ErrorResponse (Failure err)))))"
    by (cases err) (simp_all add: deleteError_def d plain)
qed

lemma phpItem_clone [simp]: "cloneItemPayload (phpItem n k p) = phpItem n k p" "Scope (phpItem n k p) = n"
  by (simp_all add: cloneItemPayload_def phpItem_def zeroItem_def)

lemma newWriteAck_clone [simp]: "newWriteAck (cloneItemPayload it) = newWriteAck it"
  by (simp add: newWriteAck_def)

lemma php_rows_clone:
  "row_loop scope i vs = Inr its \<Longrightarrow> map cloneItemPayload its = its"
  by (induction vs arbitrary: i its) (auto simp: phpRow_def split: sum.splits phpValue.splits option.splits)

lemma php_groups_clone: "scope_loop m = Inr g \<Longrightarrow> cloneGroupedItemPayloads g = g"
proof (induction m arbitrary: g)
  case (Cons x m)
  obtain scope vs where x: "x = (scope, vs)" by fastforce
  then obtain its out where d: "row_loop scope 0 vs = Inr its" "scope_loop m = Inr out" "g = (scope, its) # out"
    using Cons.prems by (auto split: sum.splits)
  show ?case using Cons.IH [OF d(2)] php_rows_clone [OF d(1)] d(3) by (simp add: cloneGroupedItemPayloads_def)
qed (simp add: cloneGroupedItemPayloads_def)

text \<open>C13: A write from PHP is the write over HTTP. For a request that decodes to what the PHP call is given, the extension makes the same
  call of the store, leaves the same state, and returns the body of the HTTP response without its final newline; only where HTTP answers
  507, with an envelope that lists the caps, does PHP get the plain error envelope instead. A batch agrees when the array converts to the
  grouping of the request's items, except that \<^verbatim>\<open>/rebuild\<close> refuses an empty one.\<close>

theorem php_writes_match:
  assumes M: "\<forall>e. M e \<noteq> None"
    and it: "reqMethod r = ''POST''" "decodeBody (apiMaxSingleBytes api) r = Inr (phpItem n k payload)"
    and cn: "reqMethod rc = ''POST''" "decodeBody (apiMaxSingleBytes api) rc = Inr \<lparr>carScope = n, carID = k, carBy = Some d\<rparr>"
    and del: "reqMethod rd = ''POST''"
      "decodeBody (apiMaxSingleBytes api) rd = Inr \<lparr>drScope = n, drID = k, drSeq = (if k = [] then toUint64 q else 0), drUUID = []\<rparr>"
    and up: "reqMethod ru = ''POST''" "decodeBody (apiMaxSingleBytes api) ru = Inr \<lparr>dutScope = n, dutMaxSeq = toUint64 q, dutUUID = []\<rparr>"
    and ds: "reqMethod rs = ''POST''" "decodeBody (apiMaxSingleBytes api) rs = Inr n"
    and wi: "reqMethod rw = ''POST''" and st: "reqMethod rq = ''GET''"
    and ba: "reqMethod rb = ''POST''" "decodeBody (apiMaxBulkBytes api) rb = Inr its" "its \<noteq> []"
      "phpArrayToGroupedItems arr = Inr (ord (groupItemsByScope its))"
  shows "(case handleAppend M J inp i api r s of (p, s1) \<Rightarrow>
      \<exists>out. scopecache_append M J inp i n k payload (Some s) = (out, Some s1) \<and> php_like M p out) \<and>
    (case handleUpsert M J inp i api r s of (p, s1) \<Rightarrow>
      \<exists>out. scopecache_upsert M J inp i n k payload (Some s) = (out, Some s1) \<and> php_like M p out) \<and>
    (case handleUpdate M J inp i api r s of (p, s1) \<Rightarrow>
      \<exists>out. scopecache_update M J inp i n k payload (Some s) = (out, Some s1) \<and> php_like M p out) \<and>
    (case handleCounterAdd M J inp i api rc s of (p, s1) \<Rightarrow>
      \<exists>out. scopecache_counter_add M J inp i n k d (Some s) = (out, Some s1) \<and> php_like M p out) \<and>
    (case handleDelete M J inp i capq api rd s of (p, s1) \<Rightarrow>
      \<exists>out. (if k \<noteq> [] then scopecache_delete M J inp i capq n k (Some s) else scopecache_delete_by_seq M J inp i capq n q (Some s)) =
        (out, Some s1) \<and> php_like M p out) \<and>
    (case handleDeleteUpTo M J inp i api ru s of (p, s1) \<Rightarrow>
      \<exists>out. scopecache_delete_up_to M J inp i n q (Some s) = (out, Some s1) \<and> php_like M p out) \<and>
    (case handleDeleteScope M J inp i api rs s of (p, s1) \<Rightarrow>
      \<exists>out. scopecache_delete_scope M J inp i n (Some s) = (out, Some s1) \<and> php_like M p out) \<and>
    (case handleWipe M now now' rw s of (p, s1) \<Rightarrow>
      \<exists>out. scopecache_wipe M now now' (Some s) = (out, Some s1) \<and> php_like M p out) \<and>
    (case handleStats M rq s of (p, s1) \<Rightarrow>
      \<exists>out. scopecache_stats M (Some s) = (out, Some s1) \<and> php_like M p out) \<and>
    (case handleWarm M J inp i bi ord api rb s of (p, s1) \<Rightarrow>
      \<exists>out. scopecache_warm M F J inp i bi arr (Some s) = (out, Some s1) \<and> php_like M p out) \<and>
    (case handleRebuild M J now now' bi ord api rb s of (p, s1) \<Rightarrow>
      \<exists>out. scopecache_rebuild M F J now now' bi arr (Some s) = (out, Some s1) \<and> php_like M p out)"
proof -
  note like = php_like_intros [OF M] written(3-5) [OF M]
  have g: "cloneGroupedItemPayloads (ord (groupItemsByScope its)) = ord (groupItemsByScope its)"
    using ba(4) by (auto simp: phpArrayToGroupedItems_def intro: php_groups_clone split: option.splits sum.splits)
  note d = onGateway_def like
  show ?thesis
  proof (intro conjI)
    show "case handleAppend M J inp i api r s of (p, s1) \<Rightarrow>
      \<exists>out. scopecache_append M J inp i n k payload (Some s) = (out, Some s1) \<and> php_like M p out"
      using it by (simp add: handleAppend_def scopecache_append_def Gateway_Append_def d split: prod.split sum.split)
    show "case handleUpsert M J inp i api r s of (p, s1) \<Rightarrow>
      \<exists>out. scopecache_upsert M J inp i n k payload (Some s) = (out, Some s1) \<and> php_like M p out"
      using it by (simp add: handleUpsert_def scopecache_upsert_def Gateway_Upsert_def d split: prod.split sum.split)
    show "case handleUpdate M J inp i api r s of (p, s1) \<Rightarrow>
      \<exists>out. scopecache_update M J inp i n k payload (Some s) = (out, Some s1) \<and> php_like M p out"
      using it by (simp add: handleUpdate_def scopecache_update_def Gateway_Update_def d split: prod.split sum.split)
    show "case handleCounterAdd M J inp i api rc s of (p, s1) \<Rightarrow>
      \<exists>out. scopecache_counter_add M J inp i n k d (Some s) = (out, Some s1) \<and> php_like M p out"
      using cn by (simp add: handleCounterAdd_def scopecache_counter_add_def Gateway_CounterAdd_def onGateway_def like split: prod.split sum.split)
    show "case handleDelete M J inp i capq api rd s of (p, s1) \<Rightarrow>
      \<exists>out. (if k \<noteq> [] then scopecache_delete M J inp i capq n k (Some s) else scopecache_delete_by_seq M J inp i capq n q (Some s)) =
        (out, Some s1) \<and> php_like M p out"
      using del by (cases "k = []") (simp_all add: handleDelete_def scopecache_delete_def scopecache_delete_by_seq_def Gateway_Delete_def d
        split: prod.split sum.split)
    show "case handleDeleteUpTo M J inp i api ru s of (p, s1) \<Rightarrow>
      \<exists>out. scopecache_delete_up_to M J inp i n q (Some s) = (out, Some s1) \<and> php_like M p out"
      using up by (simp add: handleDeleteUpTo_def scopecache_delete_up_to_def Gateway_DeleteUpTo_def d split: prod.split sum.split)
    show "case handleDeleteScope M J inp i api rs s of (p, s1) \<Rightarrow>
      \<exists>out. scopecache_delete_scope M J inp i n (Some s) = (out, Some s1) \<and> php_like M p out"
      using ds by (simp add: handleDeleteScope_def scopecache_delete_scope_def Gateway_DeleteScope_def d split: prod.split sum.split)
    show "case handleWipe M now now' rw s of (p, s1) \<Rightarrow>
      \<exists>out. scopecache_wipe M now now' (Some s) = (out, Some s1) \<and> php_like M p out"
      using wi by (simp add: handleWipe_def scopecache_wipe_def Gateway_Wipe_def d split: prod.split)
    show "case handleStats M rq s of (p, s1) \<Rightarrow> \<exists>out. scopecache_stats M (Some s) = (out, Some s1) \<and> php_like M p out"
      using st by (simp add: handleStats_def scopecache_stats_def Gateway_Stats_def d)
    show "case handleWarm M J inp i bi ord api rb s of (p, s1) \<Rightarrow>
      \<exists>out. scopecache_warm M F J inp i bi arr (Some s) = (out, Some s1) \<and> php_like M p out"
      using ba by (simp add: handleWarm_def scopecache_warm_def Gateway_Warm_def g d split: prod.split sum.split)
    show "case handleRebuild M J now now' bi ord api rb s of (p, s1) \<Rightarrow>
      \<exists>out. scopecache_rebuild M F J now now' bi arr (Some s) = (out, Some s1) \<and> php_like M p out"
      using ba by (simp add: handleRebuild_def scopecache_rebuild_def Gateway_Rebuild_def g d split: prod.split sum.split)
  qed
qed

theorem php_writes_match_witness:
  "case handleAppend sampleMarshal sampleJson sampleInp 20 (NewAPI sampleStore)
      (sampleRequest ''POST'' [] (phpItem ''posts'' ''b'' ''[2]'')) sampleStore of
     (p, s1) \<Rightarrow> status p = 200 \<and>
       (\<exists>out. scopecache_append sampleMarshal sampleJson sampleInp 20 ''posts'' ''b'' ''[2]'' (Some sampleStore) = (out, Some s1) \<and>
          php_like sampleMarshal p out)"
proof -
  let ?api = "NewAPI sampleStore"
  let ?its = "[phpItem ''batch'' [] ''1'']"
  let ?arr = "Some (Inr [(''batch'', [PhpAssoc [(''payload'', PhpString ''1'')]])])"
  let ?r = "\<lambda>v. sampleRequest ''POST'' [] v"
  have m: "reqMethod (?r v) = ''POST''" "reqMethod (sampleRequest ''GET'' [] v) = ''GET''" for v :: 'x by (simp_all add: sampleRequest_def)
  have e: "decodeBody cap (?r v) = Inr v" for cap and v :: 'y by (simp add: decodeBody_def sampleRequest_def)
  have a: "phpArrayToGroupedItems ?arr = Inr ((\<lambda>g. g) (groupItemsByScope ?its))"
    by (simp add: phpArrayToGroupedItems_def phpRow_def groupItemsByScope_def)
  have st: "status (fst (handleAppend sampleMarshal sampleJson sampleInp 20 ?api (?r (phpItem ''posts'' ''b'' ''[2]'')) sampleStore)) = 200"
    by code_simp
  have dl: "decodeBody (apiMaxSingleBytes ?api) (?r \<lparr>drScope = ''posts'', drID = ''b'', drSeq = 0, drUUID = []\<rparr>) =
      Inr \<lparr>drScope = ''posts'', drID = ''b'', drSeq = (if ''b'' = [] then toUint64 1 else 0), drUUID = []\<rparr>" using e by simp
  have "case handleAppend sampleMarshal sampleJson sampleInp 20 ?api (?r (phpItem ''posts'' ''b'' ''[2]'')) sampleStore of
      (p, s1) \<Rightarrow> \<exists>out. scopecache_append sampleMarshal sampleJson sampleInp 20 ''posts'' ''b'' ''[2]'' (Some sampleStore) = (out, Some s1) \<and>
        php_like sampleMarshal p out"
    by (rule php_writes_match [where ord = "\<lambda>g. g" and arr = ?arr and its = ?its and q = 1 and d = 1 and
        rc = "?r \<lparr>carScope = ''posts'', carID = ''b'', carBy = Some 1\<rparr>" and
        rd = "?r \<lparr>drScope = ''posts'', drID = ''b'', drSeq = 0, drUUID = []\<rparr>" and
        ru = "?r \<lparr>dutScope = ''posts'', dutMaxSeq = toUint64 1, dutUUID = []\<rparr>" and rs = "?r ''posts''" and rw = "?r ()" and
        rq = "sampleRequest ''GET'' [] ()" and rb = "?r ?its", OF sample_marshal m(1) e m(1) e m(1) dl m(1) e m(1) e m(1) m(2) m(1) e _ a,
        THEN conjunct1]) simp
  then show ?thesis using st by auto
qed
end
