(* ===== verification/Json_Laws.thy ===== *)
theory Json_Laws
  imports GoLib
begin

text \<open>
  How the scanner of \<^verbatim>\<open>encoding/json\<close> (theory \<open>GoLib\<close>) composes: a value it accepts on its own is accepted inside any
  enclosing arrays and objects, as long as the nesting stays under the limit of the library, and an object or array of
  such values is a value again. The builders of the cache splice stored bytes into envelopes, so that is what makes
  their output valid.
\<close>

section \<open>A value in a context\<close>

text \<open>The largest number of containers that are open at once.\<close>

fun scan_depth :: "jstate \<Rightarrow> pstate list \<Rightarrow> string \<Rightarrow> nat" where
  "scan_depth st ps [] = length ps"
| "scan_depth st ps (c # cs) =
     (case scan_step st ps c of
        None \<Rightarrow> length ps
      | Some (st', ps') \<Rightarrow> max (length ps) (scan_depth st' ps' cs))"

definition json_depth :: "string \<Rightarrow> nat" where
  "json_depth s = scan_depth BeginValue [] s"

text \<open>
  A value of depth at most \<open>d\<close>: whatever is open around it, the scanner arrives behind it in the state that follows a
  value. The byte after it decides where a number ends.
\<close>

definition is_value :: "nat \<Rightarrow> string \<Rightarrow> bool" where
  "is_value d v \<longleftrightarrow>
     (\<forall>ctx c rest. ctx \<noteq> [] \<longrightarrow> length ctx + d \<le> maxNestingDepth \<longrightarrow> c \<in> {CHR '','', CHR '']'', CHR ''}''} \<longrightarrow>
        scan_all BeginValue ctx (v @ c # rest) = scan_all EndValue ctx (c # rest))"

lemma is_value_mono: "is_value d v \<Longrightarrow> d \<le> d' \<Longrightarrow> is_value d' v"
  by (simp add: is_value_def)

text \<open>At the top level the end of a value is a state of its own.\<close>

definition lift_state :: "jstate \<Rightarrow> jstate" where
  "lift_state st = (if st = EndTop then EndValue else st)"

definition state_ok :: "jstate \<Rightarrow> pstate list \<Rightarrow> bool" where
  "state_ok st ps \<longleftrightarrow> (st = EndTop \<longrightarrow> ps = []) \<and> (st = BeginStringOrEmpty \<or> st = BeginValueOrEmpty \<longrightarrow> ps \<noteq> [])"

lemma EndValue_embed:
  assumes "step_EndValue ps c = Some (st', ps')" "ctx \<noteq> []"
  shows "step_EndValue (ps @ ctx) c = Some (lift_state st', ps' @ ctx)" and "state_ok st' ps'"
  using assms
  by (auto simp: step_EndValue_def lift_state_def state_ok_def pop_state_def neq_Nil_conv split: list.splits if_splits pstate.splits)

lemma BeginValue_embed:
  assumes "step_BeginValue ps c = Some (st', ps')" "length ps' + length ctx \<le> maxNestingDepth"
  shows "step_BeginValue (ps @ ctx) c = Some (lift_state st', ps' @ ctx)" and "state_ok st' ps'"
  using assms by (auto simp: step_BeginValue_def lift_state_def state_ok_def push_state_def split: if_splits)

lemma Num0_embed:
  assumes "step_Num0 ps c = Some (st', ps')" "ctx \<noteq> []"
  shows "step_Num0 (ps @ ctx) c = Some (lift_state st', ps' @ ctx)" and "state_ok st' ps'"
  using assms EndValue_embed [of ps c st' ps' ctx]
  by (auto simp: step_Num0_def lift_state_def state_ok_def split: if_splits)

lemma step_embed:
  assumes s: "scan_step st ps c = Some (st', ps')" and ok: "state_ok st ps" and ctx: "ctx \<noteq> []"
    and d: "length ps' + length ctx \<le> maxNestingDepth"
  shows "scan_step (lift_state st) (ps @ ctx) c = Some (lift_state st', ps' @ ctx) \<and> state_ok st' ps'"
proof -
  note e = EndValue_embed [OF _ ctx] BeginValue_embed [OF _ d] Num0_embed [OF _ ctx]
  have top: "step_EndValue ctx c = Some (EndValue, ctx)" if "json_ws c"
    using that ctx by (auto simp: step_EndValue_def split: list.splits)
  show ?thesis
  proof (cases st)
    case EndTop
    then show ?thesis using s ok top by (auto simp: lift_state_def state_ok_def split: if_splits)
  next
    case BeginStringOrEmpty
    have "step_EndValue (ParseObjectValue # tl (ps @ ctx)) c = Some (lift_state st', ps' @ ctx) \<and> state_ok st' ps'"
      if "step_EndValue (ParseObjectValue # tl ps) c = Some (st', ps')"
      using e(1,2) [OF that] ok BeginStringOrEmpty by (auto simp: state_ok_def neq_Nil_conv)
    then show ?thesis using s ok BeginStringOrEmpty
      by (auto simp: lift_state_def state_ok_def step_BeginString_def split: if_splits)
  qed (use s ok e in \<open>auto simp: lift_state_def state_ok_def step_BeginString_def step_ESign_def split: if_splits list.splits\<close>)
qed

lemma scan_depth_ge: "length ps \<le> scan_depth st ps s"
  by (cases s) (auto split: option.split prod.split)

lemma scan_embed:
  assumes "scan_all st ps s = Some (st', ps')" "state_ok st ps" "ctx \<noteq> []" "scan_depth st ps s + length ctx \<le> maxNestingDepth"
  shows "scan_all (lift_state st) (ps @ ctx) s = Some (lift_state st', ps' @ ctx) \<and> state_ok st' ps'"
  using assms
proof (induction s arbitrary: st ps)
  case (Cons c s)
  then obtain t qs where t: "scan_step st ps c = Some (t, qs)" "scan_all t qs s = Some (st', ps')"
    by (auto split: option.splits prod.splits)
  have d: "scan_depth t qs s + length ctx \<le> maxNestingDepth" using Cons.prems(4) t(1) by simp
  moreover have "length qs + length ctx \<le> maxNestingDepth" using scan_depth_ge [of qs t s] d by linarith
  ultimately show ?case
    using step_embed [OF t(1) Cons.prems(2,3)] Cons.IH [OF t(2) _ Cons.prems(3)] by simp
qed simp

text \<open>The states in which a value may end, and the byte that follows it.\<close>

lemma value_ends:
  assumes "st = EndTop \<or> (case scan_step st ps (CHR '' '') of Some (EndTop, _) \<Rightarrow> True | _ \<Rightarrow> False)" "state_ok st ps"
    "c \<in> {CHR '','', CHR '']'', CHR ''}''}"
  shows "ps = []" and "scan_step (lift_state st) ctx c = scan_step EndValue ctx c"
proof -
  have ws: "json_ws (CHR '' '')" "\<not> is_digit (CHR '' '')" "\<not> is_hex (CHR '' '')" by (simp_all add: json_ws_def is_digit_def is_hex_def)
  have c: "\<not> is_digit c" "c \<noteq> CHR ''.''" "c \<noteq> CHR ''e''" "c \<noteq> CHR ''E''" using assms(3) by (auto simp: is_digit_def)
  have e: "step_EndValue ps (CHR '' '') = (if ps = [] then Some (EndTop, []) else Some (EndValue, ps))"
    using ws by (auto simp: step_EndValue_def split: list.split)
  show "ps = []" and "scan_step (lift_state st) ctx c = scan_step EndValue ctx c"
    using assms(1,2) c ws e
    by (cases st; auto simp: lift_state_def state_ok_def step_BeginValue_def step_BeginString_def step_Num0_def step_ESign_def
        split: if_splits list.splits)+
qed

lemma valid_is_value:
  assumes v: "json_valid v" and d: "json_depth v \<le> d"
  shows "is_value d v"
  unfolding is_value_def
proof (intro allI impI)
  fix ctx :: "pstate list" and c rest
  assume ctx: "ctx \<noteq> []" and room: "length ctx + d \<le> maxNestingDepth" and c: "c \<in> {CHR '','', CHR '']'', CHR ''}''}"
  obtain st ps where s: "scan_all BeginValue [] v = Some (st, ps)"
    and e: "st = EndTop \<or> (case scan_step st ps (CHR '' '') of Some (EndTop, _) \<Rightarrow> True | _ \<Rightarrow> False)"
    using v by (auto simp: json_valid_def split: option.splits prod.splits)
  have "scan_all (lift_state BeginValue) ([] @ ctx) v = Some (lift_state st, ps @ ctx) \<and> state_ok st ps"
    by (rule scan_embed [OF s _ ctx]) (use d room in \<open>simp_all add: state_ok_def json_depth_def\<close>)
  moreover from this have "ps = []" "scan_step (lift_state st) ctx c = scan_step EndValue ctx c"
    using value_ends [OF e _ c] by auto
  ultimately show "scan_all BeginValue ctx (v @ c # rest) = scan_all EndValue ctx (c # rest)"
    by (simp add: scan_all_append lift_state_def)
qed

section \<open>Numbers, strings and literals\<close>

lemma after_value:
  assumes "c \<in> {CHR '','', CHR '']'', CHR ''}''}"
  shows "\<not> is_digit c" "c \<noteq> CHR ''.''" "c \<noteq> CHR ''e''" "c \<noteq> CHR ''E''"
  using assms by (auto simp: is_digit_def)

lemma ends_number:
  assumes "c \<in> {CHR '','', CHR '']'', CHR ''}''}" "st \<in> {Num0, Num1, NumDot0, NumE0}"
  shows "scan_step st ctx c = scan_step EndValue ctx c"
  using assms after_value [OF assms(1)] by (auto simp: step_Num0_def)

lemma scan_digits:
  "(\<And>c. c \<in> set s \<Longrightarrow> is_digit c) \<Longrightarrow> scan_all Num1 ctx s = Some (Num1, ctx)"
  "(\<And>c. c \<in> set s \<Longrightarrow> is_digit c) \<Longrightarrow> scan_all NumDot0 ctx s = Some (NumDot0, ctx)"
  by (induction s) auto

text \<open>A decimal number starts with a zero only when it is zero.\<close>

lemma appendUint_head: "0 < n \<Longrightarrow> hd (appendUint n) \<noteq> CHR ''0''"
proof (induction n rule: appendUint.induct)
  case (1 n)
  show ?case
  proof (cases "n < 10")
    case True
    then have "byte (char_of (48 + n) :: char) = 48 + n" by simp
    moreover have "byte (CHR ''0'') = (48 :: nat)" by simp
    ultimately have "char_of (48 + n) \<noteq> CHR ''0''" using "1.prems" by (metis add.right_neutral add_left_cancel less_irrefl)
    then show ?thesis using True by (subst appendUint.simps) simp
  next
    case False
    then have "hd (appendUint (n div 10)) \<noteq> CHR ''0''" using "1.IH" by auto
    then show ?thesis using False by (subst appendUint.simps) (simp add: hd_append)
  qed
qed

lemma begin_number:
  assumes "appendUint n = c # cs"
  shows "\<exists>st \<in> {Num0, Num1}. step_BeginValue ctx c = Some (st, ctx) \<and> scan_step NumNeg ctx c = Some (st, ctx) \<and>
    (\<forall>rest. scan_all st ctx (cs @ rest) = scan_all st ctx rest)"
proof -
  have d: "is_digit c" "\<And>x. x \<in> set cs \<Longrightarrow> is_digit x" using appendUint_digits [of _ n] assms by auto
  then have nc: "\<not> json_ws c" "c \<notin> {CHR ''{'', CHR ''['', CHR 0x22, CHR ''-'', CHR ''t'', CHR ''f'', CHR ''n''}" by (auto simp: is_digit_def)
  show ?thesis
  proof (cases "n = 0")
    case True
    have "char_of (48 :: nat) = CHR ''0''" by (rule of_char_eqI [where ?'a = nat]) simp
    then have "c = CHR ''0''" "cs = []" using True assms by (simp_all add: appendUint.simps)
    then show ?thesis using nc by (intro bexI [of _ Num0]) (auto simp: step_BeginValue_def)
  next
    case False
    then have "c \<noteq> CHR ''0''" using appendUint_head [of n] assms by simp
    then show ?thesis using nc d scan_digits(1) [OF d(2)]
      by (intro bexI [of _ Num1]) (auto simp: step_BeginValue_def scan_all_append)
  qed
qed

lemma value_uint [simp]: "is_value 0 (appendUint n)"
  unfolding is_value_def
proof (intro allI impI)
  fix ctx :: "pstate list" and c rest
  assume c: "c \<in> {CHR '','', CHR '']'', CHR ''}''}"
  obtain x xs where x: "appendUint n = x # xs" by (cases "appendUint n") auto
  from begin_number [OF x, of ctx] obtain st where st: "st \<in> {Num0, Num1}" "step_BeginValue ctx x = Some (st, ctx)"
    "\<forall>rest. scan_all st ctx (xs @ rest) = scan_all st ctx rest" by blast
  then show "scan_all BeginValue ctx (appendUint n @ c # rest) = scan_all EndValue ctx (c # rest)"
    using ends_number [OF c, of st ctx] by (auto simp: x)
qed

lemma value_int [simp]: "is_value 0 (appendInt v)"
proof (cases "v < 0")
  case True
  show ?thesis unfolding is_value_def
  proof (intro allI impI)
    fix ctx :: "pstate list" and c rest
    assume c: "c \<in> {CHR '','', CHR '']'', CHR ''}''}"
    obtain x xs where x: "appendUint (nat (- v)) = x # xs" by (cases "appendUint (nat (- v))") auto
    from begin_number [OF x, of ctx] obtain st where st: "st \<in> {Num0, Num1}" "scan_step NumNeg ctx x = Some (st, ctx)"
      "\<forall>rest. scan_all st ctx (xs @ rest) = scan_all st ctx rest" by blast
    have e: "scan_step st ctx c = scan_step EndValue ctx c" using ends_number [OF c] st(1) by blast
    have "scan_all NumNeg ctx (x # xs @ c # rest) = scan_all st ctx (c # rest)" using st(2,3) by simp
    also have "\<dots> = scan_all EndValue ctx (c # rest)" by (simp only: scan_all.simps e)
    finally have "scan_all NumNeg ctx (x # xs @ c # rest) = scan_all EndValue ctx (c # rest)" .
    then show "scan_all BeginValue ctx (appendInt v @ c # rest) = scan_all EndValue ctx (c # rest)"
      using True x by (simp add: appendInt_def step_BeginValue_def json_ws_def del: scan_step.simps(10))
  qed
qed (simp add: appendInt_def)

text \<open>Bytes that stand for themselves inside a string.\<close>

definition plain_char :: "char \<Rightarrow> bool" where
  "plain_char c \<longleftrightarrow> 0x20 \<le> byte c \<and> c \<noteq> CHR 0x22 \<and> c \<noteq> CHR 0x5C"

lemma scan_plain_chars: "list_all plain_char s \<Longrightarrow> scan_all InString ctx (s @ rest) = scan_all InString ctx rest"
  by (induction s) (auto simp: plain_char_def not_less)

text \<open>A string literal: its body leads the scanner from inside a string back to inside the string.\<close>

definition json_string :: "string \<Rightarrow> bool" where
  "json_string t \<longleftrightarrow> 2 \<le> length t \<and> hd t = CHR 0x22 \<and> last t = CHR 0x22 \<and>
     scan_all InString [] (butlast (tl t)) = Some (InString, [])"

lemma in_string_ctx:
  assumes "scan_all st [] s = Some (InString, [])" "st = InString \<or> st = InStringEsc \<or> (\<exists>k. st = InStringEscU k)"
  shows "scan_all st ctx s = Some (InString, ctx)"
  using assms
proof (induction s arbitrary: st)
  case (Cons c s)
  have stop: "scan_all EndValue [] s \<noteq> Some (InString, [])" for s
  proof -
    have "scan_all EndTop [] s \<noteq> Some (InString, [])" by (induction s) (auto split: option.splits)
    then show ?thesis by (cases s) (auto simp: step_EndValue_def split: option.splits)
  qed
  then show ?case using Cons.prems Cons.IH by (fastforce split: option.splits if_splits)
qed auto

lemma value_string:
  assumes "json_string t" shows "is_value 0 t"
proof -
  obtain body where t: "t = CHR 0x22 # body @ [CHR 0x22]" and b: "scan_all InString [] body = Some (InString, [])"
  proof
    show "t = CHR 0x22 # butlast (tl t) @ [CHR 0x22]"
      using assms by (cases t) (auto simp: json_string_def Suc_le_eq, metis append_butlast_last_id)
    show "scan_all InString [] (butlast (tl t)) = Some (InString, [])" using assms by (simp add: json_string_def)
  qed
  show ?thesis unfolding is_value_def
  proof (intro allI impI)
    fix ctx :: "pstate list" and c rest
    show "scan_all BeginValue ctx (t @ c # rest) = scan_all EndValue ctx (c # rest)"
      using in_string_ctx [OF b] by (simp add: t step_BeginValue_def json_ws_def scan_all_append)
  qed
qed

lemma json_string_plain: "list_all plain_char s \<Longrightarrow> json_string (CHR 0x22 # s @ [CHR 0x22])"
  using scan_plain_chars [of s "[]" "[]"] by (simp add: json_string_def)

lemma value_plain [simp]: "list_all plain_char s \<Longrightarrow> is_value 0 (CHR 0x22 # s @ [CHR 0x22])"
  by (rule value_string) (rule json_string_plain)

lemma value_literals [simp]: "is_value 0 ''null''" "is_value 0 ''true''" "is_value 0 ''false''"
  by (simp_all add: is_value_def step_BeginValue_def json_ws_def is_digit_def)

section \<open>Objects and arrays\<close>

text \<open>The text of an object with the given members, and of an array with the given elements.\<close>

fun joined :: "string list \<Rightarrow> string" where
  "joined [] = []"
| "joined [v] = v"
| "joined (v # w # vs) = v @ CHR '','' # joined (w # vs)"

definition member_text :: "string \<times> string \<Rightarrow> string" where
  "member_text kv = CHR 0x22 # fst kv @ CHR 0x22 # CHR '':'' # snd kv"

definition jsonObject :: "(string \<times> string) list \<Rightarrow> string" where
  "jsonObject kvs = CHR ''{'' # joined (map member_text kvs) @ [CHR ''}'']"

definition jsonArray :: "string list \<Rightarrow> string" where
  "jsonArray vs = CHR ''['' # joined vs @ [CHR '']'']"

text \<open>Where the scanner is behind a closing bracket.\<close>

definition closed :: "pstate list \<Rightarrow> jstate" where
  "closed ctx = (if ctx = [] then EndTop else EndValue)"

lemma pop_closed: "pop_state (p # ctx) = (closed ctx, ctx)"
  by (auto simp: pop_state_def closed_def)

lemma member_scan:
  assumes "list_all plain_char (fst kv)" "is_value d (snd kv)" "Suc (length ctx) + d \<le> maxNestingDepth"
    "c \<in> {CHR '','', CHR ''}''}" "st = BeginString \<or> st = BeginStringOrEmpty"
  shows "scan_all st (ParseObjectKey # ctx) (member_text kv @ c # rest) = scan_all EndValue (ParseObjectValue # ctx) (c # rest)"
proof -
  have "scan_all BeginValue (ParseObjectValue # ctx) (snd kv @ c # rest) = scan_all EndValue (ParseObjectValue # ctx) (c # rest)"
    using assms(2-4) by (auto simp: is_value_def)
  then have v: "scan_all EndValue (ParseObjectKey # ctx) (CHR '':'' # snd kv @ c # rest) = scan_all EndValue (ParseObjectValue # ctx) (c # rest)"
    by (simp add: step_EndValue_def json_ws_def)
  have k: "scan_all InString (ParseObjectKey # ctx) (fst kv @ CHR 0x22 # CHR '':'' # snd kv @ c # rest) =
      scan_all EndValue (ParseObjectKey # ctx) (CHR '':'' # snd kv @ c # rest)"
    using scan_plain_chars [OF assms(1), of "ParseObjectKey # ctx"] by simp
  have "scan_step st (ParseObjectKey # ctx) (CHR 0x22) = Some (InString, ParseObjectKey # ctx)"
    using assms(5) by (auto simp: step_BeginString_def json_ws_def)
  then have "scan_all st (ParseObjectKey # ctx) (member_text kv @ c # rest) =
      scan_all InString (ParseObjectKey # ctx) (fst kv @ CHR 0x22 # CHR '':'' # snd kv @ c # rest)"
    by (simp add: member_text_def)
  then show ?thesis by (simp only: k v)
qed

lemma members_scan:
  assumes "\<forall>kv \<in> set (kv # kvs). list_all plain_char (fst kv) \<and> is_value d (snd kv)" "Suc (length ctx) + d \<le> maxNestingDepth"
    "st = BeginString \<or> st = BeginStringOrEmpty"
  shows "scan_all st (ParseObjectKey # ctx) (joined (map member_text (kv # kvs)) @ CHR ''}'' # rest) = scan_all (closed ctx) ctx rest"
  using assms
proof (induction kvs arbitrary: kv st)
  case Nil
  have "scan_all st (ParseObjectKey # ctx) (member_text kv @ CHR ''}'' # rest) =
      scan_all EndValue (ParseObjectValue # ctx) (CHR ''}'' # rest)"
    by (rule member_scan) (use Nil in auto)
  then show ?case by (simp add: step_EndValue_def json_ws_def pop_closed)
next
  case (Cons kw kvs)
  have "scan_all st (ParseObjectKey # ctx) (member_text kv @ CHR '','' # joined (map member_text (kw # kvs)) @ CHR ''}'' # rest) =
      scan_all EndValue (ParseObjectValue # ctx) (CHR '','' # joined (map member_text (kw # kvs)) @ CHR ''}'' # rest)"
    by (rule member_scan) (use Cons.prems in auto)
  also have "\<dots> = scan_all BeginString (ParseObjectKey # ctx) (joined (map member_text (kw # kvs)) @ CHR ''}'' # rest)"
    by (simp add: step_EndValue_def json_ws_def)
  also have "\<dots> = scan_all (closed ctx) ctx rest" by (rule Cons.IH) (use Cons.prems in auto)
  finally show ?case by simp
qed

lemma object_scan:
  assumes "\<forall>kv \<in> set kvs. list_all plain_char (fst kv) \<and> is_value d (snd kv)" "Suc (length ctx) + d \<le> maxNestingDepth"
  shows "scan_all BeginValue ctx (jsonObject kvs @ rest) = scan_all (closed ctx) ctx rest"
proof -
  have "scan_all BeginValue ctx (CHR ''{'' # t) = scan_all BeginStringOrEmpty (ParseObjectKey # ctx) t" for t
    using assms(2) by (simp add: step_BeginValue_def json_ws_def push_state_def)
  then have b: "scan_all BeginValue ctx (jsonObject kvs @ rest) =
      scan_all BeginStringOrEmpty (ParseObjectKey # ctx) (joined (map member_text kvs) @ CHR ''}'' # rest)"
    by (simp add: jsonObject_def)
  show ?thesis
  proof (cases kvs)
    case Nil
    then show ?thesis unfolding b by (simp add: json_ws_def step_EndValue_def pop_closed)
  next
    case (Cons kv kws)
    show ?thesis unfolding b unfolding Cons by (rule members_scan) (use assms Cons in auto)
  qed
qed

lemma elements_scan:
  assumes "\<forall>w \<in> set (v # vs). is_value d w" "Suc (length ctx) + d \<le> maxNestingDepth"
  shows "scan_all BeginValue (ParseArrayValue # ctx) (joined (v # vs) @ CHR '']'' # rest) = scan_all (closed ctx) ctx rest"
  using assms
proof (induction vs arbitrary: v)
  case Nil
  have "scan_all BeginValue (ParseArrayValue # ctx) (v @ CHR '']'' # rest) = scan_all EndValue (ParseArrayValue # ctx) (CHR '']'' # rest)"
    using Nil by (auto simp: is_value_def)
  then show ?case by (simp add: step_EndValue_def json_ws_def pop_closed)
next
  case (Cons w vs)
  have "scan_all BeginValue (ParseArrayValue # ctx) (v @ CHR '','' # joined (w # vs) @ CHR '']'' # rest) =
      scan_all EndValue (ParseArrayValue # ctx) (CHR '','' # joined (w # vs) @ CHR '']'' # rest)"
    using Cons.prems by (auto simp: is_value_def)
  also have "\<dots> = scan_all BeginValue (ParseArrayValue # ctx) (joined (w # vs) @ CHR '']'' # rest)"
    by (simp add: step_EndValue_def json_ws_def)
  also have "\<dots> = scan_all (closed ctx) ctx rest" by (rule Cons.IH) (use Cons.prems in auto)
  finally show ?case by simp
qed

lemma array_scan:
  assumes "\<forall>v \<in> set vs. is_value d v \<and> (\<exists>t. v = CHR ''{'' # t)" "Suc (length ctx) + d \<le> maxNestingDepth"
  shows "scan_all BeginValue ctx (jsonArray vs @ rest) = scan_all (closed ctx) ctx rest"
proof -
  have b: "scan_all BeginValue ctx (jsonArray vs @ rest) = scan_all BeginValueOrEmpty (ParseArrayValue # ctx) (joined vs @ CHR '']'' # rest)"
    using assms(2) by (simp add: jsonArray_def step_BeginValue_def json_ws_def push_state_def)
  show ?thesis
  proof (cases vs)
    case Nil
    then show ?thesis unfolding b by (simp add: json_ws_def step_EndValue_def pop_closed)
  next
    case (Cons v ws)
    then obtain t where "joined vs @ CHR '']'' # rest = CHR ''{'' # t" using assms(1) by (cases ws) auto
    then have "scan_all BeginValueOrEmpty (ParseArrayValue # ctx) (joined vs @ CHR '']'' # rest) =
        scan_all BeginValue (ParseArrayValue # ctx) (joined vs @ CHR '']'' # rest)"
      by (simp add: json_ws_def)
    also have "\<dots> = scan_all (closed ctx) ctx rest" unfolding Cons by (rule elements_scan) (use assms Cons in auto)
    finally show ?thesis unfolding b .
  qed
qed

lemma value_object:
  assumes "\<forall>kv \<in> set kvs. list_all plain_char (fst kv) \<and> is_value d (snd kv)"
  shows "is_value (Suc d) (jsonObject kvs)"
  using object_scan [OF assms] by (auto simp: is_value_def closed_def)

lemma value_array:
  assumes "\<forall>v \<in> set vs. is_value d v \<and> (\<exists>t. v = CHR ''{'' # t)"
  shows "is_value (Suc d) (jsonArray vs)"
  using array_scan [OF assms] by (auto simp: is_value_def closed_def)

lemma object_opens [simp]: "\<exists>t. jsonObject kvs = CHR ''{'' # t"
  by (simp add: jsonObject_def)

text \<open>An object is a text of its own, with or without a newline behind it.\<close>

lemma valid_object:
  assumes "\<forall>kv \<in> set kvs. list_all plain_char (fst kv) \<and> is_value d (snd kv)" "d < maxNestingDepth" "\<forall>c \<in> set ws. json_ws c"
  shows "json_valid (jsonObject kvs @ ws)"
proof -
  have "scan_all EndTop [] ws = Some (EndTop, [])" using assms(3) by (induction ws) auto
  then show ?thesis using object_scan [OF assms(1), of "[]" ws] assms(2) by (simp add: json_valid_def closed_def)
qed

section \<open>Texts that nest too deep\<close>

lemma scan_opening:
  assumes "length ctx + n \<le> maxNestingDepth"
  shows "scan_all BeginValueOrEmpty ctx (replicate n (CHR ''['') @ rest) = scan_all BeginValueOrEmpty (replicate n ParseArrayValue @ ctx) rest"
  using assms
proof (induction n arbitrary: ctx)
  case (Suc n)
  have "scan_all BeginValueOrEmpty ctx (replicate (Suc n) (CHR ''['') @ rest) =
      scan_all BeginValueOrEmpty (ParseArrayValue # ctx) (replicate n (CHR ''['') @ rest)"
    using Suc.prems by (simp add: json_ws_def step_BeginValue_def push_state_def)
  also have "\<dots> = scan_all BeginValueOrEmpty (replicate n ParseArrayValue @ ParseArrayValue # ctx) rest"
    by (rule Suc.IH) (use Suc.prems in simp)
  finally show ?case by (simp add: replicate_app_Cons_same)
qed simp

lemma too_deep:
  assumes "maxNestingDepth < length ctx + n" "length ctx \<le> maxNestingDepth"
  shows "scan_all BeginValueOrEmpty ctx (replicate n (CHR ''['') @ rest) = None"
proof -
  obtain k where k: "length ctx + k = maxNestingDepth" "k < n" using assms by (metis le_Suc_ex nat_add_left_cancel_less)
  then obtain m where n: "n = k + Suc m" by (metis less_imp_Suc_add add_Suc_right)
  have "replicate n (CHR ''['') @ rest = replicate k (CHR ''['') @ CHR ''['' # replicate m (CHR ''['') @ rest"
    by (simp add: n replicate_add replicate_append_same)
  then have "scan_all BeginValueOrEmpty ctx (replicate n (CHR ''['') @ rest) =
      scan_all BeginValueOrEmpty (replicate k ParseArrayValue @ ctx) (CHR ''['' # replicate m (CHR ''['') @ rest)"
    using scan_opening [of ctx k "CHR ''['' # replicate m (CHR ''['') @ rest"] k by simp
  then show ?thesis using k by (simp add: json_ws_def step_BeginValue_def push_state_def)
qed

lemma scan_closing:
  "scan_all EndValue (replicate (Suc n) ParseArrayValue) (replicate (Suc n) (CHR '']'')) = Some (EndTop, [])"
  by (induction n) (simp_all add: step_EndValue_def json_ws_def pop_state_def)

text \<open>As many brackets as the library can nest.\<close>

definition deepest :: string where
  "deepest = replicate maxNestingDepth (CHR ''['') @ replicate maxNestingDepth (CHR '']'')"

lemma deepest_opens: "deepest = CHR ''['' # replicate (maxNestingDepth - 1) (CHR ''['') @ replicate maxNestingDepth (CHR '']'')"
proof -
  have "maxNestingDepth = Suc (maxNestingDepth - 1)" by (simp add: maxNestingDepth_def)
  then show ?thesis by (metis deepest_def append_Cons replicate_Suc)
qed

lemma deepest_scan:
  "scan_all BeginValue ctx (deepest @ rest) =
     (if length ctx < maxNestingDepth then scan_all BeginValueOrEmpty (ParseArrayValue # ctx)
        (replicate (maxNestingDepth - 1) (CHR ''['') @ replicate maxNestingDepth (CHR '']'') @ rest) else None)"
  by (simp add: deepest_opens step_BeginValue_def json_ws_def push_state_def)

lemma deepest_valid: "json_valid deepest"
proof -
  define n where "n = maxNestingDepth - 1"
  have n: "maxNestingDepth = Suc n" by (simp add: n_def maxNestingDepth_def)
  have "scan_all BeginValue [] deepest = scan_all BeginValueOrEmpty [ParseArrayValue] (replicate n (CHR ''['') @ replicate (Suc n) (CHR '']''))"
    using deepest_scan [of "[]" "[]"] by (simp add: n)
  also have "\<dots> = scan_all BeginValueOrEmpty (replicate n ParseArrayValue @ [ParseArrayValue]) (replicate (Suc n) (CHR '']''))"
    by (rule scan_opening) (simp add: n)
  also have "\<dots> = scan_all EndValue (replicate (Suc n) ParseArrayValue) (replicate (Suc n) (CHR '']''))"
    by (simp add: json_ws_def replicate_append_same)
  also have "\<dots> = Some (EndTop, [])" by (rule scan_closing)
  finally show ?thesis by (simp add: json_valid_def)
qed

lemma deepest_inside: "ctx \<noteq> [] \<Longrightarrow> length ctx \<le> maxNestingDepth \<Longrightarrow> scan_all BeginValue ctx (deepest @ rest) = None"
  using too_deep [of "ParseArrayValue # ctx" "maxNestingDepth - 1" "replicate maxNestingDepth (CHR '']'') @ rest"]
  by (cases ctx) (auto simp: deepest_scan)

end
