(* ===== verification/Messages.thy ===== *)
theory Messages
  imports Handlers Json_Laws
begin

text \<open>
  The texts of the errors and the bytes of the envelopes. The other theories keep an error as the value that caused it and
  an envelope as the struct that is marshalled; here are the strings the validators, the \<^verbatim>\<open>Error\<close> methods of \<^verbatim>\<open>types.go\<close> and
  the structs of \<^verbatim>\<open>response_types.go\<close> turn into. An object is written with its fields in the order of their declaration,
  under the names of their tags, which is what \<^verbatim>\<open>encoding/json\<close> documents; a string is encoded by the JSON library.

  The verb \<^verbatim>\<open>%q\<close> needs the Unicode tables of \<^verbatim>\<open>strconv\<close>; it is the argument \<open>q\<close>.
\<close>

section \<open>Error texts\<close>

definition quoted :: "string \<Rightarrow> string" where
  "quoted s = CHR 0x27 # s @ [CHR 0x27]"

text \<open>The plus-minus sign in UTF-8.\<close>

definition plusMinus :: string where
  "plusMinus = [CHR 0xC2, CHR 0xB1]"

definition approxText :: "string \<Rightarrow> int \<Rightarrow> int \<Rightarrow> string" where
  "approxText what sz cap =
     ''the '' @ what @ '' approximate size ('' @ appendInt sz @ '' bytes) exceeds the maximum of '' @ appendInt cap @ '' bytes''"

definition managedText :: "string \<Rightarrow> string \<Rightarrow> string" where
  "managedText field endpoint =
     ''the '' @ quoted field @ '' field is managed by the cache and must not be provided to the '' @ quoted endpoint @ '' endpoint''"

definition reservedText :: "string \<Rightarrow> string \<Rightarrow> string" where
  "reservedText scope endpoint =
     ''scope '' @ quoted scope @
     (if endpoint = ''/upsert''
      then '' is reserved; in-place mutation (/upsert) is not supported on the drain-stream scopes (use /append)''
      else if endpoint = ''/update''
      then '' is reserved; in-place mutation (/update) is not supported on the drain-stream scopes''
      else if endpoint = ''/counter_add'' then '' is reserved; counters are not supported on the drain-stream scopes''
      else if endpoint = ''/delete_scope'' then '' is reserved and cannot be deleted''
      else if endpoint = ''/warm'' then '' is reserved and cannot be the target of /warm''
      else '' is reserved and cannot appear in /rebuild input'')"

fun reasonText :: "(string \<Rightarrow> string) \<Rightarrow> reason \<Rightarrow> string" where
  "reasonText q (KeyTooLong field maxLen) =
     ''the '' @ quoted field @ '' field must not exceed '' @ appendUint maxLen @ '' bytes''"
| "reasonText q (KeyWhitespace field) = ''the '' @ quoted field @ '' field must not have leading or trailing whitespace''"
| "reasonText q (KeyControl field) = ''the '' @ quoted field @ '' field must not contain control characters''"
| "reasonText q (KeyNotUtf8 field) = ''the '' @ quoted field @ '' field must be valid UTF-8''"
| "reasonText q (ScopeRequired endpoint) =
     ''the '' @ quoted ''scope'' @ '' field is required for the '' @ quoted endpoint @ '' endpoint''"
| "reasonText q (IdRequired endpoint) =
     ''the '' @ quoted ''id'' @ '' field is required for the '' @ quoted endpoint @ '' endpoint''"
| "reasonText q (ExactlyOneAddress endpoint) =
     ''exactly one of 'id', 'seq' or 'uuid' must be provided for the '' @ quoted endpoint @ '' endpoint''"
| "reasonText q (UuidNotV7 endpoint) =
     ''the 'uuid' field must be a canonical lowercase UUIDv7 string'' @
     (if endpoint = [] then [] else '' for the '' @ quoted endpoint @ '' endpoint'')"
| "reasonText q ExactlyOneBoundary =
     ''exactly one of 'max_seq' or 'uuid' must be provided for the '' @ quoted ''/delete_up_to'' @ '' endpoint''"
| "reasonText q PayloadRequired = ''the 'payload' field is required''"
| "reasonText q PayloadNotJson = ''the 'payload' field must be a valid JSON value''"
| "reasonText q PayloadNotUtf8 = ''the 'payload' field must be valid UTF-8''"
| "reasonText q (ItemTooLarge sz cap) = approxText (''item'' @ CHR 0x27 # ''s'') sz cap"
| "reasonText q (CounterTooLarge sz cap) = approxText (''counter item'' @ CHR 0x27 # ''s'') sz cap"
| "reasonText q (SeqManaged endpoint) = managedText ''seq'' endpoint"
| "reasonText q (TsManaged endpoint) = managedText ''ts'' endpoint"
| "reasonText q (UuidManaged endpoint) = managedText ''uuid'' endpoint"
| "reasonText q (EventsAppendReserved scope) =
     ''scope '' @ quoted scope @ '' is reserved for cache-emitted events; /append is rejected (use a user-managed scope with events_mode=full to inject)''"
| "reasonText q (ScopeReserved scope endpoint) = reservedText scope endpoint"
| "reasonText q ByRequired = ''the 'by' field is required for the '' @ quoted ''/counter_add'' @ '' endpoint''"
| "reasonText q ByZero = ''the 'by' field must not be zero''"
| "reasonText q ByRange = ''the 'by' field must be within '' @ plusMinus @ ''(2^53-1)''"
| "reasonText q LimitInvalid = ''the 'limit' parameter must be a positive integer''"
| "reasonText q OffsetInvalid = ''the 'offset' parameter must be a non-negative integer''"
| "reasonText q HoursInvalid = ''the 'hours' parameter must be a non-negative integer''"
| "reasonText q HoursTooLarge = ''the 'hours' parameter is unreasonably large''"
| "reasonText q (ScopeMismatch scope i itemScope) =
     ''scope '' @ quoted scope @ '', item at index '' @ appendUint i @ '': item.scope '' @ q itemScope @ '' does not match the map key''"
| "reasonText q (DuplicateId k) = ''duplicate 'id' value within scope: '' @ quoted k"
| "reasonText q (DuplicateUuid u) = ''duplicate 'uuid' value within scope: '' @ quoted (formatUUID u)"
| "reasonText q (AtItem scope i r) = reasonText q r"
| "reasonText q (InScope scope r) = ''scope '' @ quoted scope @ '': '' @ reasonText q r"

text \<open>\<^verbatim>\<open>wrapValidation\<close> puts the text of \<^verbatim>\<open>ErrInvalidInput\<close> in front.\<close>

definition wrapText :: "string \<Rightarrow> string" where
  "wrapText t = ''scopecache: invalid input: '' @ t"

text \<open>A batch names the item in front of an error that is wrapped already.\<close>

fun invalidText :: "(string \<Rightarrow> string) \<Rightarrow> reason \<Rightarrow> string" where
  "invalidText q (AtItem scope i r) = ''scope '' @ quoted scope @ '', item at index '' @ appendUint i @ '': '' @ invalidText q r"
| "invalidText q r = wrapText (reasonText q r)"

fun counterReasonText :: "counterReason \<Rightarrow> string" where
  "counterReasonText NotANumber = ''the existing item's payload is not a JSON number''"
| "counterReasonText NotAnInteger = ''the existing item's payload is not an integer''"
| "counterReasonText OutOfRange = ''the existing counter value is outside the allowed range of '' @ plusMinus @ ''(2^53-1)''"

text \<open>The \<^verbatim>\<open>Error\<close> methods.\<close>

definition ScopeCapacityError_Error :: "(string \<times> int \<times> int) list \<Rightarrow> string" where
  "ScopeCapacityError_Error offenders =
     (case offenders of
        [(n, _, _)] \<Rightarrow> ''scope '' @ quoted n @ '' is at capacity''
      | _ \<Rightarrow> ''multiple scopes are at capacity'')"

fun errorText :: "(string \<Rightarrow> string) \<Rightarrow> goError \<Rightarrow> string" where
  "errorText q (InvalidInput r) = invalidText q r"
| "errorText q (ScopeFullError cnt cap) = ''scope is at capacity''"
| "errorText q (ScopeCapacityError offenders) = ScopeCapacityError_Error offenders"
| "errorText q (StoreFullError storeBytes added cap) = ''store is at byte capacity''"
| "errorText q (CounterPayloadError r) = counterReasonText r"
| "errorText q (CounterOverflowError cur inc) = ''the counter operation would exceed the allowed range of '' @ plusMinus @ ''(2^53-1)''"
| "errorText q ScopeDetachedError = ''the scope was deleted while the request was in flight; please retry''"
| "errorText q IdExistsError = ''an item with this 'id' already exists in the scope''"
| "errorText q (ItemCapError sz cap scope) =
     ''item size '' @ appendInt sz @ '' exceeds per-item cap '' @ appendInt cap @ '' for scope '' @ q scope"
| "errorText q NoScopeError = ''the 'scope' field is required''"
| "errorText q ErrInvalidSubscribeScope = ''scopecache: subscribe is restricted to reserved scopes''"
| "errorText q ErrAlreadySubscribed = ''scopecache: scope already has an active subscriber''"

fun messageText :: "(string \<Rightarrow> string) \<Rightarrow> message \<Rightarrow> string" where
  "messageText q (Text t) = t"
| "messageText q (Reason r) = reasonText q r"
| "messageText q (Failure e) = errorText q e"

section \<open>Envelopes\<close>

definition writeAck_JSON :: "jsonLib \<Rightarrow> writeAck \<Rightarrow> string" where
  "writeAck_JSON J a = jsonObject
     [(''scope'', marshalString J (waScope a)),
      (''id'', (case waID a of None \<Rightarrow> ''null'' | Some k \<Rightarrow> marshalString J k)),
      (''seq'', appendUint (waSeq a)),
      (''ts'', appendInt (waTs a)),
      (''uuid'', marshalString J (waUUID a))]"

definition reservedScopeEntry_JSON :: "jsonLib \<Rightarrow> reservedScopeEntry \<Rightarrow> string" where
  "reservedScopeEntry_JSON J e = jsonObject
     [(''scope'', marshalString J (reScope e)),
      (''item_count'', appendInt (int (reItemCount e))),
      (''last_seq'', appendUint (reLastSeq e)),
      (''approx_scope_mb'', MB_MarshalJSON (reApproxScopeMB e)),
      (''created_ts'', appendInt (reCreatedTS e)),
      (''last_write_ts'', appendInt (reLastWriteTS e))]"

definition ScopeCapacityOffender_JSON :: "jsonLib \<Rightarrow> string \<times> int \<times> int \<Rightarrow> string" where
  "ScopeCapacityOffender_JSON J off =
     (case off of (scope, cnt, cap) \<Rightarrow> jsonObject
        [(''scope'', marshalString J scope), (''count'', appendInt cnt), (''cap'', appendInt cap)])"

text \<open>The success envelopes.\<close>

fun successFields :: "jsonLib \<Rightarrow> envelope \<Rightarrow> (string \<times> string) list" where
  "successFields J (AppendResponse created a) = [(''created'', appendBool created), (''item'', writeAck_JSON J a)]"
| "successFields J (UpsertResponse created a) = [(''created'', appendBool created), (''item'', writeAck_JSON J a)]"
| "successFields J (UpdateResponse created cnt) = [(''created'', appendBool created), (''count'', appendInt (int cnt))]"
| "successFields J (CounterAddResponse created v) = [(''created'', appendBool created), (''value'', appendInt v)]"
| "successFields J (DeleteResponse hit cnt) = [(''hit'', appendBool hit), (''count'', appendInt (int cnt))]"
| "successFields J (DeleteScopeResponse hit cnt) = [(''hit'', appendBool hit), (''count'', appendInt (int cnt))]"
| "successFields J (WipeResponse scs its freed) =
     [(''scopes'', appendInt (int scs)), (''items'', appendInt (int its)), (''freed_mb'', MB_MarshalJSON freed)]"
| "successFields J (WarmResponse scs) = [(''scopes'', appendInt (int scs))]"
| "successFields J (RebuildResponse scs its) = [(''scopes'', appendInt (int scs)), (''items'', appendInt (int its))]"
| "successFields J (StatsResponse st) =
     [(''scopes'', appendInt (stScopes st)), (''items'', appendInt (stItems st)),
      (''approx_store_mb'', MB_MarshalJSON (stApproxStoreMB st)), (''last_write_ts'', appendInt (stLastWriteTS st)),
      (''events_drops_total'', appendInt (stEventsDropsTotal st)),
      (''reserved_scopes'', jsonArray (map (reservedScopeEntry_JSON J) (stReservedScopes st)))]"
| "successFields J _ = []"

text \<open>The error envelopes; \<^const>\<open>None\<close> for a success.\<close>

fun errorFields :: "jsonLib \<Rightarrow> (string \<Rightarrow> string) \<Rightarrow> envelope \<Rightarrow> (string \<times> string) list option" where
  "errorFields J q (ErrorResponse msg) = Some [(''error'', marshalString J (messageText q msg))]"
| "errorFields J q (ScopeCapacityErrorResponse msg offenders) =
     Some [(''error'', marshalString J msg), (''scopes'', jsonArray (map (ScopeCapacityOffender_JSON J) offenders))]"
| "errorFields J q (StoreCapacityErrorResponse storeBytes added cap) =
     Some [(''error'', marshalString J ''store is at byte capacity''), (''approx_store_mb'', MB_MarshalJSON storeBytes),
       (''added_mb'', MB_MarshalJSON added), (''max_store_mb'', MB_MarshalJSON cap)]"
| "errorFields J q (ResponseTooLargeErrorResponse written cap) =
     Some [(''error'', marshalString J ''the response would exceed the maximum allowed size''),
       (''approx_response_mb'', MB_MarshalJSON written), (''max_response_mb'', MB_MarshalJSON cap)]"
| "errorFields J q _ = None"

definition MarshalEnvelope :: "jsonLib \<Rightarrow> (string \<Rightarrow> string) \<Rightarrow> marshaller" where
  "MarshalEnvelope J q e = Some (jsonObject
     (case errorFields J q e of
        Some fs \<Rightarrow> (''ok'', ''false'') # fs
      | None \<Rightarrow> (''ok'', ''true'') # successFields J e))"

end
