(* ===== verification/Json_Bodies.thy ===== *)
theory Json_Bodies
  imports Wire_Laws Messages
begin

text \<open>
  Everything the cache writes as \<^verbatim>\<open>application/json\<close> is an object in the sense of theory \<open>Json_Laws\<close>: the builders of the
  reads write the text of an object whose members are values, and so does the encoder of the envelopes. What is asked of
  the JSON library is that it encodes a string as a string literal; what is asked of an item is that its payload
  is a value, which every write checks, and leaves room for the containers around it.
\<close>

section \<open>Members\<close>

definition strings_ok :: "jsonLib \<Rightarrow> bool" where
  "strings_ok J \<longleftrightarrow> (\<forall>s. json_string (marshalString J s))"

definition payload_fits :: "nat \<Rightarrow> item \<Rightarrow> bool" where
  "payload_fits d it \<longleftrightarrow> Payload it = [] \<or> is_value d (Payload it)"

named_theorems json_values

lemma value_bool [json_values]: "is_value 0 (appendBool b)"
  by (simp add: appendBool_def)

lemma scan_plain_iff: "scan_plain s \<Longrightarrow> list_all plain_char s"
  by (induction s) (auto simp: needsEscape_def plain_char_def split: if_splits)

lemma value_marshalled [json_values]: "strings_ok J \<Longrightarrow> is_value 0 (marshalString J s)"
  by (simp add: strings_ok_def value_string)

lemma value_JSONString [json_values]: "strings_ok J \<Longrightarrow> is_value 0 (AppendJSONString J [] s)"
  by (simp add: AppendJSONString_def value_marshalled scan_plain_iff)

lemma hex_plain: "n < 16 \<Longrightarrow> plain_char (hexDigits ! n)"
proof -
  assume n: "n < 16"
  have "list_all plain_char hexDigits" by code_simp
  then show ?thesis using n by (simp add: list_all_length hexDigits_def)
qed

lemma hexPair_plain: "list_all plain_char (hexPair b)"
  by (simp add: hexPair_def hex_plain high_nibble_less low_nibble_less)

lemma hex_loop_plain: "list_all plain_char (hex_loop i u)"
  by (induction u arbitrary: i) (auto simp: hexPair_plain plain_char_def)

lemma value_UUID [json_values]: "is_value 0 (appendUUIDJSON [] u)"
  using value_plain [of "[]"] value_plain [OF hex_loop_plain, of 0 u] by (simp add: appendUUIDJSON_def appendUUIDHex_def)

text \<open>A number with a fraction.\<close>

lemma fraction_scan:
  assumes "list_all is_digit (f # fs)" "c \<in> {CHR '','', CHR '']'', CHR ''}''}" "st = Num0 \<or> st = Num1"
  shows "scan_all st ctx (CHR ''.'' # (f # fs) @ c # rest) = scan_all EndValue ctx (c # rest)"
proof -
  have "scan_all NumDot0 ctx fs = Some (NumDot0, ctx)" using assms(1) by (intro scan_digits) (auto simp: list_all_iff)
  moreover have "scan_step NumDot0 ctx c = scan_step EndValue ctx c" using ends_number [OF assms(2), of NumDot0 ctx] by simp
  ultimately show ?thesis using assms(1,3) by (auto simp: scan_all_append step_Num0_def is_digit_def)
qed

lemma value_decimal:
  assumes "list_all is_digit (f # fs)"
  shows "is_value 0 ((if neg then ''-'' else []) @ appendUint n @ CHR ''.'' # f # fs)"
  unfolding is_value_def
proof (intro allI impI)
  fix ctx :: "pstate list" and c rest
  assume c: "c \<in> {CHR '','', CHR '']'', CHR ''}''}"
  obtain x xs where x: "appendUint n = x # xs" by (cases "appendUint n") auto
  from begin_number [OF x, of ctx] obtain st where st: "st \<in> {Num0, Num1}" "step_BeginValue ctx x = Some (st, ctx)"
    "scan_step NumNeg ctx x = Some (st, ctx)" "\<forall>rest. scan_all st ctx (xs @ rest) = scan_all st ctx rest" by blast
  have f: "scan_all st ctx (CHR ''.'' # (f # fs) @ c # rest) = scan_all EndValue ctx (c # rest)"
    by (rule fraction_scan [OF assms c]) (use st in auto)
  have e: "(appendUint n @ CHR ''.'' # f # fs) @ c # rest = x # xs @ CHR ''.'' # (f # fs) @ c # rest" by (simp add: x)
  have pos: "scan_all BeginValue ctx (x # xs @ CHR ''.'' # (f # fs) @ c # rest) = scan_all EndValue ctx (c # rest)"
    using st(2) spec [OF st(4), of "CHR ''.'' # (f # fs) @ c # rest"] f by (simp del: append_Cons)
  have m: "scan_all BeginValue ctx (CHR ''-'' # t) = scan_all NumNeg ctx t" for t
    by (simp add: step_BeginValue_def json_ws_def)
  have neg: "scan_all NumNeg ctx (x # xs @ CHR ''.'' # (f # fs) @ c # rest) = scan_all EndValue ctx (c # rest)"
    using st(3) spec [OF st(4), of "CHR ''.'' # (f # fs) @ c # rest"] f by (simp del: append_Cons scan_step.simps)
  show "scan_all BeginValue ctx (((if neg then ''-'' else []) @ appendUint n @ CHR ''.'' # f # fs) @ c # rest) =
      scan_all EndValue ctx (c # rest)"
    using pos neg m by (cases neg) (simp_all add: x)
qed

lemma pad4_digits: "\<exists>f fs. pad4 n = f # fs \<and> list_all is_digit (f # fs)"
proof -
  have "is_digit (char_of (nat (48 + m mod 10)))" for m :: int
  proof -
    have "nat (48 + m mod 10) < 58" "48 \<le> nat (48 + m mod 10)" by (simp_all add: nat_less_iff le_nat_iff)
    then show ?thesis by (simp add: is_digit_def)
  qed
  then show ?thesis by (simp add: pad4_def)
qed

lemma value_MB [json_values]: "is_value 0 (appendMB n)"
proof -
  define t where "t = round_half_even (float64_abs n * 10000) 1048576"
  obtain f fs where f: "pad4 (t mod 10000) = f # fs" "list_all is_digit (f # fs)" using pad4_digits by blast
  from value_decimal [OF f(2), of "n < 0" "nat (t div 10000)"] show ?thesis
    by (simp add: appendMB_def Let_def t_def [symmetric] f(1))
qed

lemma value_payload:
  "payload_fits d it \<Longrightarrow> is_value d (if length (Payload it) = 0 then ''null'' else Payload it)"
  using is_value_mono [OF value_literals(1)] by (auto simp: payload_fits_def)

section \<open>The builders write objects\<close>

definition itemFields :: "jsonLib \<Rightarrow> item \<Rightarrow> (string \<times> string) list" where
  "itemFields J it =
     [(''scope'', AppendJSONString J [] (Scope it)),
      (''id'', if ID it = [] then ''null'' else AppendJSONString J [] (ID it)),
      (''seq'', appendUint (Seq it)), (''ts'', appendInt (Ts it)),
      (if Scope it = EventsScopeName then ''event_uuid'' else ''uuid'', appendUUIDJSON [] (UUID it)),
      (if Scope it = EventsScopeName then ''event'' else ''payload'', if length (Payload it) = 0 then ''null'' else Payload it)]"

lemma item_is_object: "AppendItemJSON J [] it = jsonObject (itemFields J it)"
  by (simp add: AppendItemJSON_def itemFields_def jsonObject_def member_text_def raw_def appends Let_def)

definition entryFields :: "jsonLib \<Rightarrow> scopeListEntry \<Rightarrow> (string \<times> string) list" where
  "entryFields J e =
     [(''scope'', AppendJSONString J [] (slScope e)), (''item_count'', appendInt (int (ssItemCount (slStats e)))),
      (''last_seq'', appendUint (ssLastSeq (slStats e))), (''first_uuid'', appendUUIDJSON [] (ssFirstUUID (slStats e))),
      (''last_uuid'', appendUUIDJSON [] (ssLastUUID (slStats e))), (''approx_scope_mb'', appendMB (ssApproxScopeMB (slStats e))),
      (''created_ts'', appendInt (ssCreatedTS (slStats e))), (''last_write_ts'', appendInt (ssLastWriteTS (slStats e))),
      (''last_access_ts'', appendInt (ssLastAccessTS (slStats e))), (''read_count_total'', appendUint (ssReadCountTotal (slStats e)))]"

lemma entry_is_object: "appendScopeListEntryJSON J [] e = jsonObject (entryFields J e)"
  by (simp add: appendScopeListEntryJSON_def entryFields_def jsonObject_def member_text_def raw_def appends Let_def)

lemma appendEach_joined:
  assumes "\<And>b x. f b x = b @ f [] x"
  shows "appendEach f b 0 xs = b @ joined (map (f []) xs)"
proof -
  have later: "appendEach f b (Suc i) (y # ys) = b @ CHR '','' # joined (map (f []) (y # ys))" for b i y ys
  proof (induction ys arbitrary: b i y)
    case Nil
    show ?case using assms [of "b @ '',''" y] by simp
  next
    case (Cons z zs)
    show ?case using assms [of "b @ '',''" y] Cons [of "f (b @ '','') y" "Suc i" z] by simp
  qed
  show ?thesis
  proof (cases xs)
    case (Cons x ys)
    then show ?thesis using assms [of b x] later [of "f b x" 0] by (cases ys) simp_all
  qed simp
qed

lemma page_is_object:
  "\<exists>mb. itemsBody J its tr off =
     jsonObject ([(''ok'', ''true''), (''hit'', appendBool (length its > 0)), (''count'', appendInt (int (length its)))] @
       (case off of None \<Rightarrow> [] | Some k \<Rightarrow> [(''offset'', appendInt k)]) @
       [(''truncated'', appendBool tr), (''items'', jsonArray (map (AppendItemJSON J []) its)),
        (''approx_response_mb'', appendMB mb)]) @ [CHR 0x0A]"
  by (cases off) (auto simp: itemsBody_def appendEach_joined [OF item_at_end] jsonObject_def jsonArray_def member_text_def raw_def Let_def)

lemma scopeList_is_object:
  "\<exists>mb. scopeListBody J es tr =
     jsonObject [(''ok'', ''true''), (''hit'', appendBool (length es > 0)), (''count'', appendInt (int (length es))),
        (''truncated'', appendBool tr), (''scopes'', jsonArray (map (appendScopeListEntryJSON J []) es)),
        (''approx_response_mb'', appendMB mb)] @ [CHR 0x0A]"
  by (auto simp: scopeListBody_def appendEach_joined [OF entry_at_end] jsonObject_def jsonArray_def member_text_def raw_def Let_def)

lemma get_is_object:
  "\<exists>mb. getBody J itm =
     jsonObject [(''ok'', ''true''), (''hit'', appendBool (itm \<noteq> None)), (''count'', if itm = None then ''0'' else ''1''),
        (''item'', case itm of None \<Rightarrow> ''null'' | Some it \<Rightarrow> AppendItemJSON J [] it), (''approx_response_mb'', appendMB mb)] @ [CHR 0x0A]"
  by (cases itm) (auto simp: getBody_def getPrefix_def item_is_object itemFields_def jsonObject_def member_text_def raw_def
      appendBool_def appends Let_def)

end
