(* ===== verification/Payloads.thy ===== *)
theory Payloads
  imports Machine
begin

text \<open>
  What a stored payload looks like. \<^verbatim>\<open>types.go\<close> promises of an item that its payload is a valid JSON value, valid UTF-8,
  and neither missing nor \<^verbatim>\<open>null\<close>, which \<^verbatim>\<open>validatePayload\<close> checks on the way in; a counter is rendered from its cell when it is
  read, and an entry of \<^verbatim>\<open>_events\<close> holds the bytes of a marshalled event. Here is that no operation, in any order, puts
  anything else into a scope.
\<close>

section \<open>What a method leaves in a buffer\<close>

definition adds_only :: "(item \<Rightarrow> bool) \<Rightarrow> scopeBuffer \<Rightarrow> scopeBuffer \<Rightarrow> bool" where
  "adds_only P b b' \<longleftrightarrow> (\<forall>x \<in> set (bufItems b'). x \<in> set (bufItems b) \<or> P x)"

lemma adds_only_refl [simp]: "adds_only P b b"
  by (simp add: adds_only_def)

lemma install_adds:
  assumes "installItemLocked (ID it \<noteq> []) it sz b = (st, b')" "lastSeq b < 2 ^ 64 - 1" "slice_ok b" "P (it\<lparr>Seq := Suc (lastSeq b)\<rparr>)"
  shows "adds_only P b b'"
  using install_shape [OF assms(1-3)] assms(4) by (auto simp: adds_only_def)

lemma set_adds:
  assumes "idx_ok b" "i < length (items b)" "items b ! i = p" "heap b' = (heap b)[p := it]" "items b' = items b" "P it"
  shows "adds_only P b b'"
  using bufItems_set [OF assms(1-5)] assms(6) by (auto simp: adds_only_def dest: set_update_subset_insert [THEN subsetD])

text \<open>A counter operation leaves counters behind, an overwrite the new payload, a delete nothing.\<close>

lemma counterAdd_adds:
  assumes ok: "buf_ok b" "lastSeq b < 2 ^ 64 - 1" and k: "k \<noteq> []" and r: "counterAdd J now u n k d a b = (r, a', b')"
  shows "adds_only (\<lambda>x. counter x \<noteq> None) b b'"
  using r
proof (cases rule: counterAdd_cases)
  case (cell p cl)
  then have "p \<in> set (items b)" using byID_live [OF ok(1)] by blast
  then obtain i where i: "i < length (items b)" "items b ! i = p" by (auto simp: in_set_conv_nth)
  show ?thesis
  proof (cases "b' = b")
    case False
    then obtain c' where "b' = b\<lparr>heap := (heap b)[p := (deref b p)\<lparr>counter := Some c'\<rparr>]\<rparr>"
      using cell(5) by (auto simp: addToCell_def split: prod.splits sum.splits)
    then show ?thesis
      by (intro set_adds [OF buf_ok_idx [OF ok(1)] i, where it = "(deref b p)\<lparr>counter := Some c'\<rparr>"]) simp_all
  qed simp
next
  case (promote p)
  have p: "p \<in> set (items b)" using byID_live [OF ok(1) promote(2)] .
  from ok(1) p promote(4) show ?thesis
  proof (cases rule: promote_cases)
    case (hit i dl v w)
    show ?thesis
      by (rule set_adds [OF buf_ok_idx [OF ok(1)] hit(2,3), where it = "promotedItem now v (deref b p)"])
        (simp_all add: hit(8) promotedItem_def)
  qed simp
next
  case create
  have sl: "slice_ok b" using ok(1) by (simp add: buf_ok_def idx_ok_def)
  from create(3) k show ?thesis
  proof (cases rule: create_cases)
    case (ok st)
    show ?thesis by (rule install_adds [OF ok(3) assms(2) sl]) simp
  qed simp
qed simp

lemma overwrite_adds:
  assumes ok: "buf_ok b" and p: "p \<in> set (items b)" and r: "overwritePayloadLocked p payload rb now a b = (r, a', b')"
  shows "adds_only (\<lambda>x. Payload x = payload) b b'"
  using ok p r
proof (cases rule: overwrite_cases)
  case (hit i d a1)
  show ?thesis
    by (rule set_adds [OF buf_ok_idx [OF ok] hit(2,3), where it = "overwritten payload now rb (deref b p)"])
      (simp_all add: hit(6))
qed simp

lemma update_adds:
  assumes ok: "buf_ok b" and r: "updateMethod J now it a b = (r, a', b')"
  shows "adds_only (\<lambda>x. Payload x = Payload it) b b'"
proof (cases "b' = b")
  case False
  then obtain p where "p \<in> set (items b)"
    "overwritePayloadLocked p (Payload it) (renderOr J (renderBytes it) (Payload it)) now a b = (r, a', b')"
    using r byID_live [OF ok] bySeq_live [OF ok] byUUID_live [OF ok]
    by (force simp: updateMethod_def updateByID_def updateBySeq_def updateByUUID_def Let_def split: if_splits option.splits)
  then show ?thesis by (rule overwrite_adds [OF ok])
qed simp

lemma removal_adds:
  assumes "buf_ok b" "removal rs b b1" "reindexed b1 b'"
  shows "adds_only (\<lambda>x. False) b b'"
  using removal_view [OF assms, of "\<lambda>x. \<exists>p \<in> set (items b). p \<notin> set rs \<and> x = deref b p"]
    removal_facts(2) [OF assms(1,2)] reindexed_view [OF assms(3)] by (auto simp: adds_only_def bufItems_def)

lemma deleteFound_adds:
  assumes "buf_ok b" "p \<in> set (items b)" "deleteFound capq now (Seq (deref b p)) a b = (r, a', b')"
  shows "adds_only (\<lambda>x. False) b b'"
  using deleteFound_removal(2) [OF assms] removal_adds [OF assms(1)] by blast

lemma delete_adds:
  assumes ok: "buf_ok b" and r: "deleteMethod capq now k q u a b = (r, a', b')"
  shows "adds_only (\<lambda>x. False) b b'"
proof (cases "b' = b")
  case False
  have live: "map_of (bySeq b) q = Some p \<Longrightarrow> p \<in> set (items b) \<and> q = Seq (deref b p)" for p
    using bySeq_SomeD [OF buf_ok_idx [OF ok], of q p] by auto
  obtain p where "p \<in> set (items b)" "deleteFound capq now (Seq (deref b p)) a b = (r, a', b')"
    using False r byID_live [OF ok] byUUID_live [OF ok] live
    by (force simp: deleteMethod_def deleteByID_def deleteBySeq_def deleteByUUID_def split: if_splits option.splits)
  then show ?thesis by (rule deleteFound_adds [OF ok])
qed simp

lemma drain_adds:
  assumes ok: "buf_ok b" and r: "drainMethod now m u a b = (r, a', b')"
  shows "adds_only (\<lambda>x. False) b b'"
proof -
  have d: "adds_only (\<lambda>x. False) b b1" if "deleteUpToSeqLocked now q a b = (n, a1, b1)" for q n a1 b1
    using deleteUpTo_removal(2) [OF ok that refl] removal_adds [OF ok] by auto
  show ?thesis using r d
    by (auto simp: drainMethod_def deleteUpToSeq_def deleteUpToUUID_def split: if_splits option.splits prod.splits)
qed

section \<open>What a batch brings\<close>

definition payload_valid :: "string \<Rightarrow> bool" where
  "payload_valid p \<longleftrightarrow> validatePayload p = None"

lemma checkItems_valid:
  "checkItems J ep cap n i its = Inr its' \<Longrightarrow> \<forall>it \<in> set its. payload_valid (Payload it)"
proof (induction its arbitrary: i its')
  case (Cons it its)
  then obtain it' where "validateWriteItem J it ep cap = Inr it'" by (auto split: sum.splits)
  then have "payload_valid (Payload it)" by (simp add: payload_valid_def validateWriteItem_def sized_Inr firstErr_None)
  then show ?case using Cons by (auto split: sum.splits if_splits)
qed simp

lemma prepare_valid:
  "prepare_loop J bi ep s grouped = Inr x \<Longrightarrow> \<forall>(n, its) \<in> set grouped. \<forall>it \<in> set its. payload_valid (Payload it)"
proof (induction grouped arbitrary: x)
  case (Cons g grouped)
  obtain n its where g: "g = (n, its)" by fastforce
  obtain y where p: "prepareScope J bi ep s n its = Inr y" using Cons.prems by (auto simp: g split: sum.splits)
  obtain z where "prepare_loop J bi ep s grouped = Inr z" using Cons.prems by (auto simp: g split: sum.splits)
  then have "\<forall>(n, its) \<in> set grouped. \<forall>it \<in> set its. payload_valid (Payload it)" by (rule Cons.IH)
  moreover have "\<forall>it \<in> set its. payload_valid (Payload it)"
    using p checkItems_valid [of J ep "maxItemBytes (acct s)" n 0 its]
    by (auto simp: prepareScope_def split: option.splits sum.splits if_splits)
  ultimately show ?case by (simp add: g)
qed simp

lemma batch_valid:
  assumes "\<forall>(n, its) \<in> set grouped. \<forall>it \<in> set its. payload_valid (Payload it)"
    "map_of (map (batchItems J bi) grouped) n = Some xs" "x \<in> set xs"
  shows "payload_valid (Payload x)"
proof -
  obtain its where its: "(n, its) \<in> set grouped" "xs = replacementItems J (biNow bi n) (biMint bi n) its True"
    using map_of_SomeD [OF assms(2)] by (auto simp: batchItems_def)
  obtain i where "i < length its" "x = builtItem J (biNow bi n) True (biMint bi n) (Suc i) (its ! i)"
    using replacementItems_mem assms(3) its(2) by blast
  then show ?thesis using assms(1) its(1) by (auto dest: nth_mem)
qed

section \<open>Every reachable state\<close>

definition stored_ok :: "jsonLib \<Rightarrow> string \<Rightarrow> item \<Rightarrow> bool" where
  "stored_ok J n x \<longleftrightarrow> counter x \<noteq> None \<or> payload_valid (Payload x) \<or>
     n = EventsScopeName \<and> (\<exists>e. marshalEvent J e = Some (Payload x))"

definition payloads_ok :: "jsonLib \<Rightarrow> store \<Rightarrow> bool" where
  "payloads_ok J s \<longleftrightarrow> (\<forall>n xs. view s n = Some xs \<longrightarrow> (\<forall>x \<in> set xs. stored_ok J n x))"

lemma payloads_same: "payloads_ok J s \<Longrightarrow> view s' = view s \<Longrightarrow> payloads_ok J s'"
  by (simp add: payloads_ok_def)

lemma payloads_upd:
  assumes "payloads_ok J s" "view s' = (view s)(n := Some xs)" "\<forall>x \<in> set xs. stored_ok J n x"
  shows "payloads_ok J s'"
  using assms by (auto simp: payloads_ok_def)

lemma payloads_logged:
  assumes ok: "payloads_ok J s" and v: "view s EventsScopeName \<noteq> None" and l: "logged J n evt s s'"
  shows "payloads_ok J s'"
proof (cases "eventsEnabled s n")
  case False
  then show ?thesis using ok l by (simp add: logged_def)
next
  case True
  then have e: "emitted J evt s s'" using l by (simp add: logged_def)
  obtain ys where ys: "view s EventsScopeName = Some ys" using v by blast
  have same: "\<And>m. m \<noteq> EventsScopeName \<Longrightarrow> view s' m = view s m" using e by (simp add: emitted_def)
  from e consider (put) st where "view s' EventsScopeName = Some (ys @ [st])" "marshalEvent J (stripped s evt) = Some (Payload st)"
    | (drop) "view s' EventsScopeName = view s EventsScopeName" by (auto simp: emitted_def ys)
  then show ?thesis
  proof cases
    case put
    have v': "view s' = (view s)(EventsScopeName := Some (ys @ [st]))" using same put(1) by (auto simp: fun_eq_iff)
    have "stored_ok J EventsScopeName st" using put(2) unfolding stored_ok_def by blast
    moreover have "\<forall>x \<in> set ys. stored_ok J EventsScopeName x" using ok ys unfolding payloads_ok_def by blast
    ultimately show ?thesis by (intro payloads_upd [OF ok v']) auto
  next
    case drop
    have "view s' m = view s m" for m using same drop by (cases "m = EventsScopeName") auto
    then show ?thesis by (intro payloads_same [OF ok] ext)
  qed
qed

lemma existing_items:
  assumes "payloads_ok J s" "x \<in> set (case view s n of None \<Rightarrow> [] | Some xs \<Rightarrow> xs)" shows "stored_ok J n x"
  using assms by (cases "view s n") (auto simp: payloads_ok_def)

lemma payloads_adds:
  assumes ok: "payloads_ok J s" and v: "view s' = (view s)(n := Some (bufItems b'))" and a: "adds_only P b b'"
    and b: "bufItems b = (case view s n of None \<Rightarrow> [] | Some xs \<Rightarrow> xs)" and P: "\<And>x. P x \<Longrightarrow> stored_ok J n x"
  shows "payloads_ok J s'"
proof (rule payloads_upd [OF ok v], intro ballI)
  fix x assume "x \<in> set (bufItems b')"
  then have "x \<in> set (bufItems b) \<or> P x" using a by (simp add: adds_only_def)
  then show "stored_ok J n x" using existing_items [OF ok, of x n] b P by auto
qed

lemma view_of_buf: "getScope s n = Some p \<Longrightarrow> bufItems (bufs s ! p) = (case view s n of None \<Rightarrow> [] | Some xs \<Rightarrow> xs)"
  by (simp add: view_def)

subsection \<open>The writes\<close>

lemma append_payloads:
  assumes ok: "payloads_ok J s" and s: "store_inv s" "seqs_below N s" "0 < N" "Suc N < 2 ^ 64"
    and r: "appendOne J inp i it s = (r, s')"
  shows "payloads_ok J s'"
proof (cases "validateWriteItem J it ''/append'' (maxItemBytesFor (acct s) (Scope it))")
  case (Inl e)
  then show ?thesis using ok r by (simp add: appendOne_def)
next
  case (Inr w)
  have va: "payload_valid (Payload w)"
    using Inr validateWriteItem_Inr(6) [OF Inr] by (simp add: payload_valid_def validateWriteItem_def sized_Inr firstErr_None)
  have "appendOneTrusted J inp i w s = (r, s')" using r Inr by (simp add: appendOne_def)
  from s this show ?thesis
  proof (cases rule: appendOneTrusted_cases)
    case (failed e)
    then show ?thesis using s(1) by (intro payloads_same [OF ok] unchanged_facts(2)) (auto simp: store_inv_def)
  next
    case (okay st s1 s2)
    have st: "stored_ok J (Scope w) st" using va okay(8) by (simp add: stored_ok_def)
    have "payloads_ok J s1"
    proof (rule payloads_upd [OF ok okay(5)], intro ballI)
      fix x assume "x \<in> set ((case view s (Scope w) of None \<Rightarrow> [] | Some xs \<Rightarrow> xs) @ [st])"
      then show "stored_ok J (Scope w) x" using st existing_items [OF ok, of x "Scope w"] by auto
    qed
    then have "payloads_ok J s2"
      by (rule payloads_logged [OF _ _ okay(9)]) (use inv_events_view [OF okay(3)] in simp)
    then show ?thesis by (rule payloads_same [OF _ data_eq_facts(2) [OF okay(10)]])
  qed
qed

lemma upsert_payloads:
  assumes ok: "payloads_ok J s" and s: "store_inv s" "seqs_below N s" "0 < N" "Suc N < 2 ^ 64"
    and r: "upsertOne J inp i item s = (r, s')"
  shows "payloads_ok J s'"
  using s r
proof (cases rule: upsertOne_cases)
  case (failed e)
  then show ?thesis using s(1) by (intro payloads_same [OF ok] unchanged_facts(2)) (auto simp: store_inv_def)
next
  case (okay it st created a0 b0 b' s1)
  have va: "payload_valid (Payload it)"
    using okay(1) validateUpsertItem_Inr(7) [OF okay(1)]
    by (simp add: payload_valid_def validateUpsertItem_def sized_Inr firstErr_None)
  have b: "buf_ok b0" using okay(4) by (simp add: scope_ok_def)
  have k: "ID it \<noteq> []" using validateUpsertItem_Inr(2,3) [OF okay(1)] by simp
  note v = upsert_view [OF b okay(5) k okay(3)]
  have "adds_only (\<lambda>x. Payload x = Payload it) b0 b'"
    using v(2,3,4) by (cases created) (auto simp: adds_only_def)
  then have "payloads_ok J s1"
    by (rule payloads_adds [OF ok okay(8) _ okay(6)]) (simp add: stored_ok_def va)
  then show ?thesis
    by (rule payloads_logged [OF _ _ okay(11)]) (use inv_events_view [OF okay(7)] in simp)
qed

lemma counterAdd_payloads:
  assumes ok: "payloads_ok J s" and s: "store_inv s" "seqs_below N s" "0 < N" "Suc N < 2 ^ 64"
    and r: "counterAddOne J inp i n k d s = (r, s')"
  shows "payloads_ok J s'"
  using s r
proof (cases rule: counterAddOne_cases)
  case (failed e)
  then show ?thesis using s(1) by (intro payloads_same [OF ok] unchanged_facts(2)) (auto simp: store_inv_def)
next
  case (okay v created a0 b0 b' s1)
  have b: "buf_ok b0" using okay(7) by (simp add: scope_ok_def)
  have "payloads_ok J s1"
    by (rule payloads_adds [OF ok okay(10) counterAdd_adds [OF b okay(8,1,6)] okay(9)]) (simp add: stored_ok_def)
  note s1 = this
  obtain s2 where s2: "store_inv s2" "view s2 = view s1"
    "logged J n (zeroEvent\<lparr>evOp := ''counter_add'', evScope := n, evID := k, evBy := Some d\<rparr>) s2 s'"
    using okay(14) by blast
  show ?thesis
    by (rule payloads_logged [OF payloads_same [OF s1 s2(2)] _ s2(3)]) (use inv_events_view [OF s2(1)] in simp)
qed

text \<open>An update, a delete and a drain end with the event of the hit, or with no event.\<close>

lemma payloads_hit:
  fixes r :: "goError + nat"
  assumes ok: "payloads_ok J s1" and inv: "store_inv s" and v: "view s1 = (view s)(n := Some xs)"
    and h: "\<And>h. r = Inr h \<Longrightarrow> 0 < h \<Longrightarrow> logged J m evt s1 s'" and e: "(\<exists>e. r = Inl e) \<or> r = Inr 0 \<Longrightarrow> s' = s1"
  shows "payloads_ok J s'"
proof (cases "(\<exists>e. r = Inl e) \<or> r = Inr 0")
  case True
  then show ?thesis using ok e by simp
next
  case False
  then obtain k where "r = Inr k" "0 < k" by (cases r) auto
  from h [OF this] show ?thesis
    by (intro payloads_logged [OF ok]) (use v inv_events_view [OF inv] in auto)
qed

lemma update_payloads:
  assumes ok: "payloads_ok J s" and s: "store_inv s" "seqs_below N s" "Suc N < 2 ^ 64"
    and r: "updateOne J inp i item s = (r, s')"
  shows "payloads_ok J s'"
  using s r
proof (cases rule: updateOne_cases)
  case none
  then show ?thesis using ok by simp
next
  case (found it p b' s1)
  have va: "payload_valid (Payload it)"
    using found(1) validateUpdateItem_Inr(5) [OF found(1)]
    by (simp add: payload_valid_def validateUpdateItem_def sized_Inr firstErr_None)
  have b: "buf_ok (bufs s ! p)" using found(6) by (simp add: scope_ok_def)
  have "payloads_ok J s1"
    by (rule payloads_adds [OF ok found(4) update_adds [OF b found(3)] view_of_buf [OF found(2)]]) (simp add: stored_ok_def va)
  then show ?thesis by (rule payloads_hit [OF _ s(1) found(4,8,9)])
qed

lemma delete_payloads:
  assumes ok: "payloads_ok J s" and s: "store_inv s" "seqs_below N s" "Suc N < 2 ^ 64"
    and r: "deleteOne J inp i capq n k q u s = (r, s')"
  shows "payloads_ok J s'"
  using s r
proof (cases rule: deleteOne_cases)
  case none
  then show ?thesis using ok by simp
next
  case (found p b' s1)
  have b: "buf_ok (bufs s ! p)" using found(6) by (simp add: scope_ok_def)
  have "payloads_ok J s1"
    by (rule payloads_adds [OF ok found(4) delete_adds [OF b found(3)] view_of_buf [OF found(2)]]) simp
  then show ?thesis by (rule payloads_hit [OF _ s(1) found(4,8,9)])
qed

lemma deleteUpTo_payloads:
  assumes ok: "payloads_ok J s" and s: "store_inv s" "seqs_below N s" "Suc N < 2 ^ 64"
    and r: "deleteUpTo J inp i n m u s = (r, s')"
  shows "payloads_ok J s'"
  using s r
proof (cases rule: deleteUpTo_cases)
  case none
  then show ?thesis using ok by simp
next
  case (found p b' s1)
  have b: "buf_ok (bufs s ! p)" using found(6) by (simp add: scope_ok_def)
  have "payloads_ok J s1"
    by (rule payloads_adds [OF ok found(4) drain_adds [OF b found(3)] view_of_buf [OF found(2)]]) simp
  then show ?thesis by (rule payloads_hit [OF _ s(1) found(4,8,9)])
qed

lemma deleteScope_payloads:
  assumes ok: "payloads_ok J s" and s: "store_inv s" "seqs_below N s" "0 < N" "Suc N < 2 ^ 64"
    and r: "deleteScope J inp i n s = (r, s')"
  shows "payloads_ok J s'"
  using s r
proof (cases rule: deleteScope_cases)
  case none
  then show ?thesis using ok by simp
next
  case (found p s1)
  note k = removeScope_ok [OF s(1) found(2,1), where now = "fst (inp i)", folded found(4)]
  have "payloads_ok J s1" using ok by (auto simp: payloads_ok_def k(3))
  then show ?thesis by (rule payloads_logged [OF _ _ found(7)]) (use inv_events_view [OF k(1)] in simp)
qed

subsection \<open>The bulk operations\<close>

lemma batch_stored:
  assumes p: "prepare_loop J bi ep s grouped = Inr x" and m: "map_of (map (batchItems J bi) grouped) n = Some xs" and x: "y \<in> set xs"
  shows "stored_ok J n y"
  using batch_valid [OF prepare_valid [OF p] m x] by (simp add: stored_ok_def)

lemma warm_payloads:
  assumes ok: "payloads_ok J s" and s: "store_inv s" "distinct (map fst grouped)" "seqs_below N s" "batchLen grouped < N" "Suc N < 2 ^ 64"
    and r: "replaceScopes J inp i bi grouped s = (r, s')"
  shows "payloads_ok J s'"
  using s r
proof (cases rule: replaceScopes_cases)
  case (failed e)
  then show ?thesis using ok by simp
next
  case (okay s1)
  obtain x where p: "prepare_loop J bi ''/warm'' s grouped = Inr x"
    using r okay(1) by (cases "prepare_loop J bi ''/warm'' s grouped") (auto simp: replaceScopes_def)
  have "payloads_ok J s1"
    using ok batch_stored [OF p] by (auto simp: payloads_ok_def okay(3) map_add_Some_iff)
  then show ?thesis using okay(5) payloads_logged [of J s1 "[]" _ s'] inv_events_view [OF okay(2)]
    by (cases "grouped = []") auto
qed

lemma wipe_payloads: "store_inv s \<Longrightarrow> wipe now now' s = (r, s') \<Longrightarrow> payloads_ok J s'"
  by (simp add: payloads_ok_def wipe_facts(3))

lemma rebuild_payloads:
  assumes ok: "payloads_ok J s" and s: "store_inv s" "distinct (map fst grouped)" "batchLen grouped < 2 ^ 64"
    and r: "rebuildAll J now now' bi grouped s = (r, s')"
  shows "payloads_ok J s'"
  using s r
proof (cases rule: rebuildAll_cases)
  case (failed e)
  then show ?thesis using ok by simp
next
  case okay
  obtain x where p: "prepare_loop J bi ''/rebuild'' s grouped = Inr x"
    using r okay(1) by (cases "prepare_loop J bi ''/rebuild'' s grouped") (auto simp: rebuildAll_def)
  show ?thesis
    unfolding payloads_ok_def okay(4) using batch_stored [OF p] by (auto split: if_splits)
qed

subsection \<open>Scope creation and subscriptions\<close>

lemma ensureScope_payloads:
  assumes ok: "payloads_ok J s" and inv: "store_inv s" and n: "n \<noteq> []" and r: "ensureScope now n s = (r, s')"
  shows "payloads_ok J s'"
proof (cases "s' = s")
  case False
  then obtain k m a1 where g: "getScope s n = None" and rb: "reserveBytes scopeBufferOverhead (acct s) = (True, k, m, a1)"
    and e: "s' = (addScopeCount 1 (linkScope n (store_newscopeBuffer now s) (s\<lparr>acct := a1\<rparr>)))
      \<lparr>acct := bumpLastWriteTS (bufLastWriteTS (store_newscopeBuffer now s))
        (acct (addScopeCount 1 (linkScope n (store_newscopeBuffer now s) (s\<lparr>acct := a1\<rparr>))))\<rparr>"
    using r by (auto simp: ensureScope_def Let_def split: option.splits prod.splits if_splits dest: reserveBytes_False(1))
  have so: "store_ok s" "reserved_ok s" using inv by (simp_all add: store_inv_def)
  have "view s' = (view s)(n := Some [])" unfolding e bump_facts(2) by (rule created_ok(3) [OF so g n rb refl])
  then show ?thesis by (rule payloads_upd [OF ok]) simp
qed (simp add: ok)

section \<open>Every step\<close>

lemma step_payloads:
  assumes "store_step J w s s'" "payloads_ok J s" "store_inv s" "seqs_below N s" "0 < N" "N + w < 2 ^ 64"
  shows "payloads_ok J s'"
  using assms(1)
proof (cases rule: store_step.cases)
  case (warm inp i bi grouped r)
  have q: "seqs_below (N + batchLen grouped) s" by (rule seqs_below_mono [OF assms(4)]) simp
  have b: "batchLen grouped < N + batchLen grouped" "Suc (N + batchLen grouped) < 2 ^ 64"
    using assms(5,6) warm(1) by simp_all
  show ?thesis by (rule warm_payloads [OF assms(2,3) warm(3) q b warm(2)])
next
  case (rebuild now now' bi grouped r)
  have "batchLen grouped < 2 ^ 64" using assms(6) rebuild(1) by simp
  then show ?thesis by (rule rebuild_payloads [OF assms(2,3) rebuild(3) _ rebuild(2)])
next
  case (wipe now now' r)
  show ?thesis by (rule wipe_payloads [OF assms(3) wipe(2)])
next
  case (ensure now n r)
  show ?thesis by (rule ensureScope_payloads [OF assms(2,3) ensure(3,2)])
next
  case (subscribe n r)
  have "data_eq s s'" using subscribe(2) by (auto simp: data_eq_def Subscribe_def Let_def split: if_splits option.splits)
  then show ?thesis by (rule payloads_same [OF assms(2) data_eq_facts(2)])
next
  case (unsubscribe n)
  have "data_eq s s'" by (simp add: unsubscribe(2) data_eq_def unsubscribe_def split: option.split)
  then show ?thesis by (rule payloads_same [OF assms(2) data_eq_facts(2)])
next
  case (append inp i it r)
  then show ?thesis using append_payloads [OF assms(2-5) _ append(2)] assms(6) by simp
next
  case (upsert inp i it r)
  then show ?thesis using upsert_payloads [OF assms(2-5) _ upsert(2)] assms(6) by simp
next
  case (counter_add inp i n k d r)
  then show ?thesis using counterAdd_payloads [OF assms(2-5) _ counter_add(2)] assms(6) by simp
next
  case (update inp i it r)
  then show ?thesis using update_payloads [OF assms(2-4) _ update(2)] assms(6) by simp
next
  case (delete inp i capq n k q u r)
  then show ?thesis using delete_payloads [OF assms(2-4) _ delete(2)] assms(6) by simp
next
  case (delete_up_to inp i n m u r)
  then show ?thesis using deleteUpTo_payloads [OF assms(2-4) _ delete_up_to(2)] assms(6) by simp
next
  case (delete_scope inp i n r)
  then show ?thesis using deleteScope_payloads [OF assms(2-5) _ delete_scope(2)] assms(6) by simp
next
  case (head now n m l r)
  then show ?thesis using payloads_same [OF assms(2)] head_good [OF assms(3,4)] by simp
next
  case (tail now n l off r)
  then show ?thesis using payloads_same [OF assms(2)] tail_good [OF assms(3,4)] by simp
next
  case (get now n k q u r)
  then show ?thesis using payloads_same [OF assms(2)] get_good [OF assms(3,4)] by simp
next
  case (render now n k q u r)
  then show ?thesis using payloads_same [OF assms(2)] render_good [OF assms(3,4)] by simp
qed

lemma reachable_payloads:
  assumes "reachable J c N s" "cfgMaxStoreBytes c \<le> MaxInt64" "N < 2 ^ 64"
  shows "payloads_ok J s"
  using assms(1,3)
proof induction
  case (start seed now)
  then show ?case using newStore_ok(3) [OF assms(2)] by (simp add: payloads_ok_def)
next
  case (step N s w s')
  have N: "N < 2 ^ 64" using step.prems by simp
  show ?case
    by (rule step_payloads [OF step.hyps(2) step.IH [OF N] reachable_inv(1-3) [OF step.hyps(1) assms(2) N] step.prems])
qed

end
