(* ===== verification/Bodies.thy ===== *)
theory Bodies
  imports Json_Bodies Http_Laws Payloads
begin

text \<open>
  What the handlers write under the content type \<^verbatim>\<open>application/json\<close> is valid JSON: the items a read finds in a reachable state have
  payloads that fit into a page (theory \<open>Payloads\<close>), the pages and envelopes around them are objects (theory \<open>Json_Bodies\<close>), and
  every handler answers with one of those.
\<close>

section \<open>Objects\<close>

definition plain_key :: "string \<Rightarrow> bool" where
  "plain_key = list_all plain_char"

lemma plain_keys [simp]:
  "plain_key ''ok''" "plain_key ''hit''" "plain_key ''count''" "plain_key ''offset''"
  "plain_key ''truncated''" "plain_key ''items''" "plain_key ''approx_response_mb''"
  "plain_key ''scopes''" "plain_key ''item''" "plain_key ''scope''" "plain_key ''id''"
  "plain_key ''seq''" "plain_key ''ts''" "plain_key ''uuid''" "plain_key ''event_uuid''"
  "plain_key ''event''" "plain_key ''payload''" "plain_key ''item_count''"
  "plain_key ''last_seq''" "plain_key ''first_uuid''" "plain_key ''last_uuid''"
  "plain_key ''approx_scope_mb''" "plain_key ''created_ts''" "plain_key ''last_write_ts''"
  "plain_key ''last_access_ts''" "plain_key ''read_count_total''" "plain_key ''created''"
  "plain_key ''value''" "plain_key ''freed_mb''" "plain_key ''approx_store_mb''"
  "plain_key ''events_drops_total''" "plain_key ''reserved_scopes''" "plain_key ''cap''"
  "plain_key ''error''" "plain_key ''added_mb''" "plain_key ''max_store_mb''"
  "plain_key ''max_response_mb''"
  by code_simp+

lemmas object_value = value_object [folded plain_key_def]
lemmas object_valid = valid_object [folded plain_key_def]

lemma value_up: "is_value 0 v \<Longrightarrow> is_value d v"
  using is_value_mono [of 0 v d] by simp

lemma value_MB_JSON [json_values]: "is_value 0 (MB_MarshalJSON m)"
  by (simp add: MB_MarshalJSON_def value_MB)

lemmas json_up = json_values [THEN value_up] value_literals [THEN value_up] value_uint [THEN value_up] value_int [THEN value_up]

lemma value_item:
  assumes "strings_ok J" "payload_fits d it" shows "is_value (Suc d) (AppendItemJSON J [] it)"
  unfolding item_is_object
  by (rule object_value) (use assms in \<open>auto simp: itemFields_def payload_fits_def intro!: json_up\<close>)

lemma item_opens: "\<exists>t. AppendItemJSON J [] it = CHR ''{'' # t"
  by (simp add: item_is_object)

lemma value_entry: "strings_ok J \<Longrightarrow> is_value 1 (appendScopeListEntryJSON J [] e)"
  unfolding entry_is_object One_nat_def by (rule object_value) (auto simp: entryFields_def intro!: json_up)

lemma value_items:
  assumes "strings_ok J" "\<forall>it \<in> set its. payload_fits d it"
  shows "is_value (Suc (Suc d)) (jsonArray (map (AppendItemJSON J []) its))"
  by (rule value_array) (use assms item_opens in \<open>auto intro: value_item\<close>)

section \<open>The bodies of the reads\<close>

lemma newline_ws: "\<forall>c \<in> set [CHR 0x0A]. json_ws c"
  by (simp add: json_ws_def)

lemma page_valid:
  assumes "strings_ok J" "\<forall>it \<in> set its. payload_fits d it" "Suc (Suc d) < maxNestingDepth"
  shows "json_valid (itemsBody J its tr off)"
proof -
  from page_is_object [of J its tr off] obtain mb where e: "itemsBody J its tr off = jsonObject
      ([(''ok'', ''true''), (''hit'', appendBool (length its > 0)), (''count'', appendInt (int (length its)))] @
       (case off of None \<Rightarrow> [] | Some k \<Rightarrow> [(''offset'', appendInt k)]) @
       [(''truncated'', appendBool tr), (''items'', jsonArray (map (AppendItemJSON J []) its)),
        (''approx_response_mb'', appendMB mb)]) @ [CHR 0x0A]" ..
  show ?thesis unfolding e
    by (rule object_valid [OF _ assms(3) newline_ws])
      (use assms in \<open>auto split: option.splits intro!: json_up value_items\<close>)
qed

lemma one_digit: "appendUint 0 = ''0''" "appendUint 1 = ''1''"
  by code_simp+

lemma get_valid:
  assumes "strings_ok J" "\<forall>it. itm = Some it \<longrightarrow> payload_fits d it" "Suc d < maxNestingDepth"
  shows "json_valid (getBody J itm)"
proof -
  from get_is_object [of J itm] obtain mb where e: "getBody J itm = jsonObject
      [(''ok'', ''true''), (''hit'', appendBool (itm \<noteq> None)), (''count'', if itm = None then ''0'' else ''1''),
        (''item'', case itm of None \<Rightarrow> ''null'' | Some it \<Rightarrow> AppendItemJSON J [] it), (''approx_response_mb'', appendMB mb)] @ [CHR 0x0A]" ..
  have n: "is_value n ''0''" "is_value n ''1''" for n
    using value_up [OF value_uint [of 0], of n] value_up [OF value_uint [of 1], of n] unfolding one_digit by simp_all
  show ?thesis unfolding e
    by (rule object_valid [OF _ assms(3) newline_ws])
      (use assms in \<open>auto simp: n split: option.splits intro!: json_up value_item\<close>)
qed

lemma scopeList_valid:
  assumes "strings_ok J" shows "json_valid (scopeListBody J es tr)"
proof -
  from scopeList_is_object [of J es tr] obtain mb where e: "scopeListBody J es tr = jsonObject
      [(''ok'', ''true''), (''hit'', appendBool (length es > 0)), (''count'', appendInt (int (length es))),
        (''truncated'', appendBool tr), (''scopes'', jsonArray (map (appendScopeListEntryJSON J []) es)),
        (''approx_response_mb'', appendMB mb)] @ [CHR 0x0A]" ..
  have "is_value 2 (jsonArray (map (appendScopeListEntryJSON J []) es))"
    unfolding numeral_2_eq_2
    by (rule value_array) (use value_entry [OF assms] in \<open>auto simp: entry_is_object\<close>)
  moreover have "2 < maxNestingDepth" by (simp add: maxNestingDepth_def)
  ultimately show ?thesis unfolding e
    by (intro object_valid [OF _ _ newline_ws, of _ 2]) (use assms in \<open>auto intro!: json_up\<close>)
qed

section \<open>The envelopes\<close>

lemma value_opened: "\<forall>kv \<in> set kvs. plain_key (fst kv) \<and> is_value 0 (snd kv) \<Longrightarrow> is_value 1 (jsonObject kvs)"
  unfolding One_nat_def by (rule object_value)

lemma value_ack: "strings_ok J \<Longrightarrow> is_value 1 (writeAck_JSON J a)"
  unfolding writeAck_JSON_def by (rule value_opened) (auto split: option.split intro!: json_up)

lemma value_reserved: "strings_ok J \<Longrightarrow> is_value 1 (reservedScopeEntry_JSON J e)"
  unfolding reservedScopeEntry_JSON_def by (rule value_opened) (auto intro!: json_up)

lemma value_offender: "strings_ok J \<Longrightarrow> is_value 1 (ScopeCapacityOffender_JSON J f)"
  unfolding ScopeCapacityOffender_JSON_def case_prod_beta by (rule value_opened) (auto intro!: json_up)

lemma value_list:
  assumes "\<And>x. is_value 1 (f x)" "\<And>x. \<exists>t. f x = CHR ''{'' # t" shows "is_value 2 (jsonArray (map f xs))"
  unfolding numeral_2_eq_2 by (rule value_array) (use assms in \<open>auto simp: One_nat_def\<close>)

lemma envelope_members:
  assumes J: "strings_ok J"
  shows "\<forall>kv \<in> set (successFields J e). plain_key (fst kv) \<and> is_value 2 (snd kv)"
    and "errorFields J q e = Some fs \<Longrightarrow> \<forall>kv \<in> set fs. plain_key (fst kv) \<and> is_value 2 (snd kv)"
proof -
  have ack: "is_value 2 (writeAck_JSON J a)" for a
    using is_value_mono [OF value_ack [OF J], of 2] by simp
  have l: "is_value 2 (jsonArray (map (reservedScopeEntry_JSON J) xs))" for xs
    by (rule value_list [OF value_reserved [OF J]]) (simp add: reservedScopeEntry_JSON_def)
  have off: "is_value 2 (jsonArray (map (ScopeCapacityOffender_JSON J) ys))" for ys
    by (rule value_list [OF value_offender [OF J]]) (simp add: ScopeCapacityOffender_JSON_def case_prod_beta)
  show "\<forall>kv \<in> set (successFields J e). plain_key (fst kv) \<and> is_value 2 (snd kv)"
    by (cases e) (auto simp: J ack l intro!: json_up)
  show "errorFields J q e = Some fs \<Longrightarrow> \<forall>kv \<in> set fs. plain_key (fst kv) \<and> is_value 2 (snd kv)"
    by (cases e) (auto simp: J off intro!: json_up)
qed

lemma envelope_valid:
  assumes "strings_ok J" shows "\<exists>b. MarshalEnvelope J q e = Some b \<and> json_valid (b @ [CHR 0x0A])"
proof -
  have d: "2 < maxNestingDepth" by (simp add: maxNestingDepth_def)
  note v = object_valid [OF _ d newline_ws]
  show ?thesis
  proof (cases "errorFields J q e")
    case None
    have "json_valid (jsonObject ((''ok'', ''true'') # successFields J e) @ [CHR 0x0A])"
      by (rule v) (use envelope_members(1) [OF assms] in \<open>auto intro!: json_up\<close>)
    then show ?thesis by (simp add: MarshalEnvelope_def None)
  next
    case (Some fs)
    have "json_valid (jsonObject ((''ok'', ''false'') # fs) @ [CHR 0x0A])"
      by (rule v) (use envelope_members(2) [OF assms Some] in \<open>auto intro!: json_up\<close>)
    then show ?thesis by (simp add: MarshalEnvelope_def Some)
  qed
qed

section \<open>What a read finds\<close>

text \<open>
  \<open>shallow\<close> leaves room for the three containers of a page around a payload.
\<close>

definition shallow :: "store \<Rightarrow> bool" where
  "shallow s \<longleftrightarrow> (\<forall>n xs. view s n = Some xs \<longrightarrow> (\<forall>x \<in> set xs. counter x = None \<longrightarrow> json_depth (Payload x) + 3 \<le> maxNestingDepth))"

definition events_json :: "jsonLib \<Rightarrow> bool" where
  "events_json J \<longleftrightarrow> (\<forall>e b. marshalEvent J e = Some b \<longrightarrow> json_valid b)"

lemma payload_valid_json: "payload_valid p \<Longrightarrow> json_valid p"
  by (auto simp: payload_valid_def validatePayload_def split: if_splits)

lemma stored_fits:
  assumes p: "payloads_ok J s" and e: "events_json J" and d: "shallow s" and x: "view s n = Some xs" "x \<in> set xs"
  shows "payload_fits (maxNestingDepth - 3) (materialiseCounter x)"
proof (cases "counter x")
  case None
  have "stored_ok J n x" using p x by (simp add: payloads_ok_def)
  then have "json_valid (Payload x)" using None e payload_valid_json by (auto simp: stored_ok_def events_json_def)
  moreover have "json_depth (Payload x) \<le> maxNestingDepth - 3" using d x None by (fastforce simp: shallow_def)
  ultimately show ?thesis using None valid_is_value by (simp add: payload_fits_def materialiseCounter_def)
next
  case (Some c)
  then show ?thesis by (simp add: payload_fits_def materialiseCounter_def renderCounterPayload_def value_up)
qed

text \<open>A text of \<open>n\<close> bytes opens at most \<open>n\<close> containers, so a store whose cap is below the limit is shallow.\<close>

lemma step_length:
  assumes "scan_step st ps c = Some (st', ps')" shows "length ps' \<le> Suc (length ps)"
proof -
  have e: "length qs' \<le> length qs" if "step_EndValue qs c = Some (t, qs')" for qs qs' t
    using that by (cases qs) (auto simp: step_EndValue_def pop_state_def split: if_splits pstate.splits)
  have b: "length qs' \<le> Suc (length qs)" if "step_BeginValue qs c = Some (t, qs')" for qs qs' t
    using that by (auto simp: step_BeginValue_def push_state_def split: if_splits)
  have n: "length qs' \<le> length qs" if "step_Num0 qs c = Some (t, qs')" for qs qs' t
    using that by (auto simp: step_Num0_def split: if_splits dest: e)
  show ?thesis
  proof (cases st)
    case BeginStringOrEmpty
    show ?thesis using assms BeginStringOrEmpty e [of "ParseObjectValue # tl ps"]
      by (force simp: step_BeginString_def split: if_splits)
  next
    case BeginValueOrEmpty
    then show ?thesis using assms e [of ps st' ps'] b [of ps st' ps'] by (simp split: if_splits)
  qed (use assms in \<open>auto simp: step_BeginString_def step_ESign_def split: if_splits list.splits dest!: e b n\<close>)
qed

lemma scan_depth_le: "scan_depth st ps t \<le> length ps + length t"
proof (induction t arbitrary: st ps)
  case (Cons c t)
  show ?case
  proof (cases "scan_step st ps c")
    case (Some y)
    then show ?thesis using step_length [of st ps c "fst y" "snd y"] Cons [of "fst y" "snd y"] by (simp add: case_prod_beta)
  qed simp
qed simp

lemma small_shallow:
  assumes s: "store_inv s" and m: "maxStoreBytes (acct s) + 3 \<le> int maxNestingDepth"
  shows "shallow s"
  unfolding shallow_def
proof (intro allI impI ballI)
  fix n xs x assume v: "view s n = Some xs" and x: "x \<in> set xs" and c: "counter x = None"
  obtain p where p: "getScope s n = Some p" "xs = bufItems (bufs s ! p)" using v by (auto simp: view_def)
  have so: "store_ok s" using s by (simp add: store_inv_def)
  then have sp: "(n, p) \<in> set (scopes s)" using p(1) getScope_iff by (auto simp: store_ok_def)
  have b: "bytes (bufs s ! p) = sizeSum xs"
    using store_scope_ok [OF so sp] p(2) by (simp add: scope_ok_def buf_ok_def)
  have "approxItemSize x \<le> sizeSum xs" unfolding sizeSum_def
    by (rule member_le_sum_list) (use x in auto)
  moreover have "int (length (Payload x)) \<le> approxItemSize x"
    using c by (simp add: approxItemSize_split payloadAndRenderBytes_def)
  moreover have "sizeSum xs \<le> totalBytes (acct s)" using store_totals(1) [OF so sp] b by (simp add: scopeBufferOverhead_def)
  moreover have "totalBytes (acct s) \<le> maxStoreBytes (acct s)" using so by (simp add: store_ok_def caps_ok_def)
  ultimately have "length (Payload x) + 3 \<le> maxNestingDepth" using m by linarith
  then show "json_depth (Payload x) + 3 \<le> maxNestingDepth"
    using scan_depth_le [of BeginValue "[]" "Payload x"] by (simp add: json_depth_def)
qed

text \<open>An item that a read returns is one of the scope, its counter materialised.\<close>

definition drawn :: "store \<Rightarrow> item \<Rightarrow> bool" where
  "drawn s x \<longleftrightarrow> (\<exists>n xs. view s n = Some xs \<and> (\<exists>y \<in> set xs. x = materialiseCounter y))"

lemma shown_drawn: "getScope s n = Some p \<Longrightarrow> x \<in> set (shown (bufs s ! p)) \<Longrightarrow> drawn s x"
  by (auto simp: drawn_def shown_def view_def)

lemma window_shown:
  "x \<in> set (fst (tailOffset l off b)) \<Longrightarrow> x \<in> set (shown b)"
  "buf_ok b \<Longrightarrow> x \<in> set (fst (sinceSeq m l b)) \<Longrightarrow> x \<in> set (shown b)"
proof -
  show "x \<in> set (fst (tailOffset l off b)) \<Longrightarrow> x \<in> set (shown b)"
    using tailOffset_window(1) [of l off b]
    by (cases "l > 0 \<and> off \<ge> 0") (auto simp: tailOffset_def Let_def dest!: in_set_dropD in_set_takeD)
  show "buf_ok b \<Longrightarrow> x \<in> set (fst (sinceSeq m l b)) \<Longrightarrow> x \<in> set (shown b)"
    using sinceSeq_window(1) [of b l m] by (cases "l > 0") (auto simp: sinceSeq_def dest!: in_set_takeD)
qed

lemma lookup_shown:
  assumes "buf_ok b" "lookupTarget k q u b = Some x" shows "x \<in> set (shown b)"
proof -
  have u: "x \<in> set (shown b)" if "getByUUID v b = Some x" for v
    using that byUUID_live [OF assms(1), of v] by (auto simp: getByUUID_def shown_iff split: option.splits)
  show ?thesis
    using assms(2) byId.lookup_iff [OF assms(1)] bySq.lookup_iff [OF assms(1)] u
    by (auto simp: lookupTarget_def split: if_splits option.splits)
qed

lemma reads_drawn:
  assumes "store_inv s"
  shows "head now n m l s = (Some (its, tr), s') \<Longrightarrow> x \<in> set its \<Longrightarrow> drawn s x"
    and "tail now n l off s = (Some (its, tr), s') \<Longrightarrow> x \<in> set its \<Longrightarrow> drawn s x"
    and "store_get now n k q u s = (Some x, s') \<Longrightarrow> drawn s x"
proof -
  note b = scope_buf_ok [OF assms]
  show "drawn s x" if h: "head now n m l s = (Some (its, tr), s')" and x: "x \<in> set its"
  proof -
    obtain p where p: "getScope s n = Some p" "fst (sinceSeq m l (bufs s ! p)) = its"
      using h by (auto simp: head_def split: option.splits prod.splits)
    show ?thesis using window_shown(2) [OF b [OF p(1)], of x m l] x p by (intro shown_drawn [OF p(1)]) simp
  qed
  show "drawn s x" if t: "tail now n l off s = (Some (its, tr), s')" and x: "x \<in> set its"
  proof -
    obtain p where p: "getScope s n = Some p" "fst (tailOffset l off (bufs s ! p)) = its"
      using t by (auto simp: tail_def split: option.splits prod.splits)
    show ?thesis using window_shown(1) [of x l off "bufs s ! p"] x p by (intro shown_drawn [OF p(1)]) simp
  qed
  show "drawn s x" if g: "store_get now n k q u s = (Some x, s')"
  proof -
    obtain p where p: "getScope s n = Some p" "lookupTarget k q u (bufs s ! p) = Some x"
      using g by (auto simp: store_get_def split: option.splits)
    show ?thesis by (rule shown_drawn [OF p(1) lookup_shown [OF b [OF p(1)] p(2)]])
  qed
qed

section \<open>Every response\<close>

definition json_response :: "httpResponse \<Rightarrow> bool" where
  "json_response p \<longleftrightarrow> (contentType p = jsonType \<longrightarrow> json_valid (respBody p))"

lemma response_envelope [simp]: "strings_ok J \<Longrightarrow> json_response (writeJSONResponse (MarshalEnvelope J q) w c e)"
  using envelope_valid [of J q e] by (auto simp: json_response_def writeJSONResponse_def)

lemma response_errors [simp]:
  assumes "strings_ok J"
  shows "json_response (badRequest (MarshalEnvelope J q) w m)" "json_response (conflict (MarshalEnvelope J q) w m)"
    "json_response (scopeFull (MarshalEnvelope J q) w offs)" "json_response (storeFull (MarshalEnvelope J q) w x y z)"
    "json_response (responseTooLarge (MarshalEnvelope J q) w x y)" "json_response (methodNotAllowed (MarshalEnvelope J q) w t)"
  using assms by (simp_all add: badRequest_def conflict_def scopeFull_def storeFull_def responseTooLarge_def methodNotAllowed_def Let_def)

lemma response_mutation [simp]:
  assumes "strings_ok J"
  shows "json_response (writeMutationError (MarshalEnvelope J q) w e n)" "json_response (counterError (MarshalEnvelope J q) e n)"
    "json_response (deleteError (MarshalEnvelope J q) e)"
  using assms by (auto simp: writeMutationError_def counterError_def deleteError_def writeStoreCapacityError_def split: goError.split)

text \<open>A page of items that fit.\<close>

lemma response_page:
  assumes J: "strings_ok J" and its: "\<forall>it \<in> set its. payload_fits (maxNestingDepth - 3) it"
  shows "json_response (writeHeadResponse (MarshalEnvelope J q) J api its tr)"
    "json_response (writeTailResponse (MarshalEnvelope J q) J api its tr off)"
proof -
  have d: "Suc (Suc (maxNestingDepth - 3)) < maxNestingDepth" by (simp add: maxNestingDepth_def)
  have "json_response (writeItemsResponse (MarshalEnvelope J q) J api its tr off)" for off
    using page_valid [OF J its d] J by (simp add: writeItemsResponse_def Let_def) (simp add: json_response_def)
  then show "json_response (writeHeadResponse (MarshalEnvelope J q) J api its tr)"
    "json_response (writeTailResponse (MarshalEnvelope J q) J api its tr off)"
    using J by (simp_all add: writeHeadResponse_def writeTailResponse_def Let_def)
qed

lemma response_get:
  assumes J: "strings_ok J" and it: "\<forall>it. itm = Some it \<longrightarrow> payload_fits (maxNestingDepth - 3) it"
  shows "json_response (writeGetResponse J itm)"
proof -
  have "Suc (maxNestingDepth - 3) < maxNestingDepth" by (simp add: maxNestingDepth_def)
  from get_valid [OF J it this] show ?thesis by (simp add: json_response_def writeGetResponse_def)
qed

lemma response_scopeList:
  assumes "strings_ok J" shows "json_response (writeScopeListResponse (MarshalEnvelope J q) J api es tr)"
  using assms scopeList_valid [OF assms, of es tr] by (simp add: writeScopeListResponse_def Let_def) (simp add: json_response_def)

lemma response_other:
  "contentType p = octetType \<or> contentType p = plainType \<Longrightarrow> json_response p"
  by (auto simp: json_response_def jsonType_def octetType_def plainType_def)

lemma write_responses:
  assumes J: "strings_ok J"
  shows "json_response (fst (handleAppend (MarshalEnvelope J q) J inp i api r1 s))"
    "json_response (fst (handleUpsert (MarshalEnvelope J q) J inp i api r1 s))"
    "json_response (fst (handleUpdate (MarshalEnvelope J q) J inp i api r1 s))"
    "json_response (fst (handleCounterAdd (MarshalEnvelope J q) J inp i api r2 s))"
    "json_response (fst (handleDelete (MarshalEnvelope J q) J inp i capq api r3 s))"
    "json_response (fst (handleDeleteUpTo (MarshalEnvelope J q) J inp i api r4 s))"
    "json_response (fst (handleDeleteScope (MarshalEnvelope J q) J inp i api r5 s))"
    "json_response (fst (handleWipe (MarshalEnvelope J q) now now' r6 s))"
    "json_response (fst (handleWarm (MarshalEnvelope J q) J inp i bi ord api r7 s))"
    "json_response (fst (handleRebuild (MarshalEnvelope J q) J now now' bi ord api r7 s))"
    "json_response (fst (handleStats (MarshalEnvelope J q) r6 s))"
  by (simp_all add: J handler_defs handleWipe_def handleStats_def Let_def split: sum.split prod.split option.split)

lemma read_responses:
  assumes J: "strings_ok J" and s: "store_inv s" and fits: "\<And>x. drawn s x \<Longrightarrow> payload_fits (maxNestingDepth - 3) x"
  shows "json_response (fst (handleHead (MarshalEnvelope J q) J now api r s))"
    "json_response (fst (handleTail (MarshalEnvelope J q) J now api r s))"
    "json_response (fst (handleGet (MarshalEnvelope J q) J now r s))"
    "json_response (fst (handleRender (MarshalEnvelope J q) now r s))"
    "json_response (fst (handleScopeList (MarshalEnvelope J q) J api r s))"
    "json_response (fst (handleHelp r s))"
proof -
  note d = reads_drawn [OF s, THEN fits]
  show "json_response (fst (handleHead (MarshalEnvelope J q) J now api r s))"
    by (auto simp: J handleHead_def Let_def split: sum.split prod.split option.split intro!: response_page dest: d(1))
  show "json_response (fst (handleTail (MarshalEnvelope J q) J now api r s))"
    by (auto simp: J handleTail_def split: sum.split prod.split option.split intro!: response_page dest: d(2))
  show "json_response (fst (handleGet (MarshalEnvelope J q) J now r s))"
    by (auto simp: J handleGet_def split: sum.split prod.split intro!: response_get dest: d(3))
  show "json_response (fst (handleRender (MarshalEnvelope J q) now r s))"
    by (auto simp: J handleRender_def split: sum.split prod.split option.split intro: response_other)
  show "json_response (fst (handleScopeList (MarshalEnvelope J q) J api r s))"
    by (auto simp: J handleScopeList_def Let_def response_scopeList split: sum.split prod.split option.split)
  show "json_response (fst (handleHelp r s))"
    by (auto simp: handleHelp_def intro: response_other)
qed

lemma route_response:
  assumes J: "strings_ok J" "events_json J" and s: "store_inv s" "payloads_ok J s" "shallow s"
  shows "json_response (fst (RegisterRoutes (MarshalEnvelope J qv) J inp i api q s))"
proof -
  have "payload_fits (maxNestingDepth - 3) x" if "drawn s x" for x
    using that stored_fits [OF s(2) J(2) s(3)] by (auto simp: drawn_def)
  note r = read_responses [OF J(1) s(1) this] write_responses [OF J(1)]
  show ?thesis by (cases q) (simp_all only: RegisterRoutes.simps r)
qed

section \<open>A payload that nests too deep\<close>

lemma strip_none: "\<forall>w \<in> set ws. w \<noteq> [] \<and> hd w \<noteq> c \<Longrightarrow> strip_with ws n (c # t) = c # t"
proof (cases n)
  case (Suc k)
  assume ws: "\<forall>w \<in> set ws. w \<noteq> [] \<and> hd w \<noteq> c"
  have "\<not> is_prefix w (c # t)" if "w \<in> set ws" for w
    using ws that by (cases w) auto
  then have "find (\<lambda>w. is_prefix w (c # t)) ws = None" by (simp add: find_None_iff)
  then show ?thesis by (simp add: Suc)
qed simp

lemma deepest_accepted: "validatePayload deepest = None"
proof -
  have sp: "\<forall>w \<in> set space_runes. w \<noteq> [] \<and> hd w \<noteq> CHR ''[''" "\<forall>w \<in> set (map rev space_runes). w \<noteq> [] \<and> hd w \<noteq> CHR '']''"
    by code_simp+
  obtain k where k: "maxNestingDepth = Suc k" "Suc 0 < k" by (simp add: maxNestingDepth_def)
  have r: "rev deepest = CHR '']'' # replicate k (CHR '']'') @ replicate (Suc k) (CHR ''['')"
    by (simp add: deepest_def k(1) replicate_append_same [symmetric])
  have d: "deepest = CHR ''['' # replicate k (CHR ''['') @ replicate (Suc k) (CHR '']'')"
    by (simp add: deepest_def k(1))
  have l: "strip_with space_runes n deepest = deepest" for n unfolding d by (rule strip_none [OF sp(1)])
  have l2: "strip_with (map rev space_runes) n (rev deepest) = rev deepest" for n unfolding r by (rule strip_none [OF sp(2)])
  have "trimSpace deepest = deepest" by (simp add: trimSpace_def Let_def l l2)
  moreover have "deepest \<noteq> ''null''" "deepest \<noteq> []" by (simp_all add: d)
  moreover have "utf8_valid deepest" by (rule utf8_valid_ascii) (auto simp: deepest_def split: if_splits)
  ultimately show ?thesis using deepest_valid by (simp add: validatePayload_def)
qed

text \<open>An object whose members before one are values, and that one is not.\<close>

lemma members_fail:
  assumes "\<forall>kv \<in> set kvs. list_all plain_char (fst kv) \<and> is_value d (snd kv)" "Suc (length ctx) + d \<le> maxNestingDepth"
    "st = BeginString \<or> st = BeginStringOrEmpty" "list_all plain_char k"
    "\<And>r. scan_all BeginValue (ParseObjectValue # ctx) (v @ r) = None"
  shows "scan_all st (ParseObjectKey # ctx) (joined (map member_text (kvs @ (k, v) # kws)) @ after) = None"
  using assms(1,3)
proof (induction kvs arbitrary: st)
  case Nil
  obtain r where r: "joined (map member_text ((k, v) # kws)) @ after = CHR 0x22 # k @ CHR 0x22 # CHR '':'' # v @ r"
    by (cases kws) (auto simp: member_text_def)
  have "scan_step st (ParseObjectKey # ctx) (CHR 0x22) = Some (InString, ParseObjectKey # ctx)"
    using Nil(2) by (auto simp: step_BeginString_def json_ws_def)
  then show ?case
    using scan_plain_chars [OF assms(4), of "ParseObjectKey # ctx" "CHR 0x22 # CHR '':'' # v @ r"] assms(5)
    by (simp only: append_Nil r) (simp add: step_EndValue_def json_ws_def)
next
  case (Cons kw kvs)
  obtain ms where ms: "joined (map member_text ((kw # kvs) @ (k, v) # kws)) =
      member_text kw @ CHR '','' # joined (map member_text (kvs @ (k, v) # kws))"
    by (cases kvs) auto
  have "scan_all st (ParseObjectKey # ctx) (member_text kw @ CHR '','' # joined (map member_text (kvs @ (k, v) # kws)) @ after) =
      scan_all EndValue (ParseObjectValue # ctx) (CHR '','' # joined (map member_text (kvs @ (k, v) # kws)) @ after)"
    by (rule member_scan) (use Cons.prems assms(2) in auto)
  also have "\<dots> = scan_all BeginString (ParseObjectKey # ctx) (joined (map member_text (kvs @ (k, v) # kws)) @ after)"
    by (simp add: step_EndValue_def json_ws_def)
  also have "\<dots> = None" by (rule Cons.IH) (use Cons.prems in auto)
  finally show ?case unfolding ms by simp
qed

lemma object_fails:
  assumes "\<forall>kv \<in> set kvs. list_all plain_char (fst kv) \<and> is_value d (snd kv)" "Suc (length ctx) + d \<le> maxNestingDepth"
    "list_all plain_char k" "\<And>r. scan_all BeginValue (ParseObjectValue # ctx) (v @ r) = None"
  shows "scan_all BeginValue ctx (jsonObject (kvs @ (k, v) # kws) @ after) = None"
proof -
  have "scan_all BeginValue ctx (CHR ''{'' # t) = scan_all BeginStringOrEmpty (ParseObjectKey # ctx) t" for t
    using assms(2) by (simp add: step_BeginValue_def json_ws_def push_state_def)
  then show ?thesis using members_fail [OF assms(1,2) _ assms(3,4)] by (simp add: jsonObject_def)
qed

lemma get_too_deep:
  assumes J: "strings_ok J" and it: "Payload it = deepest"
  shows "\<not> json_valid (getBody J (Some it))"
proof -
  from get_is_object [of J "Some it"] obtain mb where e: "getBody J (Some it) = jsonObject
      ([(''ok'', ''true''), (''hit'', ''true''), (''count'', ''1'')] @ (''item'', AppendItemJSON J [] it) #
        [(''approx_response_mb'', appendMB mb)]) @ [CHR 0x0A]" by (auto simp: appendBool_def)
  have n: "is_value 0 ''1''" using value_uint [of 1] unfolding one_digit .
  have big: "4 \<le> maxNestingDepth" "deepest \<noteq> []" by (simp_all add: maxNestingDepth_def deepest_def)
  have f: "itemFields J it = butlast (itemFields J it) @ (if Scope it = EventsScopeName then ''event'' else ''payload'', deepest) # []"
    using it big(2) by (simp add: itemFields_def)
  have "scan_all BeginValue [ParseObjectValue] (AppendItemJSON J [] it @ r) = None" for r
    unfolding item_is_object
  proof (subst f, rule object_fails [where d = 0, folded plain_key_def])
    show "\<forall>kv \<in> set (butlast (itemFields J it)). plain_key (fst kv) \<and> is_value 0 (snd kv)"
      by (auto simp: itemFields_def J intro!: json_up)
    show "scan_all BeginValue [ParseObjectValue, ParseObjectValue] (deepest @ r) = None" for r
      by (rule deepest_inside) (use big in simp_all)
  qed (use big in simp_all)
  then have "scan_all BeginValue [] (getBody J (Some it)) = None"
    unfolding e by (intro object_fails [where d = 0, folded plain_key_def]) (use big n in \<open>auto intro!: json_up\<close>)
  then show ?thesis by (simp add: json_valid_def)
qed

end
