(* ===== verification/Props_Json.thy ===== *)
theory Props_Json
  imports Sample Bodies
begin

text \<open>
  The properties about what is stored and what is sent as JSON: the payloads a scope can hold, the bodies of the
  responses, and how deep a payload may nest before the body around it is refused.
\<close>

section \<open>A library that escapes\<close>

text \<open>
  A JSON library as \<open>encoding/json\<close> documents it, as far as the witnesses run it: a byte that may not stand in a string is
  written as a \<^verbatim>\<open>\u\<close> escape, and an event is an object.
\<close>

definition escaped :: "string \<Rightarrow> string" where
  "escaped s = concat (map (\<lambda>c. if plain_char c then [c] else [CHR 0x5C] @ ''u00'' @ hexPair (of_nat (byte c))) s)"

definition strictJson :: jsonLib where
  "strictJson = sampleJson\<lparr>marshalString := (\<lambda>s. CHR 0x22 # escaped s @ [CHR 0x22]),
     marshalEvent := (\<lambda>e. Some (jsonObject [(''op'', CHR 0x22 # escaped (evOp e) @ [CHR 0x22]),
       (''scope'', CHR 0x22 # escaped (evScope e) @ [CHR 0x22])]))\<rparr>"

lemma hex_pair_is_hex: "\<exists>a b. hexPair w = [a, b] \<and> is_hex a \<and> is_hex b"
proof -
  have "\<forall>k < 16. is_hex (hexDigits ! k)" by code_simp
  then show ?thesis using high_nibble_less low_nibble_less by (auto simp: hexPair_def)
qed

lemma scan_escaped: "scan_all InString ctx (escaped s @ after) = scan_all InString ctx after"
proof (induction s)
  case (Cons c s)
  show ?case
  proof (cases "plain_char c")
    case True
    then show ?thesis using Cons by (simp add: escaped_def plain_char_def)
  next
    case False
    obtain a b where h: "hexPair (of_nat (byte c)) = [a, b]" "is_hex a" "is_hex b" using hex_pair_is_hex by blast
    show ?thesis using Cons False h by (simp add: escaped_def) (simp add: is_hex_def is_digit_def)
  qed
qed (simp add: escaped_def)

lemma json_string_escaped: "json_string (CHR 0x22 # escaped s @ [CHR 0x22])"
  using scan_escaped [of "[]" s "[]"] by (simp add: json_string_def)

lemma strict_strings: "strings_ok strictJson"
  by (simp add: strings_ok_def strictJson_def json_string_escaped)

lemma strict_events: "events_json strictJson"
proof -
  have "is_value 0 (CHR 0x22 # escaped s @ [CHR 0x22])" for s by (rule value_string [OF json_string_escaped])
  moreover have "(0::nat) < maxNestingDepth" by (simp add: maxNestingDepth_def)
  ultimately have "json_valid (jsonObject [(''op'', CHR 0x22 # escaped m @ [CHR 0x22]), (''scope'', CHR 0x22 # escaped n @ [CHR 0x22])] @ [])" for m n
    by (intro object_valid [where d = 0]) (simp_all add: plain_key_def plain_char_def)
  then show ?thesis by (auto simp: events_json_def strictJson_def)
qed

section \<open>Payloads\<close>

text \<open>C7: Whatever the cache has been through, a stored item has a payload that is fit to be served: it is a counter, whose number is
  rendered when it is read, or its payload is present, not \<^verbatim>\<open>null\<close>, valid JSON and valid UTF-8, or it is an entry of
  the event log and holds the bytes of a marshalled event.\<close>

theorem stored_payloads:
  assumes "reachable J c N s" "cfgMaxStoreBytes c \<le> MaxInt64" "N < 2 ^ 64" "view s n = Some xs" "x \<in> set xs"
  shows "counter x \<noteq> None \<or> validatePayload (Payload x) = None \<or>
    n = EventsScopeName \<and> (\<exists>e. marshalEvent J e = Some (Payload x))"
  using reachable_payloads [OF assms(1-3)] assms(4,5)
  unfolding payloads_ok_def stored_ok_def payload_valid_def by blast

theorem stored_payloads_witness:
  "\<exists>x. view sampleStore ''posts'' = Some [x] \<and> counter x = None \<and> validatePayload (Payload x) = None"
proof -
  have v: "map_option (map (\<lambda>x. (counter x, ID x))) (view sampleStore ''posts'') = Some [(None, ''a'')]" by code_simp
  then obtain x where x: "view sampleStore ''posts'' = Some [x]" "counter x = None" by auto
  have "\<not> ''posts'' = EventsScopeName" by (simp add: EventsScopeName_def)
  with stored_payloads [OF sample_reachable sample_conf _ x(1), of x] x show ?thesis by auto
qed

section \<open>Bodies\<close>

text \<open>C6: Every response of the cache that is marked as JSON is valid JSON, whatever is stored and whatever is asked: every page of items,
  every item, the list of scopes, every acknowledgement and every error, in every reachable state, provided that the JSON library writes strings
  as string literals and events as valid JSON, and that no stored payload nests so deep that the three containers of a page
  around it pass the limit of \<^verbatim>\<open>encoding/json\<close>. The last holds by itself when the cap of the store is below that
  limit.\<close>

theorem responses_are_json:
  assumes "strings_ok J" "events_json J" "reachable J c N s" "cfgMaxStoreBytes c \<le> MaxInt64" "N < 2 ^ 64"
    "shallow s \<or> maxStoreBytes (acct s) + 3 \<le> int maxNestingDepth"
    "RegisterRoutes (MarshalEnvelope J qv) J inp i api q s = (p, s')" "contentType p = jsonType"
  shows "json_valid (respBody p)"
proof -
  note s = reachable_inv [OF assms(3-5)]
  have "shallow s" using assms(6) small_shallow [OF s(1)] by blast
  from route_response [OF assms(1,2) s(1) reachable_payloads [OF assms(3-5)] this, of qv inp i api q]
  show ?thesis using assms(7,8) by (simp add: json_response_def)
qed

definition smallConf :: Config where
  "smallConf = sampleConf\<lparr>cfgMaxStoreBytes := 9000\<rparr>"

definition smallStore :: store where
  "smallStore = snd (appendOne strictJson sampleInp 1 (sampleItem ''a'' ''[1, {}]'') (newStore length 5 smallConf))"

lemma small_reachable: "reachable strictJson smallConf (1 + 2) smallStore"
  by (rule reachable.step [OF reachable.start store_step.append]) (unfold smallStore_def, rule prod.collapse [symmetric])

text \<open>The append of a second item, the first one read back, and a request with the wrong method, whose message has quotes in it.\<close>

definition smallAnswer :: "httpCall \<Rightarrow> httpResponse" where
  "smallAnswer q = fst (RegisterRoutes (MarshalEnvelope strictJson quoted) strictJson sampleInp 9 (NewAPI smallStore) q smallStore)"

definition smallAppend :: httpCall where
  "smallAppend = PathAppend \<lparr>reqMethod = ''POST'', reqQuery = [], reqBody = (\<lambda>_. Decodes (sampleItem [CHR 0x62] ''2'') True)\<rparr>"

definition smallGet :: httpCall where
  "smallGet = PathGet \<lparr>reqMethod = ''GET'', reqQuery = [(''scope'', ''posts''), (''id'', ''a'')], reqBody = (\<lambda>_. Decodes () True)\<rparr>"

definition smallPut :: httpCall where
  "smallPut = PathStats \<lparr>reqMethod = ''PUT'', reqQuery = [], reqBody = (\<lambda>_. Decodes () True)\<rparr>"

theorem responses_are_json_witness:
  "map (\<lambda>q. status (smallAnswer q)) [smallAppend, smallGet, smallPut] = [200, 200, 405] \<and>
   json_valid (respBody (smallAnswer smallAppend)) \<and> json_valid (respBody (smallAnswer smallGet)) \<and>
   json_valid (respBody (smallAnswer smallPut))"
proof -
  have c: "contentType (smallAnswer smallAppend) = jsonType" "contentType (smallAnswer smallGet) = jsonType"
    "contentType (smallAnswer smallPut) = jsonType" "map (\<lambda>q. status (smallAnswer q)) [smallAppend, smallGet, smallPut] = [200, 200, 405]"
    by code_simp+
  have conf: "cfgMaxStoreBytes smallConf \<le> MaxInt64" and small: "(1 + 2 :: nat) < 2 ^ 64"
    by (simp_all add: smallConf_def MaxInt64_def)
  have m: "maxStoreBytes (acct smallStore) + 3 \<le> int maxNestingDepth"
    unfolding reachable_inv(4) [OF small_reachable conf small] by code_simp
  have "json_valid (respBody (smallAnswer q))" if "contentType (smallAnswer q) = jsonType" for q
    unfolding smallAnswer_def
    by (rule responses_are_json [OF strict_strings strict_events small_reachable conf small disjI2 [OF m] prod.collapse [symmetric]
          that [unfolded smallAnswer_def]])
  then show ?thesis using c by blast
qed

text \<open>C36: A payload may nest deeper than a response can carry. A payload that is accepted and leaves room for the two containers of
  \<^verbatim>\<open>GET /get\<close> comes back in valid JSON; but the check on the way in measures the payload alone, so the deepest text it lets pass
  is stored, and the body that holds it is not valid for \<^verbatim>\<open>encoding/json\<close>, whose limit counts the containers around
  it.\<close>

theorem payload_nesting:
  assumes "strings_ok J"
  shows "(validatePayload (Payload it) = None \<and> json_depth (Payload it) + 2 \<le> maxNestingDepth \<longrightarrow> json_valid (getBody J (Some it))) \<and>
    (Payload it = deepest \<longrightarrow> validatePayload (Payload it) = None \<and> \<not> json_valid (getBody J (Some it)))"
proof (intro conjI impI)
  assume h: "validatePayload (Payload it) = None \<and> json_depth (Payload it) + 2 \<le> maxNestingDepth"
  then have "json_valid (Payload it)" using payload_valid_json by (simp add: payload_valid_def)
  then have "payload_fits (json_depth (Payload it)) it" by (simp add: payload_fits_def valid_is_value)
  then show "json_valid (getBody J (Some it))"
    by (intro get_valid [OF assms, where d = "json_depth (Payload it)"]) (use h in simp_all)
next
  assume d: "Payload it = deepest"
  show "validatePayload (Payload it) = None" using deepest_accepted by (simp add: d)
  show "\<not> json_valid (getBody J (Some it))" by (rule get_too_deep [OF assms d])
qed

theorem payload_nesting_witness:
  "json_valid (getBody strictJson (Some (sampleItem ''a'' ''[[1]]''))) \<and>
   validatePayload deepest = None \<and> \<not> json_valid (getBody strictJson (Some (sampleItem ''a'' deepest)))"
proof -
  have p: "Payload (sampleItem ''a'' v) = v" for v by (simp add: sampleItem_def)
  have "validatePayload ''[[1]]'' = None" "json_depth ''[[1]]'' = 2" by code_simp+
  then show ?thesis
    using payload_nesting [OF strict_strings, of "sampleItem ''a'' ''[[1]]''"]
      payload_nesting [OF strict_strings, of "sampleItem ''a'' deepest"]
    by (simp add: p maxNestingDepth_def)
qed

end
