(* ===== verification/Spec2Isabelle.thy ===== *)
theory Spec2Isabelle
  imports Props_Buffer Props_Read Props_Store Props_Events Props_Bulk Props_Observe Props_Http Props_Gateway Props_Adapters Props_Php Props_Json
begin

text \<open>
  \<^bold>\<open>scopecache\<close> is an in-memory cache written in Go. Items live in named scopes; a scope numbers its items, finds them by id, by
  sequence number or by uuid, and is bounded by a number of items; the store is bounded by a number of bytes. Clients
  reach it over HTTP, Go programs through a \<^verbatim>\<open>Gateway\<close>, PHP through an extension, and it runs as a standalone binary or as
  a Caddy module. This development translates it, file by file, and proves what makes each part correct.

  \<^bold>\<open>How the program is put together.\<close> A request reaches a handler (\<^verbatim>\<open>handlers*.go\<close>), a \<^verbatim>\<open>Gateway\<close> method (\<^verbatim>\<open>gateway.go\<close>) or a PHP
  export; each decodes its input and calls one method of \<^verbatim>\<open>*store\<close> (\<^verbatim>\<open>store.go\<close>, \<^verbatim>\<open>bulk.go\<close>). The method validates
  (\<^verbatim>\<open>validation.go\<close>), finds or creates the scope in one of 32 shards, reserves the overhead of a new scope, calls the
  buffer of the scope (\<^verbatim>\<open>buffer*.go\<close>), which charges the item against the byte counter of the store, and rolls a freshly
  created scope back when the buffer refuses. A write that took effect appends an event to the reserved scope \<^verbatim>\<open>_events\<close>
  (\<^verbatim>\<open>events.go\<close>) and wakes the subscriber of a reserved scope (\<^verbatim>\<open>subscribe.go\<close>), which may run an executable
  (\<^verbatim>\<open>subscriber_command.go\<close>). Reads go through byte builders (\<^verbatim>\<open>wire.go\<close>, \<^verbatim>\<open>handlers_read.go\<close>).

  \<^bold>\<open>Conventions.\<close> A \<^verbatim>\<open>string\<close> and a \<^verbatim>\<open>[]byte\<close> are lists of bytes, the type \<^typ>\<open>string\<close>. An \<^verbatim>\<open>int64\<close> is an \<^typ>\<open>int\<close> that
  \<open>i64\<close> wraps where the code can overflow, a \<^verbatim>\<open>uint64\<close> a \<^typ>\<open>nat\<close> with \<open>mod 2 ^ 64\<close> written out, the words of the hash are
  words. A map is an association list in which a key occurs once. A pointer to an item is a position in the list of
  the buffer's items, a pointer to a buffer a position in \<open>bufs\<close>, a list the store only ever extends. An operation takes
  the state and returns its result with the new state; an error is the left of a sum. The order in which Go
  iterates over a map is that of an arbitrary association list.
\<close>

text \<open>
  \<^bold>\<open>Shared theories.\<close>
  \<^item> Prelude: fact collections, Go's integers, association lists, \<^verbatim>\<open>sort.Search\<close>.
  \<^item> GoLib: what is used of \<^verbatim>\<open>unicode/utf8\<close>, \<^verbatim>\<open>strings\<close>, \<^verbatim>\<open>strconv\<close>, and the scanner of \<^verbatim>\<open>encoding/json.Valid\<close>.
  \<^item> Uuid: \<^verbatim>\<open>uuid.go\<close>, minting, text form and parser.
  \<^item> Types: \<^verbatim>\<open>types.go\<close>, constants, configuration and its defaults, the item and the bytes it is charged, the errors.

  \<^bold>\<open>The buffer of a scope.\<close> The state is the record \<open>scopeBuffer\<close>, with the three indexes beside the items; \<open>buf_ok\<close> says that
  they agree, \<open>acct_ok\<close> and \<open>fits\<close> that the counters of the store have room for it.
  \<^item> Buffer: \<^verbatim>\<open>buffer.go\<close>, \<^verbatim>\<open>buffer_locked.go\<close>, \<^verbatim>\<open>buffer_heat.go\<close>. BufferLaws: the locale \<open>buffer_op\<close>, the promise every mutating
    method makes to the store, from which the effect on the accounting follows once for all of them.
  \<^item> Buffer_Write, Buffer_Counter, Buffer_Delete, Buffer_Read (with \<^verbatim>\<open>buffer_stats.go\<close>; the locale \<open>keyed_scope\<close> is the
    contract of a lookup), Buffer_Replace: the files of the same names. Each method is specified as a function of
    the items a client sees, and the locales are interpreted on the methods of the code.
  \<^item> Buffer_Calls: what an address picks, also by a uuid that occurs twice; sequences of the calls that write, change or remove items.
  \<^item> Cas: \<^verbatim>\<open>reserveBytes\<close>, \<^verbatim>\<open>atomicCounterAdd\<close> and \<^verbatim>\<open>bumpLastWriteTS\<close> as loops of single loads and swaps, under every schedule.

  \<^bold>\<open>The store.\<close> The state is the record \<open>store\<close>: shards, buffers, counters, subscribers and wake-up channels.
  \<^item> Validation: \<^verbatim>\<open>validation.go\<close>. Store: scopes, admission, \<^verbatim>\<open>subscribe.go\<close>, and the invariant \<open>store_inv\<close>.
  \<^item> Events: \<^verbatim>\<open>appendOneTrusted\<close> and \<^verbatim>\<open>events.go\<close>. StoreOps: the operations on one scope, statistics, listings. Bulk and
    Bulk_Warm: \<^verbatim>\<open>bulk.go\<close>.
  \<^item> Machine: the step relation \<open>store_step\<close> of all operations and the reachable states. Refine: the specification a
    client relies on, a finite map from names to items, and the simulation. Payloads: what every reachable state holds as
    a payload. Locks: the lock actions of every operation, run by a scheduler, and the order that keeps them from deadlock. Sample: a concrete cache the properties
    are applied to.

  \<^bold>\<open>HTTP and Go callers.\<close>
  \<^item> Wire: \<^verbatim>\<open>wire.go\<close> and the encoders of \<^verbatim>\<open>types.go\<close>. Http: \<^verbatim>\<open>handlers.go\<close>, \<^verbatim>\<open>response_types.go\<close>, \<^verbatim>\<open>api.go\<close>. Handlers: one
    definition per endpoint. Wire_Laws, Http_Laws: the facts about both.
  \<^item> Messages: the texts of the errors and the encoder of the envelopes. Json_Laws: values in the sense of the scanner of
    GoLib, objects and arrays built from them, and how deep they nest. Json_Bodies, Bodies: everything the handlers write as JSON
    is such an object.
  \<^item> Gateway: \<^verbatim>\<open>gateway.go\<close>. Clone: \<^verbatim>\<open>gateway_clone.go\<close> over a heap of arrays. Registry: \<^verbatim>\<open>gateway_registry.go\<close>, each access of
    a slot one step.

  \<^bold>\<open>Around the cache.\<close>
  \<^item> Commands: \<^verbatim>\<open>init_command.go\<close> and \<^verbatim>\<open>subscriber_command.go\<close>. Standalone and Boot: \<^verbatim>\<open>cmd/scopecache\<close>, to the end of the process. CaddyModule:
    \<^verbatim>\<open>caddymodule\<close>. Php: \<^verbatim>\<open>addons/frankenphp-ext\<close>. Guarded: \<^verbatim>\<open>addons/guarded\<close>, with the hash function in Sha256 and a capability
    computed in Sha256_Vector.

  \<^bold>\<open>Properties.\<close> Props_Buffer, Props_Read (a scope), Props_Store (invariant and refinement), Props_Events (event log, refused
  writes), Props_Bulk (operations on whole scopes), Props_Observe (wake-ups, statistics, listings, uuids, configuration),
  Props_Http, Props_Gateway, Props_Adapters, Props_Php, Props_Json (payloads and bodies); the property of the locks is at the end of
  Locks. A property with hypotheses is followed by its application to a
  concrete state.
\<close>

text \<open>
  \<^bold>\<open>Parameters.\<close> Code outside the repository is an argument: the JSON library (\<open>J\<close> for strings, numbers and events, and the outcome of
  decoding a body), the verb \<^verbatim>\<open>%q\<close> of \<^verbatim>\<open>fmt\<close>, the seed of the shard hash, the next Caddy handler, the executables of the
  command bridges, the environment. The handlers take the encoder of envelopes as an argument \<open>M\<close>, because most of what is proved
  of them holds for any that does not fail; Messages defines the one of the program. The clock readings, the random bits and the capacities of slices an operation meets
  are arguments too (\<open>inp\<close>, indexed by the position \<open>i\<close> of the next one), so a theorem holds for all of them.

  \<^bold>\<open>Bounds.\<close> \<open>reachable J c N s\<close> counts in \<open>N\<close> how often sequence counters can have been incremented; the theorems ask for
  \<open>N < 2 ^ 64\<close>, the range of the counters. The byte counters are bounded by the configured cap, which is an \<^verbatim>\<open>int64\<close>. The
  compare-and-swap loops of \<open>n\<close> goroutines return within \<open>2 * n * (n + 1)\<close> turns each. Loops are recursions over the list or the
  number they run over; only \<open>trimSpace\<close> carries a bound, the length of its input, of which every turn removes a byte.

  \<^bold>\<open>Concurrency.\<close> An operation of the store is one step, with the event and the wake-up it raises, so the reachable
  states are those of any interleaving of whole operations. Locks shows that the locks the operations take on the way admit a
  schedule to the end from everywhere and exclude each other as the steps assume. The gaps the code leaves between two locks are
  represented by what the later part can meet: a buffer detached in between, a snapshot that has become stale. What
  is not under a lock is taken apart in Cas (atomics) and Registry (slots).

  \<^bold>\<open>Uuids.\<close> A uuid is minted at random, so that no two items share one is not a fact of the code. \<open>byUUID_full\<close> says that the index of a
  scope knows every item that carries a uuid; theorems about a lookup by uuid assume it, except the refinement, which also says what
  happens without it.

  \<^bold>\<open>Not modelled.\<close>
  \<^item> \<^verbatim>\<open>json.go\<close> is the seam to a third-party JSON library. How a body is decoded into a request is its work.
  \<^item> The pool of response buffers of \<^verbatim>\<open>handlers_read.go\<close> reuses memory and changes no byte of a response.
  \<^item> Process groups and the delivery of signals (\<^verbatim>\<open>subscriber_command_unix.go\<close>), the HTTP server and its timeouts, the
    registration with Caddy, the memory management of cgo are calls of the operating system or of libraries.
  \<^item> The traffic of the init command ends with the command. A process it leaves behind could still reach the private socket after
    \<^verbatim>\<open>_events\<close> has been cleared and before that socket is shut.
  \<^item> \<^verbatim>\<open>tools\<close>, \<^verbatim>\<open>examples\<close>, the documentation and the tests are not part of the running program.
\<close>

end
